(* ===== verification/Prelude.thy ===== *)
theory Prelude
  imports Main "HOL-Library.Word"
begin

text \<open>
  What every component of the development shares: the machine types of the C code on an LP64
  target, byte buffers with the effect of \<open>memcpy\<close> on them, the view of a buffer as an array of
  fixed-size elements, and the word arithmetic that moves \<open>size_t\<close> computations to \<open>nat\<close> when
  they do not wrap.
\<close>

section \<open>Machine types\<close>

type_synonym size_t = "64 word"
type_synonym byte = "8 word"
type_synonym bytes = "byte list"

text \<open>A C string argument: the bytes before the terminating NUL.\<close>

type_synonym cstring = "byte list"

named_theorems size_t_simps
  \<open>\<open>unat\<close> of \<open>size_t\<close> expressions that do not wrap\<close>
named_theorems null_simps
  \<open>what each operation does with a null pointer\<close>

abbreviation size_bound :: nat where
  "size_bound \<equiv> 2 ^ 64"

section \<open>Arithmetic on \<open>size_t\<close>\<close>

lemma unat_size_t_lt [simp]: "unat (a :: size_t) < size_bound"
  using unsigned_less [of a] by simp

lemma unat_size_t_add [size_t_simps]:
  "unat a + unat b < size_bound \<Longrightarrow> unat (a + b :: size_t) = unat a + unat b"
  by (simp add: unat_word_ariths)

lemma unat_size_t_add_wraps:
  assumes "size_bound \<le> unat a + unat b"
  shows "unat (a + b :: size_t) + size_bound = unat a + unat b"
proof -
  have "unat a + unat b < 2 * size_bound"
    using unat_size_t_lt [of a] unat_size_t_lt [of b] by linarith
  then have "(unat a + unat b) mod size_bound = unat a + unat b - size_bound"
    using assms by (simp add: mod_if)
  then show ?thesis using assms by (simp add: unat_word_ariths)
qed

lemma unat_size_t_mult [size_t_simps]:
  "unat a * unat b < size_bound \<Longrightarrow> unat (a * b :: size_t) = unat a * unat b"
  by (simp add: unat_word_ariths)

lemma unat_size_t_Suc [size_t_simps]:
  "unat a < size_bound - 1 \<Longrightarrow> unat (a + 1 :: size_t) = Suc (unat a)"
  by (simp add: unat_word_ariths)

lemma unat_size_t_pred [size_t_simps]:
  "0 < unat a \<Longrightarrow> unat (a - 1 :: size_t) = unat a - 1"
  by (subst unat_sub) (auto simp: word_le_nat_alt)

lemma unat_size_t_sub [size_t_simps]:
  "unat b \<le> unat a \<Longrightarrow> unat (a - b :: size_t) = unat a - unat b"
  by (subst unat_sub) (auto simp: word_le_nat_alt)

lemma unat_size_t_mod [size_t_simps]:
  "unat (a mod b :: size_t) = unat a mod unat b"
  by (rule unat_mod_distrib)

lemma unat_size_t_div [size_t_simps]:
  "unat (a div b :: size_t) = unat a div unat b"
  by (rule unat_div_distrib)

lemma size_t_less_iff: "(a :: size_t) < b \<longleftrightarrow> unat a < unat b"
  by (rule word_less_nat_alt)

lemma size_t_le_iff: "(a :: size_t) \<le> b \<longleftrightarrow> unat a \<le> unat b"
  by (rule word_le_nat_alt)

lemma size_t_eq_iff: "(a :: size_t) = b \<longleftrightarrow> unat a = unat b"
  by (simp add: word_unat_eq_iff)

lemma size_t_zero_iff: "(a :: size_t) = 0 \<longleftrightarrow> unat a = 0"
  by (simp add: unat_eq_0)

lemmas size_t_cmp = size_t_less_iff size_t_le_iff size_t_zero_iff

lemma unat_of_nat_size_t [simp]: "n < size_bound \<Longrightarrow> unat (of_nat n :: size_t) = n"
  by (simp add: unat_of_nat)

section \<open>Byte buffers\<close>

text \<open>
  \<open>blit buf off src\<close> is the buffer after \<open>memcpy(buf + off, src, |src|)\<close>; \<open>bslice buf off n\<close> the
  \<open>n\<close> bytes a reader finds at \<open>buf + off\<close>.  Both are only meaningful inside the buffer: the
  operations that use them check the bounds first and raise the fault flag of the heap when the
  access lies outside.
\<close>

definition blit :: "'a list \<Rightarrow> nat \<Rightarrow> 'a list \<Rightarrow> 'a list" where
  "blit buf off src = take off buf @ src @ drop (off + length src) buf"

definition bslice :: "'a list \<Rightarrow> nat \<Rightarrow> nat \<Rightarrow> 'a list" where
  "bslice buf off n = take n (drop off buf)"

lemma length_blit [simp]:
  "off + length src \<le> length buf \<Longrightarrow> length (blit buf off src) = length buf"
  by (simp add: blit_def)

lemma length_bslice [simp]:
  "off + n \<le> length buf \<Longrightarrow> length (bslice buf off n) = n"
  by (simp add: bslice_def)

lemma nth_blit:
  assumes "off + length src \<le> length buf" and "i < length buf"
  shows "blit buf off src ! i =
    (if off \<le> i \<and> i < off + length src then src ! (i - off) else buf ! i)"
  using assms by (auto simp: blit_def nth_append)

lemma bslice_blit_same:
  "off + length src \<le> length buf \<Longrightarrow> bslice (blit buf off src) off (length src) = src"
  by (simp add: bslice_def blit_def)

lemma bslice_blit_other:
  assumes "off + length src \<le> length buf" and "o2 + n \<le> length buf"
    and "o2 + n \<le> off \<or> off + length src \<le> o2"
  shows "bslice (blit buf off src) o2 n = bslice buf o2 n"
proof (rule nth_equalityI)
  show "length (bslice (blit buf off src) o2 n) = length (bslice buf o2 n)"
    using assms by simp
next
  fix i assume "i < length (bslice (blit buf off src) o2 n)"
  then have "i < n" using assms by simp
  then show "bslice (blit buf off src) o2 n ! i = bslice buf o2 n ! i"
    using assms by (auto simp: bslice_def nth_blit)
qed

lemma bslice_append_left: "off + n \<le> length xs \<Longrightarrow> bslice (xs @ ys) off n = bslice xs off n"
  by (simp add: bslice_def)

section \<open>A buffer read as an array of elements\<close>

text \<open>\<open>elems buf es n\<close>: the first \<open>n\<close> elements of \<open>es\<close> bytes each.\<close>

definition elems :: "bytes \<Rightarrow> nat \<Rightarrow> nat \<Rightarrow> bytes list" where
  "elems buf es n = map (\<lambda>i. bslice buf (i * es) es) [0..<n]"

lemma length_elems [simp]: "length (elems buf es n) = n"
  by (simp add: elems_def)

lemma nth_elems [simp]: "i < n \<Longrightarrow> elems buf es n ! i = bslice buf (i * es) es"
  by (simp add: elems_def)

lemma elems_0 [simp]: "elems buf es 0 = []"
  by (simp add: elems_def)

lemma elems_Suc: "elems buf es (Suc n) = elems buf es n @ [bslice buf (n * es) es]"
  by (simp add: elems_def)

lemma elems_butlast: "0 < n \<Longrightarrow> elems buf es (n - 1) = butlast (elems buf es n)"
  by (cases n) (simp_all add: elems_Suc)

lemma cell_end:
  assumes "i < n" and "n * es \<le> (m :: nat)"
  shows "i * es + es \<le> m"
proof -
  have "Suc i * es \<le> n * es" using assms(1) by (intro mult_le_mono1) simp
  then show ?thesis using assms(2) by simp
qed

lemma cell_disjoint:
  assumes "(i :: nat) \<noteq> j"
  shows "i * es + es \<le> j * es \<or> j * es + es \<le> i * es"
proof (cases "i < j")
  case True
  then have "Suc i * es \<le> j * es" by (intro mult_le_mono1) simp
  then show ?thesis by simp
next
  case False
  with assms have "Suc j * es \<le> i * es" by (intro mult_le_mono1) simp
  then show ?thesis by simp
qed

lemma elems_length_each:
  "n * es \<le> length buf \<Longrightarrow> e \<in> set (elems buf es n) \<Longrightarrow> length e = es"
  using cell_end [of _ n es "length buf"] by (force simp: elems_def)

lemma bslice_blit_cell:
  assumes "length e = es" and "i < m" and "j < m" and "m * es \<le> length buf"
  shows "bslice (blit buf (i * es) e) (j * es) es = (if i = j then e else bslice buf (j * es) es)"
proof (cases "i = j")
  case True
  then show ?thesis
    using assms cell_end [of i m es "length buf"] bslice_blit_same [of "i * es" e buf] by simp
next
  case False
  then show ?thesis
    using assms cell_end [of i m es "length buf"] cell_end [of j m es "length buf"]
      cell_disjoint [of i j es] bslice_blit_other [of "i * es" e buf "j * es" es] by auto
qed

lemma elems_blit:
  assumes "length e = es" and "i < m" and "n \<le> m" and "m * es \<le> length buf"
  shows "elems (blit buf (i * es) e) es n = (elems buf es n)[i := e]"
  by (rule nth_equalityI)
    (use assms in \<open>auto simp: bslice_blit_cell [OF assms(1,2) _ assms(4)] nth_list_update\<close>)

lemma elems_snoc:
  assumes "length e = es" and "n < m" and "m * es \<le> length buf"
  shows "elems (blit buf (n * es) e) es (Suc n) = elems buf es n @ [e]"
  using assms bslice_blit_cell [OF assms(1,2,2,3)] elems_blit [OF assms(1,2) _ assms(3), of n]
  by (simp add: elems_Suc list_update_beyond)

lemma elems_append:
  assumes "n * es \<le> length buf"
  shows "elems (buf @ rest) es n = elems buf es n"
  by (rule nth_equalityI)
    (use assms in \<open>auto simp: bslice_append_left cell_end\<close>)

lemma elems_take:
  assumes "n * es \<le> k" and "k \<le> length buf"
  shows "elems (take k buf @ rest) es n = elems buf es n"
proof -
  have "elems (take k buf @ rest) es n = elems (take k buf) es n"
    using assms by (intro elems_append) simp
  also have "\<dots> = elems (take k buf @ drop k buf) es n"
    using assms by (intro elems_append [symmetric]) simp
  finally show ?thesis by simp
qed

section \<open>Lists and association lists\<close>

lemma filter_fst_delete:
  "map fst (filter (\<lambda>(k, _). k \<noteq> p) xs) = filter (\<lambda>k. k \<noteq> p) (map fst xs)"
  by (induction xs) auto

lemma filter_fst_absent: "p \<notin> fst ` set xs \<Longrightarrow> filter (\<lambda>(k, _). k \<noteq> p) xs = xs"
  by (induction xs) auto

lemma map_of_filter_neq:
  "map_of (filter (\<lambda>(k, _). k \<noteq> p) xs) q = (if q = p then None else map_of xs q)"
  by (induction xs) auto

lemma map_of_filter: "map_of (filter (\<lambda>(k, _). P k) xs) p = (if P p then map_of xs p else None)"
  by (induction xs) auto

lemma nth_rotate_index: "(i :: nat) < c \<Longrightarrow> h < c \<Longrightarrow>
    (h + i) mod c = (if h + i < c then h + i else h + i - c)"
  by (auto simp: mod_if)

text \<open>Within one round of a ring of \<open>c\<close> slots the indices differ.\<close>

lemma mod_differ:
  assumes "(i :: nat) < c" and "j < c" and "i \<noteq> j"
  shows "(h + i) mod c \<noteq> (h + j) mod c"
proof -
  have "\<not> (h + i) mod c = (h + j) mod c" if "i < j" "j < c" for i j :: nat
  proof
    assume "(h + i) mod c = (h + j) mod c"
    then have "c dvd (h + j) - (h + i)" using that(1) by (metis mod_eq_dvd_iff_nat add_le_cancel_left less_imp_le)
    then have "c dvd j - i" by simp
    then show False using that by (auto dest!: dvd_imp_le)
  qed
  from this [of i j] this [of j i] assms show ?thesis by (metis linorder_neqE_nat)
qed

lemma Suc_mod_inject:
  assumes "p < c" and "q < c" and "Suc p mod c = Suc q mod c"
  shows "p = q"
  using mod_differ [of p c q 1] assms by (metis plus_1_eq_Suc)

section \<open>Chains in memory\<close>

text \<open>\<open>chain nx p as\<close>: following \<open>nx\<close> from \<open>p\<close> visits exactly \<open>as\<close> and ends in NULL.\<close>

fun chain :: "('a \<Rightarrow> 'a option) \<Rightarrow> 'a option \<Rightarrow> 'a list \<Rightarrow> bool" where
  "chain nx p [] \<longleftrightarrow> p = None"
| "chain nx p (a # as) \<longleftrightarrow> p = Some a \<and> chain nx (nx a) as"

lemma chain_upd: "a \<notin> set as \<Longrightarrow> chain (nx(a := v)) p as = chain nx p as"
  by (induction as arbitrary: p) auto

lemma chain_cong: "(\<And>a. a \<in> set as \<Longrightarrow> nx a = nx' a) \<Longrightarrow> chain nx p as = chain nx' p as"
  by (induction as arbitrary: p) auto

lemma chain_start: "chain nx p as \<Longrightarrow> q \<notin> set as \<Longrightarrow> p \<noteq> Some q"
  by (cases as) auto

lemma chain_unique: "chain nx p as \<Longrightarrow> chain nx p bs \<Longrightarrow> as = bs"
proof (induction as arbitrary: p bs)
  case Nil
  then show ?case by (cases bs) auto
next
  case (Cons a as)
  then show ?case by (cases bs) auto
qed

text \<open>The first \<open>n\<close> nodes of a chain.\<close>

fun walk :: "('a \<Rightarrow> 'a option) \<Rightarrow> nat \<Rightarrow> 'a option \<Rightarrow> 'a list" where
  "walk nx 0 p = []"
| "walk nx (Suc n) p = (case p of None \<Rightarrow> [] | Some a \<Rightarrow> a # walk nx n (nx a))"

lemma walk_chain: "chain nx p as \<Longrightarrow> length as \<le> n \<Longrightarrow> walk nx n p = as"
proof (induction as arbitrary: n p)
  case Nil
  then show ?case by (cases n) simp_all
next
  case (Cons a as)
  then show ?case by (cases n) auto
qed

text \<open>Inserting a node behind, and removing it from behind, the last node of a prefix.\<close>

lemma chain_from_last:
  "chain nx s (us @ vs) \<Longrightarrow> us \<noteq> [] \<Longrightarrow> chain nx (nx (last us)) vs"
  by (induction us arbitrary: s) (auto split: if_splits)

lemma chain_splice:
  assumes "chain nx s (us @ vs)" and "us \<noteq> []" and "distinct (p # us @ vs)"
  shows "chain (nx(p := nx (last us), last us := Some p)) s (us @ p # vs)"
  using assms
proof (induction us arbitrary: s)
  case (Cons u us)
  let ?nx = "nx(p := nx (last (u # us)), last (u # us) := Some p)"
  show ?case
  proof (cases "us = []")
    case True
    have "chain ?nx (nx u) vs = chain nx (nx u) vs"
      using Cons.prems(3) True by (intro chain_cong) auto
    then show ?thesis using Cons.prems True by (simp add: fun_upd_def)
  next
    case False
    then have l: "last (u # us) = last us" by simp
    have "chain (nx(p := nx (last us), last us := Some p)) (nx u) (us @ p # vs)"
      by (rule Cons.IH) (use Cons.prems False in auto)
    then have "chain ?nx (nx u) (us @ p # vs)" by (simp only: l)
    moreover have "u \<noteq> last us" using Cons.prems(3) False by auto
    then have "?nx u = nx u" using Cons.prems(3) False by auto
    ultimately show ?thesis using Cons.prems(1) by (simp only: append_Cons chain.simps)
  qed
qed simp

lemma chain_unlink:
  assumes "chain nx s (us @ p # vs)" and "us \<noteq> []" and "distinct (us @ p # vs)"
  shows "chain (nx(last us := nx p)) s (us @ vs)"
  using assms
proof (induction us arbitrary: s)
  case (Cons u us)
  let ?nx = "nx(last (u # us) := nx p)"
  show ?case
  proof (cases "us = []")
    case True
    have "chain ?nx (nx p) vs = chain nx (nx p) vs"
      using Cons.prems(3) True by (intro chain_cong) auto
    then show ?thesis using Cons.prems True by (simp add: fun_upd_def)
  next
    case False
    then have l: "last (u # us) = last us" by simp
    have "chain (nx(last us := nx p)) (nx u) (us @ vs)"
      by (rule Cons.IH) (use Cons.prems False in auto)
    then have "chain ?nx (nx u) (us @ vs)" by (simp only: l)
    moreover have "u \<noteq> last us" using Cons.prems(3) False by auto
    then have "?nx u = nx u" using Cons.prems(3) False by auto
    ultimately show ?thesis using Cons.prems(1) by (simp only: append_Cons chain.simps)
  qed
qed simp

end
