(* ===== verification/Status.thy ===== *)
theory Status
  imports Prelude
begin

text \<open>
  \<^verbatim>\<open>include/CDSA/error.h\<close> and \<^verbatim>\<open>src/error.c\<close>: the status enumeration every operation returns, its
  integer values, and the text of each code.  The enumeration is ordered by its integer values,
  as the C compiler orders it.
\<close>

datatype cdsa_status =
    CDSA_OK
  | CDSA_ERR_OOM
  | CDSA_ERR_NOT_FOUND
  | CDSA_ERR_EXISTS
  | CDSA_ERR_INVALID
  | CDSA_ERR_FULL
  | CDSA_ERR_EMPTY
  | CDSA_ERR_ITER_INVALIDATED

fun status_code :: "cdsa_status \<Rightarrow> int" where
  "status_code CDSA_OK = 0"
| "status_code CDSA_ERR_OOM = -1"
| "status_code CDSA_ERR_NOT_FOUND = -2"
| "status_code CDSA_ERR_EXISTS = -3"
| "status_code CDSA_ERR_INVALID = -4"
| "status_code CDSA_ERR_FULL = -5"
| "status_code CDSA_ERR_EMPTY = -6"
| "status_code CDSA_ERR_ITER_INVALIDATED = -7"

lemma status_code_inject: "status_code a = status_code b \<Longrightarrow> a = b"
  by (cases a; cases b) simp_all

instantiation cdsa_status :: linorder
begin

definition less_eq_cdsa_status :: "cdsa_status \<Rightarrow> cdsa_status \<Rightarrow> bool" where
  "less_eq_cdsa_status a b \<longleftrightarrow> status_code a \<le> status_code b"

definition less_cdsa_status :: "cdsa_status \<Rightarrow> cdsa_status \<Rightarrow> bool" where
  "less_cdsa_status a b \<longleftrightarrow> status_code a < status_code b"

instance
  by standard
    (auto simp: less_eq_cdsa_status_def less_cdsa_status_def intro: status_code_inject)

end

text \<open>The \<open>switch\<close> of \<open>cdsa_strerror\<close>, its \<open>default\<close> last.\<close>

fun cdsa_strerror :: "cdsa_status \<Rightarrow> string" where
  "cdsa_strerror CDSA_OK = ''OK''"
| "cdsa_strerror CDSA_ERR_OOM = ''out of memory''"
| "cdsa_strerror CDSA_ERR_NOT_FOUND = ''not found''"
| "cdsa_strerror CDSA_ERR_EXISTS = ''key already exists''"
| "cdsa_strerror CDSA_ERR_INVALID = ''invalid argument''"
| "cdsa_strerror CDSA_ERR_FULL = ''structure is full''"
| "cdsa_strerror CDSA_ERR_EMPTY = ''structure is empty''"
| "cdsa_strerror _ = ''unknown error''"

text \<open>Success is the greatest code: every error is negative.\<close>

lemma status_le_ok: "(s :: cdsa_status) \<le> CDSA_OK"
  by (cases s) (simp_all add: less_eq_cdsa_status_def)

lemma strerror_inject:
  "cdsa_strerror a = cdsa_strerror b \<Longrightarrow> a = b"
  by (cases a; cases b) simp_all

end
