(* ===== verification/Tracking_Heap.thy ===== *)
theory Tracking_Heap
  imports Prelude "HOL-Library.Multiset"
begin

text \<open>
  The tracking allocator of \<^verbatim>\<open>src/allocator.c\<close>: \<open>cdsa_malloc_track\<close> and its companions keep the
  requested size in a hidden header in front of every block and the sum of those sizes in the
  global \<open>cdsa_global_memory_used\<close>.

  The libc allocator underneath is not part of the program: which requests it refuses
  (\<open>libc_refuses\<close>, by request number and size), what a fresh block contains (\<open>libc_fill\<close>) and
  where it lies (\<open>libc_addr\<close>) are parameters of the heap.  A block is named by its request number
  and never reused, so a dangling pointer never names a live block.  \<open>fault\<close> records undefined
  behaviour: a \<open>free\<close> of a block that is not live, or an access outside a block.  Once set it
  stays set.
\<close>

section \<open>The heap\<close>

type_synonym block_id = nat

record mblock =
  hdr :: size_t \<comment> \<open>the hidden header: the size the caller asked for\<close>
  raw :: size_t \<comment> \<open>the size asked of libc\<close>

record heap =
  mem_used :: size_t \<comment> \<open>\<open>cdsa_global_memory_used\<close>\<close>
  live :: "(block_id \<times> mblock) list"
  next_id :: nat
  fault :: bool
  libc_refuses :: "nat \<Rightarrow> size_t \<Rightarrow> bool"
  libc_fill :: "nat \<Rightarrow> nat \<Rightarrow> byte"
  libc_addr :: "nat \<Rightarrow> size_t"

text \<open>The user bytes behind a block of \<open>n\<close> requested bytes: what libc gave, less the header.\<close>

definition user_len :: "size_t \<Rightarrow> nat" where
  "user_len n = unat (n + 8) - 8"

definition fresh_bytes :: "heap \<Rightarrow> block_id \<Rightarrow> nat \<Rightarrow> bytes" where
  "fresh_bytes h p n = map (libc_fill h p) [0..<n]"

definition set_fault :: "bool \<Rightarrow> heap \<Rightarrow> heap" where
  "set_fault b h = h\<lparr>fault := fault h \<or> b\<rparr>"

lemma set_fault_False: "set_fault False h = h"
  by (simp add: set_fault_def)

section \<open>The tracking functions\<close>

definition cdsa_malloc_track :: "heap \<Rightarrow> size_t \<Rightarrow> heap \<times> block_id option" where
  "cdsa_malloc_track h sz =
     (let n = next_id h; req = sz + 8; h0 = h\<lparr>next_id := Suc n\<rparr>
      in if libc_refuses h n req then (h0, None)
         else (h0\<lparr>mem_used := mem_used h + sz,
                  live := (n, \<lparr>hdr = sz, raw = req\<rparr>) # live h,
                  fault := fault h \<or> unat req < 8\<rparr>, Some n))"

definition cdsa_free_track :: "heap \<Rightarrow> block_id option \<Rightarrow> heap" where
  "cdsa_free_track h user_ptr =
     (case user_ptr of
        None \<Rightarrow> h
      | Some p \<Rightarrow>
          (case map_of (live h) p of
             None \<Rightarrow> set_fault True h
           | Some b \<Rightarrow> h\<lparr>mem_used := mem_used h - hdr b,
                          live := filter (\<lambda>(k, _). k \<noteq> p) (live h)\<rparr>))"

text \<open>The block with its content, which \<open>memset\<close> has cleared.\<close>

definition cdsa_calloc_track ::
  "heap \<Rightarrow> size_t \<Rightarrow> size_t \<Rightarrow> heap \<times> (block_id \<times> bytes) option" where
  "cdsa_calloc_track h cnt sz =
     (let total = cnt * sz; (h1, ptr) = cdsa_malloc_track h total
      in (h1, map_option (\<lambda>p. (p, replicate (unat total) 0)) ptr))"

definition cdsa_realloc_track ::
  "heap \<Rightarrow> block_id option \<Rightarrow> size_t \<Rightarrow> heap \<times> block_id option" where
  "cdsa_realloc_track h user_ptr new_size =
     (case user_ptr of
        None \<Rightarrow> cdsa_malloc_track h new_size
      | Some p \<Rightarrow>
          if new_size = 0 then (cdsa_free_track h (Some p), None)
          else (case map_of (live h) p of
             None \<Rightarrow> (set_fault True h, None)
           | Some b \<Rightarrow>
               let n = next_id h; req = new_size + 8; h0 = h\<lparr>next_id := Suc n\<rparr>
               in if libc_refuses h n req then (h0, None)
                  else (h0\<lparr>mem_used := mem_used h - hdr b + new_size,
                           live := (n, \<lparr>hdr = new_size, raw = req\<rparr>) #
                                   filter (\<lambda>(k, _). k \<noteq> p) (live h),
                           fault := fault h \<or> unat req < 8\<rparr>, Some n)))"

text \<open>
  What a reallocated block contains: the old bytes as far as they fit, then whatever libc left
  there.
\<close>

definition moved_bytes :: "heap \<Rightarrow> block_id \<Rightarrow> bytes \<Rightarrow> nat \<Rightarrow> bytes" where
  "moved_bytes h p old n = take n old @ map (libc_fill h p) [length old..<n]"

section \<open>The invariant of the telemetry\<close>

definition heap_ok :: "heap \<Rightarrow> bool" where
  "heap_ok h \<longleftrightarrow>
     distinct (map fst (live h)) \<and> (\<forall>p \<in> fst ` set (live h). p < next_id h) \<and>
     mem_used h = sum_list (map (hdr \<circ> snd) (live h))"

lemma heap_okD:
  assumes "heap_ok h"
  shows "distinct (map fst (live h))"
    and "p \<in> fst ` set (live h) \<Longrightarrow> p < next_id h"
    and "mem_used h = sum_list (map (hdr \<circ> snd) (live h))"
    and "next_id h \<notin> fst ` set (live h)"
  using assms by (auto simp: heap_ok_def)

lemma mem_used_live: "heap_ok h \<Longrightarrow> heap_ok h' \<Longrightarrow> live h' = live h \<Longrightarrow> mem_used h' = mem_used h"
  by (simp add: heap_ok_def)

lemma sum_list_delete:
  assumes "distinct (map fst xs)" and "map_of xs p = Some b"
  shows "sum_list (map (hdr \<circ> snd) (filter (\<lambda>(k, _). k \<noteq> p) xs)) =
    sum_list (map (hdr \<circ> snd) xs) - hdr b"
  using assms
proof (induction xs)
  case Nil
  then show ?case by simp
next
  case (Cons x xs)
  obtain k c where x: "x = (k, c)" by (cases x)
  show ?case
  proof (cases "k = p")
    case True
    then have "p \<notin> fst ` set xs" using Cons.prems(1) x by simp
    then show ?thesis using Cons.prems True x by (simp add: filter_fst_absent)
  next
    case False
    then show ?thesis using Cons x by simp
  qed
qed

lemma malloc_cases:
  obtains (refused) "cdsa_malloc_track h n = (h\<lparr>next_id := Suc (next_id h)\<rparr>, None)"
  | (given) "cdsa_malloc_track h n =
      (h\<lparr>next_id := Suc (next_id h), mem_used := mem_used h + n,
         live := (next_id h, \<lparr>hdr = n, raw = n + 8\<rparr>) # live h,
         fault := fault h \<or> unat (n + 8) < 8\<rparr>, Some (next_id h))"
  by (cases "libc_refuses h (next_id h) (n + 8)")
    (simp_all add: cdsa_malloc_track_def Let_def)

lemma malloc_ok:
  assumes "heap_ok h"
  shows "heap_ok (fst (cdsa_malloc_track h n))"
  using heap_okD [OF assms]
  by (cases rule: malloc_cases [of h n]) (auto simp: heap_ok_def less_SucI add.commute)

lemma free_ok:
  assumes "heap_ok h"
  shows "heap_ok (cdsa_free_track h p)"
proof (cases p)
  case None
  then show ?thesis using assms by (simp add: cdsa_free_track_def)
next
  case (Some q)
  show ?thesis
  proof (cases "map_of (live h) q")
    case None
    then show ?thesis
      using assms Some by (simp add: cdsa_free_track_def set_fault_def heap_ok_def)
  next
    case (Some b)
    then show ?thesis
      using assms \<open>p = Some q\<close> sum_list_delete [OF heap_okD(1) [OF assms] Some]
      by (auto simp: cdsa_free_track_def heap_ok_def filter_fst_delete)
  qed
qed

lemma realloc_ok:
  assumes "heap_ok h"
  shows "heap_ok (fst (cdsa_realloc_track h p n))"
proof (cases p)
  case None
  then show ?thesis using malloc_ok [OF assms] by (simp add: cdsa_realloc_track_def)
next
  case (Some q)
  show ?thesis
  proof (cases "map_of (live h) q")
    case None
    then show ?thesis
      using assms Some free_ok [OF assms]
      by (simp add: cdsa_realloc_track_def set_fault_def heap_ok_def)
  next
    case (Some b)
    have "next_id h \<notin> fst ` set (filter (\<lambda>(k, _). k \<noteq> q) (live h))"
      using heap_okD(4) [OF assms] by auto
    then show ?thesis
      using assms \<open>p = Some q\<close> Some free_ok [OF assms]
        sum_list_delete [OF heap_okD(1) [OF assms] Some]
      by (auto simp: cdsa_realloc_track_def heap_ok_def filter_fst_delete Let_def less_SucI
          image_iff)
  qed
qed

section \<open>Runs of allocator calls\<close>

datatype alloc_call =
    Malloc size_t
  | Calloc size_t size_t
  | Realloc "block_id option" size_t
  | Free "block_id option"

fun alloc_step :: "heap \<Rightarrow> alloc_call \<Rightarrow> heap" where
  "alloc_step h (Malloc n) = fst (cdsa_malloc_track h n)"
| "alloc_step h (Calloc c n) = fst (cdsa_calloc_track h c n)"
| "alloc_step h (Realloc p n) = fst (cdsa_realloc_track h p n)"
| "alloc_step h (Free p) = cdsa_free_track h p"

lemma alloc_step_ok: "heap_ok h \<Longrightarrow> heap_ok (alloc_step h c)"
  by (cases c) (simp_all add: malloc_ok free_ok realloc_ok cdsa_calloc_track_def Let_def case_prod_beta)

text \<open>The heap of a program that has not allocated anything yet.\<close>

definition initial_heap ::
  "(nat \<Rightarrow> size_t \<Rightarrow> bool) \<Rightarrow> (nat \<Rightarrow> nat \<Rightarrow> byte) \<Rightarrow> (nat \<Rightarrow> size_t) \<Rightarrow> heap" where
  "initial_heap refuses fill addr =
     \<lparr>mem_used = 0, live = [], next_id = 0, fault = False,
      libc_refuses = refuses, libc_fill = fill, libc_addr = addr\<rparr>"

lemma initial_heap_simps [simp]:
  "mem_used (initial_heap r f a) = 0" "live (initial_heap r f a) = []"
  "next_id (initial_heap r f a) = 0" "fault (initial_heap r f a) = False"
  "libc_refuses (initial_heap r f a) = r" "libc_fill (initial_heap r f a) = f"
  "libc_addr (initial_heap r f a) = a"
  by (simp_all add: initial_heap_def)

lemma initial_heap_ok [simp]: "heap_ok (initial_heap r f a)"
  by (simp add: heap_ok_def)

text \<open>A heap that refuses nothing and zeroes its blocks, for concrete runs.\<close>

definition good_heap :: heap where
  "good_heap = initial_heap (\<lambda>_ _. False) (\<lambda>_ _. 0) (\<lambda>n. 4096 * of_nat (Suc n))"

lemma good_heap_simps [simp]:
  "mem_used good_heap = 0" "live good_heap = []" "next_id good_heap = 0"
  "fault good_heap = False" "libc_refuses good_heap = (\<lambda>_ _. False)"
  "libc_fill good_heap = (\<lambda>_ _. 0)" "libc_addr good_heap n = 4096 * of_nat (Suc n)"
  "heap_ok good_heap"
  by (simp_all add: good_heap_def)

lemma alloc_run_ok: "heap_ok h \<Longrightarrow> heap_ok (fold (\<lambda>c h. alloc_step h c) cs h)"
  by (induction cs arbitrary: h) (simp_all add: alloc_step_ok)

section \<open>Facts the containers use\<close>

text \<open>\<open>owns h p n\<close>: block \<open>p\<close> is live and was obtained for \<open>n\<close> bytes.\<close>

definition owns :: "heap \<Rightarrow> block_id \<Rightarrow> size_t \<Rightarrow> bool" where
  "owns h p n \<longleftrightarrow> map_of (live h) p = Some \<lparr>hdr = n, raw = n + 8\<rparr>"

text \<open>The live blocks other than those of \<open>ps\<close>: what a container must leave alone.\<close>

definition others :: "block_id set \<Rightarrow> heap \<Rightarrow> (block_id \<times> mblock) list" where
  "others ps h = filter (\<lambda>(k, _). k \<notin> ps) (live h)"

lemma others_empty [simp]: "others {} h = live h"
  by (simp add: others_def case_prod_beta')

lemma others_insert_absent:
  "p \<notin> fst ` set (live h) \<Longrightarrow> others (insert p ps) h = others ps h"
  by (force simp: others_def intro!: filter_cong)

lemma owns_live: "owns h p n \<Longrightarrow> p \<in> fst ` set (live h)"
  by (auto simp: owns_def dest: map_of_SomeD intro: rev_image_eqI)

lemma malloc_None:
  "cdsa_malloc_track h n = (h', None) \<Longrightarrow> h' = h\<lparr>next_id := Suc (next_id h)\<rparr>"
  by (cases rule: malloc_cases [of h n]) auto

text \<open>A libc that refuses nothing.\<close>

definition never_refuses :: "heap \<Rightarrow> bool" where
  "never_refuses h \<longleftrightarrow> libc_refuses h = (\<lambda>_ _. False)"

lemma never_refuses_malloc: "never_refuses h \<Longrightarrow> cdsa_malloc_track h n \<noteq> (h', None)"
  by (auto simp: never_refuses_def cdsa_malloc_track_def Let_def)

lemma never_refuses_good [simp]: "never_refuses good_heap"
  by (simp add: never_refuses_def)

lemma malloc_Some:
  assumes "cdsa_malloc_track h n = (h', Some p)"
  shows "p = next_id h" and "live h' = (p, \<lparr>hdr = n, raw = n + 8\<rparr>) # live h"
    and "mem_used h' = mem_used h + n" and "next_id h' = Suc (next_id h)"
    and "fault h' \<longleftrightarrow> fault h \<or> unat (n + 8) < 8" and "owns h' p n"
    and "libc_refuses h' = libc_refuses h" and "libc_fill h' = libc_fill h"
    and "libc_addr h' = libc_addr h"
  using assms by (cases rule: malloc_cases [of h n]; auto simp: owns_def)+

lemma free_owned:
  assumes "owns h p n"
  shows "cdsa_free_track h (Some p) =
    h\<lparr>mem_used := mem_used h - n, live := others {p} h\<rparr>"
  using assms by (simp add: cdsa_free_track_def owns_def others_def)

lemma free_null [simp]: "cdsa_free_track h None = h"
  by (simp add: cdsa_free_track_def)

lemma owns_after_free:
  assumes "owns h p n" and "q \<noteq> p"
  shows "owns (cdsa_free_track h (Some p)) q m \<longleftrightarrow> owns h q m"
  using assms(2) by (simp add: free_owned [OF assms(1)] owns_def others_def map_of_filter_neq)

lemma user_len_no_wrap:
  "unat n + 8 < size_bound \<Longrightarrow> user_len n = unat n"
  by (simp add: user_len_def unat_size_t_add)

lemma no_wrap_header: "unat n + 8 < size_bound \<Longrightarrow> \<not> unat (n + 8 :: size_t) < 8"
  by (simp add: unat_size_t_add)

lemma realloc_Some:
  assumes "cdsa_realloc_track h (Some q) n = (h', Some p)" and "owns h q m"
  shows "p = next_id h" and "live h' = (p, \<lparr>hdr = n, raw = n + 8\<rparr>) # others {q} h"
    and "mem_used h' = mem_used h - m + n" and "next_id h' = Suc (next_id h)"
    and "fault h' \<longleftrightarrow> fault h \<or> unat (n + 8) < 8" and "owns h' p n"
    and "libc_refuses h' = libc_refuses h" and "libc_fill h' = libc_fill h"
    and "libc_addr h' = libc_addr h"
  using assms
  by (auto simp: cdsa_realloc_track_def owns_def others_def Let_def split: if_splits)

lemma realloc_None:
  assumes "cdsa_realloc_track h (Some q) n = (h', None)" and "owns h q m" and "n \<noteq> 0"
  shows "h' = h\<lparr>next_id := Suc (next_id h)\<rparr>" and "libc_refuses h (next_id h) (n + 8)"
  using assms by (auto simp: cdsa_realloc_track_def owns_def Let_def split: if_splits)

subsection \<open>Containers of two blocks\<close>

text \<open>
  Most containers are a struct and one buffer: they allocate the struct, then the buffer, undo
  the first when the second is refused, and free both at the end.
\<close>

lemma malloc_two_blocks:
  assumes "heap_ok h"
    and m1: "cdsa_malloc_track h n = (h1, Some p)" and m2: "cdsa_malloc_track h1 k = (h2, Some q)"
  shows "heap_ok h2" and "owns h2 p n" and "owns h2 q k" and "p \<noteq> q"
    and "others {p, q} h2 = live h"
    and "fault h2 \<longleftrightarrow> fault h \<or> unat (n + 8) < 8 \<or> unat (k + 8) < 8"
    and "libc_refuses h2 = libc_refuses h" and "libc_fill h2 = libc_fill h"
proof -
  note a = malloc_Some [OF m1] and b = malloc_Some [OF m2]
  show "heap_ok h2" using malloc_ok [OF malloc_ok [OF assms(1)], of n k] m1 m2 by simp
  show ne: "p \<noteq> q" using a(1,4) b(1) by simp
  show "owns h2 p n" and "owns h2 q k" using a b ne by (simp_all add: owns_def)
  have "p \<notin> fst ` set (live h)" "q \<notin> fst ` set (live h)"
    using a(1,4) b(1) heap_okD(4) [OF assms(1)] heap_okD(2) [OF assms(1), of q] by auto
  then have "filter (\<lambda>(k, _). k \<notin> {p, q}) (live h) = live h"
    by (intro filter_True) force
  then show "others {p, q} h2 = live h" using a(2) b(2) by (simp add: others_def)
  show "fault h2 \<longleftrightarrow> fault h \<or> unat (n + 8) < 8 \<or> unat (k + 8) < 8"
    using a(5) b(5) by blast
  show "libc_refuses h2 = libc_refuses h" and "libc_fill h2 = libc_fill h"
    using a(7,8) b(7,8) by simp_all
qed

lemma malloc_rollback:
  assumes "heap_ok h" and "\<not> unat (n + 8) < 8"
    and m1: "cdsa_malloc_track h n = (h1, Some p)" and m2: "cdsa_malloc_track h1 k = (h2, None)"
  shows "live (cdsa_free_track h2 (Some p)) = live h"
    and "mem_used (cdsa_free_track h2 (Some p)) = mem_used h"
    and "fault (cdsa_free_track h2 (Some p)) = fault h"
proof -
  note a = malloc_Some [OF m1]
  have h2: "h2 = h1\<lparr>next_id := Suc (next_id h1)\<rparr>" by (rule malloc_None [OF m2])
  have own: "owns h2 p n" using a(6) by (simp add: h2 owns_def)
  have "others {p} h2 = live h"
    using a(1,2) heap_okD(4) [OF assms(1)] by (simp add: h2 others_def filter_fst_absent)
  then show "live (cdsa_free_track h2 (Some p)) = live h"
    and "mem_used (cdsa_free_track h2 (Some p)) = mem_used h"
    and "fault (cdsa_free_track h2 (Some p)) = fault h"
    unfolding free_owned [OF own] using a(3,5) assms(2) by (simp_all add: h2)
qed

lemma malloc_None_frame:
  assumes "cdsa_malloc_track h n = (h', None)"
  shows "live h' = live h" and "mem_used h' = mem_used h" and "fault h' = fault h"
  using malloc_None [OF assms] by simp_all

lemma free_two_blocks:
  assumes "owns h p n" and "owns h q k" and "p \<noteq> q"
  defines "h' \<equiv> cdsa_free_track (cdsa_free_track h (Some q)) (Some p)"
  shows "live h' = others {p, q} h" and "mem_used h' = mem_used h - k - n"
    and "fault h' = fault h" and "heap_ok h \<Longrightarrow> heap_ok h'"
proof -
  have own: "owns (cdsa_free_track h (Some q)) p n"
    using assms(1) by (simp add: owns_after_free [OF assms(2,3)])
  show "live h' = others {p, q} h" and "mem_used h' = mem_used h - k - n"
    and "fault h' = fault h"
    unfolding h'_def free_owned [OF own] unfolding free_owned [OF assms(2)]
    by (auto simp: others_def intro!: filter_cong)
  show "heap_ok h \<Longrightarrow> heap_ok h'" by (simp add: h'_def free_ok)
qed

text \<open>Growing the buffer moves it to a fresh block and leaves the other blocks alone.\<close>

lemma realloc_two_blocks:
  assumes "heap_ok h" and "owns h p n" and "owns h q k" and "p \<noteq> q"
    and re: "cdsa_realloc_track h (Some q) m = (h', Some q')"
  shows "heap_ok h'" and "owns h' p n" and "owns h' q' m" and "p \<noteq> q'"
    and "others {p, q'} h' = others {p, q} h"
    and "fault h' \<longleftrightarrow> fault h \<or> unat (m + 8) < 8"
    and "next_id h' = Suc (next_id h)" and "libc_refuses h' = libc_refuses h"
proof -
  note a = realloc_Some [OF re assms(3)]
  show "heap_ok h'" using realloc_ok [OF assms(1)] re by (metis fst_conv)
  have fresh: "q' \<notin> fst ` set (live h)" using a(1) heap_okD(4) [OF assms(1)] by simp
  then show ne: "p \<noteq> q'" using owns_live [OF assms(2)] by auto
  show "owns h' q' m" by (rule a(6))
  show "owns h' p n"
    using a(2) assms(2,4) ne by (simp add: owns_def others_def map_of_filter_neq)
  have "filter (\<lambda>(x, _). x \<notin> {p, q'}) (filter (\<lambda>(x, _). x \<notin> {q}) (live h)) =
      filter (\<lambda>(x, _). x \<notin> {p, q}) (live h)"
    using fresh by (auto simp: image_iff intro!: filter_cong)
  then show "others {p, q'} h' = others {p, q} h" using a(2) by (simp add: others_def)
  show "fault h' \<longleftrightarrow> fault h \<or> unat (m + 8) < 8" and "next_id h' = Suc (next_id h)"
    and "libc_refuses h' = libc_refuses h"
    by (rule a(5), rule a(4), rule a(7))
qed

text \<open>A buffer replaced by a fresh one, the old one freed afterwards.\<close>

lemma replace_block:
  assumes "heap_ok h" and "owns h p n" and "owns h q k" and "p \<noteq> q"
    and m: "cdsa_malloc_track h j = (h1, Some r)"
  defines "h' \<equiv> cdsa_free_track h1 (Some q)"
  shows "heap_ok h'" and "owns h' p n" and "owns h' r j" and "p \<noteq> r"
    and "others {p, r} h' = others {p, q} h"
    and "fault h' \<longleftrightarrow> fault h \<or> unat (j + 8) < 8" and "libc_refuses h' = libc_refuses h"
proof -
  note a = malloc_Some [OF m]
  have fresh: "r \<notin> fst ` set (live h)" using a(1) heap_okD(4) [OF assms(1)] by simp
  then have ne: "r \<noteq> p" "r \<noteq> q" using owns_live [OF assms(2)] owns_live [OF assms(3)] by auto
  have ok1: "heap_ok h1" using malloc_ok [OF assms(1), of j] m by simp
  then show "heap_ok h'" by (simp add: h'_def free_ok)
  have own: "owns h1 q k" "owns h1 p n" using assms(2,3) a(2) ne by (auto simp: owns_def)
  show "owns h' p n" using own assms(4) by (simp add: h'_def owns_after_free [OF own(1)])
  show "owns h' r j" using a(6) ne by (simp add: h'_def owns_after_free [OF own(1)])
  show "p \<noteq> r" using ne by simp
  have "filter (\<lambda>(x, _). x \<notin> {p, r}) (filter (\<lambda>(x, _). x \<notin> {q}) (live h)) =
      filter (\<lambda>(x, _). x \<notin> {p, q}) (live h)"
    using fresh by (auto simp: image_iff intro!: filter_cong)
  then show "others {p, r} h' = others {p, q} h"
    unfolding h'_def free_owned [OF own(1)] using a(2) ne by (simp add: others_def)
  show "fault h' \<longleftrightarrow> fault h \<or> unat (j + 8) < 8" and "libc_refuses h' = libc_refuses h"
    unfolding h'_def free_owned [OF own(1)] using a(5,7) by simp_all
qed

text \<open>A temporary block: allocated, used, and freed again.\<close>

lemma temporary_block:
  assumes "heap_ok h" and m: "cdsa_malloc_track h n = (h1, Some t)" and "\<not> unat (n + 8) < 8"
  shows "heap_ok h1" and "owns h p k \<Longrightarrow> owns h1 p k"
    and "cdsa_free_track h1 (Some t) = h\<lparr>next_id := Suc (next_id h)\<rparr>"
proof -
  note a = malloc_Some [OF m]
  have fresh: "t \<notin> fst ` set (live h)" using a(1) heap_okD(4) [OF assms(1)] by simp
  show "heap_ok h1" using malloc_ok [OF assms(1), of n] m by simp
  show "owns h1 p k" if "owns h p k" using a(2) that owns_live [OF that] fresh by (auto simp: owns_def)
  have "h1 = h\<lparr>next_id := Suc (next_id h), mem_used := mem_used h + n,
      live := (t, \<lparr>hdr = n, raw = n + 8\<rparr>) # live h\<rparr>"
    using m assms(3) by (cases rule: malloc_cases [of h n]) auto
  then show "cdsa_free_track h1 (Some t) = h\<lparr>next_id := Suc (next_id h)\<rparr>"
    unfolding free_owned [OF a(6)] using fresh by (simp add: others_def filter_fst_absent)
qed

text \<open>Only the counter of requests has moved on.\<close>

lemma later_heap [simp]:
  "owns (h\<lparr>next_id := n\<rparr>) p k \<longleftrightarrow> owns h p k" "others ps (h\<lparr>next_id := n\<rparr>) = others ps h"
  "never_refuses (h\<lparr>next_id := n\<rparr>) \<longleftrightarrow> never_refuses h"
  by (simp_all add: owns_def others_def never_refuses_def)

lemma later_heap_ok: "heap_ok h \<Longrightarrow> next_id h \<le> n \<Longrightarrow> heap_ok (h\<lparr>next_id := n\<rparr>)"
  by (fastforce simp: heap_ok_def)

text \<open>Blocks survive a change elsewhere.\<close>

lemma owns_others: "p \<notin> ps \<Longrightarrow> owns h p n \<longleftrightarrow> map_of (others ps h) p = Some \<lparr>hdr = n, raw = n + 8\<rparr>"
  by (simp add: owns_def others_def map_of_filter)

subsection \<open>Containers of many blocks\<close>

text \<open>The blocks of a linked structure, each with the size it was obtained for.\<close>

definition owns_all :: "heap \<Rightarrow> (block_id \<times> size_t) list \<Rightarrow> bool" where
  "owns_all h bs \<longleftrightarrow> distinct (map fst bs) \<and> (\<forall>(p, n) \<in> set bs. owns h p n)"

lemma owns_all_simps [simp]:
  "owns_all h []"
  "owns_all h ((p, n) # bs) \<longleftrightarrow> owns h p n \<and> p \<notin> fst ` set bs \<and> owns_all h bs"
  by (auto simp: owns_all_def)

lemma owns_all_append:
  "owns_all h (as @ bs) \<longleftrightarrow>
     owns_all h as \<and> owns_all h bs \<and> fst ` set as \<inter> fst ` set bs = {}"
  by (auto simp: owns_all_def)

lemma owns_all_permute: "mset as = mset bs \<Longrightarrow> owns_all h as = owns_all h bs"
  unfolding owns_all_def by (metis mset_map mset_eq_imp_distinct_iff set_mset_mset)

lemma owns_all_live: "owns_all h bs \<Longrightarrow> p \<in> fst ` set bs \<Longrightarrow> p \<in> fst ` set (live h)"
  using owns_live by (fastforce simp: owns_all_def)

text \<open>A block obtained joins them, a block given back leaves them; the other blocks stay.\<close>

lemma malloc_owns_all:
  assumes "heap_ok h" and "cdsa_malloc_track h n = (h', Some p)"
  shows "heap_ok h'" and "owns_all h bs \<Longrightarrow> owns_all h' ((p, n) # bs)"
    and "others (insert p ps) h' = others ps h" and "libc_refuses h' = libc_refuses h"
    and "owns_all h bs \<Longrightarrow> p \<notin> fst ` set bs"
    and "unat n + 8 < size_bound \<Longrightarrow> fault h' = fault h"
proof -
  note a = malloc_Some [OF assms(2)]
  have fresh: "p \<notin> fst ` set (live h)" using a(1) heap_okD(4) [OF assms(1)] by simp
  show "heap_ok h'" using malloc_ok [OF assms(1), of n] assms(2) by simp
  have keep: "owns h' q m" if "owns h q m" for q m
    using a(2) that owns_live [OF that] fresh by (auto simp: owns_def)
  show "p \<notin> fst ` set bs" if "owns_all h bs" using owns_all_live [OF that] fresh by blast
  then show "owns_all h' ((p, n) # bs)" if "owns_all h bs"
    using that a(6) keep by (auto simp: owns_all_def)
  have "others (insert p ps) h' = others (insert p ps) h" using a(2) by (simp add: others_def)
  then show "others (insert p ps) h' = others ps h" using others_insert_absent [OF fresh] by simp
  show "libc_refuses h' = libc_refuses h" by (rule a(7))
  show "fault h' = fault h" if "unat n + 8 < size_bound"
    using a(5) no_wrap_header [OF that] by simp
qed

lemma free_owns_all:
  assumes "owns_all h ((p, n) # bs)"
  defines "h' \<equiv> cdsa_free_track h (Some p)"
  shows "owns_all h' bs" and "others ps h' = others (insert p ps) h"
    and "fault h' = fault h" and "libc_refuses h' = libc_refuses h" and "heap_ok h \<Longrightarrow> heap_ok h'"
proof -
  have own: "owns h p n" and rest: "owns_all h bs" "p \<notin> fst ` set bs" using assms(1) by simp_all
  have "owns h' q m" if "(q, m) \<in> set bs" for q m
    using that rest owns_after_free [OF own, of q m] by (force simp: owns_all_def h'_def)
  then show "owns_all h' bs" using rest by (auto simp: owns_all_def)
  show "others ps h' = others (insert p ps) h"
    by (auto simp: h'_def free_owned [OF own] others_def conj_commute intro!: filter_cong)
  show "fault h' = fault h" "libc_refuses h' = libc_refuses h"
    by (simp_all add: h'_def free_owned [OF own])
  show "heap_ok h'" if "heap_ok h" using free_ok [OF that] by (simp add: h'_def)
qed

lemma owns_all_cong: "live h' = live h \<Longrightarrow> owns_all h' bs = owns_all h bs"
  by (simp add: owns_all_def owns_def)

lemma owns_all_later [simp]: "owns_all (h\<lparr>next_id := n\<rparr>) bs = owns_all h bs"
  by (simp add: owns_all_def)

subsection \<open>Contents\<close>

lemma length_fresh_bytes [simp]: "length (fresh_bytes h p n) = n"
  by (simp add: fresh_bytes_def)

lemma fresh_bytes_Nil [simp]: "fresh_bytes h p n = [] \<longleftrightarrow> n = 0"
  by (simp add: fresh_bytes_def)

lemma length_moved_bytes [simp]: "length (moved_bytes h p old n) = n"
  by (simp add: moved_bytes_def min_def)

section \<open>Properties\<close>

text \<open>
  C11: the telemetry is exact: after any sequence of \<open>malloc\<close>, \<open>calloc\<close>, \<open>realloc\<close> and
  \<open>free\<close> calls, failed ones included, \<open>cdsa_global_memory_used\<close> is the sum of the sizes the
  callers asked for in the blocks that are still live, and no block is live twice.
\<close>

theorem telemetry_counts_live_blocks:
  "mem_used (fold (\<lambda>c h. alloc_step h c) cs (initial_heap refuses fill addr)) =
      sum_list (map (hdr \<circ> snd)
        (live (fold (\<lambda>c h. alloc_step h c) cs (initial_heap refuses fill addr)))) \<and>
    distinct (map fst (live (fold (\<lambda>c h. alloc_step h c) cs (initial_heap refuses fill addr))))"
  using alloc_run_ok [of "initial_heap refuses fill addr" cs]
  by (auto dest: heap_okD(1,3))

end
