(* ===== verification/Kpool.thy ===== *)
theory Kpool
  imports Tracking_Heap
begin

text \<open>
  The block pool of \<^verbatim>\<open>src/allocator.c\<close>: one slab cut into blocks of equal size, with a free list
  threaded through the free blocks.  A pointer into the slab is its byte offset from
  \<open>memory_block\<close>, and \<open>next_of\<close> is the memory of the \<open>next\<close> fields: the word stored at each
  offset.  The free list is read from that memory by following pointers; that it is a list of
  distinct blocks is proved, not assumed.
\<close>

section \<open>State and operations\<close>

record kpool =
  kp_self :: block_id
  block_size :: size_t
  kp_capacity :: size_t
  memory_block :: block_id
  slab_len :: nat
  next_of :: "size_t \<Rightarrow> size_t option"
  free_list :: "size_t option"

definition sizeof_kpool :: size_t where "sizeof_kpool = 32"
definition sizeof_kpool_node :: size_t where "sizeof_kpool_node = 8"

text \<open>The two adjustments of the block size: room for a pointer, then 8-byte alignment.\<close>

definition kpool_block_size :: "size_t \<Rightarrow> size_t" where
  "kpool_block_size bs =
     (let bs = (if bs < sizeof_kpool_node then sizeof_kpool_node else bs)
      in if bs mod 8 \<noteq> 0 then bs + (8 - bs mod 8) else bs)"

text \<open>
  The wiring loop: \<open>k\<close> iterations are left, \<open>i\<close> is the loop counter, \<open>cur\<close> the node to link.
  Each write of a \<open>next\<close> field that does not fit the slab is a fault.
\<close>

fun kpool_wire :: "size_t \<Rightarrow> nat \<Rightarrow> nat \<Rightarrow> size_t \<Rightarrow> size_t \<Rightarrow> (size_t \<Rightarrow> size_t option) \<Rightarrow> bool
    \<Rightarrow> (size_t \<Rightarrow> size_t option) \<times> bool" where
  "kpool_wire bs len 0 i cur nx bad = (nx(cur := None), bad \<or> len < unat cur + 8)"
| "kpool_wire bs len (Suc k) i cur nx bad =
     (let next_node = (i + 1) * bs
      in kpool_wire bs len k (i + 1) next_node (nx(cur := Some next_node))
           (bad \<or> len < unat cur + 8))"

definition kpool_create :: "heap \<Rightarrow> size_t \<Rightarrow> size_t \<Rightarrow> heap \<times> kpool option" where
  "kpool_create h bs capacity =
     (if bs = 0 \<or> capacity = 0 then (h, None)
      else
        let bs = kpool_block_size bs;
            (h1, pool) = cdsa_malloc_track h sizeof_kpool
        in case pool of
             None \<Rightarrow> (h1, None)
           | Some self \<Rightarrow>
               let (h2, slab) = cdsa_malloc_track h1 (bs * capacity)
               in case slab of
                    None \<Rightarrow> (cdsa_free_track (cdsa_free_track h2 None) (Some self), None)
                  | Some mem \<Rightarrow>
                      let len = user_len (bs * capacity);
                          (nx, bad) = kpool_wire bs len (unat (capacity - 1)) 0 0
                                        (\<lambda>_. None) False
                      in (set_fault bad h2,
                          Some \<lparr>kp_self = self, block_size = bs, kp_capacity = capacity,
                                memory_block = mem, slab_len = len,
                                next_of = nx, free_list = Some 0\<rparr>))"

definition kpool_alloc :: "kpool option \<Rightarrow> kpool option \<times> size_t option" where
  "kpool_alloc pool =
     (case pool of
        None \<Rightarrow> (None, None)
      | Some p \<Rightarrow>
          (case free_list p of
             None \<Rightarrow> (Some p, None)
           | Some node \<Rightarrow> (Some (p\<lparr>free_list := next_of p node\<rparr>), Some node)))"

definition kpool_free :: "kpool option \<Rightarrow> size_t option \<Rightarrow> kpool option" where
  "kpool_free pool ptr =
     (case (pool, ptr) of
        (Some p, Some node) \<Rightarrow>
          Some (p\<lparr>next_of := (next_of p)(node := free_list p), free_list := Some node\<rparr>)
      | _ \<Rightarrow> pool)"

definition kpool_destroy :: "heap \<Rightarrow> kpool option \<Rightarrow> heap" where
  "kpool_destroy h pool =
     (case pool of
        None \<Rightarrow> h
      | Some p \<Rightarrow> cdsa_free_track (cdsa_free_track h (Some (memory_block p))) (Some (kp_self p)))"

section \<open>The pool invariant\<close>

text \<open>The blocks of a slab, in address order.\<close>

definition kp_blocks :: "kpool \<Rightarrow> size_t list" where
  "kp_blocks p = map (\<lambda>i. of_nat i * block_size p) [0..<unat (kp_capacity p)]"

text \<open>
  \<open>kp_repr p fs\<close>: the free list of \<open>p\<close> is \<open>fs\<close>, distinct blocks of the slab; the slab is
  large enough for all of them and the block size is a positive multiple of 8.
\<close>

definition kp_repr :: "kpool \<Rightarrow> size_t list \<Rightarrow> bool" where
  "kp_repr p fs \<longleftrightarrow>
     chain (next_of p) (free_list p) fs \<and> distinct fs \<and> set fs \<subseteq> set (kp_blocks p) \<and>
     unat (block_size p) * unat (kp_capacity p) + 8 < size_bound \<and>
     slab_len p = unat (block_size p) * unat (kp_capacity p) \<and>
     8 \<le> unat (block_size p) \<and> 8 dvd unat (block_size p)"

lemma unat_block:
  assumes "i < n" and "unat bs * n + 8 < size_bound"
  shows "unat (of_nat i * bs :: size_t) = i * unat bs"
proof (cases "unat bs = 0")
  case True
  then show ?thesis by (simp add: unat_eq_0)
next
  case False
  have le: "i * unat bs + unat bs \<le> unat bs * n"
    using cell_end [of i n "unat bs" "unat bs * n"] assms(1) by (simp add: mult.commute)
  have "i * 1 \<le> i * unat bs" using False by (intro mult_le_mono2) simp
  then have "i < size_bound" using le assms(2) by linarith
  moreover have "i * unat bs < size_bound" using le assms(2) by linarith
  ultimately show ?thesis by (simp add: unat_size_t_mult)
qed

lemma kp_blocks_distinct:
  assumes "unat (block_size p) * unat (kp_capacity p) + 8 < size_bound"
    and "8 \<le> unat (block_size p)"
  shows "distinct (kp_blocks p)"
proof -
  have "inj_on (\<lambda>i. of_nat i * block_size p) {0..<unat (kp_capacity p)}"
  proof (rule inj_onI)
    fix i j
    assume i: "i \<in> {0..<unat (kp_capacity p)}" and j: "j \<in> {0..<unat (kp_capacity p)}"
      and eq: "of_nat i * block_size p = of_nat j * block_size p"
    have "unat (of_nat i * block_size p) = i * unat (block_size p)"
      using i by (intro unat_block [OF _ assms(1)]) simp
    moreover have "unat (of_nat j * block_size p) = j * unat (block_size p)"
      using j by (intro unat_block [OF _ assms(1)]) simp
    ultimately have "i * unat (block_size p) = j * unat (block_size p)" using eq by metis
    moreover have "unat (block_size p) \<noteq> 0" using assms(2) by linarith
    ultimately show "i = j" by simp
  qed
  then show ?thesis by (simp add: kp_blocks_def distinct_map)
qed

text \<open>A block of the slab is aligned and lies inside it.\<close>

lemma kp_block_inside:
  assumes "kp_repr p fs" and "b \<in> set (kp_blocks p)"
  shows "8 dvd unat b" and "unat b + unat (block_size p) \<le> slab_len p"
proof -
  from assms(2) obtain i where i: "i < unat (kp_capacity p)" and b: "b = of_nat i * block_size p"
    by (auto simp: kp_blocks_def)
  have u: "unat b = i * unat (block_size p)"
    using assms(1) unat_block [OF i, of "block_size p"] b by (simp add: kp_repr_def)
  then show "8 dvd unat b" using assms(1) by (simp add: kp_repr_def)
  show "unat b + unat (block_size p) \<le> slab_len p"
    using u i assms(1) cell_end [of i "unat (kp_capacity p)" "unat (block_size p)"]
    by (simp add: kp_repr_def mult.commute)
qed

text \<open>Two different blocks do not overlap.\<close>

lemma kp_blocks_disjoint:
  assumes "kp_repr p fs" and "a \<in> set (kp_blocks p)" and "b \<in> set (kp_blocks p)" and "a \<noteq> b"
  shows "unat a + unat (block_size p) \<le> unat b \<or> unat b + unat (block_size p) \<le> unat a"
proof -
  from assms(2,3) obtain i j where ij: "i < unat (kp_capacity p)" "j < unat (kp_capacity p)"
    and ab: "a = of_nat i * block_size p" "b = of_nat j * block_size p"
    by (auto simp: kp_blocks_def)
  have "unat a = i * unat (block_size p)" "unat b = j * unat (block_size p)"
    using assms(1) ij ab unat_block by (auto simp: kp_repr_def)
  then show ?thesis using cell_disjoint [of i j "unat (block_size p)"] ab assms(4) by auto
qed

section \<open>Creation\<close>

lemma kpool_wire_fault: "snd (kpool_wire bs len k i cur nx True)"
  by (induction bs len k i cur nx "True" rule: kpool_wire.induct) (auto simp: Let_def)

text \<open>
  The wiring loop, started at block \<open>i\<close> with \<open>k\<close> iterations to go, links the blocks
  \<open>i, \<dots>, i + k\<close>, leaves the rest of the memory alone, and does not leave the slab.
\<close>

lemma kpool_wire_chain:
  assumes "unat bs * n + 8 < size_bound" and "8 \<le> unat bs"
    and "i + k < n" and "len = unat bs * n"
    and "kpool_wire bs len k (of_nat i) (of_nat i * bs) nx False = (nx', bad)"
  shows "chain nx' (Some (of_nat i * bs)) (map (\<lambda>j. of_nat j * bs) [i..<Suc (i + k)]) \<and>
    \<not> bad \<and> (\<forall>j < i. nx' (of_nat j * bs) = nx (of_nat j * bs))"
  using assms(3,5)
proof (induction k arbitrary: i nx)
  case 0
  have u: "j < n \<Longrightarrow> unat (of_nat j * bs :: size_t) = j * unat bs" for j
    using unat_block [OF _ assms(1)] .
  have fits: "i * unat bs + 8 \<le> len"
    using cell_end [of i n "unat bs" len] 0 assms(2,4) by (simp add: mult.commute)
  have other: "of_nat j * bs \<noteq> of_nat i * bs" if "j < i" for j
    using that 0 assms(2) u [of j] u [of i] by auto
  show ?case using 0 u [of i] fits other by auto
next
  case (Suc k)
  have u: "j < n \<Longrightarrow> unat (of_nat j * bs :: size_t) = j * unat bs" for j
    using unat_block [OF _ assms(1)] .
  have fits: "i * unat bs + 8 \<le> len"
    using cell_end [of i n "unat bs" len] Suc.prems assms(2,4) by (simp add: mult.commute)
  have other: "of_nat j * bs \<noteq> of_nat i * bs" if "j < i" for j
    using that Suc.prems assms(2) u [of j] u [of i] by auto
  let ?nx = "nx(of_nat i * bs := Some (of_nat (Suc i) * bs))"
  have call: "kpool_wire bs len k (of_nat (Suc i)) (of_nat (Suc i) * bs) ?nx False = (nx', bad)"
    using Suc.prems u [of i] fits by (simp add: Let_def add.commute not_less)
  have split: "[i..<Suc (i + Suc k)] = i # [Suc i..<Suc (Suc i + k)]"
    by (simp add: upt_conv_Cons)
  show ?case
    unfolding split using Suc.IH [OF _ call] Suc.prems(1) other by auto
qed

lemma kpool_block_size_props:
  assumes "unat bs + 16 < size_bound"
  shows "8 \<le> unat (kpool_block_size bs)" and "8 dvd unat (kpool_block_size bs)"
    and "unat bs \<le> unat (kpool_block_size bs)" and "unat (kpool_block_size bs) < unat bs + 16"
proof -
  define b where "b = (if bs < sizeof_kpool_node then sizeof_kpool_node else bs)"
  have b: "8 \<le> unat b" "unat bs \<le> unat b" "unat b \<le> unat bs + 8"
    by (auto simp: b_def sizeof_kpool_node_def size_t_cmp)
  define r where "r = unat b mod 8"
  have r: "unat (b mod 8) = r" "r < 8" "r \<le> unat b"
    by (simp_all add: r_def unat_size_t_mod)
  have sub: "unat (8 - b mod 8 :: size_t) = 8 - r"
    using r by (subst unat_size_t_sub) auto
  have "kpool_block_size bs = (if r \<noteq> 0 then b + (8 - b mod 8) else b)"
    using r(1) by (simp add: kpool_block_size_def Let_def b_def [symmetric] size_t_zero_iff)
  moreover have "unat (b + (8 - b mod 8) :: size_t) = unat b + (8 - r)"
    using sub b assms by (subst unat_size_t_add) auto
  ultimately have eq: "unat (kpool_block_size bs) = (if r \<noteq> 0 then unat b + (8 - r) else unat b)"
    by simp
  have m: "unat b = 8 * (unat b div 8) + r" by (simp add: r_def)
  show "8 dvd unat (kpool_block_size bs)"
  proof (cases "r = 0")
    case True
    then show ?thesis using eq by (simp add: r_def dvd_eq_mod_eq_0)
  next
    case False
    then have "unat (kpool_block_size bs) = 8 * (unat b div 8 + 1)" using eq m r(2) by simp
    then show ?thesis by simp
  qed
  show "8 \<le> unat (kpool_block_size bs)" and "unat bs \<le> unat (kpool_block_size bs)"
    using eq b by auto
  show "unat (kpool_block_size bs) < unat bs + 16"
    using eq b(3) r(2) by (auto split: if_splits)
qed

lemma kpool_createE:
  assumes "kpool_create h bs cap = (h', Some p)"
  obtains h1 self h2 mem nx bad where
    "bs \<noteq> 0" and "cap \<noteq> 0" and
    "cdsa_malloc_track h sizeof_kpool = (h1, Some self)" and
    "cdsa_malloc_track h1 (kpool_block_size bs * cap) = (h2, Some mem)" and
    "kpool_wire (kpool_block_size bs) (user_len (kpool_block_size bs * cap)) (unat (cap - 1))
       0 0 (\<lambda>_. None) False = (nx, bad)" and
    "h' = set_fault bad h2" and
    "p = \<lparr>kp_self = self, block_size = kpool_block_size bs, kp_capacity = cap,
          memory_block = mem, slab_len = user_len (kpool_block_size bs * cap),
          next_of = nx, free_list = Some 0\<rparr>"
  using assms that by (auto simp: kpool_create_def Let_def split: if_splits option.splits prod.splits)

lemma kpool_create_repr:
  assumes "kpool_create h bs cap = (h', Some p)"
    and "unat bs + 16 < size_bound"
    and "(unat bs + 16) * unat cap + 8 < size_bound"
  shows "kp_repr p (kp_blocks p)" and "fault h' = fault h"
    and "kp_capacity p = cap" and "block_size p = kpool_block_size bs"
proof -
  let ?bs = "kpool_block_size bs"
  note bsp = kpool_block_size_props [OF assms(2)]
  from assms(1) obtain h1 self h2 mem nx bad where nz: "bs \<noteq> 0" "cap \<noteq> 0" and
    m1: "cdsa_malloc_track h sizeof_kpool = (h1, Some self)" and
    m2: "cdsa_malloc_track h1 (?bs * cap) = (h2, Some mem)" and
    wire: "kpool_wire ?bs (user_len (?bs * cap)) (unat (cap - 1)) 0 0 (\<lambda>_. None) False = (nx, bad)"
    and h': "h' = set_fault bad h2" and
    p: "p = \<lparr>kp_self = self, block_size = ?bs, kp_capacity = cap, memory_block = mem,
              slab_len = user_len (?bs * cap), next_of = nx, free_list = Some 0\<rparr>"
    by (rule kpool_createE)
  have cap: "0 < unat cap" using nz(2) by (simp add: size_t_zero_iff)
  have "unat ?bs * unat cap \<le> (unat bs + 16) * unat cap"
    using bsp(4) by (intro mult_le_mono1) simp
  then have bound: "unat ?bs * unat cap + 8 < size_bound" using assms(3) by linarith
  then have mult: "unat (?bs * cap) = unat ?bs * unat cap" by (subst unat_size_t_mult) auto
  then have len: "user_len (?bs * cap) = unat ?bs * unat cap"
    using bound by (simp add: user_len_no_wrap)
  have pred: "unat (cap - 1) = unat cap - 1" using cap by (rule unat_size_t_pred)
  note wc = kpool_wire_chain [where i = 0 and nx = "\<lambda>_. None", OF bound bsp(1) _ len]
  have c: "chain nx (Some 0) (map (\<lambda>j. of_nat j * ?bs) [0..<unat cap])" and "\<not> bad"
    using wc [of "unat (cap - 1)" nx bad] wire cap pred by simp_all
  show "kp_repr p (kp_blocks p)"
    using c bound bsp(1,2) len kp_blocks_distinct [of p]
    by (simp add: kp_repr_def p kp_blocks_def)
  have "unat (sizeof_kpool + 8) = 40" by (simp add: sizeof_kpool_def)
  then show "fault h' = fault h"
    using malloc_Some(5) [OF m1] malloc_Some(5) [OF m2] no_wrap_header [of "?bs * cap"]
      mult bound \<open>\<not> bad\<close> h' by (simp add: set_fault_def)
  show "kp_capacity p = cap" and "block_size p = ?bs" by (simp_all add: p)
qed

section \<open>The interface of a block pool\<close>

text \<open>
  What a client of the pool relies on (the tree nodes of the radix tree do): \<open>repr p fs\<close> says
  that \<open>fs\<close> are the free blocks, \<open>universe p\<close> is the set of all of them.
\<close>

locale block_pool =
  fixes alloc :: "'p \<Rightarrow> 'p \<times> 'b option"
    and release :: "'p \<Rightarrow> 'b \<Rightarrow> 'p"
    and repr :: "'p \<Rightarrow> 'b list \<Rightarrow> bool"
    and universe :: "'p \<Rightarrow> 'b set"
  assumes repr_free: "repr p fs \<Longrightarrow> distinct fs \<and> set fs \<subseteq> universe p"
    and alloc_exhausted: "repr p [] \<Longrightarrow> alloc p = (p, None)"
    and alloc_next: "repr p (b # fs) \<Longrightarrow>
      \<exists>p'. alloc p = (p', Some b) \<and> repr p' fs \<and> universe p' = universe p"
    and release_free: "repr p fs \<Longrightarrow> b \<in> universe p \<Longrightarrow> b \<notin> set fs \<Longrightarrow>
      repr (release p b) (b # fs) \<and> universe (release p b) = universe p"
begin

text \<open>
  With \<open>out\<close> the blocks handed out so far, the free and the outstanding blocks partition the
  slab; an allocation and a release keep that.
\<close>

lemma alloc_partition:
  assumes "repr p fs" and "distinct (fs @ out)" and "set (fs @ out) = universe p"
    and "alloc p = (p', Some b)"
  shows "b \<in> universe p" and "b \<notin> set out" and "universe p' = universe p"
    and "\<exists>fs'. repr p' fs' \<and> distinct (fs' @ b # out) \<and> set (fs' @ b # out) = universe p'"
proof -
  from assms(1,4) obtain fs' where fs: "fs = b # fs'"
    using alloc_exhausted alloc_next by (cases fs) fastforce+
  with alloc_next [of p b fs'] assms(1,4) have p': "repr p' fs'" "universe p' = universe p"
    by auto
  show "b \<in> universe p" and "b \<notin> set out" using assms(2,3) fs by auto
  show "universe p' = universe p" by fact
  show "\<exists>fs'. repr p' fs' \<and> distinct (fs' @ b # out) \<and> set (fs' @ b # out) = universe p'"
    using assms(2,3) fs p' by (intro exI [of _ fs']) auto
qed

lemma alloc_none:
  assumes "repr p fs" and "alloc p = (p', None)"
  shows "fs = []" and "p' = p"
  using assms alloc_exhausted [of p] by (cases fs; use alloc_next in force)+

lemma release_partition:
  assumes "repr p fs" and "distinct (fs @ out)" and "set (fs @ out) = universe p"
    and "b \<in> set out"
  shows "\<exists>fs'. repr (release p b) fs' \<and> distinct (fs' @ remove1 b out) \<and>
      set (fs' @ remove1 b out) = universe (release p b)"
    and "universe (release p b) = universe p"
proof -
  have b: "b \<in> universe p" "b \<notin> set fs" using assms(2,3,4) by auto
  note r = release_free [OF assms(1) b]
  show "universe (release p b) = universe p" using r by simp
  show "\<exists>fs'. repr (release p b) fs' \<and> distinct (fs' @ remove1 b out) \<and>
      set (fs' @ remove1 b out) = universe (release p b)"
    using r assms(2,3,4) by (intro exI [of _ "b # fs"]) (auto simp: set_remove1_eq)
qed

end

text \<open>The pool of the code provides that interface.\<close>

definition pool_repr :: "kpool option \<Rightarrow> size_t list \<Rightarrow> bool" where
  "pool_repr q fs \<longleftrightarrow> (case q of None \<Rightarrow> False | Some p \<Rightarrow> kp_repr p fs)"

definition pool_blocks :: "kpool option \<Rightarrow> size_t set" where
  "pool_blocks q = (case q of None \<Rightarrow> {} | Some p \<Rightarrow> set (kp_blocks p))"

lemma kp_blocks_update [simp]:
  "kp_blocks (p\<lparr>free_list := f\<rparr>) = kp_blocks p"
  "kp_blocks (p\<lparr>next_of := n\<rparr>) = kp_blocks p"
  by (simp_all add: kp_blocks_def)

lemma kpool_alloc_free_list:
  "kp_repr p (b # fs) \<Longrightarrow> kpool_alloc (Some p) = (Some (p\<lparr>free_list := next_of p b\<rparr>), Some b)"
  by (simp add: kp_repr_def kpool_alloc_def)

interpretation slab: block_pool kpool_alloc "\<lambda>q b. kpool_free q (Some b)" pool_repr pool_blocks
proof (unfold_locales, goal_cases)
  case (1 p fs)
  then show ?case by (auto simp: pool_repr_def pool_blocks_def kp_repr_def split: option.splits)
next
  case (2 p)
  then show ?case
    by (auto simp: pool_repr_def kp_repr_def kpool_alloc_def split: option.splits)
next
  case (3 p b fs)
  then show ?case
    by (auto simp: pool_repr_def pool_blocks_def kp_repr_def kpool_alloc_def split: option.splits)
next
  case (4 p fs b)
  then show ?case
    by (auto simp: pool_repr_def pool_blocks_def kp_repr_def kpool_free_def chain_upd
        split: option.splits)
qed

section \<open>The pool as a state machine\<close>

text \<open>
  A state is the pool and the list of blocks its client holds.  The client allocates, and gives
  back blocks it holds.
\<close>

type_synonym pool_state = "kpool option \<times> size_t list"

inductive pool_step :: "pool_state \<Rightarrow> pool_state \<Rightarrow> bool" where
  take: "kpool_alloc q = (q', Some b) \<Longrightarrow> pool_step (q, out) (q', b # out)"
| exhausted: "kpool_alloc q = (q', None) \<Longrightarrow> pool_step (q, out) (q', out)"
| give: "b \<in> set out \<Longrightarrow> pool_step (q, out) (kpool_free q (Some b), remove1 b out)"

inductive_cases pool_stepE: "pool_step s t"

definition pool_inv :: "size_t \<Rightarrow> size_t \<Rightarrow> pool_state \<Rightarrow> bool" where
  "pool_inv cap bs s \<longleftrightarrow>
     (case s of (q, out) \<Rightarrow>
        \<exists>fs. pool_repr q fs \<and> distinct (fs @ out) \<and> set (fs @ out) = pool_blocks q \<and>
             map_option kp_capacity q = Some cap \<and> map_option block_size q = Some bs)"

lemma kpool_alloc_frame:
  assumes "kpool_alloc q = (q', r)"
  shows "map_option kp_capacity q' = map_option kp_capacity q"
    and "map_option block_size q' = map_option block_size q"
  using assms by (auto simp: kpool_alloc_def split: option.splits)

lemma kpool_free_frame:
  "map_option kp_capacity (kpool_free q b) = map_option kp_capacity q"
  "map_option block_size (kpool_free q b) = map_option block_size q"
  by (auto simp: kpool_free_def split: option.splits)

lemma pool_step_inv:
  assumes "pool_step s t" and "pool_inv cap bs s"
  shows "pool_inv cap bs t"
  using assms
proof (induction rule: pool_step.induct)
  case (take q q' b out)
  then show ?case
    using slab.alloc_partition [of q _ out q' b] kpool_alloc_frame [of q q']
    by (fastforce simp: pool_inv_def)
next
  case (exhausted q q' out)
  then show ?case
    using slab.alloc_none [of q _ q'] by (fastforce simp: pool_inv_def)
next
  case (give b out q)
  then show ?case
    using slab.release_partition [of q _ out b] kpool_free_frame [of q "Some b"]
    by (fastforce simp: pool_inv_def)
qed

lemma pool_reachable_inv:
  assumes "pool_step\<^sup>*\<^sup>* s t" and "pool_inv cap bs s"
  shows "pool_inv cap bs t"
  using assms by (induction rule: rtranclp_induct) (auto intro: pool_step_inv)

lemma kpool_create_inv:
  assumes "kpool_create h bs cap = (h', Some p)"
    and "unat bs + 16 < size_bound" and "(unat bs + 16) * unat cap + 8 < size_bound"
  shows "pool_inv cap (kpool_block_size bs) (Some p, [])"
  using kpool_create_repr [OF assms]
  by (auto simp: pool_inv_def pool_repr_def pool_blocks_def kp_repr_def)

lemma pool_inv_counts:
  assumes "pool_inv cap bs (Some p, out)" and "kp_repr p fs"
  shows "length fs + length out = unat cap"
proof -
  from assms have fs: "distinct (fs @ out)" "set (fs @ out) = set (kp_blocks p)"
    "kp_capacity p = cap"
    by (auto simp: pool_inv_def pool_repr_def pool_blocks_def kp_repr_def dest: chain_unique)
  have "length (fs @ out) = card (set (kp_blocks p))"
    using fs distinct_card by fastforce
  also have "\<dots> = length (kp_blocks p)"
    using assms(2) kp_blocks_distinct [of p] by (simp add: kp_repr_def distinct_card)
  finally show ?thesis using fs(3) by (simp add: kp_blocks_def)
qed

section \<open>Teardown\<close>

lemma pool_step_blocks:
  assumes "pool_step s t"
  shows "map_option (\<lambda>p. (kp_self p, memory_block p)) (fst t) =
    map_option (\<lambda>p. (kp_self p, memory_block p)) (fst s)"
  using assms
  by (induction rule: pool_step.induct)
    (auto simp: kpool_alloc_def kpool_free_def split: option.splits)

lemma pool_reachable_blocks:
  assumes "pool_step\<^sup>*\<^sup>* s t"
  shows "map_option (\<lambda>p. (kp_self p, memory_block p)) (fst t) =
    map_option (\<lambda>p. (kp_self p, memory_block p)) (fst s)"
  using assms by (induction rule: rtranclp_induct) (auto dest: pool_step_blocks)

text \<open>
  Creating a pool adds its two blocks to the heap or, when either allocation is refused, leaves
  no block behind; destroying it removes exactly those two.
\<close>

lemma kpool_create_blocks:
  assumes "kpool_create h bs cap = (h', Some p)" and "heap_ok h"
  shows "live h' = (memory_block p, \<lparr>hdr = kpool_block_size bs * cap,
                       raw = kpool_block_size bs * cap + 8\<rparr>) #
      (kp_self p, \<lparr>hdr = sizeof_kpool, raw = sizeof_kpool + 8\<rparr>) # live h"
    and "memory_block p = Suc (next_id h)" and "kp_self p = next_id h"
    and "mem_used h' = mem_used h + sizeof_kpool + kpool_block_size bs * cap"
proof -
  from assms(1) obtain h1 self h2 mem nx bad where
    m1: "cdsa_malloc_track h sizeof_kpool = (h1, Some self)" and
    m2: "cdsa_malloc_track h1 (kpool_block_size bs * cap) = (h2, Some mem)" and
    h': "h' = set_fault bad h2" and self: "kp_self p = self" and mem: "memory_block p = mem"
    by (rule kpool_createE) auto
  note a = malloc_Some [OF m1] and b = malloc_Some [OF m2]
  show "live h' = (memory_block p, \<lparr>hdr = kpool_block_size bs * cap,
                       raw = kpool_block_size bs * cap + 8\<rparr>) #
      (kp_self p, \<lparr>hdr = sizeof_kpool, raw = sizeof_kpool + 8\<rparr>) # live h"
    using a(1,2) b(1,2) by (simp add: h' self mem set_fault_def)
  show "memory_block p = Suc (next_id h)" and "kp_self p = next_id h"
    using a(1,4) b(1) by (simp_all add: self mem)
  show "mem_used h' = mem_used h + sizeof_kpool + kpool_block_size bs * cap"
    using a(3) b(3) by (simp add: h' set_fault_def)
qed

lemma kpool_create_refused:
  assumes "kpool_create h bs cap = (h', None)" and "heap_ok h"
  shows "live h' = live h" and "mem_used h' = mem_used h" and "fault h' = fault h"
proof -
  have "live h' = live h \<and> mem_used h' = mem_used h \<and> fault h' = fault h"
  proof (cases "bs = 0 \<or> cap = 0")
    case True
    then show ?thesis using assms(1) by (auto simp: kpool_create_def)
  next
    case False
    obtain h1 q where m1: "cdsa_malloc_track h sizeof_kpool = (h1, q)" by fastforce
    show ?thesis
    proof (cases q)
      case None
      then show ?thesis
        using assms(1) False m1 malloc_None [of h sizeof_kpool h1]
        by (simp add: kpool_create_def Let_def)
    next
      case (Some self)
      obtain h2 r where m2: "cdsa_malloc_track h1 (kpool_block_size bs * cap) = (h2, r)"
        by fastforce
      have "\<not> unat (sizeof_kpool + 8) < 8" by (simp add: sizeof_kpool_def)
      then show ?thesis
        using assms(1) False m1 Some m2 malloc_rollback [OF assms(2)]
        by (auto simp: kpool_create_def Let_def split: option.splits prod.splits)
    qed
  qed
  then show "live h' = live h" and "mem_used h' = mem_used h" and "fault h' = fault h"
    by simp_all
qed

lemma kpool_destroy_blocks:
  assumes "heap_ok h" and "kpool_create h bs cap = (h', Some p)"
    and "kp_self q = kp_self p" and "memory_block q = memory_block p"
  shows "live (kpool_destroy h' (Some q)) = live h"
    and "mem_used (kpool_destroy h' (Some q)) = mem_used h"
    and "fault (kpool_destroy h' (Some q)) = fault h'"
proof -
  note b = kpool_create_blocks [OF assms(2,1)]
  let ?n = "kpool_block_size bs * cap"
  have ne: "kp_self p \<noteq> memory_block p" using b(2,3) by simp
  have new: "memory_block p \<notin> fst ` set (live h)" "kp_self p \<notin> fst ` set (live h)"
    using heap_okD(2) [OF assms(1), of "memory_block p"] heap_okD(4) [OF assms(1)] b(2,3)
    by auto
  show "live (kpool_destroy h' (Some q)) = live h"
    and "mem_used (kpool_destroy h' (Some q)) = mem_used h"
    and "fault (kpool_destroy h' (Some q)) = fault h'"
    using ne new b(4) assms(3,4)
    by (simp_all add: kpool_destroy_def cdsa_free_track_def b(1) filter_fst_absent)
qed

section \<open>Properties\<close>

text \<open>
  C10: a block the pool hands out is one its client does not hold: in every state
  reachable from \<open>kpool_create\<close> by allocations and releases of held blocks, \<open>kpool_alloc\<close>
  returns a block inside the slab that overlaps none of the outstanding blocks and lies a multiple of
  8 bytes behind the start of the slab (so it is aligned when the slab is), and it returns NULL only when all \<open>capacity\<close> blocks are outstanding.
\<close>

theorem kpool_alloc_exclusive:
  assumes "kpool_create h bs cap = (h', Some p0)"
    and "unat bs + 16 < 2 ^ 64" and "(unat bs + 16) * unat cap + 8 < 2 ^ 64"
    and "pool_step\<^sup>*\<^sup>* (Some p0, []) (Some p, out)"
    and "kpool_alloc (Some p) = (q, r)"
  shows "case r of
      None \<Rightarrow> length out = unat cap
    | Some b \<Rightarrow> b \<notin> set out \<and> 8 dvd unat b \<and>
        unat b + unat (block_size p) \<le> slab_len p \<and>
        (\<forall>a \<in> set out. unat a + unat (block_size p) \<le> unat b \<or>
                        unat b + unat (block_size p) \<le> unat a)"
proof -
  from pool_reachable_inv [OF assms(4) kpool_create_inv [OF assms(1-3)]]
  have inv: "pool_inv cap (kpool_block_size bs) (Some p, out)" .
  then obtain fs where fs: "kp_repr p fs" "distinct (fs @ out)"
    "set (fs @ out) = pool_blocks (Some p)"
    by (auto simp: pool_inv_def pool_repr_def)
  then have repr: "pool_repr (Some p) fs" by (simp add: pool_repr_def)
  show ?thesis
  proof (cases r)
    case None
    then show ?thesis
      using slab.alloc_none [OF repr] assms(5) pool_inv_counts [OF inv fs(1)] by auto
  next
    case (Some b)
    note a = slab.alloc_partition [OF repr fs(2,3) assms(5) [unfolded Some]]
    then have b: "b \<in> set (kp_blocks p)" by (simp add: pool_blocks_def)
    have "a \<in> set (kp_blocks p)" if "a \<in> set out" for a
      using that fs(3) by (auto simp: pool_blocks_def)
    then show ?thesis
      using Some a(2) kp_block_inside [OF fs(1) b] kp_blocks_disjoint [OF fs(1) _ b]
      by fastforce
  qed
qed

theorem kpool_alloc_exclusive_witness:
  "let p = the (snd (kpool_create good_heap 20 3));
       (q, r) = kpool_alloc (Some p)
   in block_size p = 24 \<and> slab_len p = 72 \<and>
      (\<exists>b. r = Some b \<and> b \<notin> set [] \<and> 8 dvd unat b \<and> unat b + 24 \<le> 72)"
proof -
  define p where "p = the (snd (kpool_create good_heap 20 3))"
  have two: "kpool_wire 24 72 2 0 0 (\<lambda>_. None) False = ([0 \<mapsto> 24, 24 \<mapsto> 48](48 := None), False)"
    unfolding numeral_2_eq_2 by (simp add: Let_def)
  have p: "p = \<lparr>kp_self = 0, block_size = 24, kp_capacity = 3, memory_block = 1, slab_len = 72,
      next_of = (\<lambda>_. None)(0 := Some 24, 24 := Some 48, 48 := None), free_list = Some 0\<rparr>"
    by (simp add: p_def kpool_create_def cdsa_malloc_track_def
        kpool_block_size_def sizeof_kpool_def sizeof_kpool_node_def user_len_def Let_def two)
  have create: "kpool_create good_heap 20 3 = (fst (kpool_create good_heap 20 3), Some p)"
    by (simp add: p_def kpool_create_def cdsa_malloc_track_def Let_def
        split: prod.splits)
  have alloc: "kpool_alloc (Some p) = (Some (p\<lparr>free_list := Some 24\<rparr>), Some 0)"
    by (simp add: kpool_alloc_def p)
  show ?thesis
    using kpool_alloc_exclusive [OF create _ _ rtranclp.rtrancl_refl alloc] p alloc
    by (simp add: p_def [symmetric] Let_def)
qed

text \<open>
  C25: a pool leaks nothing: whatever its client allocated and released in between,
  \<open>kpool_destroy\<close> returns the tracked heap to the state before \<open>kpool_create\<close>, and frees no
  block twice.
\<close>

theorem kpool_lifetime_no_leak:
  assumes "heap_ok h" and "kpool_create h bs cap = (h', Some p0)"
    and "pool_step\<^sup>*\<^sup>* (Some p0, []) (q, out)"
  shows "live (kpool_destroy h' q) = live h \<and> mem_used (kpool_destroy h' q) = mem_used h \<and>
    fault (kpool_destroy h' q) = fault h'"
proof -
  obtain p where q: "q = Some p" and p: "kp_self p = kp_self p0" "memory_block p = memory_block p0"
    using pool_reachable_blocks [OF assms(3)] by (cases q) auto
  then show ?thesis using kpool_destroy_blocks [OF assms(1,2) p] by simp
qed

text \<open>The hypotheses hold for a pool of three blocks with one of them handed out.\<close>

theorem kpool_lifetime_no_leak_witness:
  "let (h', p) = kpool_create good_heap 20 3; q = fst (kpool_alloc p)
   in length (live h') = 2 \<and> mem_used h' = 104 \<and> live (kpool_destroy h' q) = [] \<and>
      mem_used (kpool_destroy h' q) = 0"
proof -
  define h' where "h' = fst (kpool_create good_heap 20 3)"
  define p where "p = the (snd (kpool_create good_heap 20 3))"
  have create: "kpool_create good_heap 20 3 = (h', Some p)"
    and h': "length (live h') = 2" "mem_used h' = 104"
    by (simp_all add: h'_def p_def kpool_create_def cdsa_malloc_track_def
        kpool_block_size_def sizeof_kpool_def sizeof_kpool_node_def set_fault_def Let_def
        split: prod.splits)
  obtain q b where "kpool_alloc (Some p) = (q, Some b)"
    using slab.alloc_next kpool_create_repr(1) [OF create] kpool_create_inv [OF create]
    by (simp add: p_def kpool_create_def cdsa_malloc_track_def kpool_alloc_def
        Let_def split: prod.splits)
  then have "pool_step (Some p, []) (q, [b])" by (rule pool_step.take)
  then have "pool_step\<^sup>*\<^sup>* (Some p, []) (q, [b])" by (rule r_into_rtranclp)
  from kpool_lifetime_no_leak [OF _ create this]
  show ?thesis
    using h' \<open>kpool_alloc (Some p) = (q, Some b)\<close> by (simp add: create)
qed

text \<open>
  C39: the product \<open>block_size * capacity\<close> is not checked: for 2 ^ 32 blocks of 2 ^ 32
  bytes it wraps to 0, the slab is an empty block, and the wiring loop writes outside it while
  \<open>kpool_create\<close> reports success.
\<close>

theorem kpool_create_size_wraps:
  "(case kpool_create good_heap (2 ^ 32) (2 ^ 32) of
      (h, Some p) \<Rightarrow> fault h \<and> slab_len p = 0
    | (h, None) \<Rightarrow> False)"
proof -
  have k: "kpool_wire bs 0 k i 0 nx False = (nx', bad) \<Longrightarrow> bad" for bs k i nx nx' bad
    using kpool_wire_fault by (cases k) (auto simp: Let_def, metis snd_conv)
  show ?thesis
    using k by (auto simp: kpool_create_def cdsa_malloc_track_def
        kpool_block_size_def sizeof_kpool_def sizeof_kpool_node_def user_len_def set_fault_def
        Let_def split: prod.splits)
qed

end
