(* ===== verification/Arena.thy ===== *)
theory Arena
  imports Tracking_Heap
begin

unbundle bit_operations_syntax

text \<open>
  The bump allocator of \<^verbatim>\<open>src/allocator.c\<close>.  All arithmetic is on 64-bit words, as the code's
  \<open>uintptr_t\<close> and \<open>size_t\<close> are; an allocation is named by its machine address.
\<close>

section \<open>State and operations\<close>

record arena =
  ar_self :: block_id
  ar_capacity :: size_t
  ar_offset :: size_t
  ar_buffer :: block_id
  ar_base :: size_t \<comment> \<open>\<open>(uintptr_t)arena->buffer\<close>\<close>

definition sizeof_arena :: size_t where "sizeof_arena = 24"

text \<open>\<open>ALIGN_FORWARD(x, 8)\<close>\<close>

definition align_forward :: "size_t \<Rightarrow> size_t \<Rightarrow> size_t" where
  "align_forward x align = (x + (align - 1)) AND NOT (align - 1)"

definition arena_create :: "heap \<Rightarrow> size_t \<Rightarrow> heap \<times> arena option" where
  "arena_create h capacity =
     (if capacity = 0 then (h, None)
      else
        let (h1, arena) = cdsa_malloc_track h sizeof_arena
        in case arena of
             None \<Rightarrow> (h1, None)
           | Some self \<Rightarrow>
               let (h2, buffer) = cdsa_malloc_track h1 capacity
               in case buffer of
                    None \<Rightarrow> (cdsa_free_track h2 (Some self), None)
                  | Some buf \<Rightarrow>
                      (h2, Some \<lparr>ar_self = self, ar_capacity = capacity, ar_offset = 0,
                                 ar_buffer = buf, ar_base = libc_addr h2 buf + 8\<rparr>))"

definition arena_alloc :: "arena option \<Rightarrow> size_t \<Rightarrow> arena option \<times> size_t option" where
  "arena_alloc arena n =
     (case arena of
        None \<Rightarrow> (None, None)
      | Some a \<Rightarrow>
          if n = 0 then (Some a, None)
          else
            let current_addr = ar_base a + ar_offset a;
                aligned_addr = align_forward current_addr 8;
                padding = aligned_addr - current_addr
            in if ar_offset a + padding + n > ar_capacity a then (Some a, None)
               else (Some (a\<lparr>ar_offset := ar_offset a + (padding + n)\<rparr>), Some aligned_addr))"

definition arena_reset :: "arena option \<Rightarrow> arena option" where
  "arena_reset arena = map_option (\<lambda>a. a\<lparr>ar_offset := 0\<rparr>) arena"

definition arena_destroy :: "heap \<Rightarrow> arena option \<Rightarrow> heap" where
  "arena_destroy h arena =
     (case arena of
        None \<Rightarrow> h
      | Some a \<Rightarrow> cdsa_free_track (cdsa_free_track h (Some (ar_buffer a))) (Some (ar_self a)))"

text \<open>A client's run: the addresses returned for a list of request sizes, NULLs included.\<close>

fun arena_allocs :: "arena option \<Rightarrow> size_t list \<Rightarrow> arena option \<times> size_t option list" where
  "arena_allocs a [] = (a, [])"
| "arena_allocs a (n # ns) =
     (let (a1, r) = arena_alloc a n; (a2, rs) = arena_allocs a1 ns in (a2, r # rs))"

section \<open>Alignment\<close>

lemma and_not_7: "(x :: size_t) AND NOT 7 = x - x mod 8"
proof -
  have "x mod 8 = x AND 7"
    using take_bit_eq_mask [of 3 x] by (simp add: take_bit_eq_mod mask_eq_exp_minus_1)
  moreover have "(x AND NOT 7) + (x AND 7) = (x AND NOT 7) OR (x AND 7)"
    by (rule disjunctive_add) (auto simp: bit_simps)
  moreover have "(x AND NOT 7) OR (x AND 7) = x"
    by (rule bit_word_eqI) (auto simp: bit_simps)
  ultimately show ?thesis by (simp add: eq_diff_eq)
qed

lemma unat_and_not_7: "unat ((x :: size_t) AND - 8) = 8 * (unat x div 8)"
proof -
  have "unat (x mod 8) = unat x mod 8" by (simp add: unat_size_t_mod)
  moreover have "unat x mod 8 \<le> unat x" by simp
  ultimately have "unat (x - x mod 8) = unat x - unat x mod 8" by (subst unat_size_t_sub) auto
  then have "unat (x - x mod 8) = 8 * (unat x div 8)"
    by (simp only: minus_mod_eq_mult_div)
  moreover have "x AND - 8 = x - x mod 8" using and_not_7 [of x] by simp
  ultimately show ?thesis by (simp only:)
qed

text \<open>Aligning moves an address up by at most 7 bytes, to a multiple of 8.\<close>

lemma unat_align_forward:
  assumes "unat x + 7 < size_bound"
  shows "8 dvd unat (align_forward x 8)" and "unat x \<le> unat (align_forward x 8)"
    and "unat (align_forward x 8) \<le> unat x + 7"
proof -
  have "unat (x + 7) = unat x + 7" using assms by (subst unat_size_t_add) auto
  then have "unat (align_forward x 8) = 8 * ((unat x + 7) div 8)"
    by (simp add: align_forward_def unat_and_not_7)
  then show "8 dvd unat (align_forward x 8)" and "unat x \<le> unat (align_forward x 8)"
    and "unat (align_forward x 8) \<le> unat x + 7"
    by simp_all
qed

section \<open>The arena invariant\<close>

text \<open>The offset is inside the buffer and the buffer, with one alignment step, inside memory.\<close>

definition arena_ok :: "arena \<Rightarrow> bool" where
  "arena_ok a \<longleftrightarrow> unat (ar_offset a) \<le> unat (ar_capacity a) \<and>
     unat (ar_base a) + unat (ar_capacity a) + 7 < size_bound"

text \<open>The first byte of the arena that is still free, as an address.\<close>

definition arena_top :: "arena \<Rightarrow> nat" where
  "arena_top a = unat (ar_base a) + unat (ar_offset a)"

text \<open>
  One allocation, when the request itself does not wrap: it returns an aligned range above
  everything allocated before and inside the buffer, and it refuses only what does not fit.
\<close>

lemma arena_alloc_cases:
  assumes "arena_ok a" and "unat (ar_offset a) + 7 + unat n < size_bound" and "n \<noteq> 0"
  obtains (full) "arena_alloc (Some a) n = (Some a, None)"
      and "unat (ar_capacity a) < unat (ar_offset a) + 7 + unat n"
  | (fits) a' addr where "arena_alloc (Some a) n = (Some a', Some addr)"
      and "arena_ok a'" and "8 dvd unat addr" and "arena_top a \<le> unat addr"
      and "unat addr + unat n = arena_top a'"
      and "ar_base a' = ar_base a" and "ar_capacity a' = ar_capacity a"
      and "ar_self a' = ar_self a" and "ar_buffer a' = ar_buffer a"
      and "unat addr \<le> arena_top a + 7"
proof -
  define cur where "cur = ar_base a + ar_offset a"
  define al where "al = align_forward cur 8"
  have cur: "unat cur = arena_top a"
    using assms(1) by (simp add: cur_def arena_top_def arena_ok_def unat_size_t_add)
  have "unat cur + 7 < size_bound"
    using assms(1) cur by (simp add: arena_top_def arena_ok_def)
  note al = unat_align_forward [OF this, folded al_def]
  have pad: "unat (al - cur) = unat al - unat cur" using al(2) by (rule unat_size_t_sub)
  have pad7: "unat (al - cur) \<le> 7" using pad al(3) by simp
  have sum1: "unat (ar_offset a + (al - cur)) = unat (ar_offset a) + unat (al - cur)"
    using pad7 assms(2) by (intro unat_size_t_add) simp
  have sum: "unat (ar_offset a + (al - cur) + n) = unat (ar_offset a) + unat (al - cur) + unat n"
    using pad7 assms(2) sum1 by (subst unat_size_t_add) auto
  have alloc: "arena_alloc (Some a) n =
      (if ar_offset a + (al - cur) + n > ar_capacity a then (Some a, None)
       else (Some (a\<lparr>ar_offset := ar_offset a + (al - cur + n)\<rparr>), Some al))"
    using assms(3) by (simp add: arena_alloc_def Let_def cur_def al_def)
  show thesis
  proof (cases "ar_offset a + (al - cur) + n > ar_capacity a")
    case True
    then show thesis
      using alloc sum pad7 by (intro full) (auto simp: size_t_less_iff)
  next
    case False
    let ?a = "a\<lparr>ar_offset := ar_offset a + (al - cur + n)\<rparr>"
    have off: "unat (ar_offset ?a) = unat (ar_offset a) + (unat al - unat cur) + unat n"
      using sum pad by (simp add: add.assoc)
    show thesis
    proof (rule fits)
      show "arena_alloc (Some a) n = (Some ?a, Some al)" using alloc False by simp
      show "arena_ok ?a"
        using assms(1) False off sum pad by (simp add: arena_ok_def size_t_less_iff)
      show "8 dvd unat al" by (rule al(1))
      show "arena_top a \<le> unat al" using al(2) cur by simp
      show "unat al + unat n = arena_top ?a"
        using off al(2) cur by (simp add: arena_top_def)
      show "unat al \<le> arena_top a + 7" using al(3) cur by simp
    qed simp_all
  qed
qed

text \<open>A request so large that the bound check wraps.\<close>

lemma arena_alloc_wraps:
  assumes "arena_ok a" and "size_bound \<le> unat (ar_offset a) + unat n" and "unat n + 15 \<le> size_bound"
  obtains a' addr where "arena_alloc (Some a) n = (Some a', Some addr)" and "arena_ok a'"
    and "arena_top a \<le> unat addr" and "unat addr \<le> arena_top a + 7"
    and "arena_top a' + size_bound = unat addr + unat n"
    and "ar_base a' = ar_base a" and "ar_capacity a' = ar_capacity a"
proof -
  define cur where "cur = ar_base a + ar_offset a"
  define al where "al = align_forward cur 8"
  have cur: "unat cur = arena_top a"
    using assms(1) by (simp add: cur_def arena_top_def arena_ok_def unat_size_t_add)
  have "unat cur + 7 < size_bound"
    using assms(1) cur by (simp add: arena_top_def arena_ok_def)
  note al = unat_align_forward [OF this, folded al_def]
  have pad: "unat (al - cur) = unat al - unat cur" using al(2) by (rule unat_size_t_sub)
  have pad7: "unat (al - cur) \<le> 7" using pad al(3) by simp
  have sum1: "unat (al - cur + n) = unat (al - cur) + unat n"
    using pad7 assms(3) by (intro unat_size_t_add) simp
  have "unat (ar_offset a + (al - cur + n)) + size_bound = unat (ar_offset a) + unat (al - cur) + unat n"
    using unat_size_t_add_wraps [of "ar_offset a" "al - cur + n"] sum1 assms(2) by simp
  moreover define a' where "a' = a\<lparr>ar_offset := ar_offset a + (al - cur + n)\<rparr>"
  ultimately have off: "unat (ar_offset a') + size_bound = unat (ar_offset a) + (unat al - unat cur) + unat n"
    using pad by simp
  have small: "unat (ar_offset a') + 8 \<le> unat (ar_offset a)" using off pad pad7 assms(3) by linarith
  have cap: "unat (ar_offset a) \<le> unat (ar_capacity a)" using assms(1) by (simp add: arena_ok_def)
  have "\<not> ar_offset a + (al - cur) + n > ar_capacity a"
    using small cap by (simp add: a'_def size_t_less_iff add.assoc)
  moreover have "n \<noteq> 0" using assms(2) unat_size_t_lt [of "ar_offset a"] by auto
  ultimately have alloc: "arena_alloc (Some a) n = (Some a', Some al)"
    by (simp add: arena_alloc_def Let_def cur_def al_def a'_def)
  show thesis
  proof (rule that [OF alloc])
    show "arena_ok a'" using assms(1) small by (simp add: arena_ok_def a'_def)
    show "arena_top a \<le> unat al" "unat al \<le> arena_top a + 7" using al(2,3) cur by simp_all
    show "arena_top a' + size_bound = unat al + unat n"
      using off al(2) cur by (simp add: arena_top_def a'_def)
  qed (simp_all add: a'_def)
qed

lemma arena_alloc_zero: "arena_alloc (Some a) 0 = (Some a, None)"
  by (simp add: arena_alloc_def)

text \<open>The ranges a run hands out, in order.\<close>

definition arena_ranges :: "size_t list \<Rightarrow> size_t option list \<Rightarrow> (nat \<times> nat) list" where
  "arena_ranges ns rs =
     [(unat (the r), unat (the r) + unat n). (n, r) \<leftarrow> zip ns rs, r \<noteq> None]"

lemma arena_ranges_simps [simp]:
  "arena_ranges [] rs = []"
  "arena_ranges (n # ns) (None # rs) = arena_ranges ns rs"
  "arena_ranges (n # ns) (Some a # rs) = (unat a, unat a + unat n) # arena_ranges ns rs"
  by (simp_all add: arena_ranges_def)

lemma arena_allocs_sorted:
  assumes "arena_ok a" and "\<forall>n \<in> set ns. unat (ar_capacity a) + 7 + unat n < size_bound"
    and "arena_allocs (Some a) ns = (b, rs)"
  shows "\<exists>a'. b = Some a' \<and> arena_ok a' \<and> ar_base a' = ar_base a \<and>
      ar_capacity a' = ar_capacity a \<and> arena_top a \<le> arena_top a' \<and>
      (\<forall>(lo, hi) \<in> set (arena_ranges ns rs).
         arena_top a \<le> lo \<and> lo < hi \<and> hi \<le> arena_top a' \<and> 8 dvd lo) \<and>
      sorted_wrt (\<lambda>r s. snd r \<le> fst s) (arena_ranges ns rs)"
  using assms
proof (induction ns arbitrary: a rs b)
  case Nil
  then show ?case by auto
next
  case (Cons n ns)
  obtain c r where one: "arena_alloc (Some a) n = (c, r)" by fastforce
  obtain rs' where rest: "arena_allocs c ns = (b, rs')" and rs: "rs = r # rs'"
    using Cons.prems(3) one by (auto split: prod.splits)
  consider (none) "r = None" "c = Some a"
    | (some) a1 addr where "r = Some addr" "c = Some a1" "arena_ok a1" "8 dvd unat addr"
        "arena_top a \<le> unat addr" "unat addr + unat n = arena_top a1" "0 < unat n"
        "ar_base a1 = ar_base a" "ar_capacity a1 = ar_capacity a"
  proof (cases "n = 0")
    case True
    then show thesis using none one by (simp add: arena_alloc_zero)
  next
    case False
    have "unat (ar_offset a) + 7 + unat n < size_bound"
      using Cons.prems(1,2) by (simp add: arena_ok_def)
    from Cons.prems(1) this False show thesis
    proof (cases rule: arena_alloc_cases)
      case full
      then show thesis using none one by simp
    next
      case (fits a' addr)
      then show thesis using some one False by (auto simp: size_t_zero_iff)
    qed
  qed
  then show ?case
  proof cases
    case none
    then show ?thesis using Cons.IH [OF Cons.prems(1) _ rest [unfolded none(2)]] Cons.prems(2) rs
      by simp
  next
    case some
    have "\<forall>n \<in> set ns. unat (ar_capacity a1) + 7 + unat n < size_bound"
      using Cons.prems(2) some(9) by simp
    from Cons.IH [OF some(3) this rest [unfolded some(2)]] obtain a' where
      a': "b = Some a'" "arena_ok a'" "ar_base a' = ar_base a" "ar_capacity a' = ar_capacity a"
        "arena_top a1 \<le> arena_top a'"
      and ranges: "\<forall>(lo, hi) \<in> set (arena_ranges ns rs').
         arena_top a1 \<le> lo \<and> lo < hi \<and> hi \<le> arena_top a' \<and> 8 dvd lo"
      and sorted: "sorted_wrt (\<lambda>r s. snd r \<le> fst s) (arena_ranges ns rs')"
      using some(8,9) by auto
    have up: "arena_top a \<le> arena_top a1" using some(5,6) by simp
    show ?thesis
      using a' up ranges sorted some by (fastforce simp: rs)
  qed
qed

section \<open>Creation and teardown\<close>

lemma arena_createE:
  assumes "arena_create h cap = (h', Some a)"
  obtains h1 where "cap \<noteq> 0" and "cdsa_malloc_track h sizeof_arena = (h1, Some (ar_self a))"
    and "cdsa_malloc_track h1 cap = (h', Some (ar_buffer a))"
    and "ar_capacity a = cap" and "ar_offset a = 0"
    and "ar_base a = libc_addr h (ar_buffer a) + 8"
proof -
  obtain h1 p where m: "cdsa_malloc_track h sizeof_arena = (h1, p)" by fastforce
  with assms obtain q where "p = Some q"
    by (auto simp: arena_create_def split: if_splits option.splits)
  note a = malloc_Some(9) [OF m [unfolded this]]
  obtain h2 r where m2: "cdsa_malloc_track h1 cap = (h2, r)" by fastforce
  with assms m \<open>p = Some q\<close> obtain s where "r = Some s"
    by (auto simp: arena_create_def split: if_splits option.splits)
  note b = malloc_Some(9) [OF m2 [unfolded this]]
  show thesis
    using assms m m2 \<open>p = Some q\<close> \<open>r = Some s\<close> a b
    by (intro that) (auto simp: arena_create_def split: if_splits)
qed

lemma arena_create_ok:
  assumes "arena_create h cap = (h', Some a)"
    and "unat (libc_addr h (ar_buffer a)) + unat cap + 15 < size_bound"
  shows "arena_ok a"
proof -
  from assms(1) have base: "ar_base a = libc_addr h (ar_buffer a) + 8"
    and cap: "ar_capacity a = cap" "ar_offset a = 0"
    by (auto elim: arena_createE)
  have "unat (ar_base a) = unat (libc_addr h (ar_buffer a)) + 8"
    using assms(2) base by (simp add: unat_size_t_add)
  then show ?thesis using assms(2) cap by (simp add: arena_ok_def)
qed

lemma arena_destroy_blocks:
  assumes "heap_ok h" and "arena_create h cap = (h', Some a)"
    and "ar_self b = ar_self a" and "ar_buffer b = ar_buffer a"
  shows "live (arena_destroy h' (Some b)) = live h"
    and "mem_used (arena_destroy h' (Some b)) = mem_used h"
    and "fault (arena_destroy h' (Some b)) = fault h'"
proof -
  from assms(2) obtain h1 where
    m1: "cdsa_malloc_track h sizeof_arena = (h1, Some (ar_self a))" and
    m2: "cdsa_malloc_track h1 cap = (h', Some (ar_buffer a))"
    by (rule arena_createE)
  note a = malloc_Some [OF m1] and b = malloc_Some [OF m2]
  have "ar_buffer a \<notin> fst ` set (live h)" "ar_self a \<notin> fst ` set (live h)"
    using heap_okD(2) [OF assms(1), of "ar_buffer a"] heap_okD(4) [OF assms(1)] a b by auto
  then show "live (arena_destroy h' (Some b)) = live h"
    and "mem_used (arena_destroy h' (Some b)) = mem_used h"
    and "fault (arena_destroy h' (Some b)) = fault h'"
    using a(1-4) b(1-3) assms(3,4)
    by (simp_all add: arena_destroy_def cdsa_free_track_def filter_fst_absent)
qed

section \<open>Properties\<close>

text \<open>
  C12: the allocations a run obtains from an arena are 8-byte aligned, lie inside the buffer
  and do not overlap: each begins at or after the end of the one before.  The buffer must not
  reach the end of the address space, and no request may be so large that
  \<open>offset + padding + size\<close> wraps.
\<close>

theorem arena_allocations_disjoint:
  assumes "arena_create h cap = (h', Some a)"
    and "unat (libc_addr h (ar_buffer a)) + unat cap + 15 < 2 ^ 64"
    and "\<forall>n \<in> set ns. unat cap + 7 + unat n < 2 ^ 64"
    and "arena_allocs (Some a) ns = (b, rs)"
  shows "(\<forall>(lo, hi) \<in> set (arena_ranges ns rs).
        unat (ar_base a) \<le> lo \<and> lo < hi \<and> hi \<le> unat (ar_base a) + unat cap \<and> 8 dvd lo) \<and>
      sorted_wrt (\<lambda>r s. snd r \<le> fst s) (arena_ranges ns rs)"
proof -
  have a: "ar_capacity a = cap" "ar_offset a = 0" using assms(1) by (auto elim: arena_createE)
  from arena_allocs_sorted [OF arena_create_ok [OF assms(1,2)] _ assms(4)] assms(3) a
  obtain a' where a': "arena_ok a'" "ar_base a' = ar_base a" "ar_capacity a' = cap"
    and ranges: "\<forall>(lo, hi) \<in> set (arena_ranges ns rs).
      arena_top a \<le> lo \<and> lo < hi \<and> hi \<le> arena_top a' \<and> 8 dvd lo"
    and sorted: "sorted_wrt (\<lambda>r s. snd r \<le> fst s) (arena_ranges ns rs)"
    by auto
  have "arena_top a = unat (ar_base a)" "arena_top a' \<le> unat (ar_base a) + unat cap"
    using a a' by (simp_all add: arena_top_def arena_ok_def)
  then show ?thesis using ranges sorted by fastforce
qed

text \<open>The test's arena of 1024 bytes, with requests of 13 and 4 bytes and one that does not fit.\<close>

theorem arena_allocations_disjoint_witness:
  "let a = the (snd (arena_create good_heap 1024));
       rs = snd (arena_allocs (Some a) [13, 4, 2000])
   in rs = [Some 8200, Some 8216, None] \<and>
      (\<forall>r. r \<in> set (arena_ranges [13, 4, 2000] rs) \<longrightarrow> 8200 \<le> fst r \<and> snd r \<le> 9224)"
proof -
  define a where "a = the (snd (arena_create good_heap 1024))"
  have a: "a = \<lparr>ar_self = 0, ar_capacity = 1024, ar_offset = 0, ar_buffer = 1, ar_base = 8200\<rparr>"
    by (simp add: a_def arena_create_def cdsa_malloc_track_def sizeof_arena_def)
  have c: "arena_create good_heap 1024 = (fst (arena_create good_heap 1024), Some a)"
    by (simp add: a_def arena_create_def cdsa_malloc_track_def sizeof_arena_def)
  have rs: "arena_allocs (Some a) [13, 4, 2000] =
      (Some (a\<lparr>ar_offset := 20\<rparr>), [Some 8200, Some 8216, None])"
    by (simp add: a arena_alloc_def align_forward_def Let_def)
  show ?thesis
    unfolding a_def [symmetric] Let_def rs snd_conv
    using arena_allocations_disjoint [OF c _ _ rs] by (auto simp: a)
qed

text \<open>
  C40: the bound check of \<open>arena_alloc\<close> wraps.  After a block of \<open>k\<close> bytes has been handed out, any
  request of \<open>2 ^ 64 - k\<close> to \<open>2 ^ 64 - 15\<close> bytes is granted although its range leaves the buffer, and
  it moves the offset backwards: whatever is requested next, if it fits, is served from inside the
  block of \<open>k\<close> bytes, which is still in use.
\<close>

theorem arena_alloc_size_wraps:
  assumes "arena_ok a" and "unat (ar_offset a) + 7 + unat k < 2 ^ 64"
    and "arena_alloc (Some a) k = (Some b, Some p)"
    and "2 ^ 64 \<le> unat k + unat n" and "unat n + 15 \<le> 2 ^ 64"
  shows "\<exists>c q. arena_alloc (Some b) n = (Some c, Some q) \<and>
    unat (ar_base a) + unat (ar_capacity a) < unat q + unat n \<and> ar_offset c < ar_offset b \<and>
    (\<forall>l. l \<noteq> 0 \<and> unat (ar_offset c) + 7 + unat l \<le> unat (ar_capacity a) \<longrightarrow>
      (\<exists>d r. arena_alloc (Some c) l = (Some d, Some r) \<and> unat p \<le> unat r \<and> unat r < unat p + unat k))"
proof -
  have "k \<noteq> 0" using assms(4,5) by auto
  from assms(1,2) this obtain b: "arena_ok b" "unat p + unat k = arena_top b" "arena_top a \<le> unat p"
      "ar_base b = ar_base a" "ar_capacity b = ar_capacity a"
    by (rule arena_alloc_cases) (use assms(3) in auto)
  have off: "unat k \<le> unat (ar_offset b)" using b(2-4) by (simp add: arena_top_def)
  then have "size_bound \<le> unat (ar_offset b) + unat n" using assms(4) by simp
  from b(1) this assms(5) obtain c q where
    c: "arena_alloc (Some b) n = (Some c, Some q)" "arena_ok c" "arena_top b \<le> unat q"
      "unat q \<le> arena_top b + 7" "arena_top c + size_bound = unat q + unat n"
      "ar_base c = ar_base b" "ar_capacity c = ar_capacity b"
    by (rule arena_alloc_wraps)
  have top: "unat p \<le> arena_top c" "arena_top c + 8 \<le> unat p + unat k"
    using c(3-5) b(2) assms(4,5) by linarith+
  have "arena_top c < arena_top b" using top(2) b(2) by linarith
  then have lower: "ar_offset c < ar_offset b" using c(6) by (simp add: arena_top_def size_t_less_iff)
  have "unat (ar_base a) + unat (ar_capacity a) + 7 < size_bound" using assms(1) by (simp add: arena_ok_def)
  then have outside: "unat (ar_base a) + unat (ar_capacity a) < unat q + unat n" using c(5) by linarith
  have next_in: "\<exists>d r. arena_alloc (Some c) l = (Some d, Some r) \<and> unat p \<le> unat r \<and> unat r < unat p + unat k"
    if l: "l \<noteq> 0" "unat (ar_offset c) + 7 + unat l \<le> unat (ar_capacity a)" for l
  proof -
    have "unat (ar_offset c) + 7 + unat l < size_bound"
      using l(2) unat_size_t_lt [of "ar_capacity a"] by linarith
    from c(2) this l(1) show ?thesis
    proof (cases rule: arena_alloc_cases)
      case full
      then show ?thesis using l(2) b(5) c(7) by simp
    next
      case (fits d r)
      then show ?thesis using top by auto
    qed
  qed
  show ?thesis using next_in c(1) outside lower by blast
qed

text \<open>On an arena of 64 bytes: 16 bytes, a request of \<open>2 ^ 64 - 16\<close>, then 8 bytes inside the 16.\<close>

theorem arena_alloc_size_wraps_witness:
  "\<exists>a b c q d r. arena_create good_heap 64 = (fst (arena_create good_heap 64), Some a) \<and>
     arena_alloc (Some a) 16 = (Some b, Some 8200) \<and>
     arena_alloc (Some b) 0xFFFFFFFFFFFFFFF0 = (Some c, Some q) \<and>
     arena_alloc (Some c) 8 = (Some d, Some r) \<and> 8200 \<le> unat r \<and> unat r < 8216"
proof -
  define a where "a = \<lparr>ar_self = 0, ar_capacity = 64, ar_offset = 0, ar_buffer = 1, ar_base = 8200\<rparr>"
  have c: "arena_create good_heap 64 = (fst (arena_create good_heap 64), Some a)"
    by (simp add: a_def arena_create_def cdsa_malloc_track_def sizeof_arena_def)
  have ok: "arena_ok a" by (simp add: a_def arena_ok_def)
  obtain b where b: "arena_alloc (Some a) 16 = (Some b, Some 8200)"
    by (simp add: a_def arena_alloc_def align_forward_def Let_def)
  have "unat (ar_offset a) + 7 + unat (16 :: size_t) < 2 ^ 64" by (simp add: a_def)
  from arena_alloc_size_wraps [OF ok this b, of "0xFFFFFFFFFFFFFFF0"] obtain e q where
    e: "arena_alloc (Some b) 0xFFFFFFFFFFFFFFF0 = (Some e, Some q)" "ar_offset e < ar_offset b"
      "\<forall>l. l \<noteq> 0 \<and> unat (ar_offset e) + 7 + unat l \<le> unat (ar_capacity a) \<longrightarrow>
        (\<exists>d r. arena_alloc (Some e) l = (Some d, Some r) \<and> unat (8200 :: size_t) \<le> unat r \<and>
          unat r < unat (8200 :: size_t) + unat (16 :: size_t))"
    by auto
  have "unat (ar_offset b) = 16"
    using b by (auto simp: a_def arena_alloc_def align_forward_def Let_def)
  then have "unat (ar_offset e) + 7 + unat (8 :: size_t) \<le> unat (ar_capacity a)"
    using e(2) by (simp add: a_def size_t_less_iff)
  then obtain d r where "arena_alloc (Some e) 8 = (Some d, Some r)" "8200 \<le> unat r" "unat r < 8216"
    using e(3) [rule_format, of 8] by auto
  with c b e(1) show ?thesis by blast
qed

end
