(* ===== verification/Interfaces.thy ===== *)
theory Interfaces
  imports Status
begin

text \<open>
  The contracts between the components, as locales: the iterator contract all containers share
  and the growing array the stack and the priority queue are built on.  Each is
  interpreted on the model in the theory of the component that provides it.
\<close>

section \<open>Fail-fast iterators\<close>

text \<open>
  The iterator contract the containers share: an iterator takes a snapshot of its container's
  version when it is created; while the versions agree it yields what is left, one element per
  call, and afterwards it fails fast with \<open>CDSA_ERR_ITER_INVALIDATED\<close>.

  \<open>has_next\<close> may move the iterator (the one of the hash map skips empty slots), so it returns the
  iterator too.  \<open>rest c i\<close> is what \<open>i\<close> has still to yield on \<open>c\<close>.
\<close>

text \<open>
  The client's loop \<open>while (has_next(it)) status = next(it, &out);\<close>: where the iterator is left and
  what every call of \<open>next\<close> answered.  \<open>None\<close> is a loop that does not end; nothing but the answer of
  \<open>has_next\<close> ends it.
\<close>

partial_function (option) drain :: "('c \<Rightarrow> 'i \<Rightarrow> 'i \<times> bool) \<Rightarrow>
    ('c \<Rightarrow> 'i \<Rightarrow> 'i \<times> cdsa_status \<times> 'o option) \<Rightarrow> 'c \<Rightarrow> 'i \<Rightarrow>
    ('i \<times> (cdsa_status \<times> 'o option) list) option" where
  "drain has_next next_elem c i =
     (let r = has_next c i
      in if snd r then
           let x = next_elem c (fst r)
           in Option.bind (drain has_next next_elem c (fst x)) (\<lambda>l. Some (fst l, snd x # snd l))
         else Some (fst r, []))"

text \<open>Calls that all succeed, and what they hand out.\<close>

abbreviation yields :: "'o list \<Rightarrow> (cdsa_status \<times> 'o option) list" where
  "yields xs \<equiv> map (\<lambda>x. (CDSA_OK, Some x)) xs"

locale fail_fast_iterator =
  fixes version :: "'c \<Rightarrow> size_t"
    and snapshot :: "'i \<Rightarrow> size_t"
    and has_next :: "'c \<Rightarrow> 'i \<Rightarrow> 'i \<times> bool"
    and next_elem :: "'c \<Rightarrow> 'i \<Rightarrow> 'i \<times> cdsa_status \<times> 'o option"
    and ok :: "'c \<Rightarrow> 'i \<Rightarrow> bool"
    and rest :: "'c \<Rightarrow> 'i \<Rightarrow> 'o list"
  assumes has_next_stale: "version c \<noteq> snapshot i \<Longrightarrow> has_next c i = (i, False)"
    and next_stale: "version c \<noteq> snapshot i \<Longrightarrow>
      \<exists>s. next_elem c i = (i, s, None) \<and> s \<noteq> CDSA_OK"
    and has_next_fresh: "ok c i \<Longrightarrow> version c = snapshot i \<Longrightarrow>
      \<exists>i'. has_next c i = (i', rest c i \<noteq> []) \<and> ok c i' \<and> snapshot i' = snapshot i \<and>
           rest c i' = rest c i"
    and next_fresh: "ok c i \<Longrightarrow> version c = snapshot i \<Longrightarrow> rest c i = x # xs \<Longrightarrow>
      \<exists>i'. next_elem c i = (i', CDSA_OK, Some x) \<and> ok c i' \<and> snapshot i' = snapshot i \<and>
           rest c i' = xs"
    and next_done: "ok c i \<Longrightarrow> version c = snapshot i \<Longrightarrow> rest c i = [] \<Longrightarrow>
      \<exists>i'. next_elem c i = (i', CDSA_ERR_NOT_FOUND, None)"
begin

text \<open>
  The loop ends: it has handed out what was left, with \<open>CDSA_OK\<close> each time, and the iterator is at
  its end, where a further call reports \<open>CDSA_ERR_NOT_FOUND\<close>.
\<close>

lemma drain_yields:
  assumes "ok c i" and "version c = snapshot i"
  shows "\<exists>i'. drain has_next next_elem c i = Some (i', yields (rest c i)) \<and> ok c i' \<and>
    snapshot i' = snapshot i \<and> snd (next_elem c i') = (CDSA_ERR_NOT_FOUND, None)"
  using assms
proof (induction "rest c i" arbitrary: i)
  case Nil
  from has_next_fresh [OF Nil.prems] Nil.hyps obtain i1 where
    h: "has_next c i = (i1, False)" and i1: "ok c i1" "snapshot i1 = snapshot i" "rest c i1 = []"
    by auto
  have "drain has_next next_elem c i = Some (i1, [])" by (subst drain.simps) (simp add: h)
  moreover have "snd (next_elem c i1) = (CDSA_ERR_NOT_FOUND, None)"
    using next_done [OF i1(1) _ i1(3)] i1(2) Nil.prems(2) by auto
  ultimately show ?case using i1 Nil.hyps by auto
next
  case (Cons x xs)
  from has_next_fresh [OF Cons.prems] Cons.hyps(2) obtain i1 where
    h: "has_next c i = (i1, True)" and i1: "ok c i1" "snapshot i1 = snapshot i" "rest c i1 = x # xs"
    by (metis list.distinct(1))
  from next_fresh [OF i1(1) _ i1(3)] i1(2) Cons.prems(2) obtain i2 where
    n: "next_elem c i1 = (i2, CDSA_OK, Some x)" and i2: "ok c i2" "snapshot i2 = snapshot i" "rest c i2 = xs"
    by auto
  from Cons.hyps(1) [of i2] i2 Cons.prems(2) obtain i' where
    d: "drain has_next next_elem c i2 = Some (i', yields xs)" "ok c i'" "snapshot i' = snapshot i"
      "snd (next_elem c i') = (CDSA_ERR_NOT_FOUND, None)"
    by auto
  have "drain has_next next_elem c i = Some (i', yields (x # xs))"
    by (subst drain.simps) (simp add: h n d(1))
  then show ?case using d(2-4) Cons.hyps(2) by auto
qed

text \<open>After a change of the version the loop ends at once.\<close>

lemma drain_stale: "version c \<noteq> snapshot i \<Longrightarrow> drain has_next next_elem c i = Some (i, [])"
  by (subst drain.simps) (simp add: has_next_stale)

end

section \<open>Growing arrays\<close>

text \<open>
  \<open>ok h v\<close> is the provider's invariant in heap \<open>h\<close>, \<open>cells v\<close> the elements, \<open>elem_ok v e\<close> that
  \<open>e\<close> is an element of the right size, \<open>room v\<close> that the next growth does not wrap.  A push
  succeeds or reports that it is out of memory; a refused push keeps the elements.
\<close>

locale growing_array =
  fixes ok :: "'h \<Rightarrow> 'v \<Rightarrow> bool"
    and cells :: "'v \<Rightarrow> 'e list"
    and elem_ok :: "'v \<Rightarrow> 'e \<Rightarrow> bool"
    and room :: "'v \<Rightarrow> bool"
    and push :: "'h \<Rightarrow> 'v \<Rightarrow> 'e \<Rightarrow> 'h \<times> 'v \<times> cdsa_status"
    and pop :: "'v \<Rightarrow> 'v \<times> cdsa_status"
    and top :: "'v \<Rightarrow> 'e option"
  assumes push_result: "ok h v \<Longrightarrow> elem_ok v e \<Longrightarrow> room v \<Longrightarrow> push h v e = (h', v', s) \<Longrightarrow>
      (s = CDSA_OK \<and> ok h' v' \<and> cells v' = cells v @ [e] \<and> elem_ok v' = elem_ok v) \<or>
      (s = CDSA_ERR_OOM \<and> cells v' = cells v)"
    and pop_nonempty: "ok h v \<Longrightarrow> cells v \<noteq> [] \<Longrightarrow>
      \<exists>v'. pop v = (v', CDSA_OK) \<and> ok h v' \<and> cells v' = butlast (cells v) \<and>
           elem_ok v' = elem_ok v"
    and pop_empty: "cells v = [] \<Longrightarrow> pop v = (v, CDSA_ERR_NOT_FOUND)"
    and top_last: "ok h v \<Longrightarrow> top v = (if cells v = [] then None else Some (last (cells v)))"
begin

text \<open>Last in, first out: what was pushed is on top, and popping it uncovers the old array.\<close>

lemma push_then_pop:
  assumes "ok h v" and "elem_ok v e" and "room v" and "push h v e = (h', v', CDSA_OK)"
  shows "top v' = Some e" and "\<exists>v''. pop v' = (v'', CDSA_OK) \<and> ok h' v'' \<and> cells v'' = cells v"
proof -
  from push_result [OF assms] have v': "ok h' v'" "cells v' = cells v @ [e]" by simp_all
  then show "top v' = Some e" using top_last [OF v'(1)] by simp
  show "\<exists>v''. pop v' = (v'', CDSA_OK) \<and> ok h' v'' \<and> cells v'' = cells v"
    using pop_nonempty [OF v'(1)] v'(2) by auto
qed

end

text \<open>
  An array that is also read and written by index.  \<open>update\<close> takes the heap because the write
  can fault; \<open>shape v\<close> is what it leaves alone, everything but the elements.
\<close>

locale indexed_array = growing_array ok cells elem_ok room push pop top
  for ok :: "'h \<Rightarrow> 'v \<Rightarrow> bool" and cells :: "'v \<Rightarrow> 'e list"
    and elem_ok :: "'v \<Rightarrow> 'e \<Rightarrow> bool" and room :: "'v \<Rightarrow> bool"
    and push :: "'h \<Rightarrow> 'v \<Rightarrow> 'e \<Rightarrow> 'h \<times> 'v \<times> cdsa_status"
    and pop :: "'v \<Rightarrow> 'v \<times> cdsa_status" and top :: "'v \<Rightarrow> 'e option" +
  fixes shape :: "'v \<Rightarrow> 'k"
    and lookup :: "'v \<Rightarrow> size_t \<Rightarrow> 'e option"
    and update :: "'h \<Rightarrow> 'v \<Rightarrow> size_t \<Rightarrow> 'e \<Rightarrow> 'h \<times> 'v \<times> cdsa_status"
  assumes cells_elem: "ok h v \<Longrightarrow> e \<in> set (cells v) \<Longrightarrow> elem_ok v e"
    and lookup_cell: "ok h v \<Longrightarrow>
      lookup v i = (if unat i < length (cells v) then Some (cells v ! unat i) else None)"
    and update_cell: "ok h v \<Longrightarrow> unat i < length (cells v) \<Longrightarrow> elem_ok v e \<Longrightarrow>
      \<exists>v'. update h v i e = (h, v', CDSA_OK) \<and> ok h v' \<and> cells v' = (cells v)[unat i := e] \<and>
           elem_ok v' = elem_ok v \<and> shape v' = shape v"
begin

text \<open>The three-step exchange of two cells through a temporary.\<close>

lemma exchange:
  assumes "ok h v" and "unat i < length (cells v)" and "unat j < length (cells v)"
  shows "\<exists>v1 v2. update h v i (cells v ! unat j) = (h, v1, CDSA_OK) \<and>
      update h v1 j (cells v ! unat i) = (h, v2, CDSA_OK) \<and> ok h v2 \<and> elem_ok v2 = elem_ok v \<and>
      shape v2 = shape v \<and>
      cells v2 = (cells v)[unat i := cells v ! unat j, unat j := cells v ! unat i]"
proof -
  have ij: "elem_ok v (cells v ! unat j)" "elem_ok v (cells v ! unat i)"
    using cells_elem [OF assms(1)] assms(2,3) by simp_all
  from update_cell [OF assms(1,2) ij(1)] obtain v1 where
    v1: "update h v i (cells v ! unat j) = (h, v1, CDSA_OK)" "ok h v1"
      "cells v1 = (cells v)[unat i := cells v ! unat j]" "elem_ok v1 = elem_ok v"
      "shape v1 = shape v"
    by blast
  have "unat j < length (cells v1)" "elem_ok v1 (cells v ! unat i)"
    using assms(3) ij(2) v1(3,4) by simp_all
  from update_cell [OF v1(2) this] v1 show ?thesis by auto
qed

end

section \<open>Runs of calls\<close>

text \<open>A client's calls one after the other, with what each of them returned.\<close>

fun run_calls :: "('s \<Rightarrow> 'c \<Rightarrow> 's \<times> 'o) \<Rightarrow> 's \<Rightarrow> 'c list \<Rightarrow> 's \<times> 'o list" where
  "run_calls step s [] = (s, [])"
| "run_calls step s (c # cs) =
     (case step s c of (s1, x) \<Rightarrow> (case run_calls step s1 cs of (s2, xs) \<Rightarrow> (s2, x # xs)))"

text \<open>A simulation of single calls carries over to runs.\<close>

lemma run_calls_simulates:
  assumes "R s a"
    and "\<And>s a c. R s a \<Longrightarrow> c \<in> set cs \<Longrightarrow>
      R (fst (f s c)) (fst (g a c)) \<and> snd (f s c) = snd (g a c)"
  shows "R (fst (run_calls f s cs)) (fst (run_calls g a cs)) \<and>
    snd (run_calls f s cs) = snd (run_calls g a cs)"
  using assms
proof (induction cs arbitrary: s a)
  case Nil
  then show ?case by simp
next
  case (Cons c cs)
  from Cons.prems(2) [OF Cons.prems(1), of c]
  have "R (fst (f s c)) (fst (g a c))" "snd (f s c) = snd (g a c)" by simp_all
  moreover have "R (fst (run_calls f (fst (f s c)) cs)) (fst (run_calls g (fst (g a c)) cs)) \<and>
      snd (run_calls f (fst (f s c)) cs) = snd (run_calls g (fst (g a c)) cs)"
    using Cons.IH [OF calculation(1)] Cons.prems(2) by simp
  ultimately show ?case by (simp add: case_prod_beta)
qed

section \<open>Containers whose calls are all or nothing\<close>

text \<open>
  A linked container allocates in its calls and may have to report \<open>CDSA_ERR_OOM\<close>, but then has
  changed nothing.  \<open>rep h r a\<close>: in heap \<open>h\<close> the structure \<open>r\<close> represents the abstract value \<open>a\<close>;
  \<open>frame\<close> is what no call changes; \<open>step\<close> is partial because loops over pointers might not end.

  \<open>accept spec a cs ss = Some a'\<close>: the answers \<open>ss\<close> to the calls \<open>cs\<close> are those of \<open>spec\<close>, the calls
  answered by \<open>CDSA_ERR_OOM\<close> left out, and \<open>a'\<close> is the value they lead to.
\<close>

fun run_partial :: "('h \<Rightarrow> 'r \<Rightarrow> 'c \<Rightarrow> ('h \<times> 'r \<times> 'o) option) \<Rightarrow> 'h \<Rightarrow> 'r \<Rightarrow> 'c list \<Rightarrow>
    ('h \<times> 'r \<times> 'o list) option" where
  "run_partial step h r [] = Some (h, r, [])"
| "run_partial step h r (c # cs) =
     (case step h r c of
        None \<Rightarrow> None
      | Some (h1, r1, x) \<Rightarrow>
          (case run_partial step h1 r1 cs of
             None \<Rightarrow> None
           | Some (h2, r2, xs) \<Rightarrow> Some (h2, r2, x # xs)))"

fun accept :: "('a \<Rightarrow> 'c \<Rightarrow> 'a \<times> cdsa_status) \<Rightarrow> 'a \<Rightarrow> 'c list \<Rightarrow> cdsa_status list \<Rightarrow> 'a option" where
  "accept spec a [] [] = Some a"
| "accept spec a (c # cs) (s # ss) =
     (if s = CDSA_ERR_OOM then accept spec a cs ss
      else if s = snd (spec a c) then accept spec (fst (spec a c)) cs ss else None)"
| "accept spec a _ _ = None"

lemma accept_call:
  "accept spec a [] ss = Some b \<longleftrightarrow> ss = [] \<and> a = b"
  "accept spec a (c # cs) ss = Some b \<longleftrightarrow>
     (\<exists>s ss'. ss = s # ss' \<and> accept spec (if s = CDSA_ERR_OOM then a else fst (spec a c)) cs ss' = Some b \<and>
        (s = CDSA_ERR_OOM \<or> s = snd (spec a c)))"
  by (cases ss; auto)+

locale all_or_nothing =
  fixes rep :: "'h \<Rightarrow> 'r \<Rightarrow> 'a \<Rightarrow> bool"
    and frame :: "'h \<Rightarrow> 'r \<Rightarrow> 'f"
    and granted :: "'h \<Rightarrow> bool"
    and call_ok :: "'f \<Rightarrow> 'c \<Rightarrow> bool"
    and step :: "'h \<Rightarrow> 'r \<Rightarrow> 'c \<Rightarrow> ('h \<times> 'r \<times> cdsa_status) option"
    and spec :: "'a \<Rightarrow> 'c \<Rightarrow> 'a \<times> cdsa_status"
  assumes step_result: "rep h r a \<Longrightarrow> call_ok (frame h r) c \<Longrightarrow>
      \<exists>h' r' s. step h r c = Some (h', r', s) \<and> frame h' r' = frame h r \<and> granted h' = granted h \<and>
        (s = snd (spec a c) \<and> rep h' r' (fst (spec a c)) \<or>
         s = CDSA_ERR_OOM \<and> rep h' r' a \<and> \<not> granted h)"
    and spec_never_oom: "snd (spec a c) \<noteq> CDSA_ERR_OOM"
begin

lemma run_accepted:
  assumes "rep h r a" and "\<forall>c \<in> set cs. call_ok (frame h r) c"
  shows "\<exists>h' r' ss a'. run_partial step h r cs = Some (h', r', ss) \<and> accept spec a cs ss = Some a' \<and>
    rep h' r' a' \<and> frame h' r' = frame h r \<and> (granted h \<longrightarrow> CDSA_ERR_OOM \<notin> set ss)"
  using assms
proof (induction cs arbitrary: h r a)
  case Nil
  then show ?case by auto
next
  case (Cons c cs)
  have "call_ok (frame h r) c" using Cons.prems(2) by simp
  from step_result [OF Cons.prems(1) this] obtain h1 r1 s a1 where
    one: "step h r c = Some (h1, r1, s)" "frame h1 r1 = frame h r" "granted h1 = granted h"
      "rep h1 r1 a1" "granted h \<longrightarrow> s \<noteq> CDSA_ERR_OOM"
      "\<And>ss. accept spec a (c # cs) (s # ss) = accept spec a1 cs ss"
    using spec_never_oom by fastforce
  from Cons.IH [OF one(4)] one(2) Cons.prems(2) obtain h2 r2 ss a2 where
    "run_partial step h1 r1 cs = Some (h2, r2, ss)" "accept spec a1 cs ss = Some a2" "rep h2 r2 a2"
      "frame h2 r2 = frame h1 r1" "granted h1 \<longrightarrow> CDSA_ERR_OOM \<notin> set ss"
    by auto
  then show ?case using one by auto
qed

end

section \<open>Bounded queues and deques\<close>

text \<open>
  The fixed-capacity containers.  \<open>shape r\<close> is what no operation changes (capacity, element
  size, blocks); \<open>elem_ok\<close> and \<open>limit\<close> depend on it alone.  No operation allocates, so all of
  them leave the heap as it is.
\<close>

datatype 'e queue_call = Enq 'e | Deq

fun bounded_queue_exec :: "nat \<Rightarrow> 'e list \<Rightarrow> 'e queue_call \<Rightarrow> 'e list \<times> cdsa_status" where
  "bounded_queue_exec n xs (Enq e) =
     (if length xs < n then (xs @ [e], CDSA_OK) else (xs, CDSA_ERR_FULL))"
| "bounded_queue_exec n xs Deq = (if xs = [] then (xs, CDSA_ERR_EMPTY) else (tl xs, CDSA_OK))"

fun queue_step :: "('h \<Rightarrow> 'r \<Rightarrow> 'e \<Rightarrow> 'h \<times> 'r \<times> cdsa_status) \<Rightarrow> ('r \<Rightarrow> 'r \<times> cdsa_status) \<Rightarrow>
    'h \<times> 'r \<Rightarrow> 'e queue_call \<Rightarrow> ('h \<times> 'r) \<times> cdsa_status" where
  "queue_step push pop (h, r) (Enq e) = (case push h r e of (h', r', s) \<Rightarrow> ((h', r'), s))"
| "queue_step push pop (h, r) Deq = (case pop r of (r', s) \<Rightarrow> ((h, r'), s))"

locale bounded_queue =
  fixes ok :: "'h \<Rightarrow> 'r \<Rightarrow> bool"
    and cells :: "'r \<Rightarrow> 'e list"
    and shape :: "'r \<Rightarrow> 'k"
    and elem_ok :: "'k \<Rightarrow> 'e \<Rightarrow> bool"
    and limit :: "'k \<Rightarrow> nat"
    and push_back :: "'h \<Rightarrow> 'r \<Rightarrow> 'e \<Rightarrow> 'h \<times> 'r \<times> cdsa_status"
    and pop_front :: "'r \<Rightarrow> 'r \<times> cdsa_status"
    and front :: "'r \<Rightarrow> 'e option"
  assumes within: "ok h r \<Longrightarrow> length (cells r) \<le> limit (shape r)"
    and push_back_full: "ok h r \<Longrightarrow> length (cells r) = limit (shape r) \<Longrightarrow>
      push_back h r e = (h, r, CDSA_ERR_FULL)"
    and push_back_room: "ok h r \<Longrightarrow> elem_ok (shape r) e \<Longrightarrow>
      length (cells r) < limit (shape r) \<Longrightarrow>
      \<exists>r'. push_back h r e = (h, r', CDSA_OK) \<and> ok h r' \<and> cells r' = cells r @ [e] \<and>
           shape r' = shape r"
    and pop_front_empty: "ok h r \<Longrightarrow> cells r = [] \<Longrightarrow> pop_front r = (r, CDSA_ERR_EMPTY)"
    and pop_front_cons: "ok h r \<Longrightarrow> cells r = x # xs \<Longrightarrow>
      \<exists>r'. pop_front r = (r', CDSA_OK) \<and> ok h r' \<and> cells r' = xs \<and> shape r' = shape r"
    and front_hd: "ok h r \<Longrightarrow> front r = (if cells r = [] then None else Some (hd (cells r)))"
begin

abbreviation simulates :: "'h \<Rightarrow> 'k \<Rightarrow> 'h \<times> 'r \<Rightarrow> 'e list \<Rightarrow> bool" where
  "simulates h k \<equiv> \<lambda>(h', r) xs. h' = h \<and> ok h r \<and> shape r = k \<and> cells r = xs"

lemma push_back_step:
  assumes "ok h r" and "elem_ok (shape r) e"
  shows "\<exists>r' s. push_back h r e = (h, r', s) \<and> ok h r' \<and> shape r' = shape r \<and>
    (cells r', s) = bounded_queue_exec (limit (shape r)) (cells r) (Enq e)"
proof (cases "length (cells r) < limit (shape r)")
  case True
  then show ?thesis using push_back_room [OF assms True] by auto
next
  case False
  then have "length (cells r) = limit (shape r)" using within [OF assms(1)] by simp
  then show ?thesis using push_back_full [OF assms(1)] assms(1) by simp
qed

lemma pop_front_step:
  assumes "ok h r"
  shows "\<exists>r' s. pop_front r = (r', s) \<and> ok h r' \<and> shape r' = shape r \<and>
    (cells r', s) = bounded_queue_exec n (cells r) Deq"
proof (cases "cells r")
  case Nil
  then show ?thesis using pop_front_empty [OF assms Nil] assms by simp
next
  case (Cons x xs)
  then show ?thesis using pop_front_cons [OF assms Cons] by auto
qed

lemma queue_run:
  assumes "ok h r" and "\<forall>e. Enq e \<in> set cs \<longrightarrow> elem_ok (shape r) e"
  shows "\<exists>r'. run_calls (queue_step push_back pop_front) (h, r) cs =
      ((h, r'), snd (run_calls (bounded_queue_exec (limit (shape r))) (cells r) cs)) \<and>
    ok h r' \<and> shape r' = shape r \<and>
    cells r' = fst (run_calls (bounded_queue_exec (limit (shape r))) (cells r) cs)"
proof -
  let ?f = "queue_step push_back pop_front" and ?g = "bounded_queue_exec (limit (shape r))"
  have "simulates h (shape r) (fst (?f s c)) (fst (?g a c)) \<and> snd (?f s c) = snd (?g a c)"
    if "simulates h (shape r) s a" "c \<in> set cs" for s a c
  proof (cases c)
    case (Enq e)
    then show ?thesis using that assms(2) push_back_step [of h "snd s" e] by (force split: prod.splits)
  next
    case Deq
    then show ?thesis
      using that pop_front_step [of h "snd s" "limit (shape r)"] by (force split: prod.splits)
  qed
  then show ?thesis
    using run_calls_simulates [of "simulates h (shape r)" "(h, r)" "cells r" cs ?f ?g] assms(1)
    by (force simp: prod_eq_iff split: prod.splits)
qed

end

datatype 'e deque_call = PushBack 'e | PushFront 'e | PopFront | PopBack

fun bounded_deque_exec :: "nat \<Rightarrow> 'e list \<Rightarrow> 'e deque_call \<Rightarrow> 'e list \<times> cdsa_status" where
  "bounded_deque_exec n xs (PushBack e) =
     (if length xs < n then (xs @ [e], CDSA_OK) else (xs, CDSA_ERR_FULL))"
| "bounded_deque_exec n xs (PushFront e) =
     (if length xs < n then (e # xs, CDSA_OK) else (xs, CDSA_ERR_FULL))"
| "bounded_deque_exec n xs PopFront = (if xs = [] then (xs, CDSA_ERR_EMPTY) else (tl xs, CDSA_OK))"
| "bounded_deque_exec n xs PopBack =
     (if xs = [] then (xs, CDSA_ERR_EMPTY) else (butlast xs, CDSA_OK))"

fun deque_step :: "('h \<Rightarrow> 'r \<Rightarrow> 'e \<Rightarrow> 'h \<times> 'r \<times> cdsa_status) \<Rightarrow>
    ('h \<Rightarrow> 'r \<Rightarrow> 'e \<Rightarrow> 'h \<times> 'r \<times> cdsa_status) \<Rightarrow> ('r \<Rightarrow> 'r \<times> cdsa_status) \<Rightarrow>
    ('r \<Rightarrow> 'r \<times> cdsa_status) \<Rightarrow> 'h \<times> 'r \<Rightarrow> 'e deque_call \<Rightarrow> ('h \<times> 'r) \<times> cdsa_status" where
  "deque_step pb pf popf popb (h, r) (PushBack e) =
     (case pb h r e of (h', r', s) \<Rightarrow> ((h', r'), s))"
| "deque_step pb pf popf popb (h, r) (PushFront e) =
     (case pf h r e of (h', r', s) \<Rightarrow> ((h', r'), s))"
| "deque_step pb pf popf popb (h, r) PopFront = (case popf r of (r', s) \<Rightarrow> ((h, r'), s))"
| "deque_step pb pf popf popb (h, r) PopBack = (case popb r of (r', s) \<Rightarrow> ((h, r'), s))"

fun deque_call_ok :: "('e \<Rightarrow> bool) \<Rightarrow> 'e deque_call \<Rightarrow> bool" where
  "deque_call_ok p (PushBack e) \<longleftrightarrow> p e"
| "deque_call_ok p (PushFront e) \<longleftrightarrow> p e"
| "deque_call_ok p _ \<longleftrightarrow> True"

locale bounded_deque = bounded_queue ok cells shape elem_ok limit push_back pop_front front
  for ok :: "'h \<Rightarrow> 'r \<Rightarrow> bool" and cells :: "'r \<Rightarrow> 'e list" and shape :: "'r \<Rightarrow> 'k"
    and elem_ok :: "'k \<Rightarrow> 'e \<Rightarrow> bool" and limit :: "'k \<Rightarrow> nat"
    and push_back :: "'h \<Rightarrow> 'r \<Rightarrow> 'e \<Rightarrow> 'h \<times> 'r \<times> cdsa_status"
    and pop_front :: "'r \<Rightarrow> 'r \<times> cdsa_status" and front :: "'r \<Rightarrow> 'e option" +
  fixes push_front :: "'h \<Rightarrow> 'r \<Rightarrow> 'e \<Rightarrow> 'h \<times> 'r \<times> cdsa_status"
    and pop_back :: "'r \<Rightarrow> 'r \<times> cdsa_status"
    and rear :: "'r \<Rightarrow> 'e option"
  assumes push_front_full: "ok h r \<Longrightarrow> length (cells r) = limit (shape r) \<Longrightarrow>
      push_front h r e = (h, r, CDSA_ERR_FULL)"
    and push_front_room: "ok h r \<Longrightarrow> elem_ok (shape r) e \<Longrightarrow>
      length (cells r) < limit (shape r) \<Longrightarrow>
      \<exists>r'. push_front h r e = (h, r', CDSA_OK) \<and> ok h r' \<and> cells r' = e # cells r \<and>
           shape r' = shape r"
    and pop_back_empty: "ok h r \<Longrightarrow> cells r = [] \<Longrightarrow> pop_back r = (r, CDSA_ERR_EMPTY)"
    and pop_back_snoc: "ok h r \<Longrightarrow> cells r = xs @ [x] \<Longrightarrow>
      \<exists>r'. pop_back r = (r', CDSA_OK) \<and> ok h r' \<and> cells r' = xs \<and> shape r' = shape r"
    and rear_last: "ok h r \<Longrightarrow> rear r = (if cells r = [] then None else Some (last (cells r)))"
begin

lemma push_front_step:
  assumes "ok h r" and "elem_ok (shape r) e"
  shows "\<exists>r' s. push_front h r e = (h, r', s) \<and> ok h r' \<and> shape r' = shape r \<and>
    (cells r', s) = bounded_deque_exec (limit (shape r)) (cells r) (PushFront e)"
proof (cases "length (cells r) < limit (shape r)")
  case True
  then show ?thesis using push_front_room [OF assms True] by auto
next
  case False
  then have "length (cells r) = limit (shape r)" using within [OF assms(1)] by simp
  then show ?thesis using push_front_full [OF assms(1)] assms(1) by simp
qed

lemma pop_back_step:
  assumes "ok h r"
  shows "\<exists>r' s. pop_back r = (r', s) \<and> ok h r' \<and> shape r' = shape r \<and>
    (cells r', s) = bounded_deque_exec n (cells r) PopBack"
proof (cases "cells r" rule: rev_cases)
  case Nil
  then show ?thesis using pop_back_empty [OF assms Nil] assms by simp
next
  case (snoc xs x)
  then show ?thesis using pop_back_snoc [OF assms snoc] by auto
qed

lemma deque_run:
  assumes "ok h r" and "\<forall>c \<in> set cs. deque_call_ok (elem_ok (shape r)) c"
  shows "\<exists>r'. run_calls (deque_step push_back push_front pop_front pop_back) (h, r) cs =
      ((h, r'), snd (run_calls (bounded_deque_exec (limit (shape r))) (cells r) cs)) \<and>
    ok h r' \<and> shape r' = shape r \<and>
    cells r' = fst (run_calls (bounded_deque_exec (limit (shape r))) (cells r) cs)"
proof -
  let ?f = "deque_step push_back push_front pop_front pop_back"
    and ?g = "bounded_deque_exec (limit (shape r))"
  have "simulates h (shape r) (fst (?f s c)) (fst (?g a c)) \<and> snd (?f s c) = snd (?g a c)"
    if "simulates h (shape r) s a" "c \<in> set cs" for s a c
  proof (cases c)
    case (PushBack e)
    then show ?thesis using that assms(2) push_back_step [of h "snd s" e] by (force split: prod.splits)
  next
    case (PushFront e)
    then show ?thesis using that assms(2) push_front_step [of h "snd s" e] by (force split: prod.splits)
  next
    case PopFront
    then show ?thesis
      using that pop_front_step [of h "snd s" "limit (shape r)"] by (force split: prod.splits)
  next
    case PopBack
    then show ?thesis
      using that pop_back_step [of h "snd s" "limit (shape r)"] by (force split: prod.splits)
  qed
  then show ?thesis
    using run_calls_simulates [of "simulates h (shape r)" "(h, r)" "cells r" cs ?f ?g] assms(1)
    by (force simp: prod_eq_iff split: prod.splits)
qed

end

end
