(* ===== verification/Vector.thy ===== *)
theory Vector
  imports Tracking_Heap Interfaces
begin

text \<open>
  \<^verbatim>\<open>src/vector.c\<close>: the growing array.  The elements are bytes in one heap block; \<open>v_buf\<close> is the
  content of that block, as long as the block really is, so that an access outside it shows as
  a fault.  A pointer to an element is its byte offset in the block.
\<close>

section \<open>State\<close>

record vector =
  v_self :: block_id
  v_data :: block_id
  v_buf :: bytes
  v_size :: size_t
  v_capacity :: size_t
  v_elem_size :: size_t
  v_version :: size_t

definition INITIAL_CAPACITY :: size_t where "INITIAL_CAPACITY = 4"
definition sizeof_vector :: size_t where "sizeof_vector = 40"
definition sizeof_vector_iterator :: size_t where "sizeof_vector_iterator = 24"

section \<open>Operations\<close>

definition cdsa_create_vector :: "heap \<Rightarrow> size_t \<Rightarrow> heap \<times> vector option" where
  "cdsa_create_vector h elem_size =
     (let (h1, vec) = cdsa_malloc_track h sizeof_vector
      in case vec of
           None \<Rightarrow> (h1, None)
         | Some self \<Rightarrow>
             let (h2, data) = cdsa_malloc_track h1 (INITIAL_CAPACITY * elem_size)
             in case data of
                  None \<Rightarrow> (cdsa_free_track h2 (Some self), None)
                | Some d \<Rightarrow>
                    (h2, Some \<lparr>v_self = self, v_data = d,
                           v_buf = fresh_bytes h2 d (user_len (INITIAL_CAPACITY * elem_size)),
                           v_size = 0, v_capacity = INITIAL_CAPACITY,
                           v_elem_size = elem_size, v_version = 0\<rparr>))"

text \<open>\<open>memcpy(data + index * elem_size, elem, elem_size)\<close>, with the bounds of both blocks.\<close>

definition vec_store :: "heap \<Rightarrow> vector \<Rightarrow> size_t \<Rightarrow> bytes \<Rightarrow> heap \<times> vector" where
  "vec_store h v index elem =
     (let off = unat (index * v_elem_size v); n = unat (v_elem_size v);
          bad = (length (v_buf v) < off + n \<or> length elem < n)
      in (set_fault bad h, if bad then v else v\<lparr>v_buf := blit (v_buf v) off (take n elem)\<rparr>))"

definition cdsa_push_vector ::
  "heap \<Rightarrow> vector option \<Rightarrow> bytes option \<Rightarrow> heap \<times> vector option \<times> cdsa_status" where
  "cdsa_push_vector h vec elem =
     (case (vec, elem) of
        (Some v, Some e) \<Rightarrow>
          let append = (\<lambda>h v. let (h', v') = vec_store h v (v_size v) e
                in (h', Some (v'\<lparr>v_size := v_size v + 1, v_version := v_version v + 1\<rparr>), CDSA_OK))
          in if v_size v \<ge> v_capacity v then
               let v1 = v\<lparr>v_capacity := v_capacity v * 2\<rparr>;
                   n = v_capacity v1 * v_elem_size v1;
                   (h1, temp) = cdsa_realloc_track h (Some (v_data v1)) n
               in case temp of
                    None \<Rightarrow> (h1, Some v1, CDSA_ERR_OOM)
                  | Some p \<Rightarrow>
                      append h1 (v1\<lparr>v_data := p,
                                    v_buf := moved_bytes h1 p (v_buf v1) (user_len n)\<rparr>)
             else append h v
      | _ \<Rightarrow> (h, vec, CDSA_ERR_INVALID))"

definition get_vector :: "vector option \<Rightarrow> size_t \<Rightarrow> size_t option" where
  "get_vector vec index =
     (case vec of
        None \<Rightarrow> None
      | Some v \<Rightarrow> if index \<ge> v_size v then None else Some (index * v_elem_size v))"

text \<open>Reading the element a pointer into the block points to.\<close>

definition vec_deref :: "vector \<Rightarrow> size_t \<Rightarrow> bytes" where
  "vec_deref v p = bslice (v_buf v) (unat p) (unat (v_elem_size v))"

definition cdsa_free_vector :: "heap \<Rightarrow> vector option \<Rightarrow> heap" where
  "cdsa_free_vector h vec =
     (case vec of
        None \<Rightarrow> h
      | Some v \<Rightarrow> cdsa_free_track (cdsa_free_track h (Some (v_data v))) (Some (v_self v)))"

definition cdsa_pop_vector :: "vector option \<Rightarrow> vector option \<times> cdsa_status" where
  "cdsa_pop_vector vec =
     (case vec of
        None \<Rightarrow> (None, CDSA_ERR_INVALID)
      | Some v \<Rightarrow>
          if v_size v = 0 then (Some v, CDSA_ERR_NOT_FOUND)
          else (Some (v\<lparr>v_size := v_size v - 1, v_version := v_version v + 1\<rparr>), CDSA_OK))"

definition cdsa_front_vector :: "vector option \<Rightarrow> size_t option" where
  "cdsa_front_vector vec =
     (case vec of None \<Rightarrow> None | Some v \<Rightarrow> if v_size v = 0 then None else Some 0)"

definition cdsa_back_vector :: "vector option \<Rightarrow> size_t option" where
  "cdsa_back_vector vec =
     (case vec of
        None \<Rightarrow> None
      | Some v \<Rightarrow> if v_size v = 0 then None else Some ((v_size v - 1) * v_elem_size v))"

definition cdsa_size_vector :: "vector option \<Rightarrow> size_t" where
  "cdsa_size_vector vec = (case vec of None \<Rightarrow> 0 | Some v \<Rightarrow> v_size v)"

definition capacity_vector :: "vector option \<Rightarrow> size_t" where
  "capacity_vector vec = (case vec of None \<Rightarrow> 0 | Some v \<Rightarrow> v_capacity v)"

definition set_vector ::
  "heap \<Rightarrow> vector option \<Rightarrow> size_t \<Rightarrow> bytes option \<Rightarrow> heap \<times> vector option \<times> cdsa_status" where
  "set_vector h vec index elem =
     (case (vec, elem) of
        (Some v, Some e) \<Rightarrow>
          if index \<ge> v_size v then (h, vec, CDSA_ERR_NOT_FOUND)
          else let (h', v') = vec_store h v index e in (h', Some v', CDSA_OK)
      | _ \<Rightarrow> (h, vec, CDSA_ERR_INVALID))"

definition cdsa_clear_vector :: "vector option \<Rightarrow> vector option" where
  "cdsa_clear_vector vec = map_option (\<lambda>v. v\<lparr>v_size := 0\<rparr>) vec"

definition cdsa_is_empty_vector :: "vector option \<Rightarrow> bool" where
  "cdsa_is_empty_vector vec = (case vec of None \<Rightarrow> True | Some v \<Rightarrow> v_size v = 0)"

subsection \<open>The iterator\<close>

text \<open>
  The iterator's \<open>vec\<close> field is the vector it was created on; the operations take the state that
  vector has when they are called.
\<close>

record vector_iterator =
  vi_self :: block_id
  vi_index :: size_t
  vi_snapshot :: size_t

definition cdsa_create_vector_iterator ::
  "heap \<Rightarrow> vector option \<Rightarrow> heap \<times> vector_iterator option" where
  "cdsa_create_vector_iterator h vec =
     (case vec of
        None \<Rightarrow> (h, None)
      | Some v \<Rightarrow>
          let (h1, iter) = cdsa_malloc_track h sizeof_vector_iterator
          in case iter of
               None \<Rightarrow> (h1, None)
             | Some p \<Rightarrow> (h1, Some \<lparr>vi_self = p, vi_index = 0, vi_snapshot = v_version v\<rparr>))"

definition cdsa_has_next_vector :: "vector option \<Rightarrow> vector_iterator option \<Rightarrow> bool" where
  "cdsa_has_next_vector vec iter =
     (case (iter, vec) of
        (Some i, Some v) \<Rightarrow>
          if v_version v \<noteq> vi_snapshot i then False else vi_index i < v_size v
      | _ \<Rightarrow> False)"

definition cdsa_next_vector ::
  "vector \<Rightarrow> vector_iterator option \<Rightarrow> vector_iterator option \<times> cdsa_status \<times> size_t option" where
  "cdsa_next_vector v iter =
     (case iter of
        None \<Rightarrow> (None, CDSA_ERR_INVALID, None)
      | Some i \<Rightarrow>
          if v_version v \<noteq> vi_snapshot i then (Some i, CDSA_ERR_ITER_INVALIDATED, None)
          else if \<not> cdsa_has_next_vector (Some v) (Some i) then (Some i, CDSA_ERR_NOT_FOUND, None)
          else (Some (i\<lparr>vi_index := vi_index i + 1\<rparr>), CDSA_OK,
                Some (vi_index i * v_elem_size v)))"

definition cdsa_free_vector_iterator :: "heap \<Rightarrow> vector_iterator option \<Rightarrow> heap" where
  "cdsa_free_vector_iterator h iter = cdsa_free_track h (map_option vi_self iter)"

section \<open>Null pointers\<close>

lemma vector_null [null_simps]:
  "cdsa_push_vector h None e = (h, None, CDSA_ERR_INVALID)"
  "cdsa_push_vector h v None = (h, v, CDSA_ERR_INVALID)"
  "cdsa_pop_vector None = (None, CDSA_ERR_INVALID)"
  "set_vector h None i e = (h, None, CDSA_ERR_INVALID)"
  "set_vector h v i None = (h, v, CDSA_ERR_INVALID)"
  "get_vector None i = None" "cdsa_front_vector None = None" "cdsa_back_vector None = None"
  "cdsa_size_vector None = 0" "capacity_vector None = 0" "cdsa_is_empty_vector None"
  "cdsa_free_vector h None = h" "cdsa_clear_vector None = None"
  by (simp_all add: cdsa_push_vector_def cdsa_pop_vector_def set_vector_def get_vector_def
      cdsa_front_vector_def cdsa_back_vector_def cdsa_size_vector_def capacity_vector_def
      cdsa_is_empty_vector_def cdsa_free_vector_def cdsa_clear_vector_def split: option.splits)

section \<open>The array abstraction and its invariant\<close>

definition vec_list :: "vector \<Rightarrow> bytes list" where
  "vec_list v = elems (v_buf v) (unat (v_elem_size v)) (unat (v_size v))"

definition vector_inv :: "vector \<Rightarrow> bool" where
  "vector_inv v \<longleftrightarrow>
     0 < unat (v_elem_size v) \<and> 0 < unat (v_capacity v) \<and>
     unat (v_size v) \<le> unat (v_capacity v) \<and>
     unat (v_capacity v) * unat (v_elem_size v) + 8 < size_bound \<and>
     length (v_buf v) = unat (v_capacity v) * unat (v_elem_size v)"

text \<open>The element a client hands in is a full element.\<close>

abbreviation vec_elem :: "vector \<Rightarrow> bytes \<Rightarrow> bool" where
  "vec_elem v e \<equiv> length e = unat (v_elem_size v)"

text \<open>The vector's blocks on the heap.\<close>

definition vector_owned :: "heap \<Rightarrow> vector \<Rightarrow> bool" where
  "vector_owned h v \<longleftrightarrow> v_self v \<noteq> v_data v \<and> owns h (v_self v) sizeof_vector \<and>
     owns h (v_data v) (v_capacity v * v_elem_size v)"

abbreviation vec_frame :: "heap \<Rightarrow> vector \<Rightarrow> (block_id \<times> mblock) list" where
  "vec_frame h v \<equiv> others {v_self v, v_data v} h"

lemma length_vec_list [simp]: "length (vec_list v) = unat (v_size v)"
  by (simp add: vec_list_def)

lemma vec_list_Nil: "vec_list v = [] \<longleftrightarrow> v_size v = 0"
  by (metis length_0_conv length_vec_list size_t_zero_iff)

lemma vector_inv_fits:
  assumes "vector_inv v" and "i < unat (v_capacity v)"
  shows "i * unat (v_elem_size v) + unat (v_elem_size v) \<le> length (v_buf v)"
    and "i * unat (v_elem_size v) + unat (v_elem_size v) < size_bound"
proof -
  have "length (v_buf v) = unat (v_capacity v) * unat (v_elem_size v)"
    and bound: "length (v_buf v) + 8 < size_bound"
    using assms(1) by (simp_all add: vector_inv_def)
  then show fits: "i * unat (v_elem_size v) + unat (v_elem_size v) \<le> length (v_buf v)"
    using cell_end [OF assms(2)] by simp
  show "i * unat (v_elem_size v) + unat (v_elem_size v) < size_bound"
    using fits bound by linarith
qed

lemma vector_offset:
  assumes "vector_inv v" and "unat i < unat (v_capacity v)"
  shows "unat (i * v_elem_size v) = unat i * unat (v_elem_size v)"
  using vector_inv_fits(2) [OF assms] by (intro unat_size_t_mult) simp

text \<open>A pointer obtained for an index in range reads that element of the list.\<close>

lemma vec_deref_index:
  assumes "vector_inv v" and "unat i < unat (v_size v)"
  shows "vec_deref v (i * v_elem_size v) = vec_list v ! unat i"
proof -
  have "unat i < unat (v_capacity v)" using assms by (simp add: vector_inv_def)
  then show ?thesis
    using vector_offset [OF assms(1)] assms(2) by (simp add: vec_deref_def vec_list_def)
qed

lemma vec_store_ok:
  assumes "vector_inv v" and "unat i < unat (v_capacity v)" and "vec_elem v e"
  shows "vec_store h v i e =
    (set_fault False h, v\<lparr>v_buf := blit (v_buf v) (unat i * unat (v_elem_size v)) e\<rparr>)"
  using assms vector_inv_fits [OF assms(1,2)] vector_offset [OF assms(1,2)]
  by (simp add: vec_store_def Let_def)

declare set_fault_False [simp]

lemma vector_inv_blit:
  assumes "vector_inv v" and "i < unat (v_capacity v)" and "vec_elem v e"
  shows "vector_inv (v\<lparr>v_buf := blit (v_buf v) (i * unat (v_elem_size v)) e\<rparr>)"
  using assms vector_inv_fits [OF assms(1,2)] by (simp add: vector_inv_def)

section \<open>What each operation does\<close>

lemma vec_list_append:
  assumes "vector_inv v" and "unat (v_size v) < unat (v_capacity v)" and "vec_elem v e"
  defines "v' \<equiv> v\<lparr>v_buf := blit (v_buf v) (unat (v_size v) * unat (v_elem_size v)) e,
                  v_size := v_size v + 1, v_version := v_version v + 1\<rparr>"
  shows "vector_inv v'" and "vec_list v' = vec_list v @ [e]"
proof -
  have s: "unat (v_size v + 1) = Suc (unat (v_size v))"
    using assms(2) unat_size_t_lt [of "v_capacity v"] by (intro unat_size_t_Suc) linarith
  have len: "length (v_buf v) = unat (v_capacity v) * unat (v_elem_size v)"
    using assms(1) by (simp add: vector_inv_def)
  show "vector_inv v'"
    using assms(1,2,3) s vector_inv_fits(1) [OF assms(1,2)] by (simp add: vector_inv_def v'_def)
  show "vec_list v' = vec_list v @ [e]"
    using elems_snoc [OF assms(3,2), of "v_buf v"] len s by (simp add: vec_list_def v'_def)
qed

lemma push_no_growth:
  assumes "vector_inv v" and "unat (v_size v) < unat (v_capacity v)" and "vec_elem v e"
  shows "cdsa_push_vector h (Some v) (Some e) =
    (h, Some (v\<lparr>v_buf := blit (v_buf v) (unat (v_size v) * unat (v_elem_size v)) e,
                v_size := v_size v + 1, v_version := v_version v + 1\<rparr>), CDSA_OK)"
  using assms vec_store_ok [OF assms]
  by (simp add: cdsa_push_vector_def size_t_le_iff)

text \<open>A growing vector keeps its elements; only its capacity and its data block change.\<close>

definition grown :: "heap \<Rightarrow> block_id \<Rightarrow> vector \<Rightarrow> vector" where
  "grown h p v =
     (let n = v_capacity v * 2 * v_elem_size v
      in v\<lparr>v_capacity := v_capacity v * 2, v_data := p,
           v_buf := moved_bytes h p (v_buf v) (user_len n)\<rparr>)"

lemma grown_inv:
  assumes "vector_inv v" and "2 * unat (v_capacity v) * unat (v_elem_size v) + 8 < size_bound"
  shows "vector_inv (grown h p v)" and "vec_list (grown h p v) = vec_list v"
    and "unat (v_capacity (grown h p v)) = 2 * unat (v_capacity v)"
    and "unat (v_capacity v * 2 * v_elem_size v) =
      2 * unat (v_capacity v) * unat (v_elem_size v)"
proof -
  let ?c = "unat (v_capacity v)" and ?e = "unat (v_elem_size v)"
  have e: "0 < ?e" "0 < ?c" and len: "length (v_buf v) = ?c * ?e"
    and sz: "unat (v_size v) \<le> ?c"
    using assms(1) by (simp_all add: vector_inv_def)
  have "2 * ?c * 1 \<le> 2 * ?c * ?e" using e by (intro mult_le_mono2) simp
  then have "2 * ?c < size_bound" using assms(2) by linarith
  then have c2: "unat (v_capacity v * 2) = 2 * ?c" by (subst unat_size_t_mult) auto
  show n: "unat (v_capacity v * 2 * v_elem_size v) = 2 * ?c * ?e"
    using c2 assms(2) by (subst unat_size_t_mult) auto
  then have ul: "user_len (v_capacity v * 2 * v_elem_size v) = 2 * ?c * ?e"
    using assms(2) by (simp add: user_len_no_wrap)
  show "unat (v_capacity (grown h p v)) = 2 * ?c" by (simp add: grown_def Let_def c2)
  show "vector_inv (grown h p v)"
    using assms e sz by (simp add: vector_inv_def grown_def Let_def c2 ul)
  have "unat (v_size v) * ?e \<le> length (v_buf v)" using sz len by simp
  then have "elems (take (2 * ?c * ?e) (v_buf v) @ r) ?e (unat (v_size v)) =
      elems (v_buf v) ?e (unat (v_size v))" for r
    using len by (simp add: elems_append)
  then show "vec_list (grown h p v) = vec_list v"
    by (simp add: vec_list_def grown_def Let_def ul moved_bytes_def)
qed

text \<open>
  \<open>cdsa_push_vector\<close> on a well-formed vector: room in the block, growth, or a refused growth,
  which leaves the elements but already has the doubled capacity.
\<close>

lemma push_vector_cases:
  assumes "vector_inv v" and "vector_owned h v" and "vec_elem v e"
    and "2 * unat (v_capacity v) * unat (v_elem_size v) + 8 < size_bound"
    and "cdsa_push_vector h (Some v) (Some e) = (h', r, s)"
  obtains (stored) v' where "r = Some v'" and "s = CDSA_OK"
      and "vector_inv v'" and "vec_list v' = vec_list v @ [e]"
      and "v_elem_size v' = v_elem_size v" and "v_self v' = v_self v"
      and "v_version v' = v_version v + 1" and "fault h' = fault h"
      and "h' = h \<and> v_data v' = v_data v \<and> v_capacity v' = v_capacity v \<or>
        v_size v = v_capacity v \<and>
        cdsa_realloc_track h (Some (v_data v)) (v_capacity v' * v_elem_size v) =
          (h', Some (v_data v'))"
  | (refused) "r = Some (v\<lparr>v_capacity := v_capacity v * 2\<rparr>)" and "s = CDSA_ERR_OOM"
      and "v_size v = v_capacity v" and "h' = h\<lparr>next_id := Suc (next_id h)\<rparr>"
      and "\<not> never_refuses h"
proof (cases "unat (v_size v) < unat (v_capacity v)")
  case True
  let ?v = "v\<lparr>v_buf := blit (v_buf v) (unat (v_size v) * unat (v_elem_size v)) e,
                v_size := v_size v + 1, v_version := v_version v + 1\<rparr>"
  have "h' = h" "r = Some ?v" "s = CDSA_OK"
    using assms(5) push_no_growth [OF assms(1) True assms(3)] by auto
  then show thesis
    using vec_list_append [OF assms(1) True assms(3)] by (intro stored [of ?v]) simp_all
next
  case False
  then have full: "v_size v = v_capacity v"
    using assms(1) by (simp add: vector_inv_def size_t_eq_iff)
  let ?n = "v_capacity v * 2 * v_elem_size v"
  note g = grown_inv [OF assms(1,4)]
  obtain h1 t where re: "cdsa_realloc_track h (Some (v_data v)) ?n = (h1, t)" by fastforce
  have own: "owns h (v_data v) (v_capacity v * v_elem_size v)"
    using assms(2) by (simp add: vector_owned_def)
  have "0 < unat ?n" using assms(1) g(4) by (simp add: vector_inv_def)
  then have nz: "?n \<noteq> 0" by (metis size_t_zero_iff less_irrefl)
  show thesis
  proof (cases t)
    case None
    then show thesis
      using assms(5) re full realloc_None [OF re [unfolded None] own nz]
      by (intro refused) (auto simp: cdsa_push_vector_def never_refuses_def)
  next
    case (Some p)
    let ?g = "grown h1 p v"
    have room: "unat (v_size ?g) < unat (v_capacity ?g)"
      using g(3) full assms(1) by (simp add: grown_def Let_def vector_inv_def)
    have el: "vec_elem ?g e" using assms(3) by (simp add: grown_def Let_def)
    have step: "cdsa_push_vector h (Some v) (Some e) = cdsa_push_vector h1 (Some ?g) (Some e)"
      using re Some full room
      by (simp add: cdsa_push_vector_def grown_def Let_def size_t_le_iff)
    note a = realloc_Some [OF re [unfolded Some] own]
    have "fault h1 = fault h"
      using a(5) no_wrap_header [of ?n] g(4) assms(4) by simp
    let ?v = "?g\<lparr>v_buf := blit (v_buf ?g) (unat (v_size ?g) * unat (v_elem_size ?g)) e,
                v_size := v_size ?g + 1, v_version := v_version ?g + 1\<rparr>"
    have res: "h' = h1" "r = Some ?v" "s = CDSA_OK"
      using assms(5) step push_no_growth [OF g(1) room el, of h1] by auto
    have fields: "v_elem_size ?g = v_elem_size v" "v_self ?g = v_self v" "v_data ?g = p"
      "v_version ?g = v_version v" "v_capacity ?g = v_capacity v * 2" "v_size ?g = v_size v"
      by (simp_all add: grown_def Let_def)
    from res show thesis
      using vec_list_append [OF g(1) room el] g(2) re Some full fields \<open>fault h1 = fault h\<close>
      by (intro stored [of ?v]) simp_all
  qed
qed

lemma pop_vector_inv:
  assumes "vector_inv v" and "vec_list v \<noteq> []"
  defines "v' \<equiv> v\<lparr>v_size := v_size v - 1, v_version := v_version v + 1\<rparr>"
  shows "cdsa_pop_vector (Some v) = (Some v', CDSA_OK)" and "vector_inv v'"
    and "vec_list v' = butlast (vec_list v)"
proof -
  have nz: "v_size v \<noteq> 0" using assms(2) by (simp add: vec_list_Nil)
  then have pos: "0 < unat (v_size v)" by (simp add: size_t_zero_iff)
  then have s: "unat (v_size v - 1) = unat (v_size v) - 1" by (rule unat_size_t_pred)
  show "cdsa_pop_vector (Some v) = (Some v', CDSA_OK)" using nz by (simp add: cdsa_pop_vector_def v'_def)
  show "vector_inv v'" using assms(1) s by (auto simp: vector_inv_def v'_def)
  show "vec_list v' = butlast (vec_list v)"
    using elems_butlast [OF pos] s by (simp add: vec_list_def v'_def)
qed

lemma pop_vector_empty:
  "vec_list v = [] \<Longrightarrow> cdsa_pop_vector (Some v) = (Some v, CDSA_ERR_NOT_FOUND)"
  by (simp add: cdsa_pop_vector_def vec_list_Nil)

lemma set_vector_inv:
  assumes "vector_inv v" and "unat i < unat (v_size v)" and "vec_elem v e"
  defines "v' \<equiv> v\<lparr>v_buf := blit (v_buf v) (unat i * unat (v_elem_size v)) e\<rparr>"
  shows "set_vector h (Some v) i (Some e) = (h, Some v', CDSA_OK)" and "vector_inv v'"
    and "vec_list v' = (vec_list v)[unat i := e]"
proof -
  have c: "unat i < unat (v_capacity v)" using assms(1,2) by (simp add: vector_inv_def)
  have len: "length (v_buf v) = unat (v_capacity v) * unat (v_elem_size v)"
    and le: "unat (v_size v) \<le> unat (v_capacity v)"
    using assms(1) by (simp_all add: vector_inv_def)
  show "set_vector h (Some v) i (Some e) = (h, Some v', CDSA_OK)"
    using assms(2) vec_store_ok [OF assms(1) c assms(3)]
    by (simp add: set_vector_def size_t_le_iff v'_def)
  show "vector_inv v'" using vector_inv_blit [OF assms(1) c assms(3)] by (simp add: v'_def)
  show "vec_list v' = (vec_list v)[unat i := e]"
    using elems_blit [OF assms(3) c le, of "v_buf v"] len by (simp add: vec_list_def v'_def)
qed

lemma set_vector_out_of_range:
  "unat (v_size v) \<le> unat i \<Longrightarrow> set_vector h (Some v) i (Some e) = (h, Some v, CDSA_ERR_NOT_FOUND)"
  by (simp add: set_vector_def size_t_le_iff)

lemma get_vector_index:
  "get_vector (Some v) i =
    (if unat i < unat (v_size v) then Some (i * v_elem_size v) else None)"
  by (simp add: get_vector_def size_t_le_iff not_le [symmetric])

lemma front_vector_hd:
  assumes "vector_inv v"
  shows "map_option (vec_deref v) (cdsa_front_vector (Some v)) =
    (if vec_list v = [] then None else Some (hd (vec_list v)))"
proof (cases "vec_list v = []")
  case True
  then show ?thesis by (simp add: cdsa_front_vector_def vec_list_Nil)
next
  case False
  then have "0 < unat (v_size v)" by (metis length_greater_0_conv length_vec_list)
  then show ?thesis
    using False vec_deref_index [OF assms, of 0]
    by (simp add: cdsa_front_vector_def vec_list_Nil hd_conv_nth)
qed

lemma back_vector_last:
  assumes "vector_inv v"
  shows "map_option (vec_deref v) (cdsa_back_vector (Some v)) =
    (if vec_list v = [] then None else Some (last (vec_list v)))"
proof (cases "vec_list v = []")
  case True
  then show ?thesis by (simp add: cdsa_back_vector_def vec_list_Nil)
next
  case False
  then have pos: "0 < unat (v_size v)" by (metis length_greater_0_conv length_vec_list)
  then have "unat (v_size v - 1) = unat (v_size v) - 1" by (rule unat_size_t_pred)
  then show ?thesis
    using False pos vec_deref_index [OF assms, of "v_size v - 1"]
    by (simp add: cdsa_back_vector_def vec_list_Nil last_conv_nth)
qed

lemma push_vector_Some:
  "cdsa_push_vector h (Some v) (Some e) = (h', r, s) \<Longrightarrow> \<exists>w. r = Some w"
  by (auto simp: cdsa_push_vector_def Let_def split: if_splits option.splits prod.splits)

text \<open>Every change of the size but clearing counts the version up.\<close>

lemma push_vector_version:
  "cdsa_push_vector h (Some v) (Some e) = (h', Some w, CDSA_OK) \<Longrightarrow> v_version w = v_version v + 1"
  by (auto simp: cdsa_push_vector_def vec_store_def Let_def
      split: if_splits option.splits prod.splits)

lemma pop_vector_version:
  "cdsa_pop_vector (Some v) = (Some w, CDSA_OK) \<Longrightarrow> v_version w = v_version v + 1"
  by (auto simp: cdsa_pop_vector_def split: if_splits)

section \<open>The blocks of a vector\<close>

definition vec_ok :: "heap \<Rightarrow> vector \<Rightarrow> bool" where
  "vec_ok h v \<longleftrightarrow> heap_ok h \<and> vector_inv v \<and> vector_owned h v"

lemma vec_okD: "vec_ok h v \<Longrightarrow> heap_ok h" "vec_ok h v \<Longrightarrow> vector_inv v"
  "vec_ok h v \<Longrightarrow> vector_owned h v"
  by (simp_all add: vec_ok_def)

definition vec_room :: "vector \<Rightarrow> bool" where
  "vec_room v \<longleftrightarrow> 2 * unat (v_capacity v) * unat (v_elem_size v) + 8 < size_bound"

lemma vector_owned_realloc:
  assumes "heap_ok h" and "vector_owned h v"
    and "cdsa_realloc_track h (Some (v_data v)) (v_capacity v' * v_elem_size v') =
      (h', Some (v_data v'))"
    and "v_self v' = v_self v"
  shows "heap_ok h'" and "vector_owned h' v'" and "vec_frame h' v' = vec_frame h v"
    and "libc_refuses h' = libc_refuses h"
proof -
  have own: "owns h (v_self v) sizeof_vector" "owns h (v_data v) (v_capacity v * v_elem_size v)"
    "v_self v \<noteq> v_data v"
    using assms(2) by (simp_all add: vector_owned_def)
  from realloc_two_blocks [OF assms(1) own assms(3)] assms(4)
  show "heap_ok h'" and "vector_owned h' v'" and "vec_frame h' v' = vec_frame h v"
    and "libc_refuses h' = libc_refuses h"
    by (simp_all add: vector_owned_def)
qed

lemma push_vector_ok:
  assumes "vec_ok h v" and "vec_elem v e" and "vec_room v"
    and "cdsa_push_vector h (Some v) (Some e) = (h', Some v', CDSA_OK)"
  shows "vec_ok h' v'" and "vec_list v' = vec_list v @ [e]" and "v_elem_size v' = v_elem_size v"
    and "v_version v' = v_version v + 1" and "fault h' = fault h"
    and "vec_frame h' v' = vec_frame h v"
    and "unat (v_capacity v') \<le> max (unat (v_capacity v)) (2 * unat (v_size v))"
    and "libc_refuses h' = libc_refuses h"
proof -
  note ok = vec_okD [OF assms(1)]
  have growth: "2 * unat (v_capacity v) * unat (v_elem_size v) + 8 < size_bound"
    using assms(3) by (simp add: vec_room_def)
  have "vec_ok h' v' \<and> vec_list v' = vec_list v @ [e] \<and> v_elem_size v' = v_elem_size v \<and>
      v_version v' = v_version v + 1 \<and> fault h' = fault h \<and> vec_frame h' v' = vec_frame h v \<and>
      unat (v_capacity v') \<le> max (unat (v_capacity v)) (2 * unat (v_size v)) \<and>
      libc_refuses h' = libc_refuses h"
    using ok(2,3) assms(2) growth assms(4)
  proof (cases rule: push_vector_cases)
    case (stored v'')
    then have eq: "v'' = v'" by simp
    note st = stored(3-9) [unfolded eq]
    from st(7) show ?thesis
    proof
      assume "h' = h \<and> v_data v' = v_data v \<and> v_capacity v' = v_capacity v"
      then show ?thesis using st ok by (simp add: vec_ok_def vector_owned_def)
    next
      assume grow: "v_size v = v_capacity v \<and>
        cdsa_realloc_track h (Some (v_data v)) (v_capacity v' * v_elem_size v) =
          (h', Some (v_data v'))"
      then have re: "cdsa_realloc_track h (Some (v_data v)) (v_capacity v' * v_elem_size v') =
          (h', Some (v_data v'))" using st(3) by simp
      note o = vector_owned_realloc [OF ok(1,3) re st(4)]
      have "v_capacity v' = v_capacity v * 2"
        using assms(4) grow by (auto simp: cdsa_push_vector_def vec_store_def Let_def
            split: option.splits prod.splits)
      moreover have "unat (v_capacity v * 2) \<le> 2 * unat (v_capacity v)"
        by (simp add: unat_word_ariths)
      ultimately show ?thesis using st o grow by (simp add: vec_ok_def)
    qed
  next
    case refused
    then show ?thesis by simp
  qed
  then show "vec_ok h' v'" and "vec_list v' = vec_list v @ [e]"
    and "v_elem_size v' = v_elem_size v" and "v_version v' = v_version v + 1"
    and "fault h' = fault h" and "vec_frame h' v' = vec_frame h v"
    and "unat (v_capacity v') \<le> max (unat (v_capacity v)) (2 * unat (v_size v))"
    and "libc_refuses h' = libc_refuses h"
    by simp_all
qed

lemma pop_vector_ok:
  assumes "vec_ok h v" and "vec_list v \<noteq> []"
  defines "v' \<equiv> v\<lparr>v_size := v_size v - 1, v_version := v_version v + 1\<rparr>"
  shows "cdsa_pop_vector (Some v) = (Some v', CDSA_OK)" and "vec_ok h v'"
    and "vec_list v' = butlast (vec_list v)"
  using pop_vector_inv [OF vec_okD(2) [OF assms(1)] assms(2)] assms(1)
  by (simp_all add: v'_def vec_ok_def vector_owned_def)

lemma set_vector_ok:
  assumes "vec_ok h v" and "unat i < unat (v_size v)" and "vec_elem v e"
  defines "v' \<equiv> v\<lparr>v_buf := blit (v_buf v) (unat i * unat (v_elem_size v)) e\<rparr>"
  shows "set_vector h (Some v) i (Some e) = (h, Some v', CDSA_OK)" and "vec_ok h v'"
    and "vec_list v' = (vec_list v)[unat i := e]"
  using set_vector_inv [OF vec_okD(2) [OF assms(1)] assms(2,3)] assms(1)
  by (simp_all add: v'_def vec_ok_def vector_owned_def)

lemma clear_vector_ok:
  assumes "vec_ok h v"
  shows "vec_ok h (v\<lparr>v_size := 0\<rparr>)" and "vec_list (v\<lparr>v_size := 0\<rparr>) = []"
  using assms by (simp_all add: vec_ok_def vector_inv_def vector_owned_def vec_list_def)

lemma free_vector_blocks:
  assumes "vector_owned h v"
  shows "live (cdsa_free_vector h (Some v)) = vec_frame h v"
    and "fault (cdsa_free_vector h (Some v)) = fault h"
    and "heap_ok h \<Longrightarrow> heap_ok (cdsa_free_vector h (Some v))"
  using free_two_blocks [of h "v_self v" sizeof_vector "v_data v"] assms
  by (auto simp: cdsa_free_vector_def vector_owned_def)

text \<open>The two outcomes of a creation; a refused one leaves no block behind.\<close>

lemma create_vectorE:
  assumes "cdsa_create_vector h es = (h', Some v)"
  obtains h1 where "cdsa_malloc_track h sizeof_vector = (h1, Some (v_self v))"
    and "cdsa_malloc_track h1 (INITIAL_CAPACITY * es) = (h', Some (v_data v))"
    and "v = \<lparr>v_self = v_self v, v_data = v_data v,
      v_buf = fresh_bytes h' (v_data v) (user_len (INITIAL_CAPACITY * es)), v_size = 0,
      v_capacity = INITIAL_CAPACITY, v_elem_size = es, v_version = 0\<rparr>"
  using assms that by (auto simp: cdsa_create_vector_def split: option.splits prod.splits)

lemma create_vector_inv:
  assumes "cdsa_create_vector h es = (h', Some v)" and "0 < unat es"
    and "4 * unat es + 8 < size_bound"
  shows "vector_inv v" and "vec_list v = []" and "v_elem_size v = es" and "v_version v = 0"
    and "fault h' = fault h" and "unat (v_capacity v) = 4"
proof -
  from assms(1) obtain h1 where m: "cdsa_malloc_track h sizeof_vector = (h1, Some (v_self v))"
      "cdsa_malloc_track h1 (INITIAL_CAPACITY * es) = (h', Some (v_data v))"
    and v: "v_buf v = fresh_bytes h' (v_data v) (user_len (INITIAL_CAPACITY * es))"
      "v_size v = 0" "v_capacity v = INITIAL_CAPACITY" "v_elem_size v = es" "v_version v = 0"
    by (rule create_vectorE) (metis vector.select_convs)
  have four: "unat (INITIAL_CAPACITY * es) = 4 * unat es"
    using assms(3) by (subst unat_size_t_mult) (auto simp: INITIAL_CAPACITY_def)
  then have ul: "user_len (INITIAL_CAPACITY * es) = 4 * unat es"
    using assms(3) by (simp add: user_len_no_wrap)
  show "vector_inv v" using assms(2,3) by (simp add: vector_inv_def v INITIAL_CAPACITY_def ul [unfolded INITIAL_CAPACITY_def])
  show "vec_list v = []" and "v_elem_size v = es" and "v_version v = 0"
    and "unat (v_capacity v) = 4"
    by (simp_all add: vec_list_Nil v INITIAL_CAPACITY_def)
  have "\<not> unat (sizeof_vector + 8) < 8" by (simp add: sizeof_vector_def)
  then show "fault h' = fault h"
    using malloc_Some(5) [OF m(1)] malloc_Some(5) [OF m(2)] four assms(3)
      no_wrap_header [of "INITIAL_CAPACITY * es"]
    by simp
qed

lemma create_vector_owned:
  assumes "cdsa_create_vector h es = (h', Some v)" and "heap_ok h"
  shows "heap_ok h'" and "vector_owned h' v" and "vec_frame h' v = live h"
    and "libc_refuses h' = libc_refuses h"
proof -
  from assms(1) obtain h1 where m: "cdsa_malloc_track h sizeof_vector = (h1, Some (v_self v))"
      "cdsa_malloc_track h1 (INITIAL_CAPACITY * es) = (h', Some (v_data v))"
    and v: "v_capacity v = INITIAL_CAPACITY" "v_elem_size v = es"
    by (rule create_vectorE) (metis vector.select_convs)
  from malloc_two_blocks [OF assms(2) m] v
  show "heap_ok h'" and "vector_owned h' v" and "vec_frame h' v = live h"
    and "libc_refuses h' = libc_refuses h"
    by (simp_all add: vector_owned_def)
qed

lemma create_vector_refused:
  assumes "cdsa_create_vector h es = (h', None)" and "heap_ok h"
  shows "live h' = live h" and "mem_used h' = mem_used h" and "fault h' = fault h"
proof -
  have s: "\<not> unat (sizeof_vector + 8) < 8" by (simp add: sizeof_vector_def)
  show "live h' = live h" and "mem_used h' = mem_used h" and "fault h' = fault h"
    using assms(1) malloc_rollback [OF assms(2) s] malloc_None_frame
    by (auto simp: cdsa_create_vector_def split: option.splits prod.splits)
qed

lemma create_vector_succeeds:
  assumes "never_refuses h"
  shows "\<exists>h' v. cdsa_create_vector h es = (h', Some v)"
  using assms
  by (simp add: never_refuses_def cdsa_create_vector_def cdsa_malloc_track_def Let_def)

section \<open>The vector provides the growing and the indexed array\<close>

definition vec_push :: "heap \<Rightarrow> vector \<Rightarrow> bytes \<Rightarrow> heap \<times> vector \<times> cdsa_status" where
  "vec_push h v e = (case cdsa_push_vector h (Some v) (Some e) of (h', r, s) \<Rightarrow> (h', the r, s))"

definition vec_pop :: "vector \<Rightarrow> vector \<times> cdsa_status" where
  "vec_pop v = (case cdsa_pop_vector (Some v) of (r, s) \<Rightarrow> (the r, s))"

definition vec_top :: "vector \<Rightarrow> bytes option" where
  "vec_top v = map_option (vec_deref v) (cdsa_back_vector (Some v))"

definition vec_lookup :: "vector \<Rightarrow> size_t \<Rightarrow> bytes option" where
  "vec_lookup v i = map_option (vec_deref v) (get_vector (Some v) i)"

definition vec_update ::
  "heap \<Rightarrow> vector \<Rightarrow> size_t \<Rightarrow> bytes \<Rightarrow> heap \<times> vector \<times> cdsa_status" where
  "vec_update h v i e =
     (case set_vector h (Some v) i (Some e) of (h', r, s) \<Rightarrow> (h', the r, s))"

text \<open>Everything but the bytes.\<close>

definition vec_shape :: "vector \<Rightarrow> vector" where
  "vec_shape v = v\<lparr>v_buf := []\<rparr>"

lemma vec_shapeD:
  assumes "vec_shape v' = vec_shape v"
  shows "v_self v' = v_self v" and "v_data v' = v_data v" and "v_capacity v' = v_capacity v"
    and "v_elem_size v' = v_elem_size v" and "v_size v' = v_size v"
    and "v_version v' = v_version v"
  using arg_cong [OF assms, of v_self] arg_cong [OF assms, of v_data]
    arg_cong [OF assms, of v_capacity] arg_cong [OF assms, of v_elem_size]
    arg_cong [OF assms, of v_size] arg_cong [OF assms, of v_version]
  by (simp_all add: vec_shape_def)

interpretation varr: indexed_array vec_ok vec_list "\<lambda>v e. vec_elem v e" vec_room vec_push vec_pop
  vec_top vec_shape vec_lookup vec_update
proof (unfold_locales, goal_cases)
  case (1 h v e h' v' s)
  obtain r where push: "cdsa_push_vector h (Some v) (Some e) = (h', r, s)" and v': "v' = the r"
    using 1(4) by (auto simp: vec_push_def split: prod.splits)
  have growth: "2 * unat (v_capacity v) * unat (v_elem_size v) + 8 < size_bound"
    using 1(3) by (simp add: vec_room_def)
  from vec_okD(2,3) [OF 1(1)] 1(2) growth push show ?case
  proof (cases rule: push_vector_cases)
    case (stored v'')
    then show ?thesis using push_vector_ok [OF 1(1-3)] push v' by auto
  next
    case refused
    then show ?thesis by (simp add: v' vec_list_def)
  qed
next
  case (2 h v)
  then show ?case using pop_vector_ok [OF 2] by (auto simp: vec_pop_def)
next
  case (3 v)
  then show ?case by (simp add: vec_pop_def pop_vector_empty)
next
  case (4 h v)
  then show ?case using back_vector_last [OF vec_okD(2)] by (simp add: vec_top_def)
next
  case (5 h v e)
  then show ?case
    using elems_length_each [of "unat (v_size v)" "unat (v_elem_size v)" "v_buf v" e]
    by (auto simp: vec_ok_def vector_inv_def vec_list_def)
next
  case (6 h v i)
  then show ?case
    using vec_deref_index [OF vec_okD(2)] by (simp add: vec_lookup_def get_vector_index)
next
  case (7 h v i e)
  then show ?case
    using set_vector_ok [OF 7(1) _ 7(3), of i] by (auto simp: vec_update_def vec_shape_def)
qed

section \<open>The iterator\<close>

definition vec_iter_next ::
  "vector \<Rightarrow> vector_iterator \<Rightarrow> vector_iterator \<times> cdsa_status \<times> size_t option" where
  "vec_iter_next v i = (case cdsa_next_vector v (Some i) of (r, s, p) \<Rightarrow> (the r, s, p))"

definition vec_iter_has_next :: "vector \<Rightarrow> vector_iterator \<Rightarrow> vector_iterator \<times> bool" where
  "vec_iter_has_next v i = (i, cdsa_has_next_vector (Some v) (Some i))"

definition vec_iter_rest :: "vector \<Rightarrow> vector_iterator \<Rightarrow> size_t list" where
  "vec_iter_rest v i =
     map (\<lambda>k. of_nat k * v_elem_size v) [unat (vi_index i)..<unat (v_size v)]"

interpretation vec_iter: fail_fast_iterator v_version vi_snapshot
  vec_iter_has_next vec_iter_next
  "\<lambda>v i. True" vec_iter_rest
proof (unfold_locales, goal_cases)
  case (1 c i)
  then show ?case by (simp add: vec_iter_has_next_def cdsa_has_next_vector_def)
next
  case (2 c i)
  then show ?case by (simp add: vec_iter_next_def cdsa_next_vector_def)
next
  case (3 c i)
  then show ?case
    by (auto simp: vec_iter_has_next_def cdsa_has_next_vector_def vec_iter_rest_def size_t_less_iff)
next
  case (4 c i x xs)
  then have lt: "unat (vi_index i) < unat (v_size c)"
    by (auto simp: vec_iter_rest_def upt_eq_Cons_conv)
  then have "unat (vi_index i + 1) = Suc (unat (vi_index i))"
    using unat_size_t_lt [of "v_size c"] by (intro unat_size_t_Suc) linarith
  then show ?case
    using 4 lt
    by (auto simp: vec_iter_next_def cdsa_next_vector_def cdsa_has_next_vector_def
        vec_iter_rest_def size_t_less_iff upt_eq_Cons_conv)
next
  case (5 c i)
  then have "\<not> vi_index i < v_size c" by (auto simp: vec_iter_rest_def size_t_less_iff)
  then show ?case
    using 5 by (simp add: vec_iter_next_def cdsa_next_vector_def cdsa_has_next_vector_def)
qed

lemma vec_iter_rest_elems:
  assumes "vector_inv v" and "vi_index i = 0"
  shows "map (vec_deref v) (vec_iter_rest v i) = vec_list v"
proof (rule nth_equalityI)
  show "length (map (vec_deref v) (vec_iter_rest v i)) = length (vec_list v)"
    using assms(2) by (simp add: vec_iter_rest_def)
next
  fix k assume "k < length (map (vec_deref v) (vec_iter_rest v i))"
  then have k: "k < unat (v_size v)" using assms(2) by (simp add: vec_iter_rest_def)
  then have u: "unat (of_nat k :: size_t) = k"
    using unat_size_t_lt [of "v_size v"] by (intro unat_of_nat_size_t) linarith
  show "map (vec_deref v) (vec_iter_rest v i) ! k = vec_list v ! k"
    using vec_deref_index [OF assms(1), of "of_nat k"] k u assms(2)
    by (simp add: vec_iter_rest_def)
qed

section \<open>Runs of operations against the sequence they maintain\<close>

datatype vec_call = VPush bytes | VPop | VSet size_t bytes | VClear

fun vec_exec ::
  "heap \<Rightarrow> vector option \<Rightarrow> vec_call \<Rightarrow> heap \<times> vector option \<times> cdsa_status" where
  "vec_exec h v (VPush e) = cdsa_push_vector h v (Some e)"
| "vec_exec h v VPop = (h, cdsa_pop_vector v)"
| "vec_exec h v (VSet i e) = set_vector h v i (Some e)"
| "vec_exec h v VClear = (h, cdsa_clear_vector v, CDSA_OK)"

fun vec_run ::
  "heap \<Rightarrow> vector option \<Rightarrow> vec_call list \<Rightarrow> heap \<times> vector option \<times> cdsa_status list" where
  "vec_run h v [] = (h, v, [])"
| "vec_run h v (c # cs) =
     (case vec_exec h v c of
        (h1, v1, s) \<Rightarrow> (case vec_run h1 v1 cs of (h2, v2, ss) \<Rightarrow> (h2, v2, s # ss)))"

fun seq_exec :: "bytes list \<Rightarrow> vec_call \<Rightarrow> bytes list \<times> cdsa_status" where
  "seq_exec xs (VPush e) = (xs @ [e], CDSA_OK)"
| "seq_exec xs VPop = (if xs = [] then (xs, CDSA_ERR_NOT_FOUND) else (butlast xs, CDSA_OK))"
| "seq_exec xs (VSet i e) =
     (if unat i < length xs then (xs[unat i := e], CDSA_OK) else (xs, CDSA_ERR_NOT_FOUND))"
| "seq_exec xs VClear = ([], CDSA_OK)"

fun seq_run :: "bytes list \<Rightarrow> vec_call list \<Rightarrow> bytes list \<times> cdsa_status list" where
  "seq_run xs [] = (xs, [])"
| "seq_run xs (c # cs) =
     (case seq_exec xs c of (ys, s) \<Rightarrow> (case seq_run ys cs of (zs, ss) \<Rightarrow> (zs, s # ss)))"

fun vec_call_ok :: "nat \<Rightarrow> vec_call \<Rightarrow> bool" where
  "vec_call_ok n (VPush e) \<longleftrightarrow> length e = n"
| "vec_call_ok n (VSet i e) \<longleftrightarrow> length e = n"
| "vec_call_ok n _ \<longleftrightarrow> True"

text \<open>
  One call: after \<open>k\<close> calls the capacity is at most \<open>4 + 2 * k\<close>, which bounds the growth.
\<close>

lemma vec_exec_refines:
  assumes "vec_ok h v" and "never_refuses h" and "vec_call_ok (unat (v_elem_size v)) c"
    and "unat (v_capacity v) \<le> 4 + 2 * k" and "unat (v_size v) \<le> k"
    and "(8 + 4 * k) * unat (v_elem_size v) + 8 < size_bound"
    and "vec_exec h (Some v) c = (h', r, s)"
  obtains v' where "r = Some v'" and "vec_ok h' v'" and "never_refuses h'"
    and "seq_exec (vec_list v) c = (vec_list v', s)" and "v_elem_size v' = v_elem_size v"
    and "fault h' = fault h" and "vec_frame h' v' = vec_frame h v"
    and "unat (v_capacity v') \<le> 4 + 2 * Suc k" and "unat (v_size v') \<le> Suc k"
proof (cases c)
  case (VPush e)
  have el: "vec_elem v e" using assms(3) VPush by simp
  have "2 * unat (v_capacity v) * unat (v_elem_size v) \<le> (8 + 4 * k) * unat (v_elem_size v)"
    using assms(4) by (intro mult_le_mono1) simp
  then have room: "vec_room v" using assms(6) unfolding vec_room_def by linarith
  have push: "cdsa_push_vector h (Some v) (Some e) = (h', r, s)" using assms(7) VPush by simp
  have growth: "2 * unat (v_capacity v) * unat (v_elem_size v) + 8 < size_bound"
    using room by (simp add: vec_room_def)
  from vec_okD(2,3) [OF assms(1)] el growth push
  obtain v' where v': "r = Some v'" "s = CDSA_OK"
  proof (cases rule: push_vector_cases)
    case (stored v')
    then show ?thesis using that by simp
  next
    case refused
    then show ?thesis using assms(2) by simp
  qed
  note p = push_vector_ok [OF assms(1) el room push [unfolded v']]
  have "length (vec_list v') = Suc (length (vec_list v))" by (simp only: p(2) length_append_singleton)
  then have "unat (v_size v') \<le> Suc k" using assms(5) by simp
  then show thesis
    using p v' assms(2,4,5) VPush by (intro that [of v']) (auto simp: never_refuses_def)
next
  case VPop
  show thesis
  proof (cases "vec_list v = []")
    case True
    then show thesis
      using assms VPop by (intro that [of v]) (auto simp: pop_vector_empty)
  next
    case False
    note p = pop_vector_ok [OF assms(1) False]
    have "0 < unat (v_size v)" using False by (metis length_greater_0_conv length_vec_list)
    then have "unat (v_size v - 1) \<le> unat (v_size v)" by (simp add: unat_size_t_pred)
    then show thesis
      using assms VPop p False by (intro that [of "the r"]) auto
  qed
next
  case (VSet i e)
  show thesis
  proof (cases "unat i < unat (v_size v)")
    case True
    note p = set_vector_ok [OF assms(1) True, of e]
    then show thesis
      using assms VSet True by (intro that [of "the r"]) auto
  next
    case False
    then show thesis
      using assms VSet by (intro that [of v]) (auto simp: set_vector_out_of_range)
  qed
next
  case VClear
  note p = clear_vector_ok [OF assms(1)]
  then show thesis
    using assms VClear by (intro that [of "the r"]) (auto simp: cdsa_clear_vector_def)
qed

lemma vec_run_refines:
  assumes "vec_ok h v" and "never_refuses h"
    and "\<forall>c \<in> set cs. vec_call_ok (unat (v_elem_size v)) c"
    and "unat (v_capacity v) \<le> 4 + 2 * k" and "unat (v_size v) \<le> k"
    and "(8 + 4 * (k + length cs)) * unat (v_elem_size v) + 8 < size_bound"
    and "vec_run h (Some v) cs = (h', r, ss)"
  shows "\<exists>v'. r = Some v' \<and> vec_ok h' v' \<and> seq_run (vec_list v) cs = (vec_list v', ss) \<and>
      fault h' = fault h \<and> vec_frame h' v' = vec_frame h v"
  using assms
proof (induction cs arbitrary: h v k ss)
  case Nil
  then show ?case by auto
next
  case (Cons c cs)
  obtain h1 r1 s where one: "vec_exec h (Some v) c = (h1, r1, s)" by (metis prod_cases3)
  obtain ss' where rest: "vec_run h1 r1 cs = (h', r, ss')" and ss: "ss = s # ss'"
    using Cons.prems(7) one by (auto split: prod.splits)
  have "(8 + 4 * k) * unat (v_elem_size v) \<le>
      (8 + 4 * (k + length (c # cs))) * unat (v_elem_size v)"
    by (intro mult_le_mono1) simp
  then have bound: "(8 + 4 * k) * unat (v_elem_size v) + 8 < size_bound"
    using Cons.prems(6) by linarith
  have cok: "vec_call_ok (unat (v_elem_size v)) c" using Cons.prems(3) by simp
  from vec_exec_refines [OF Cons.prems(1,2) cok Cons.prems(4,5) bound one]
  obtain v1 where v1: "r1 = Some v1" "vec_ok h1 v1" "never_refuses h1"
      "seq_exec (vec_list v) c = (vec_list v1, s)" "v_elem_size v1 = v_elem_size v"
      "fault h1 = fault h" "vec_frame h1 v1 = vec_frame h v"
      "unat (v_capacity v1) \<le> 4 + 2 * Suc k" "unat (v_size v1) \<le> Suc k" .
  have "\<forall>c \<in> set cs. vec_call_ok (unat (v_elem_size v1)) c"
    and "(8 + 4 * (Suc k + length cs)) * unat (v_elem_size v1) + 8 < size_bound"
    using Cons.prems(3,6) v1(5) by (simp_all add: add.assoc)
  from Cons.IH [OF v1(2,3) this(1) v1(8,9) this(2) rest [unfolded v1(1)]] v1 ss
  show ?case by auto
qed

section \<open>Properties\<close>

text \<open>
  C1: a vector is the sequence of its elements: from its creation on, when libc refuses
  nothing, any run of pushes, pops, writes and clears returns the statuses the sequence would
  and ends with its elements, without touching memory outside the buffer; freeing the vector
  gives back exactly its blocks.
\<close>

theorem vector_refines_sequence:
  assumes "heap_ok h" and "never_refuses h" and "0 < unat es"
    and "(8 + 4 * length cs) * unat es + 8 < 2 ^ 64"
    and "\<forall>c \<in> set cs. vec_call_ok (unat es) c"
    and "cdsa_create_vector h es = (h0, Some v0)"
    and "vec_run h0 (Some v0) cs = (h1, r, ss)"
  shows "\<exists>v. r = Some v \<and> seq_run [] cs = (vec_list v, ss) \<and> fault h1 = fault h \<and>
      live (cdsa_free_vector h1 r) = live h \<and> heap_ok (cdsa_free_vector h1 r)"
proof -
  have "4 * unat es \<le> (8 + 4 * length cs) * unat es" by (intro mult_le_mono1) simp
  then have "4 * unat es + 8 < size_bound" using assms(4) by linarith
  note c = create_vector_inv [OF assms(6,3) this] and o = create_vector_owned [OF assms(6,1)]
  have "vec_ok h0 v0" "never_refuses h0"
    using c o assms(2) by (simp_all add: vec_ok_def never_refuses_def)
  moreover have "unat (v_size v0) \<le> 0" using c(2) by (simp add: vec_list_Nil)
  ultimately obtain v where "r = Some v" "vec_ok h1 v" "seq_run (vec_list v0) cs = (vec_list v, ss)"
      "fault h1 = fault h0" "vec_frame h1 v = vec_frame h0 v0"
    using vec_run_refines [of h0 v0 cs 0 h1 r ss] c(3,6) assms(4,5,7) by auto
  then show ?thesis
    using c(2,5) o(3) free_vector_blocks [OF vec_okD(3)] vec_okD(1) by auto
qed

theorem vector_refines_sequence_witness:
  "\<exists>h0 v0 h1 v. cdsa_create_vector good_heap 2 = (h0, Some v0) \<and>
     vec_run h0 (Some v0) [VPush [1, 2], VPush [3, 4], VSet 0 [5, 6], VPop, VPop, VPop] =
       (h1, Some v, [CDSA_OK, CDSA_OK, CDSA_OK, CDSA_OK, CDSA_OK, CDSA_ERR_NOT_FOUND]) \<and>
     vec_list v = [] \<and> live (cdsa_free_vector h1 (Some v)) = []"
proof -
  let ?cs = "[VPush [1, 2], VPush [3, 4], VSet 0 [5, 6], VPop, VPop, VPop]"
  obtain h0 v0 where c: "cdsa_create_vector good_heap 2 = (h0, Some v0)"
    using create_vector_succeeds [of good_heap 2] by auto
  obtain h1 r ss where run: "vec_run h0 (Some v0) ?cs = (h1, r, ss)" by (metis prod_cases3)
  from vector_refines_sequence [OF _ _ _ _ _ c run] obtain v where
    "r = Some v" "seq_run [] ?cs = (vec_list v, ss)" "live (cdsa_free_vector h1 r) = []"
    by auto
  then show ?thesis using c run by auto
qed

text \<open>
  C13: a refused growth leaves \<open>capacity\<close> doubled while the buffer keeps its length: the
  caller sees \<open>CDSA_ERR_OOM\<close>, and the next push reports success and writes behind the buffer.
\<close>

theorem vector_push_after_oom_overflows:
  assumes "vec_ok h v" and "vec_room v" and "vec_elem v e" and "vec_elem v e'"
    and "cdsa_push_vector h (Some v) (Some e) = (h1, r, CDSA_ERR_OOM)"
    and "cdsa_push_vector h1 r (Some e') = (h2, r', s)"
  shows "s = CDSA_OK \<and> fault h2"
proof -
  have growth: "2 * unat (v_capacity v) * unat (v_elem_size v) + 8 < size_bound"
    using assms(2) by (simp add: vec_room_def)
  from vec_okD(2,3) [OF assms(1)] assms(3) growth assms(5)
  have r: "r = Some (v\<lparr>v_capacity := v_capacity v * 2\<rparr>)" and full: "v_size v = v_capacity v"
    by (cases rule: push_vector_cases; simp)+
  note inv = vec_okD(2) [OF assms(1)]
  note g = grown_inv(3) [OF inv growth, of h "v_data v"]
  have c2: "unat (v_capacity v * 2) = 2 * unat (v_capacity v)"
    using g by (simp add: grown_def Let_def)
  have pos: "0 < unat (v_capacity v)" "0 < unat (v_elem_size v)"
    and len: "length (v_buf v) = unat (v_capacity v) * unat (v_elem_size v)"
    and small: "unat (v_capacity v) * unat (v_elem_size v) + 8 < size_bound"
    using inv by (simp_all add: vector_inv_def)
  have off: "unat (v_capacity v * v_elem_size v) = unat (v_capacity v) * unat (v_elem_size v)"
    using small by (intro unat_size_t_mult) linarith
  have "\<not> v_capacity v * 2 \<le> v_size v" using full c2 pos by (simp add: size_t_le_iff)
  then show ?thesis
    using assms(6) len off pos full
    by (auto simp: r cdsa_push_vector_def vec_store_def Let_def set_fault_def)
qed

text \<open>A heap that refuses every request after the two of the creation.\<close>

definition tight_heap :: "nat \<Rightarrow> heap" where
  "tight_heap n = initial_heap (\<lambda>k _. n \<le> k) (\<lambda>_ _. 0) (\<lambda>_. 0)"

lemma tight_heap_simps [simp]:
  "mem_used (tight_heap n) = 0" "live (tight_heap n) = []" "next_id (tight_heap n) = 0"
  "fault (tight_heap n) = False" "libc_refuses (tight_heap n) = (\<lambda>k _. n \<le> k)"
  "libc_fill (tight_heap n) = (\<lambda>_ _. 0)" "heap_ok (tight_heap n)"
  by (simp_all add: tight_heap_def)

theorem vector_push_after_oom_overflows_witness:
  "\<exists>h v h1 r h2 r'. length (vec_list v) = 4 \<and> \<not> fault h \<and> \<not> fault h1 \<and>
     cdsa_push_vector h (Some v) (Some [7]) = (h1, r, CDSA_ERR_OOM) \<and>
     cdsa_push_vector h1 r (Some [7]) = (h2, r', CDSA_OK) \<and> fault h2"
proof -
  define h where "h = fst (cdsa_create_vector (tight_heap 2) 1)"
  define v where "v = (the (snd (cdsa_create_vector (tight_heap 2) 1)))\<lparr>v_size := 4\<rparr>"
  have h: "h = (tight_heap 2)\<lparr>next_id := Suc (Suc 0), mem_used := 44,
      live := [(Suc 0, \<lparr>hdr = 4, raw = 12\<rparr>), (0, \<lparr>hdr = 40, raw = 48\<rparr>)], fault := False\<rparr>"
    by (simp add: h_def cdsa_create_vector_def cdsa_malloc_track_def sizeof_vector_def
        INITIAL_CAPACITY_def Let_def)
  have v: "v = \<lparr>v_self = 0, v_data = 1, v_buf = replicate 4 0, v_size = 4, v_capacity = 4,
      v_elem_size = 1, v_version = 0\<rparr>"
    by (simp add: v_def cdsa_create_vector_def cdsa_malloc_track_def sizeof_vector_def
        INITIAL_CAPACITY_def user_len_def fresh_bytes_def map_replicate_const Let_def)
  have ok: "vec_ok h v" "vec_room v" "vec_elem v [7]"
    by (simp_all add: h v vec_ok_def heap_ok_def vector_inv_def vector_owned_def owns_def
        sizeof_vector_def vec_room_def)
  obtain h1 r where push: "cdsa_push_vector h (Some v) (Some [7]) = (h1, r, CDSA_ERR_OOM)"
    and "\<not> fault h1"
    by (simp add: h v cdsa_push_vector_def cdsa_realloc_track_def)
  obtain h2 r' s where push2: "cdsa_push_vector h1 r (Some [7]) = (h2, r', s)"
    by (metis prod_cases3)
  have "\<not> fault h" "length (vec_list v) = 4" by (simp_all add: h v)
  then show ?thesis
    using vector_push_after_oom_overflows [OF ok ok(3) push push2] push push2 \<open>\<not> fault h1\<close>
    by blast
qed

text \<open>
  C14: the loop over a vector's iterator ends; every call in it succeeds and they yield pointers to
  the elements, in order and each once, after which a further call reports \<open>CDSA_ERR_NOT_FOUND\<close>; after a push or a pop the iterator yields nothing more and reports
  \<open>CDSA_ERR_ITER_INVALIDATED\<close>, while after \<open>cdsa_clear_vector\<close>, which leaves the version alone,
  it only reports that it is at the end.
\<close>

theorem vector_iterator_yields_elements:
  assumes "vec_ok h v" and "cdsa_create_vector_iterator h (Some v) = (h', Some i)"
  shows "(\<exists>i' ps. drain vec_iter_has_next vec_iter_next v i = Some (i', yields ps) \<and>
        map (vec_deref v) ps = vec_list v \<and> snd (vec_iter_next v i') = (CDSA_ERR_NOT_FOUND, None)) \<and>
      (\<forall>e h2 w. cdsa_push_vector h' (Some v) (Some e) = (h2, Some w, CDSA_OK) \<longrightarrow>
        cdsa_next_vector w (Some i) = (Some i, CDSA_ERR_ITER_INVALIDATED, None)) \<and>
      (\<forall>w. cdsa_pop_vector (Some v) = (Some w, CDSA_OK) \<longrightarrow>
        cdsa_next_vector w (Some i) = (Some i, CDSA_ERR_ITER_INVALIDATED, None)) \<and>
      (\<forall>w. cdsa_clear_vector (Some v) = Some w \<longrightarrow>
        cdsa_next_vector w (Some i) = (Some i, CDSA_ERR_NOT_FOUND, None))"
proof -
  have i: "vi_index i = 0" "vi_snapshot i = v_version v"
    using assms(2) by (auto simp: cdsa_create_vector_iterator_def split: option.splits prod.splits)
  have all: "\<exists>i' ps. drain vec_iter_has_next vec_iter_next v i = Some (i', yields ps) \<and>
      map (vec_deref v) ps = vec_list v \<and> snd (vec_iter_next v i') = (CDSA_ERR_NOT_FOUND, None)"
    using vec_iter.drain_yields [of v i] i vec_iter_rest_elems [of v i] vec_okD(2) [OF assms(1)]
    by auto
  have stale: "v_version w = v_version v + 1 \<Longrightarrow>
      cdsa_next_vector w (Some i) = (Some i, CDSA_ERR_ITER_INVALIDATED, None)" for w
    using i by (simp add: cdsa_next_vector_def)
  show ?thesis
    using all stale push_vector_version pop_vector_version i
    by (auto simp: cdsa_clear_vector_def cdsa_next_vector_def cdsa_has_next_vector_def)
qed

theorem vector_iterator_yields_elements_witness:
  "\<exists>h v h' i i' ps. cdsa_create_vector_iterator h (Some v) = (h', Some i) \<and>
     vec_list v = [[1], [2], [3]] \<and>
     drain vec_iter_has_next vec_iter_next v i = Some (i', yields ps) \<and>
     map (vec_deref v) ps = [[1], [2], [3]] \<and>
     (\<exists>w. cdsa_pop_vector (Some v) = (Some w, CDSA_OK) \<and>
       cdsa_next_vector w (Some i) = (Some i, CDSA_ERR_ITER_INVALIDATED, None))"
proof -
  define h where "h = good_heap\<lparr>next_id := Suc (Suc 0), mem_used := 44,
      live := [(Suc 0, \<lparr>hdr = 4, raw = 12\<rparr>), (0, \<lparr>hdr = 40, raw = 48\<rparr>)]\<rparr>"
  define v where "v = \<lparr>v_self = 0, v_data = Suc 0, v_buf = [1, 2, 3, 0], v_size = 3,
      v_capacity = 4, v_elem_size = 1, v_version = 3\<rparr>"
  have ok: "vec_ok h v"
    by (simp add: h_def v_def vec_ok_def heap_ok_def vector_inv_def vector_owned_def owns_def
        sizeof_vector_def)
  obtain h' i where it: "cdsa_create_vector_iterator h (Some v) = (h', Some i)"
    by (simp add: cdsa_create_vector_iterator_def cdsa_malloc_track_def h_def Let_def)
  have l: "vec_list v = [[1], [2], [3]]"
    by (simp add: v_def vec_list_def elems_def bslice_def upt_rec)
  obtain w where pop: "cdsa_pop_vector (Some v) = (Some w, CDSA_OK)"
    using pop_vector_ok(1) [OF ok] l by auto
  note all = vector_iterator_yields_elements [OF ok it]
  obtain i' ps where "drain vec_iter_has_next vec_iter_next v i = Some (i', yields ps)"
      "map (vec_deref v) ps = vec_list v"
    using all by blast
  moreover have "cdsa_next_vector w (Some i) = (Some i, CDSA_ERR_ITER_INVALIDATED, None)"
    using all pop by blast
  ultimately show ?thesis using it l pop by metis
qed

end
