(* ===== verification/Stack.thy ===== *)
theory Stack
  imports Vector
begin

text \<open>
  \<^verbatim>\<open>src/stack.c\<close>: the LIFO container, a struct that owns a vector and forwards to it.  What it
  promises is proved from the growing-array interface the vector provides.
\<close>

section \<open>State and operations\<close>

record cdsa_stack =
  st_self :: block_id
  st_vec :: vector

definition sizeof_stack :: size_t where "sizeof_stack = 8"

definition cdsa_create_stack :: "heap \<Rightarrow> size_t \<Rightarrow> heap \<times> cdsa_stack option" where
  "cdsa_create_stack h elem_size =
     (let (h1, stack) = cdsa_malloc_track h sizeof_stack
      in case stack of
           None \<Rightarrow> (h1, None)
         | Some self \<Rightarrow>
             let (h2, vec) = cdsa_create_vector h1 elem_size
             in case vec of
                  None \<Rightarrow> (cdsa_free_track h2 (Some self), None)
                | Some v \<Rightarrow> (h2, Some \<lparr>st_self = self, st_vec = v\<rparr>))"

definition cdsa_push_stack ::
  "heap \<Rightarrow> cdsa_stack option \<Rightarrow> bytes option \<Rightarrow> heap \<times> cdsa_stack option \<times> cdsa_status" where
  "cdsa_push_stack h stack val =
     (case (stack, val) of
        (Some s, Some e) \<Rightarrow>
          (case cdsa_push_vector h (Some (st_vec s)) (Some e) of
             (h', v, status) \<Rightarrow> (h', Some (s\<lparr>st_vec := the v\<rparr>), status))
      | _ \<Rightarrow> (h, stack, CDSA_ERR_INVALID))"

definition cdsa_free_stack :: "heap \<Rightarrow> cdsa_stack option \<Rightarrow> heap" where
  "cdsa_free_stack h stack =
     (case stack of
        None \<Rightarrow> h
      | Some s \<Rightarrow> cdsa_free_track (cdsa_free_vector h (Some (st_vec s))) (Some (st_self s)))"

definition cdsa_pop_stack :: "cdsa_stack option \<Rightarrow> cdsa_stack option \<times> cdsa_status" where
  "cdsa_pop_stack stack =
     (case stack of
        None \<Rightarrow> (None, CDSA_ERR_INVALID)
      | Some s \<Rightarrow>
          (case cdsa_pop_vector (Some (st_vec s)) of
             (v, status) \<Rightarrow> (Some (s\<lparr>st_vec := the v\<rparr>), status)))"

definition top_stack :: "cdsa_stack option \<Rightarrow> size_t option" where
  "top_stack stack =
     (case stack of None \<Rightarrow> None | Some s \<Rightarrow> cdsa_back_vector (Some (st_vec s)))"

definition cdsa_size_stack :: "cdsa_stack option \<Rightarrow> size_t" where
  "cdsa_size_stack stack =
     (case stack of None \<Rightarrow> 0 | Some s \<Rightarrow> cdsa_size_vector (Some (st_vec s)))"

definition cdsa_is_empty_stack :: "cdsa_stack option \<Rightarrow> bool" where
  "cdsa_is_empty_stack stack =
     (case stack of None \<Rightarrow> True | Some s \<Rightarrow> cdsa_is_empty_vector (Some (st_vec s)))"

definition cdsa_clear_stack :: "cdsa_stack option \<Rightarrow> cdsa_stack option" where
  "cdsa_clear_stack stack =
     map_option (\<lambda>s. s\<lparr>st_vec := the (cdsa_clear_vector (Some (st_vec s)))\<rparr>) stack"

lemma stack_null [null_simps]:
  "cdsa_push_stack h None e = (h, None, CDSA_ERR_INVALID)"
  "cdsa_push_stack h s None = (h, s, CDSA_ERR_INVALID)"
  "cdsa_pop_stack None = (None, CDSA_ERR_INVALID)" "top_stack None = None"
  "cdsa_size_stack None = 0" "cdsa_is_empty_stack None" "cdsa_clear_stack None = None"
  "cdsa_free_stack h None = h"
  by (simp_all add: cdsa_push_stack_def cdsa_pop_stack_def top_stack_def cdsa_size_stack_def
      cdsa_is_empty_stack_def cdsa_clear_stack_def cdsa_free_stack_def split: option.splits)

section \<open>The stack in terms of the array\<close>

text \<open>The elements, the last pushed first.\<close>

definition stack_list :: "cdsa_stack \<Rightarrow> bytes list" where
  "stack_list s = rev (vec_list (st_vec s))"

text \<open>The element the pointer returned by \<open>top_stack\<close> points to.\<close>

definition stack_top :: "cdsa_stack \<Rightarrow> bytes option" where
  "stack_top s = map_option (vec_deref (st_vec s)) (top_stack (Some s))"

lemma push_stack_vec:
  "cdsa_push_stack h (Some s) (Some e) =
     (case vec_push h (st_vec s) e of (h', v, r) \<Rightarrow> (h', Some (s\<lparr>st_vec := v\<rparr>), r))"
  by (simp add: cdsa_push_stack_def vec_push_def split: prod.splits)

lemma pop_stack_vec:
  "cdsa_pop_stack (Some s) = (case vec_pop (st_vec s) of (v, r) \<Rightarrow> (Some (s\<lparr>st_vec := v\<rparr>), r))"
  by (simp add: cdsa_pop_stack_def vec_pop_def split: prod.splits)

lemma stack_top_vec: "stack_top s = vec_top (st_vec s)"
  by (simp add: stack_top_def top_stack_def vec_top_def)

lemma pop_stack_list:
  assumes "vec_ok h (st_vec s)"
  shows "case stack_list s of
      [] \<Rightarrow> cdsa_pop_stack (Some s) = (Some s, CDSA_ERR_NOT_FOUND)
    | x # xs \<Rightarrow> stack_top s = Some x \<and>
        (\<exists>s'. cdsa_pop_stack (Some s) = (Some s', CDSA_OK) \<and> stack_list s' = xs \<and>
              vec_ok h (st_vec s'))"
proof (cases "vec_list (st_vec s) = []")
  case True
  then show ?thesis using varr.pop_empty [OF True] by (simp add: stack_list_def pop_stack_vec)
next
  case False
  then obtain ys y where ys: "vec_list (st_vec s) = ys @ [y]" by (meson rev_exhaust)
  from varr.pop_nonempty [OF assms False] obtain v where
    "vec_pop (st_vec s) = (v, CDSA_OK)" "vec_ok h v" "vec_list v = ys"
    by (auto simp: ys)
  then show ?thesis
    using varr.top_last [OF assms] by (simp add: stack_list_def pop_stack_vec ys stack_top_vec)
qed

section \<open>Properties\<close>

text \<open>
  C26: last in, first out: on a well-formed stack a push that reports success puts the
  element on top, and the pop that follows reports success and uncovers the stack as it was.
\<close>

theorem stack_push_pop:
  assumes "vec_ok h (st_vec s)" and "vec_elem (st_vec s) e" and "vec_room (st_vec s)"
    and "cdsa_push_stack h (Some s) (Some e) = (h', Some s', CDSA_OK)"
  shows "stack_list s' = e # stack_list s \<and> stack_top s' = Some e \<and> fault h' = fault h \<and>
    (\<exists>s''. cdsa_pop_stack (Some s') = (Some s'', CDSA_OK) \<and> stack_list s'' = stack_list s)"
proof -
  obtain v where push: "vec_push h (st_vec s) e = (h', v, CDSA_OK)" and s': "s' = s\<lparr>st_vec := v\<rparr>"
    using assms(4) by (auto simp: push_stack_vec split: prod.splits)
  note r = varr.push_result [OF assms(1-3) push]
  then have l: "stack_list s' = e # stack_list s" by (simp add: stack_list_def s')
  have ok: "vec_ok h' (st_vec s')" using r by (simp add: s')
  have "cdsa_push_vector h (Some (st_vec s)) (Some e) = (h', Some v, CDSA_OK)"
    using push push_vector_Some by (fastforce simp: vec_push_def split: prod.splits)
  then have "fault h' = fault h" by (rule push_vector_ok(5) [OF assms(1-3)])
  then show ?thesis using l pop_stack_list [OF ok] by (auto simp: l)
qed

text \<open>Two elements on a stack just created.\<close>

theorem stack_push_pop_witness:
  "\<exists>h s h' s' s''. cdsa_create_stack good_heap 2 = (h, Some s) \<and>
     cdsa_push_stack h (Some s) (Some [1, 2]) = (h', Some s', CDSA_OK) \<and>
     stack_top s' = Some [1, 2] \<and> cdsa_pop_stack (Some s') = (Some s'', CDSA_OK) \<and>
     stack_list s'' = []"
proof -
  define h1 where "h1 = fst (cdsa_malloc_track good_heap sizeof_stack)"
  have h1: "cdsa_malloc_track good_heap sizeof_stack = (h1, Some 0)" "never_refuses h1"
    "heap_ok h1"
    using malloc_ok [of good_heap sizeof_stack]
    by (simp_all add: h1_def cdsa_malloc_track_def never_refuses_def Let_def)
  obtain h v where c: "cdsa_create_vector h1 2 = (h, Some v)"
    using create_vector_succeeds [OF h1(2)] by blast
  have inv: "vector_inv v" "vec_list v = []" "v_elem_size v = 2" "unat (v_capacity v) = 4"
    using create_vector_inv [OF c] by simp_all
  have ok: "vec_ok h v"
    using inv create_vector_owned [OF c h1(3)] by (simp add: vec_ok_def)
  have nr: "never_refuses h"
    using create_vector_owned(4) [OF c h1(3)] h1(2) by (simp add: never_refuses_def)
  define s where "s = \<lparr>st_self = 0, st_vec = v\<rparr>"
  have s: "cdsa_create_stack good_heap 2 = (h, Some s)"
    by (simp add: cdsa_create_stack_def h1 c s_def)
  have pre: "vec_ok h (st_vec s)" "vec_elem (st_vec s) [1, 2]" "vec_room (st_vec s)"
    using ok inv by (simp_all add: s_def vec_room_def)
  obtain h' r t where p: "cdsa_push_vector h (Some v) (Some [1, 2]) = (h', r, t)"
    by (metis prod_cases3)
  have el: "vec_elem v [1, 2]" and gr: "2 * unat (v_capacity v) * unat (v_elem_size v) + 8 < size_bound"
    using inv by simp_all
  from vec_okD(2,3) [OF ok] el gr p have "t = CDSA_OK"
    using nr by (cases rule: push_vector_cases) simp_all
  then have push: "cdsa_push_stack h (Some s) (Some [1, 2]) = (h', Some (s\<lparr>st_vec := the r\<rparr>), CDSA_OK)"
    using p by (simp add: cdsa_push_stack_def s_def)
  have "stack_list s = []" using inv(2) by (simp add: stack_list_def s_def)
  then show ?thesis using stack_push_pop [OF pre push] s push by auto
qed

end
