(* ===== verification/RingBuffer.thy ===== *)
theory RingBuffer
  imports Tracking_Heap Interfaces
begin

text \<open>
  \<^verbatim>\<open>src/ringbuffer.c\<close>: the fixed-capacity circular buffer.  As in the vector, \<open>rb_buf\<close> is the
  content of the data block and a pointer to an element its byte offset in that block.
\<close>

section \<open>State\<close>

record ringbuffer =
  rb_self :: block_id
  rb_data :: block_id
  rb_buf :: bytes
  rb_head :: size_t
  rb_tail :: size_t
  rb_size :: size_t
  rb_capacity :: size_t
  rb_elem_size :: size_t
  rb_version :: size_t

definition sizeof_ringbuffer :: size_t where "sizeof_ringbuffer = 56"
definition sizeof_ringbuffer_iterator :: size_t where "sizeof_ringbuffer_iterator = 24"

section \<open>Operations\<close>

definition cdsa_create_ringbuffer :: "heap \<Rightarrow> size_t \<Rightarrow> size_t \<Rightarrow> heap \<times> ringbuffer option" where
  "cdsa_create_ringbuffer h capacity elem_size =
     (let (h1, rb) = cdsa_malloc_track h sizeof_ringbuffer
      in case rb of
           None \<Rightarrow> (h1, None)
         | Some self \<Rightarrow>
             let (h2, data) = cdsa_malloc_track h1 (capacity * elem_size)
             in case data of
                  None \<Rightarrow> (cdsa_free_track h2 (Some self), None)
                | Some d \<Rightarrow>
                    (h2, Some \<lparr>rb_self = self, rb_data = d,
                           rb_buf = fresh_bytes h2 d (user_len (capacity * elem_size)),
                           rb_head = 0, rb_tail = 0, rb_size = 0, rb_capacity = capacity,
                           rb_elem_size = elem_size, rb_version = 0\<rparr>))"

definition cdsa_free_ringbuffer :: "heap \<Rightarrow> ringbuffer option \<Rightarrow> heap" where
  "cdsa_free_ringbuffer h rb =
     (case rb of
        None \<Rightarrow> h
      | Some r \<Rightarrow> cdsa_free_track (cdsa_free_track h (Some (rb_data r))) (Some (rb_self r)))"

definition cdsa_size_ringbuffer :: "ringbuffer option \<Rightarrow> size_t" where
  "cdsa_size_ringbuffer rb = (case rb of None \<Rightarrow> 0 | Some r \<Rightarrow> rb_size r)"

definition cdsa_is_empty_ringbuffer :: "ringbuffer option \<Rightarrow> bool" where
  "cdsa_is_empty_ringbuffer rb = (case rb of None \<Rightarrow> True | Some r \<Rightarrow> rb_size r = 0)"

definition cdsa_is_full_ringbuffer :: "ringbuffer option \<Rightarrow> bool" where
  "cdsa_is_full_ringbuffer rb = (case rb of None \<Rightarrow> False | Some r \<Rightarrow> rb_size r = rb_capacity r)"

text \<open>\<open>memcpy(data + index * elem_size, elem, elem_size)\<close>, with the bounds of both blocks.\<close>

definition rb_store :: "heap \<Rightarrow> ringbuffer \<Rightarrow> size_t \<Rightarrow> bytes \<Rightarrow> heap \<times> ringbuffer" where
  "rb_store h r index elem =
     (let off = unat (index * rb_elem_size r); n = unat (rb_elem_size r);
          bad = (length (rb_buf r) < off + n \<or> length elem < n)
      in (set_fault bad h, if bad then r else r\<lparr>rb_buf := blit (rb_buf r) off (take n elem)\<rparr>))"

definition cdsa_push_back_ringbuffer ::
  "heap \<Rightarrow> ringbuffer option \<Rightarrow> bytes option \<Rightarrow> heap \<times> ringbuffer option \<times> cdsa_status" where
  "cdsa_push_back_ringbuffer h rb elem =
     (case (rb, elem) of
        (Some r, Some e) \<Rightarrow>
          if cdsa_is_full_ringbuffer (Some r) then (h, Some r, CDSA_ERR_FULL)
          else let (h1, r1) = rb_store h r (rb_tail r) e
               in (h1, Some (r1\<lparr>rb_tail := (rb_tail r + 1) mod rb_capacity r,
                              rb_size := rb_size r + 1, rb_version := rb_version r + 1\<rparr>),
                   CDSA_OK)
      | _ \<Rightarrow> (h, rb, CDSA_ERR_INVALID))"

definition cdsa_pop_front_ringbuffer :: "ringbuffer option \<Rightarrow> ringbuffer option \<times> cdsa_status" where
  "cdsa_pop_front_ringbuffer rb =
     (case rb of
        None \<Rightarrow> (None, CDSA_ERR_INVALID)
      | Some r \<Rightarrow>
          if cdsa_is_empty_ringbuffer (Some r) then (Some r, CDSA_ERR_EMPTY)
          else (Some (r\<lparr>rb_head := (rb_head r + 1) mod rb_capacity r,
                      rb_size := rb_size r - 1, rb_version := rb_version r + 1\<rparr>), CDSA_OK))"

definition cdsa_front_ringbuffer :: "ringbuffer option \<Rightarrow> size_t option" where
  "cdsa_front_ringbuffer rb =
     (case rb of
        None \<Rightarrow> None
      | Some r \<Rightarrow> if cdsa_is_empty_ringbuffer (Some r) then None
                  else Some (rb_head r * rb_elem_size r))"

definition cdsa_push_front_ringbuffer ::
  "heap \<Rightarrow> ringbuffer option \<Rightarrow> bytes option \<Rightarrow> heap \<times> ringbuffer option \<times> cdsa_status" where
  "cdsa_push_front_ringbuffer h rb elem =
     (case (rb, elem) of
        (Some r, Some e) \<Rightarrow>
          if cdsa_is_full_ringbuffer (Some r) then (h, Some r, CDSA_ERR_FULL)
          else let r0 = r\<lparr>rb_head := (rb_head r + rb_capacity r - 1) mod rb_capacity r\<rparr>;
                   (h1, r1) = rb_store h r0 (rb_head r0) e
               in (h1, Some (r1\<lparr>rb_size := rb_size r + 1, rb_version := rb_version r + 1\<rparr>),
                   CDSA_OK)
      | _ \<Rightarrow> (h, rb, CDSA_ERR_INVALID))"

definition cdsa_pop_back_ringbuffer :: "ringbuffer option \<Rightarrow> ringbuffer option \<times> cdsa_status" where
  "cdsa_pop_back_ringbuffer rb =
     (case rb of
        None \<Rightarrow> (None, CDSA_ERR_INVALID)
      | Some r \<Rightarrow>
          if cdsa_is_empty_ringbuffer (Some r) then (Some r, CDSA_ERR_EMPTY)
          else (Some (r\<lparr>rb_tail := (rb_tail r + rb_capacity r - 1) mod rb_capacity r,
                      rb_size := rb_size r - 1, rb_version := rb_version r + 1\<rparr>), CDSA_OK))"

definition cdsa_back_ringbuffer :: "ringbuffer option \<Rightarrow> size_t option" where
  "cdsa_back_ringbuffer rb =
     (case rb of
        None \<Rightarrow> None
      | Some r \<Rightarrow>
          if cdsa_is_empty_ringbuffer (Some r) then None
          else let last_idx = (rb_tail r + rb_capacity r - 1) mod rb_capacity r
               in Some (last_idx * rb_elem_size r))"

text \<open>Reading the element a pointer into the block points to.\<close>

definition rb_deref :: "ringbuffer \<Rightarrow> size_t \<Rightarrow> bytes" where
  "rb_deref r p = bslice (rb_buf r) (unat p) (unat (rb_elem_size r))"

subsection \<open>The iterator\<close>

record ringbuffer_iterator =
  ri_self :: block_id
  ri_progress :: size_t
  ri_snapshot :: size_t

definition cdsa_create_ringbuffer_iterator ::
  "heap \<Rightarrow> ringbuffer option \<Rightarrow> heap \<times> ringbuffer_iterator option" where
  "cdsa_create_ringbuffer_iterator h rb =
     (case rb of
        None \<Rightarrow> (h, None)
      | Some r \<Rightarrow>
          let (h1, iter) = cdsa_malloc_track h sizeof_ringbuffer_iterator
          in case iter of
               None \<Rightarrow> (h1, None)
             | Some p \<Rightarrow> (h1, Some \<lparr>ri_self = p, ri_progress = 0, ri_snapshot = rb_version r\<rparr>))"

definition cdsa_has_next_ringbuffer ::
  "ringbuffer option \<Rightarrow> ringbuffer_iterator option \<Rightarrow> bool" where
  "cdsa_has_next_ringbuffer rb iter =
     (case (iter, rb) of
        (Some i, Some r) \<Rightarrow>
          if rb_version r \<noteq> ri_snapshot i then False else ri_progress i < rb_size r
      | _ \<Rightarrow> False)"

definition cdsa_next_ringbuffer :: "ringbuffer \<Rightarrow> ringbuffer_iterator option \<Rightarrow>
    ringbuffer_iterator option \<times> cdsa_status \<times> size_t option" where
  "cdsa_next_ringbuffer r iter =
     (case iter of
        None \<Rightarrow> (None, CDSA_ERR_INVALID, None)
      | Some i \<Rightarrow>
          if rb_version r \<noteq> ri_snapshot i then (Some i, CDSA_ERR_ITER_INVALIDATED, None)
          else if \<not> cdsa_has_next_ringbuffer (Some r) (Some i)
          then (Some i, CDSA_ERR_NOT_FOUND, None)
          else let physical_index = (rb_head r + ri_progress i) mod rb_capacity r
               in (Some (i\<lparr>ri_progress := ri_progress i + 1\<rparr>), CDSA_OK,
                   Some (physical_index * rb_elem_size r)))"

definition cdsa_free_ringbuffer_iterator :: "heap \<Rightarrow> ringbuffer_iterator option \<Rightarrow> heap" where
  "cdsa_free_ringbuffer_iterator h iter = cdsa_free_track h (map_option ri_self iter)"

section \<open>Null pointers\<close>

lemma ringbuffer_null [null_simps]:
  "cdsa_push_back_ringbuffer h None e = (h, None, CDSA_ERR_INVALID)"
  "cdsa_push_back_ringbuffer h r None = (h, r, CDSA_ERR_INVALID)"
  "cdsa_push_front_ringbuffer h None e = (h, None, CDSA_ERR_INVALID)"
  "cdsa_push_front_ringbuffer h r None = (h, r, CDSA_ERR_INVALID)"
  "cdsa_pop_front_ringbuffer None = (None, CDSA_ERR_INVALID)"
  "cdsa_pop_back_ringbuffer None = (None, CDSA_ERR_INVALID)"
  "cdsa_front_ringbuffer None = None" "cdsa_back_ringbuffer None = None"
  "cdsa_size_ringbuffer None = 0" "cdsa_is_empty_ringbuffer None"
  "\<not> cdsa_is_full_ringbuffer None" "cdsa_free_ringbuffer h None = h"
  by (simp_all add: cdsa_push_back_ringbuffer_def cdsa_push_front_ringbuffer_def
      cdsa_pop_front_ringbuffer_def cdsa_pop_back_ringbuffer_def cdsa_front_ringbuffer_def
      cdsa_back_ringbuffer_def cdsa_size_ringbuffer_def cdsa_is_empty_ringbuffer_def
      cdsa_is_full_ringbuffer_def cdsa_free_ringbuffer_def split: option.splits)

section \<open>Circular views of a list\<close>

text \<open>\<open>ring xs i n\<close>: the \<open>n\<close> cells of \<open>xs\<close> from index \<open>i\<close> on, wrapping around at the end.\<close>

definition ring :: "'a list \<Rightarrow> nat \<Rightarrow> nat \<Rightarrow> 'a list" where
  "ring xs i n = map (\<lambda>k. xs ! ((i + k) mod length xs)) [0..<n]"

lemma length_ring [simp]: "length (ring xs i n) = n"
  by (simp add: ring_def)

lemma nth_ring [simp]: "k < n \<Longrightarrow> ring xs i n ! k = xs ! ((i + k) mod length xs)"
  by (simp add: ring_def)

lemma ring_0 [simp]: "ring xs i 0 = []"
  by (simp add: ring_def)

lemma ring_Nil_iff [simp]: "ring xs i n = [] \<longleftrightarrow> n = 0"
  by (simp add: ring_def)

lemma ring_snoc: "ring xs i (Suc n) = ring xs i n @ [xs ! ((i + n) mod length xs)]"
  by (simp add: ring_def)

lemma ring_Cons:
  "ring xs i (Suc n) = xs ! (i mod length xs) # ring xs (Suc i mod length xs) n"
proof (rule nth_equalityI)
  fix k assume "k < length (ring xs i (Suc n))"
  then show "ring xs i (Suc n) ! k = (xs ! (i mod length xs) # ring xs (Suc i mod length xs) n) ! k"
    by (cases k) (simp_all add: mod_add_left_eq)
qed simp

lemma ring_update_outside:
  assumes "n \<le> k" and "k < length xs"
  shows "ring (xs[(i + k) mod length xs := e]) i n = ring xs i n"
proof (rule nth_equalityI)
  fix j assume "j < length (ring (xs[(i + k) mod length xs := e]) i n)"
  then have j: "j < n" by simp
  then have "(i + j) mod length xs \<noteq> (i + k) mod length xs"
    using assms by (intro mod_differ) simp_all
  then show "ring (xs[(i + k) mod length xs := e]) i n ! j = ring xs i n ! j"
    using j by simp
qed simp

lemma ring_push_back:
  assumes "n < length xs"
  shows "ring (xs[(i + n) mod length xs := e]) i (Suc n) = ring xs i n @ [e]"
proof -
  have "(i + n) mod length xs < length xs" using assms by (intro mod_less_divisor) linarith
  then show ?thesis
    using ring_update_outside [of n n xs i e] assms by (simp add: ring_snoc)
qed

lemma ring_push_front:
  assumes "n < length xs" and "i < length xs"
  defines "j \<equiv> (i + length xs - 1) mod length xs"
  shows "ring (xs[j := e]) j (Suc n) = e # ring xs i n"
proof -
  have j: "j < length xs" unfolding j_def using assms(1) by (intro mod_less_divisor) linarith
  have "Suc j mod length xs = Suc (i + length xs - 1) mod length xs"
    by (simp add: j_def mod_Suc_eq)
  also have "Suc (i + length xs - 1) = i + length xs" using assms(2) by simp
  finally have i: "Suc j mod length xs = i" using assms(2) by simp
  have "(i + (length xs - 1)) mod length xs = j" using assms by (simp add: j_def)
  then have "ring (xs[j := e]) i n = ring xs i n"
    using ring_update_outside [of n "length xs - 1" xs i e] assms(1) by simp
  then show ?thesis using i j by (simp add: ring_Cons)
qed

section \<open>The invariant\<close>

text \<open>
  \<open>head\<close> and \<open>tail\<close> are slot numbers \<open>size\<close> apart; a buffer of capacity 0 is both empty and
  full.  A capacity beyond half the address space, which no allocation can satisfy, would make
  \<open>head + capacity - 1\<close> wrap.
\<close>

definition ringbuffer_inv :: "ringbuffer \<Rightarrow> bool" where
  "ringbuffer_inv r \<longleftrightarrow>
     0 < unat (rb_elem_size r) \<and> 2 * unat (rb_capacity r) < size_bound \<and>
     unat (rb_capacity r) * unat (rb_elem_size r) + 8 < size_bound \<and>
     length (rb_buf r) = unat (rb_capacity r) * unat (rb_elem_size r) \<and>
     unat (rb_size r) \<le> unat (rb_capacity r) \<and>
     (0 < unat (rb_capacity r) \<longrightarrow> unat (rb_head r) < unat (rb_capacity r) \<and>
        unat (rb_tail r) = (unat (rb_head r) + unat (rb_size r)) mod unat (rb_capacity r))"

abbreviation rb_cells :: "ringbuffer \<Rightarrow> bytes list" where
  "rb_cells r \<equiv> elems (rb_buf r) (unat (rb_elem_size r)) (unat (rb_capacity r))"

definition rb_list :: "ringbuffer \<Rightarrow> bytes list" where
  "rb_list r = ring (rb_cells r) (unat (rb_head r)) (unat (rb_size r))"

definition ringbuffer_owned :: "heap \<Rightarrow> ringbuffer \<Rightarrow> bool" where
  "ringbuffer_owned h r \<longleftrightarrow> rb_self r \<noteq> rb_data r \<and> owns h (rb_self r) sizeof_ringbuffer \<and>
     owns h (rb_data r) (rb_capacity r * rb_elem_size r)"

definition rb_ok :: "heap \<Rightarrow> ringbuffer \<Rightarrow> bool" where
  "rb_ok h r \<longleftrightarrow> heap_ok h \<and> ringbuffer_inv r \<and> ringbuffer_owned h r"

text \<open>What no operation changes: the blocks, the capacity and the element size.\<close>

definition rb_shape :: "ringbuffer \<Rightarrow> block_id \<times> block_id \<times> nat \<times> nat" where
  "rb_shape r = (rb_self r, rb_data r, unat (rb_capacity r), unat (rb_elem_size r))"

definition shape_limit :: "block_id \<times> block_id \<times> nat \<times> nat \<Rightarrow> nat" where
  "shape_limit k = fst (snd (snd k))"

definition shape_elem :: "block_id \<times> block_id \<times> nat \<times> nat \<Rightarrow> bytes \<Rightarrow> bool" where
  "shape_elem k e \<longleftrightarrow> length e = snd (snd (snd k))"

lemma shape_simps [simp]:
  "shape_limit (rb_shape r) = unat (rb_capacity r)"
  "shape_elem (rb_shape r) e \<longleftrightarrow> length e = unat (rb_elem_size r)"
  by (simp_all add: shape_limit_def shape_elem_def rb_shape_def)

lemma length_rb_list [simp]: "length (rb_list r) = unat (rb_size r)"
  by (simp add: rb_list_def)

lemma rb_list_Nil: "rb_list r = [] \<longleftrightarrow> rb_size r = 0"
  by (simp add: rb_list_def size_t_zero_iff)

lemma rb_okD: "rb_ok h r \<Longrightarrow> heap_ok h" "rb_ok h r \<Longrightarrow> ringbuffer_inv r"
  "rb_ok h r \<Longrightarrow> ringbuffer_owned h r"
  by (simp_all add: rb_ok_def)

lemma ringbuffer_invD:
  assumes "ringbuffer_inv r"
  shows "0 < unat (rb_elem_size r)" and "2 * unat (rb_capacity r) < size_bound"
    and "unat (rb_capacity r) * unat (rb_elem_size r) + 8 < size_bound"
    and "length (rb_buf r) = unat (rb_capacity r) * unat (rb_elem_size r)"
    and "unat (rb_size r) \<le> unat (rb_capacity r)"
    and "0 < unat (rb_capacity r) \<Longrightarrow> unat (rb_head r) < unat (rb_capacity r)"
    and "0 < unat (rb_capacity r) \<Longrightarrow>
      unat (rb_tail r) = (unat (rb_head r) + unat (rb_size r)) mod unat (rb_capacity r)"
  using assms by (simp_all add: ringbuffer_inv_def)

subsection \<open>Index arithmetic\<close>

text \<open>One step forwards and one step backwards around the ring, and an offset from the head.\<close>

lemma slot_next:
  assumes "2 * unat c < size_bound" and "unat i < unat c"
  shows "unat ((i + 1) mod c :: size_t) = Suc (unat i) mod unat c"
  using assms by (simp add: unat_size_t_mod unat_size_t_Suc)

lemma slot_prev:
  assumes "2 * unat c < size_bound" and "unat i < unat c"
  shows "unat ((i + c - 1) mod c :: size_t) = (unat i + unat c - 1) mod unat c"
proof -
  have "unat (i + c) = unat i + unat c" using assms by (intro unat_size_t_add) linarith
  then have "unat (i + c - 1) = unat i + unat c - 1" using assms(2) by (subst unat_size_t_pred) simp_all
  then show ?thesis by (simp add: unat_size_t_mod)
qed

lemma slot_at:
  assumes "2 * unat c < size_bound" and "unat i < unat c" and "unat k < unat c"
  shows "unat ((i + k) mod c :: size_t) = (unat i + unat k) mod unat c"
proof -
  have "unat (i + k) = unat i + unat k" using assms by (intro unat_size_t_add) linarith
  then show ?thesis by (simp add: unat_size_t_mod)
qed

lemma rb_offset:
  assumes "ringbuffer_inv r" and "unat i < unat (rb_capacity r)"
  shows "unat (i * rb_elem_size r) = unat i * unat (rb_elem_size r)"
    and "unat i * unat (rb_elem_size r) + unat (rb_elem_size r) \<le> length (rb_buf r)"
proof -
  note inv = ringbuffer_invD [OF assms(1)]
  show le: "unat i * unat (rb_elem_size r) + unat (rb_elem_size r) \<le> length (rb_buf r)"
    using cell_end [OF assms(2), of "unat (rb_elem_size r)"] inv(4) by simp
  show "unat (i * rb_elem_size r) = unat i * unat (rb_elem_size r)"
    using le inv(3,4) by (intro unat_size_t_mult) linarith
qed

text \<open>A pointer to slot \<open>i\<close> reads that cell; storing there changes that cell only.\<close>

lemma rb_deref_slot:
  assumes "ringbuffer_inv r" and "unat i < unat (rb_capacity r)"
  shows "rb_deref r (i * rb_elem_size r) = rb_cells r ! unat i"
  using rb_offset [OF assms] assms(2) by (simp add: rb_deref_def)

lemma rb_store_slot:
  assumes "ringbuffer_inv r" and "unat i < unat (rb_capacity r)"
    and "length e = unat (rb_elem_size r)"
  defines "r' \<equiv> r\<lparr>rb_buf := blit (rb_buf r) (unat i * unat (rb_elem_size r)) e\<rparr>"
  shows "rb_store h r i e = (h, r')" and "rb_cells r' = (rb_cells r)[unat i := e]"
    and "length (rb_buf r') = length (rb_buf r)"
proof -
  note inv = ringbuffer_invD [OF assms(1)] and off = rb_offset [OF assms(1,2)]
  show "rb_store h r i e = (h, r')"
    using off assms(3) by (simp add: rb_store_def r'_def set_fault_def Let_def)
  show "rb_cells r' = (rb_cells r)[unat i := e]"
    using elems_blit [OF assms(3,2), of "unat (rb_capacity r)" "rb_buf r"] inv(4)
    by (simp add: r'_def)
  show "length (rb_buf r') = length (rb_buf r)" using off(2) assms(3) by (simp add: r'_def)
qed

section \<open>What each operation does\<close>

lemma push_back_ringbuffer_ok:
  assumes "rb_ok h r" and "length e = unat (rb_elem_size r)" and "rb_size r \<noteq> rb_capacity r"
  shows "\<exists>r'. cdsa_push_back_ringbuffer h (Some r) (Some e) = (h, Some r', CDSA_OK) \<and>
    rb_ok h r' \<and> rb_list r' = rb_list r @ [e] \<and> rb_shape r' = rb_shape r \<and>
    rb_version r' = rb_version r + 1"
proof -
  note inv = ringbuffer_invD [OF rb_okD(2) [OF assms(1)]]
  have lt: "unat (rb_size r) < unat (rb_capacity r)"
    using inv(5) assms(3) by (simp add: size_t_eq_iff)
  then have c: "0 < unat (rb_capacity r)" by simp
  have tail: "unat (rb_tail r) < unat (rb_capacity r)" using inv(7) [OF c] c by simp
  note st = rb_store_slot [OF rb_okD(2) [OF assms(1)] tail assms(2)]
  let ?r = "r\<lparr>rb_buf := blit (rb_buf r) (unat (rb_tail r) * unat (rb_elem_size r)) e,
    rb_tail := (rb_tail r + 1) mod rb_capacity r, rb_size := rb_size r + 1,
    rb_version := rb_version r + 1\<rparr>"
  have s: "unat (rb_size r + 1) = Suc (unat (rb_size r))"
    using lt inv(2) by (intro unat_size_t_Suc) linarith
  have "cdsa_push_back_ringbuffer h (Some r) (Some e) = (h, Some ?r, CDSA_OK)"
    using assms(3) st(1) by (simp add: cdsa_push_back_ringbuffer_def cdsa_is_full_ringbuffer_def)
  moreover have "rb_ok h ?r"
    using assms(1) inv lt s slot_next [OF inv(2) tail] st(3)
    by (simp add: rb_ok_def ringbuffer_inv_def ringbuffer_owned_def mod_Suc_eq)
  moreover have "rb_list ?r = rb_list r @ [e]"
    using ring_push_back [of "unat (rb_size r)" "rb_cells r" "unat (rb_head r)" e] lt s st(2) inv(7) [OF c]
    by (simp add: rb_list_def)
  ultimately show ?thesis by (intro exI [of _ ?r]) (simp add: rb_shape_def)
qed

lemma push_front_ringbuffer_ok:
  assumes "rb_ok h r" and "length e = unat (rb_elem_size r)" and "rb_size r \<noteq> rb_capacity r"
  shows "\<exists>r'. cdsa_push_front_ringbuffer h (Some r) (Some e) = (h, Some r', CDSA_OK) \<and>
    rb_ok h r' \<and> rb_list r' = e # rb_list r \<and> rb_shape r' = rb_shape r \<and>
    rb_version r' = rb_version r + 1"
proof -
  note inv = ringbuffer_invD [OF rb_okD(2) [OF assms(1)]]
  have lt: "unat (rb_size r) < unat (rb_capacity r)"
    using inv(5) assms(3) by (simp add: size_t_eq_iff)
  then have c: "0 < unat (rb_capacity r)" by simp
  define j where "j = (rb_head r + rb_capacity r - 1) mod rb_capacity r"
  let ?c = "unat (rb_capacity r)" and ?hd = "unat (rb_head r)" and ?s = "unat (rb_size r)"
  have j: "unat j = (?hd + ?c - 1) mod ?c"
    using slot_prev [OF inv(2) inv(6) [OF c]] by (simp add: j_def)
  then have jc: "unat j < ?c" using c by simp
  note st = rb_store_slot [OF rb_okD(2) [OF assms(1)] jc assms(2)]
  let ?r = "r\<lparr>rb_buf := blit (rb_buf r) (unat j * unat (rb_elem_size r)) e,
    rb_head := j, rb_size := rb_size r + 1, rb_version := rb_version r + 1\<rparr>"
  have s: "unat (rb_size r + 1) = Suc ?s"
    using lt inv(2) by (intro unat_size_t_Suc) linarith
  have "cdsa_push_front_ringbuffer h (Some r) (Some e) = (h, Some ?r, CDSA_OK)"
    using assms(2,3) rb_offset [OF rb_okD(2) [OF assms(1)] jc]
    by (simp add: cdsa_push_front_ringbuffer_def cdsa_is_full_ringbuffer_def rb_store_def
        set_fault_def Let_def j_def [symmetric])
  moreover have "(unat j + Suc ?s) mod ?c = (?hd + ?s) mod ?c"
  proof -
    have "(unat j + Suc ?s) mod ?c = ((?hd + ?c - 1) + Suc ?s) mod ?c"
      unfolding j by (rule mod_add_left_eq)
    also have "(?hd + ?c - 1) + Suc ?s = ?hd + ?s + ?c" using c by simp
    finally show ?thesis by simp
  qed
  then have "rb_ok h ?r"
    using assms(1) inv lt s st(3) jc by (simp add: rb_ok_def ringbuffer_inv_def ringbuffer_owned_def)
  moreover have "rb_list ?r = e # rb_list r"
    using ring_push_front [of ?s "rb_cells r" ?hd e] lt s st(2) inv(6) [OF c] j
    by (simp add: rb_list_def)
  ultimately show ?thesis by (intro exI [of _ ?r]) (simp add: rb_shape_def)
qed

lemma pop_front_ringbuffer_ok:
  assumes "rb_ok h r" and "rb_list r = x # xs"
  shows "\<exists>r'. cdsa_pop_front_ringbuffer (Some r) = (Some r', CDSA_OK) \<and>
    rb_ok h r' \<and> rb_list r' = xs \<and> rb_shape r' = rb_shape r \<and> rb_version r' = rb_version r + 1"
proof -
  note inv = ringbuffer_invD [OF rb_okD(2) [OF assms(1)]]
  have nz: "rb_size r \<noteq> 0" using assms(2) rb_list_Nil [of r] by simp
  then have pos: "0 < unat (rb_size r)" by (simp add: size_t_zero_iff)
  then have c: "0 < unat (rb_capacity r)" using inv(5) by simp
  let ?c = "unat (rb_capacity r)" and ?hd = "unat (rb_head r)"
  let ?r = "r\<lparr>rb_head := (rb_head r + 1) mod rb_capacity r, rb_size := rb_size r - 1,
    rb_version := rb_version r + 1\<rparr>"
  note hd' = slot_next [OF inv(2) inv(6) [OF c]]
  obtain n where n: "unat (rb_size r) = Suc n" using pos by (cases "unat (rb_size r)") simp_all
  then have s: "unat (rb_size r - 1) = n" by (simp add: unat_size_t_pred)
  have "cdsa_pop_front_ringbuffer (Some r) = (Some ?r, CDSA_OK)"
    using nz by (simp add: cdsa_pop_front_ringbuffer_def cdsa_is_empty_ringbuffer_def)
  moreover have "rb_ok h ?r"
    using assms(1) inv(5) inv(7) [OF c] c n s hd'
    by (simp add: rb_ok_def ringbuffer_inv_def ringbuffer_owned_def mod_add_left_eq)
  moreover have "rb_list ?r = xs"
    using assms(2) n s hd' ring_Cons [of "rb_cells r" ?hd n] by (simp add: rb_list_def)
  ultimately show ?thesis by (intro exI [of _ ?r]) (simp add: rb_shape_def)
qed

lemma pop_back_ringbuffer_ok:
  assumes "rb_ok h r" and "rb_list r = xs @ [x]"
  shows "\<exists>r'. cdsa_pop_back_ringbuffer (Some r) = (Some r', CDSA_OK) \<and>
    rb_ok h r' \<and> rb_list r' = xs \<and> rb_shape r' = rb_shape r \<and> rb_version r' = rb_version r + 1"
proof -
  note inv = ringbuffer_invD [OF rb_okD(2) [OF assms(1)]]
  have nz: "rb_size r \<noteq> 0" using assms(2) rb_list_Nil [of r] by simp
  then have pos: "0 < unat (rb_size r)" by (simp add: size_t_zero_iff)
  then have c: "0 < unat (rb_capacity r)" using inv(5) by simp
  let ?c = "unat (rb_capacity r)" and ?hd = "unat (rb_head r)"
  let ?r = "r\<lparr>rb_tail := (rb_tail r + rb_capacity r - 1) mod rb_capacity r,
    rb_size := rb_size r - 1, rb_version := rb_version r + 1\<rparr>"
  obtain n where n: "unat (rb_size r) = Suc n" using pos by (cases "unat (rb_size r)") simp_all
  then have s: "unat (rb_size r - 1) = n" by (simp add: unat_size_t_pred)
  have tl: "unat (rb_tail r) < ?c" using inv(7) [OF c] c by simp
  have "unat ((rb_tail r + rb_capacity r - 1) mod rb_capacity r) = (unat (rb_tail r) + ?c - 1) mod ?c"
    by (rule slot_prev [OF inv(2) tl])
  also have "\<dots> = (unat (rb_tail r) + (?c - 1)) mod ?c" using c by simp
  also have "\<dots> = (?hd + Suc n + (?c - 1)) mod ?c"
    unfolding inv(7) [OF c] n by (rule mod_add_left_eq)
  also have "?hd + Suc n + (?c - 1) = ?hd + n + ?c" using c by simp
  finally have tail: "unat ((rb_tail r + rb_capacity r - 1) mod rb_capacity r) = (?hd + n) mod ?c"
    by simp
  have "cdsa_pop_back_ringbuffer (Some r) = (Some ?r, CDSA_OK)"
    using nz by (simp add: cdsa_pop_back_ringbuffer_def cdsa_is_empty_ringbuffer_def)
  moreover have "rb_ok h ?r"
    using assms(1) inv(5) inv(6) [OF c] n s tail
    by (simp add: rb_ok_def ringbuffer_inv_def ringbuffer_owned_def)
  moreover have "rb_list ?r = xs"
    using assms(2) n s ring_snoc [of "rb_cells r" ?hd n] by (simp add: rb_list_def)
  ultimately show ?thesis by (intro exI [of _ ?r]) (simp add: rb_shape_def)
qed

text \<open>The pointers to both ends.\<close>

lemma front_ringbuffer_hd:
  assumes "rb_ok h r"
  shows "map_option (rb_deref r) (cdsa_front_ringbuffer (Some r)) =
    (if rb_list r = [] then None else Some (hd (rb_list r)))"
proof (cases "rb_size r = 0")
  case True
  then show ?thesis
    by (simp add: cdsa_front_ringbuffer_def cdsa_is_empty_ringbuffer_def rb_list_Nil)
next
  case False
  note inv = ringbuffer_invD [OF rb_okD(2) [OF assms]]
  have pos: "0 < unat (rb_size r)" using False by (simp add: size_t_zero_iff)
  then have "unat (rb_head r) < unat (rb_capacity r)" using inv(5,6) by simp
  moreover have "hd (rb_list r) = rb_cells r ! (unat (rb_head r) mod unat (rb_capacity r))"
    using pos by (simp add: rb_list_def hd_conv_nth)
  ultimately show ?thesis
    using False rb_deref_slot [OF rb_okD(2) [OF assms]]
    by (simp add: cdsa_front_ringbuffer_def cdsa_is_empty_ringbuffer_def rb_list_Nil)
qed

lemma back_ringbuffer_last:
  assumes "rb_ok h r"
  shows "map_option (rb_deref r) (cdsa_back_ringbuffer (Some r)) =
    (if rb_list r = [] then None else Some (last (rb_list r)))"
proof (cases "rb_size r = 0")
  case True
  then show ?thesis
    by (simp add: cdsa_back_ringbuffer_def cdsa_is_empty_ringbuffer_def rb_list_Nil)
next
  case False
  note inv = ringbuffer_invD [OF rb_okD(2) [OF assms]]
  let ?c = "unat (rb_capacity r)" and ?hd = "unat (rb_head r)"
  obtain n where n: "unat (rb_size r) = Suc n"
    using False by (cases "unat (rb_size r)") (simp_all add: size_t_zero_iff)
  then have c: "0 < ?c" using inv(5) by simp
  have tl: "unat (rb_tail r) < ?c" using inv(7) [OF c] c by simp
  let ?l = "(rb_tail r + rb_capacity r - 1) mod rb_capacity r"
  have "unat ?l = (unat (rb_tail r) + (?c - 1)) mod ?c" using slot_prev [OF inv(2) tl] c by simp
  also have "\<dots> = (?hd + Suc n + (?c - 1)) mod ?c"
    unfolding inv(7) [OF c] n by (rule mod_add_left_eq)
  also have "?hd + Suc n + (?c - 1) = ?hd + n + ?c" using c by simp
  finally have l: "unat ?l = (?hd + n) mod ?c" by simp
  then have "unat ?l < ?c" using c by simp
  moreover have "last (rb_list r) = rb_cells r ! ((?hd + n) mod ?c)"
    by (simp add: rb_list_def n last_conv_nth)
  ultimately show ?thesis
    using False rb_deref_slot [OF rb_okD(2) [OF assms]] l
    by (simp add: cdsa_back_ringbuffer_def cdsa_is_empty_ringbuffer_def rb_list_Nil Let_def)
qed

section \<open>Creation and release\<close>

lemma create_ringbuffer_ok:
  assumes "cdsa_create_ringbuffer h cap es = (h', Some r)" and "heap_ok h" and "0 < unat es"
    and "2 * unat cap < size_bound" and "unat cap * unat es + 8 < size_bound"
  shows "rb_ok h' r" and "rb_list r = []" and "unat (rb_capacity r) = unat cap"
    and "rb_elem_size r = es" and "fault h' = fault h"
    and "others {rb_self r, rb_data r} h' = live h" and "libc_refuses h' = libc_refuses h"
proof -
  from assms(1) obtain h1 where m: "cdsa_malloc_track h sizeof_ringbuffer = (h1, Some (rb_self r))"
      "cdsa_malloc_track h1 (cap * es) = (h', Some (rb_data r))"
    and r: "r = \<lparr>rb_self = rb_self r, rb_data = rb_data r,
      rb_buf = fresh_bytes h' (rb_data r) (user_len (cap * es)), rb_head = 0, rb_tail = 0,
      rb_size = 0, rb_capacity = cap, rb_elem_size = es, rb_version = 0\<rparr>"
    by (auto simp: cdsa_create_ringbuffer_def split: option.splits prod.splits)
  have u: "unat (cap * es) = unat cap * unat es" using assms(5) by (intro unat_size_t_mult) linarith
  note f = arg_cong [OF r, of rb_buf] arg_cong [OF r, of rb_head] arg_cong [OF r, of rb_tail]
    arg_cong [OF r, of rb_size] arg_cong [OF r, of rb_capacity] arg_cong [OF r, of rb_elem_size]
  note two = malloc_two_blocks [OF assms(2) m]
  have f': "length (rb_buf r) = unat cap * unat es" "rb_head r = 0" "rb_tail r = 0"
    "rb_size r = 0" "rb_capacity r = cap" "rb_elem_size r = es"
    using f assms(5) u by (simp_all add: user_len_no_wrap)
  show "rb_ok h' r"
    using two f' assms(3-5) by (simp add: rb_ok_def ringbuffer_inv_def ringbuffer_owned_def)
  show "rb_list r = []" and "unat (rb_capacity r) = unat cap" and "rb_elem_size r = es"
    using f' by (simp_all add: rb_list_Nil)
  have "\<not> unat (sizeof_ringbuffer + 8) < 8" by (simp add: sizeof_ringbuffer_def)
  then show "fault h' = fault h" using two(6) no_wrap_header [of "cap * es"] u assms(5) by simp
  show "others {rb_self r, rb_data r} h' = live h" and "libc_refuses h' = libc_refuses h"
    by (rule two(5), rule two(7))
qed

lemma create_ringbuffer_refused:
  assumes "cdsa_create_ringbuffer h cap es = (h', None)" and "heap_ok h"
  shows "live h' = live h" and "mem_used h' = mem_used h" and "fault h' = fault h"
proof -
  have s: "\<not> unat (sizeof_ringbuffer + 8) < 8" by (simp add: sizeof_ringbuffer_def)
  show "live h' = live h" and "mem_used h' = mem_used h" and "fault h' = fault h"
    using assms(1) malloc_rollback [OF assms(2) s] malloc_None_frame
    by (auto simp: cdsa_create_ringbuffer_def split: option.splits prod.splits)
qed

lemma create_ringbuffer_succeeds:
  assumes "never_refuses h"
  shows "\<exists>h' r. cdsa_create_ringbuffer h cap es = (h', Some r)"
  using assms
  by (simp add: never_refuses_def cdsa_create_ringbuffer_def cdsa_malloc_track_def Let_def)

lemma free_ringbuffer_blocks:
  assumes "rb_ok h r"
  shows "live (cdsa_free_ringbuffer h (Some r)) = others {rb_self r, rb_data r} h"
    and "fault (cdsa_free_ringbuffer h (Some r)) = fault h"
    and "heap_ok (cdsa_free_ringbuffer h (Some r))"
  using free_two_blocks [of h "rb_self r" sizeof_ringbuffer "rb_data r"] assms
  by (auto simp: cdsa_free_ringbuffer_def rb_ok_def ringbuffer_owned_def)

lemma shape_blocks:
  "rb_shape r = rb_shape r' \<Longrightarrow> others {rb_self r, rb_data r} h = others {rb_self r', rb_data r'} h"
  by (simp add: rb_shape_def)

subsection \<open>A struct that holds a ring buffer\<close>

text \<open>
  The queue and the deque allocate a struct of their own, then the ring buffer in it, and free
  the two in the opposite order.
\<close>

lemma wrapped_ringbuffer:
  assumes "heap_ok h" and m: "cdsa_malloc_track h n = (h1, Some p)" and "\<not> unat (n + 8) < 8"
    and c: "cdsa_create_ringbuffer h1 cap es = (h2, Some r)" and "0 < unat es"
    and "2 * unat cap < size_bound" and "unat cap * unat es + 8 < size_bound"
  shows "rb_ok h2 r" and "fault h2 = fault h"
    and "rb_ok h2 r' \<Longrightarrow> rb_shape r' = rb_shape r \<Longrightarrow>
      live (cdsa_free_track (cdsa_free_ringbuffer h2 (Some r')) (Some p)) = live h \<and>
      fault (cdsa_free_track (cdsa_free_ringbuffer h2 (Some r')) (Some p)) = fault h"
proof -
  note a = malloc_Some [OF m]
  have ok1: "heap_ok h1" using malloc_ok [OF assms(1), of n] m by simp
  note cr = create_ringbuffer_ok [OF c ok1 assms(5-7)]
  show "rb_ok h2 r" by (rule cr(1))
  show f: "fault h2 = fault h" using cr(5) a(5) assms(3) by simp
  assume r': "rb_ok h2 r'" "rb_shape r' = rb_shape r"
  note fr = free_ringbuffer_blocks [OF r'(1)]
  have l: "live (cdsa_free_ringbuffer h2 (Some r')) = live h1"
    using fr(1) cr(6) shape_blocks [OF r'(2)] by simp
  then have own: "owns (cdsa_free_ringbuffer h2 (Some r')) p n" using a(6) by (simp add: owns_def)
  have "p \<notin> fst ` set (live h)" using a(1) heap_okD(4) [OF assms(1)] by simp
  then show "live (cdsa_free_track (cdsa_free_ringbuffer h2 (Some r')) (Some p)) = live h \<and>
      fault (cdsa_free_track (cdsa_free_ringbuffer h2 (Some r')) (Some p)) = fault h"
    unfolding free_owned [OF own] using l a(2) f fr(2)
    by (simp add: others_def filter_fst_absent)
qed

section \<open>The ring buffer provides the bounded deque\<close>

definition rb_push_back :: "heap \<Rightarrow> ringbuffer \<Rightarrow> bytes \<Rightarrow> heap \<times> ringbuffer \<times> cdsa_status" where
  "rb_push_back h r e =
     (case cdsa_push_back_ringbuffer h (Some r) (Some e) of (h', r', s) \<Rightarrow> (h', the r', s))"

definition rb_push_front :: "heap \<Rightarrow> ringbuffer \<Rightarrow> bytes \<Rightarrow> heap \<times> ringbuffer \<times> cdsa_status" where
  "rb_push_front h r e =
     (case cdsa_push_front_ringbuffer h (Some r) (Some e) of (h', r', s) \<Rightarrow> (h', the r', s))"

definition rb_pop_front :: "ringbuffer \<Rightarrow> ringbuffer \<times> cdsa_status" where
  "rb_pop_front r = (case cdsa_pop_front_ringbuffer (Some r) of (r', s) \<Rightarrow> (the r', s))"

definition rb_pop_back :: "ringbuffer \<Rightarrow> ringbuffer \<times> cdsa_status" where
  "rb_pop_back r = (case cdsa_pop_back_ringbuffer (Some r) of (r', s) \<Rightarrow> (the r', s))"

definition rb_front :: "ringbuffer \<Rightarrow> bytes option" where
  "rb_front r = map_option (rb_deref r) (cdsa_front_ringbuffer (Some r))"

definition rb_back :: "ringbuffer \<Rightarrow> bytes option" where
  "rb_back r = map_option (rb_deref r) (cdsa_back_ringbuffer (Some r))"

lemma ringbuffer_room:
  "unat (rb_size r) < unat (rb_capacity r) \<Longrightarrow> rb_size r \<noteq> rb_capacity r"
  by auto

lemma ringbuffer_full:
  assumes "unat (rb_size r) = unat (rb_capacity r)"
  shows "cdsa_push_back_ringbuffer h (Some r) (Some e) = (h, Some r, CDSA_ERR_FULL)"
    and "cdsa_push_front_ringbuffer h (Some r) (Some e) = (h, Some r, CDSA_ERR_FULL)"
  using assms by (simp_all add: cdsa_push_back_ringbuffer_def cdsa_push_front_ringbuffer_def
      cdsa_is_full_ringbuffer_def size_t_eq_iff)

lemma ringbuffer_empty:
  assumes "rb_list r = []"
  shows "cdsa_pop_front_ringbuffer (Some r) = (Some r, CDSA_ERR_EMPTY)"
    and "cdsa_pop_back_ringbuffer (Some r) = (Some r, CDSA_ERR_EMPTY)"
  using assms by (simp_all add: cdsa_pop_front_ringbuffer_def cdsa_pop_back_ringbuffer_def
      cdsa_is_empty_ringbuffer_def rb_list_Nil)

interpretation rdq: bounded_deque rb_ok rb_list rb_shape shape_elem shape_limit rb_push_back
  rb_pop_front rb_front rb_push_front rb_pop_back rb_back
proof (unfold_locales, goal_cases)
  case (1 h r)
  then show ?case using ringbuffer_invD(5) [OF rb_okD(2)] by simp
next
  case (2 h r e)
  then show ?case by (simp add: rb_push_back_def ringbuffer_full)
next
  case (3 h r e)
  then show ?case
    using push_back_ringbuffer_ok [OF 3(1), of e] ringbuffer_room by (fastforce simp: rb_push_back_def)
next
  case (4 h r)
  then show ?case by (simp add: rb_pop_front_def ringbuffer_empty)
next
  case (5 h r x xs)
  then show ?case
    using pop_front_ringbuffer_ok [OF 5] by (fastforce simp: rb_pop_front_def)
next
  case (6 h r)
  then show ?case by (simp add: rb_front_def front_ringbuffer_hd)
next
  case (7 h r e)
  then show ?case by (simp add: rb_push_front_def ringbuffer_full)
next
  case (8 h r e)
  then show ?case
    using push_front_ringbuffer_ok [OF 8(1), of e] ringbuffer_room
    by (fastforce simp: rb_push_front_def)
next
  case (9 h r)
  then show ?case by (simp add: rb_pop_back_def ringbuffer_empty)
next
  case (10 h r xs x)
  then show ?case
    using pop_back_ringbuffer_ok [OF 10] by (fastforce simp: rb_pop_back_def)
next
  case (11 h r)
  then show ?case by (simp add: rb_back_def back_ringbuffer_last)
qed

section \<open>The iterator\<close>

definition rb_iter_next :: "ringbuffer \<Rightarrow> ringbuffer_iterator \<Rightarrow>
    ringbuffer_iterator \<times> cdsa_status \<times> size_t option" where
  "rb_iter_next r i = (case cdsa_next_ringbuffer r (Some i) of (i', s, p) \<Rightarrow> (the i', s, p))"

definition rb_iter_has_next :: "ringbuffer \<Rightarrow> ringbuffer_iterator \<Rightarrow> ringbuffer_iterator \<times> bool" where
  "rb_iter_has_next r i = (i, cdsa_has_next_ringbuffer (Some r) (Some i))"

text \<open>The pointer \<open>cdsa_next_ringbuffer\<close> yields at progress \<open>k\<close>.\<close>

definition rb_slot_ptr :: "ringbuffer \<Rightarrow> nat \<Rightarrow> size_t" where
  "rb_slot_ptr r k = (rb_head r + of_nat k) mod rb_capacity r * rb_elem_size r"

definition rb_iter_rest :: "ringbuffer \<Rightarrow> ringbuffer_iterator \<Rightarrow> size_t list" where
  "rb_iter_rest r i = map (rb_slot_ptr r) [unat (ri_progress i)..<unat (rb_size r)]"

interpretation rb_iter: fail_fast_iterator rb_version ri_snapshot
  rb_iter_has_next rb_iter_next
  "\<lambda>r i. True" rb_iter_rest
proof (unfold_locales, goal_cases)
  case (1 c i)
  then show ?case by (simp add: rb_iter_has_next_def cdsa_has_next_ringbuffer_def)
next
  case (2 c i)
  then show ?case by (simp add: rb_iter_next_def cdsa_next_ringbuffer_def)
next
  case (3 c i)
  then show ?case
    by (auto simp: rb_iter_has_next_def cdsa_has_next_ringbuffer_def rb_iter_rest_def size_t_less_iff)
next
  case (4 c i x xs)
  then have lt: "unat (ri_progress i) < unat (rb_size c)"
    by (auto simp: rb_iter_rest_def upt_eq_Cons_conv)
  then have "unat (ri_progress i + 1) = Suc (unat (ri_progress i))"
    using unat_size_t_lt [of "rb_size c"] by (intro unat_size_t_Suc) linarith
  then show ?case
    using 4 lt
    by (auto simp: rb_iter_next_def cdsa_next_ringbuffer_def cdsa_has_next_ringbuffer_def
        rb_iter_rest_def rb_slot_ptr_def size_t_less_iff upt_eq_Cons_conv)
next
  case (5 c i)
  then have "\<not> ri_progress i < rb_size c" by (auto simp: rb_iter_rest_def size_t_less_iff)
  then show ?case
    using 5 by (simp add: rb_iter_next_def cdsa_next_ringbuffer_def cdsa_has_next_ringbuffer_def)
qed

lemma rb_iter_rest_elems:
  assumes "ringbuffer_inv r" and "ri_progress i = 0"
  shows "map (rb_deref r) (rb_iter_rest r i) = rb_list r"
proof (rule nth_equalityI)
  show "length (map (rb_deref r) (rb_iter_rest r i)) = length (rb_list r)"
    using assms(2) by (simp add: rb_iter_rest_def)
next
  fix k assume "k < length (map (rb_deref r) (rb_iter_rest r i))"
  then have k: "k < unat (rb_size r)" using assms(2) by (simp add: rb_iter_rest_def)
  note inv = ringbuffer_invD [OF assms(1)]
  have kc: "k < unat (rb_capacity r)" using k inv(5) by simp
  then have u: "unat (of_nat k :: size_t) = k"
    using inv(2) by (intro unat_of_nat_size_t) linarith
  have hd: "unat (rb_head r) < unat (rb_capacity r)" using kc inv(6) by simp
  have "unat ((rb_head r + of_nat k) mod rb_capacity r) =
      (unat (rb_head r) + k) mod unat (rb_capacity r)"
    using slot_at [OF inv(2) hd, of "of_nat k"] u kc by simp
  moreover have "(unat (rb_head r) + k) mod unat (rb_capacity r) < unat (rb_capacity r)"
    using kc by (intro mod_less_divisor) linarith
  ultimately show "map (rb_deref r) (rb_iter_rest r i) ! k = rb_list r ! k"
    using rb_deref_slot [OF assms(1), of "(rb_head r + of_nat k) mod rb_capacity r"] k assms(2)
    by (simp add: rb_iter_rest_def rb_slot_ptr_def rb_list_def)
qed

text \<open>Every successful operation counts the version up.\<close>

lemma ringbuffer_version:
  "cdsa_push_back_ringbuffer h (Some r) e = (h', Some r', CDSA_OK) \<Longrightarrow>
    rb_version r' = rb_version r + 1"
  "cdsa_push_front_ringbuffer h (Some r) e = (h', Some r', CDSA_OK) \<Longrightarrow>
    rb_version r' = rb_version r + 1"
  "cdsa_pop_front_ringbuffer (Some r) = (Some r', CDSA_OK) \<Longrightarrow> rb_version r' = rb_version r + 1"
  "cdsa_pop_back_ringbuffer (Some r) = (Some r', CDSA_OK) \<Longrightarrow> rb_version r' = rb_version r + 1"
  by (auto simp: cdsa_push_back_ringbuffer_def cdsa_push_front_ringbuffer_def
      cdsa_pop_front_ringbuffer_def cdsa_pop_back_ringbuffer_def rb_store_def Let_def
      split: option.splits if_splits)

section \<open>Properties\<close>

text \<open>
  C2: a ring buffer is a bounded double-ended queue: from its creation on, any run of pushes
  and pops at both ends returns the statuses of a list of at most \<open>capacity\<close> elements and ends
  with its elements, wherever the head has wrapped to; no access leaves the buffer, no call
  allocates, and freeing it gives back exactly its blocks.
\<close>

theorem ringbuffer_refines_bounded_deque:
  assumes "heap_ok h" and "0 < unat es" and "2 * unat cap < 2 ^ 64"
    and "unat cap * unat es + 8 < 2 ^ 64"
    and "cdsa_create_ringbuffer h cap es = (h0, Some r0)"
    and "\<forall>c \<in> set cs. deque_call_ok (\<lambda>e. length e = unat es) c"
  shows "\<exists>r. run_calls (deque_step rb_push_back rb_push_front rb_pop_front rb_pop_back) (h0, r0) cs =
        ((h0, r), snd (run_calls (bounded_deque_exec (unat cap)) [] cs)) \<and>
      rb_list r = fst (run_calls (bounded_deque_exec (unat cap)) [] cs) \<and>
      fault h0 = fault h \<and> live (cdsa_free_ringbuffer h0 (Some r)) = live h"
proof -
  note c = create_ringbuffer_ok [OF assms(5,1-4)]
  have sh: "shape_limit (rb_shape r0) = unat cap" "shape_elem (rb_shape r0) = (\<lambda>e. length e = unat es)"
    using c(3,4) by (simp_all add: fun_eq_iff)
  with assms(6) have calls: "\<forall>c \<in> set cs. deque_call_ok (shape_elem (rb_shape r0)) c"
    by simp
  from rdq.deque_run [OF c(1) calls] obtain r where
    r: "run_calls (deque_step rb_push_back rb_push_front rb_pop_front rb_pop_back) (h0, r0) cs =
        ((h0, r), snd (run_calls (bounded_deque_exec (unat cap)) [] cs))"
      "rb_ok h0 r" "rb_shape r = rb_shape r0"
      "rb_list r = fst (run_calls (bounded_deque_exec (unat cap)) [] cs)"
    using sh c(2) by auto
  then show ?thesis
    using c(5,6) free_ringbuffer_blocks(1) [OF r(2)] shape_blocks [OF r(3)] by auto
qed

theorem ringbuffer_refines_bounded_deque_witness:
  "\<exists>h0 r0 r. cdsa_create_ringbuffer good_heap 2 1 = (h0, Some r0) \<and>
     run_calls (deque_step rb_push_back rb_push_front rb_pop_front rb_pop_back) (h0, r0)
         [PushBack [1], PushFront [2], PushBack [3], PopBack, PushFront [4], PopBack] =
       ((h0, r), [CDSA_OK, CDSA_OK, CDSA_ERR_FULL, CDSA_OK, CDSA_OK, CDSA_OK]) \<and>
     rb_list r = [[4]]"
proof -
  obtain h0 r0 where c: "cdsa_create_ringbuffer good_heap 2 1 = (h0, Some r0)"
    using create_ringbuffer_succeeds [of good_heap 2 1] by auto
  have "\<forall>c \<in> set [PushBack [1], PushFront [2], PushBack [3], PopBack, PushFront [4], PopBack].
      deque_call_ok (\<lambda>e. length e = unat (1 :: size_t)) c"
    by simp
  from ringbuffer_refines_bounded_deque [OF _ _ _ _ c this]
  show ?thesis using c by auto
qed

text \<open>
  C15: the loop over a ring buffer's iterator ends; every call in it succeeds and they yield
  pointers to the elements from front to back, across the wrap-around, after which a further call
  reports \<open>CDSA_ERR_NOT_FOUND\<close>; after any successful push or pop the iterator yields
  nothing and reports \<open>CDSA_ERR_ITER_INVALIDATED\<close>.
\<close>

theorem ringbuffer_iterator_yields_elements:
  assumes "rb_ok h r" and "cdsa_create_ringbuffer_iterator h (Some r) = (h', Some i)"
  shows "(\<exists>i' ps. drain rb_iter_has_next rb_iter_next r i = Some (i', yields ps) \<and>
        map (rb_deref r) ps = rb_list r \<and> snd (rb_iter_next r i') = (CDSA_ERR_NOT_FOUND, None)) \<and>
      (\<forall>r' e. cdsa_push_back_ringbuffer h' (Some r) e = (h', Some r', CDSA_OK) \<or>
          cdsa_push_front_ringbuffer h' (Some r) e = (h', Some r', CDSA_OK) \<or>
          cdsa_pop_front_ringbuffer (Some r) = (Some r', CDSA_OK) \<or>
          cdsa_pop_back_ringbuffer (Some r) = (Some r', CDSA_OK) \<longrightarrow>
        cdsa_next_ringbuffer r' (Some i) = (Some i, CDSA_ERR_ITER_INVALIDATED, None) \<and>
        \<not> cdsa_has_next_ringbuffer (Some r') (Some i))"
proof -
  have i: "ri_progress i = 0" "ri_snapshot i = rb_version r"
    using assms(2) by (auto simp: cdsa_create_ringbuffer_iterator_def split: option.splits prod.splits)
  have "\<exists>i' ps. drain rb_iter_has_next rb_iter_next r i = Some (i', yields ps) \<and>
      map (rb_deref r) ps = rb_list r \<and> snd (rb_iter_next r i') = (CDSA_ERR_NOT_FOUND, None)"
    using rb_iter.drain_yields [of r i] i(2) rb_iter_rest_elems [OF rb_okD(2) [OF assms(1)] i(1)]
    by auto
  moreover have "cdsa_next_ringbuffer r' (Some i) = (Some i, CDSA_ERR_ITER_INVALIDATED, None) \<and>
      \<not> cdsa_has_next_ringbuffer (Some r') (Some i)"
    if "rb_version r' = rb_version r + 1" for r'
    using that i(2) by (simp add: cdsa_next_ringbuffer_def cdsa_has_next_ringbuffer_def)
  ultimately show ?thesis using ringbuffer_version by blast
qed

theorem ringbuffer_iterator_yields_elements_witness:
  "\<exists>h r h' i i' ps r'. rb_list r = [[3], [1]] \<and> rb_head r = 2 \<and>
     cdsa_create_ringbuffer_iterator h (Some r) = (h', Some i) \<and>
     drain rb_iter_has_next rb_iter_next r i = Some (i', yields ps) \<and>
     map (rb_deref r) ps = [[3], [1]] \<and>
     cdsa_pop_front_ringbuffer (Some r) = (Some r', CDSA_OK) \<and>
     cdsa_next_ringbuffer r' (Some i) = (Some i, CDSA_ERR_ITER_INVALIDATED, None)"
proof -
  define h where "h = good_heap\<lparr>next_id := Suc (Suc 0), mem_used := 59,
      live := [(Suc 0, \<lparr>hdr = 3, raw = 11\<rparr>), (0, \<lparr>hdr = 56, raw = 64\<rparr>)]\<rparr>"
  define r where "r = \<lparr>rb_self = 0, rb_data = Suc 0, rb_buf = [1, 2, 3], rb_head = 2, rb_tail = 1,
      rb_size = 2, rb_capacity = 3, rb_elem_size = 1, rb_version = 5\<rparr>"
  have ok: "rb_ok h r"
    by (simp add: h_def r_def rb_ok_def heap_ok_def ringbuffer_inv_def ringbuffer_owned_def
        owns_def sizeof_ringbuffer_def)
  obtain h' i where it: "cdsa_create_ringbuffer_iterator h (Some r) = (h', Some i)"
    by (simp add: cdsa_create_ringbuffer_iterator_def cdsa_malloc_track_def h_def Let_def)
  have l: "rb_list r = [[3], [1]]"
    by (simp add: r_def rb_list_def ring_def elems_def bslice_def upt_rec)
  obtain r' where pop: "cdsa_pop_front_ringbuffer (Some r) = (Some r', CDSA_OK)"
    using pop_front_ringbuffer_ok [OF ok l] by blast
  note all = ringbuffer_iterator_yields_elements [OF ok it]
  obtain i' ps where d: "drain rb_iter_has_next rb_iter_next r i = Some (i', yields ps)"
      "map (rb_deref r) ps = [[3], [1]]"
    using all l by metis
  have "cdsa_next_ringbuffer r' (Some i) = (Some i, CDSA_ERR_ITER_INVALIDATED, None)"
    using all pop by blast
  moreover have "rb_head r = 2" by (simp add: r_def)
  ultimately show ?thesis
    using d it l pop by (intro exI conjI)
qed

end
