(* ===== verification/Queue.thy ===== *)
theory Queue
  imports RingBuffer
begin

text \<open>
  \<^verbatim>\<open>src/queue.c\<close>: the first-in first-out queue, a struct that holds a ring buffer and restricts
  it to pushes at the back and pops at the front.
\<close>

section \<open>State and operations\<close>

record cdsa_queue =
  q_self :: block_id
  q_rb :: ringbuffer

definition sizeof_queue :: size_t where "sizeof_queue = 8"

definition cdsa_create_queue :: "heap \<Rightarrow> size_t \<Rightarrow> size_t \<Rightarrow> heap \<times> cdsa_queue option" where
  "cdsa_create_queue h capacity elem_size =
     (let (h1, queue) = cdsa_malloc_track h sizeof_queue
      in case queue of
           None \<Rightarrow> (h1, None)
         | Some p \<Rightarrow>
             let (h2, rb) = cdsa_create_ringbuffer h1 capacity elem_size
             in case rb of
                  None \<Rightarrow> (cdsa_free_track h2 (Some p), None)
                | Some r \<Rightarrow> (h2, Some \<lparr>q_self = p, q_rb = r\<rparr>))"

definition cdsa_free_queue :: "heap \<Rightarrow> cdsa_queue option \<Rightarrow> heap" where
  "cdsa_free_queue h queue =
     (case queue of
        None \<Rightarrow> h
      | Some q \<Rightarrow> cdsa_free_track (cdsa_free_ringbuffer h (Some (q_rb q))) (Some (q_self q)))"

definition cdsa_enqueue ::
  "heap \<Rightarrow> cdsa_queue option \<Rightarrow> bytes option \<Rightarrow> heap \<times> cdsa_queue option \<times> cdsa_status" where
  "cdsa_enqueue h queue elem =
     (case (queue, elem) of
        (Some q, Some e) \<Rightarrow>
          let (h1, rb, s) = cdsa_push_back_ringbuffer h (Some (q_rb q)) (Some e)
          in (h1, Some (q\<lparr>q_rb := the rb\<rparr>), s)
      | _ \<Rightarrow> (h, queue, CDSA_ERR_INVALID))"

definition cdsa_dequeue :: "cdsa_queue option \<Rightarrow> cdsa_queue option \<times> cdsa_status" where
  "cdsa_dequeue queue =
     (case queue of
        None \<Rightarrow> (None, CDSA_ERR_INVALID)
      | Some q \<Rightarrow>
          let (rb, s) = cdsa_pop_front_ringbuffer (Some (q_rb q))
          in (Some (q\<lparr>q_rb := the rb\<rparr>), s))"

definition cdsa_front_queue :: "cdsa_queue option \<Rightarrow> size_t option" where
  "cdsa_front_queue queue =
     (case queue of None \<Rightarrow> None | Some q \<Rightarrow> cdsa_front_ringbuffer (Some (q_rb q)))"

definition cdsa_size_queue :: "cdsa_queue option \<Rightarrow> size_t" where
  "cdsa_size_queue queue =
     (case queue of None \<Rightarrow> 0 | Some q \<Rightarrow> cdsa_size_ringbuffer (Some (q_rb q)))"

definition cdsa_is_empty_queue :: "cdsa_queue option \<Rightarrow> bool" where
  "cdsa_is_empty_queue queue =
     (case queue of None \<Rightarrow> True | Some q \<Rightarrow> cdsa_is_empty_ringbuffer (Some (q_rb q)))"

definition cdsa_is_full_queue :: "cdsa_queue option \<Rightarrow> bool" where
  "cdsa_is_full_queue queue =
     (case queue of None \<Rightarrow> False | Some q \<Rightarrow> cdsa_is_full_ringbuffer (Some (q_rb q)))"

definition cdsa_create_queue_iterator ::
  "heap \<Rightarrow> cdsa_queue option \<Rightarrow> heap \<times> ringbuffer_iterator option" where
  "cdsa_create_queue_iterator h queue =
     (case queue of None \<Rightarrow> (h, None) | Some q \<Rightarrow> cdsa_create_ringbuffer_iterator h (Some (q_rb q)))"

definition cdsa_has_next_queue :: "cdsa_queue \<Rightarrow> ringbuffer_iterator option \<Rightarrow> bool" where
  "cdsa_has_next_queue q iter = cdsa_has_next_ringbuffer (Some (q_rb q)) iter"

definition cdsa_next_queue :: "cdsa_queue \<Rightarrow> ringbuffer_iterator option \<Rightarrow>
    ringbuffer_iterator option \<times> cdsa_status \<times> size_t option" where
  "cdsa_next_queue q iter = cdsa_next_ringbuffer (q_rb q) iter"

definition cdsa_free_queue_iterator :: "heap \<Rightarrow> ringbuffer_iterator option \<Rightarrow> heap" where
  "cdsa_free_queue_iterator h iter = cdsa_free_ringbuffer_iterator h iter"

lemma queue_null [null_simps]:
  "cdsa_enqueue h None e = (h, None, CDSA_ERR_INVALID)"
  "cdsa_enqueue h q None = (h, q, CDSA_ERR_INVALID)"
  "cdsa_dequeue None = (None, CDSA_ERR_INVALID)" "cdsa_front_queue None = None"
  "cdsa_size_queue None = 0" "cdsa_is_empty_queue None" "\<not> cdsa_is_full_queue None"
  "cdsa_free_queue h None = h"
  by (simp_all add: cdsa_enqueue_def cdsa_dequeue_def cdsa_front_queue_def cdsa_size_queue_def
      cdsa_is_empty_queue_def cdsa_is_full_queue_def cdsa_free_queue_def split: option.splits)

section \<open>The queue provides the bounded queue\<close>

definition queue_enq :: "heap \<Rightarrow> cdsa_queue \<Rightarrow> bytes \<Rightarrow> heap \<times> cdsa_queue \<times> cdsa_status" where
  "queue_enq h q e = (case cdsa_enqueue h (Some q) (Some e) of (h', r, s) \<Rightarrow> (h', the r, s))"

definition queue_deq :: "cdsa_queue \<Rightarrow> cdsa_queue \<times> cdsa_status" where
  "queue_deq q = (case cdsa_dequeue (Some q) of (r, s) \<Rightarrow> (the r, s))"

definition queue_front :: "cdsa_queue \<Rightarrow> bytes option" where
  "queue_front q = map_option (rb_deref (q_rb q)) (cdsa_front_queue (Some q))"

lemma queue_ops_ring:
  "queue_enq h q e = (case rb_push_back h (q_rb q) e of (h', r, s) \<Rightarrow> (h', q\<lparr>q_rb := r\<rparr>, s))"
  "queue_deq q = (case rb_pop_front (q_rb q) of (r, s) \<Rightarrow> (q\<lparr>q_rb := r\<rparr>, s))"
  "queue_front q = rb_front (q_rb q)"
  by (simp_all add: queue_enq_def cdsa_enqueue_def rb_push_back_def queue_deq_def cdsa_dequeue_def
      rb_pop_front_def queue_front_def cdsa_front_queue_def rb_front_def split: prod.splits)

interpretation bq: bounded_queue "\<lambda>h q. rb_ok h (q_rb q)" "\<lambda>q. rb_list (q_rb q)"
  "\<lambda>q. (q_self q, rb_shape (q_rb q))" "\<lambda>k. shape_elem (snd k)" "\<lambda>k. shape_limit (snd k)"
  queue_enq queue_deq queue_front
proof (unfold_locales, goal_cases)
  case (1 h q)
  then show ?case using rdq.within by simp
next
  case (2 h q e)
  then show ?case using rdq.push_back_full [OF 2(1)] by (simp add: queue_ops_ring)
next
  case (3 h q e)
  then show ?case using rdq.push_back_room [OF 3(1), of e] by (force simp: queue_ops_ring)
next
  case (4 h q)
  then show ?case using rdq.pop_front_empty [OF 4] by (simp add: queue_ops_ring)
next
  case (5 h q x xs)
  then show ?case using rdq.pop_front_cons [OF 5] by (force simp: queue_ops_ring)
next
  case (6 h q)
  then show ?case using rdq.front_hd [OF 6] by (simp add: queue_ops_ring)
qed

section \<open>Properties\<close>

text \<open>
  C21: first in, first out: from its creation on, any run of enqueues and dequeues returns
  the statuses of a list of at most \<open>capacity\<close> elements that grows at its end and shrinks at its
  front, and leaves the queue with that list; freeing it gives back all of its blocks.
\<close>

theorem queue_is_fifo:
  assumes "heap_ok h" and "0 < unat es" and "2 * unat cap < 2 ^ 64"
    and "unat cap * unat es + 8 < 2 ^ 64"
    and "cdsa_create_queue h cap es = (h0, Some q0)"
    and "\<forall>e. Enq e \<in> set cs \<longrightarrow> length e = unat es"
  shows "\<exists>q. run_calls (queue_step queue_enq queue_deq) (h0, q0) cs =
        ((h0, q), snd (run_calls (bounded_queue_exec (unat cap)) [] cs)) \<and>
      rb_list (q_rb q) = fst (run_calls (bounded_queue_exec (unat cap)) [] cs) \<and>
      fault h0 = fault h \<and> live (cdsa_free_queue h0 (Some q)) = live h"
proof -
  from assms(5) obtain h1 r0 p where m: "cdsa_malloc_track h sizeof_queue = (h1, Some p)"
    and c: "cdsa_create_ringbuffer h1 cap es = (h0, Some r0)" and q0: "q0 = \<lparr>q_self = p, q_rb = r0\<rparr>"
    by (auto simp: cdsa_create_queue_def split: option.splits prod.splits)
  have nw: "\<not> unat (sizeof_queue + 8) < 8" by (simp add: sizeof_queue_def)
  note w = wrapped_ringbuffer [OF assms(1) m nw c assms(2-4)]
  have ok1: "heap_ok h1" using malloc_ok [OF assms(1), of sizeof_queue] m by simp
  note cr = create_ringbuffer_ok [OF c ok1 assms(2-4)]
  have "rb_ok h0 (q_rb q0)" using w(1) q0 by simp
  moreover have "\<forall>e. Enq e \<in> set cs \<longrightarrow> shape_elem (snd (q_self q0, rb_shape (q_rb q0))) e"
    using assms(6) cr(4) q0 by simp
  ultimately obtain q where q: "run_calls (queue_step queue_enq queue_deq) (h0, q0) cs =
        ((h0, q), snd (run_calls (bounded_queue_exec (unat cap)) [] cs))"
      "rb_ok h0 (q_rb q)" "q_self q = p" "rb_shape (q_rb q) = rb_shape r0"
      "rb_list (q_rb q) = fst (run_calls (bounded_queue_exec (unat cap)) [] cs)"
    using bq.queue_run [of h0 q0 cs] cr(2,3) q0 by auto
  then show ?thesis using w(2,3) by (simp add: cdsa_free_queue_def)
qed

theorem queue_is_fifo_witness:
  "\<exists>h0 q0 q. cdsa_create_queue good_heap 2 1 = (h0, Some q0) \<and>
     run_calls (queue_step queue_enq queue_deq) (h0, q0)
         [Enq [1], Enq [2], Enq [3], Deq, Enq [4]] =
       ((h0, q), [CDSA_OK, CDSA_OK, CDSA_ERR_FULL, CDSA_OK, CDSA_OK]) \<and>
     rb_list (q_rb q) = [[2], [4]]"
proof -
  obtain h0 q0 where c: "cdsa_create_queue good_heap 2 1 = (h0, Some q0)"
    by (simp add: cdsa_create_queue_def cdsa_create_ringbuffer_def cdsa_malloc_track_def Let_def)
  have "\<forall>e. Enq e \<in> set [Enq [1], Enq [2], Enq [3], Deq, Enq [4]] \<longrightarrow>
      length e = unat (1 :: size_t)"
    by simp
  from queue_is_fifo [OF _ _ _ _ c this] show ?thesis using c by auto
qed

end
