(* ===== verification/Deque.thy ===== *)
theory Deque
  imports RingBuffer
begin

text \<open>
  \<^verbatim>\<open>src/deque.c\<close>: the double-ended queue, a struct that holds a ring buffer and passes every
  operation on to it.
\<close>

section \<open>State and operations\<close>

record cdsa_deque =
  dq_self :: block_id
  dq_rb :: ringbuffer

definition sizeof_deque :: size_t where "sizeof_deque = 8"

definition cdsa_create_deque :: "heap \<Rightarrow> size_t \<Rightarrow> size_t \<Rightarrow> heap \<times> cdsa_deque option" where
  "cdsa_create_deque h capacity elem_size =
     (let (h1, deque) = cdsa_malloc_track h sizeof_deque
      in case deque of
           None \<Rightarrow> (h1, None)
         | Some p \<Rightarrow>
             let (h2, rb) = cdsa_create_ringbuffer h1 capacity elem_size
             in case rb of
                  None \<Rightarrow> (cdsa_free_track h2 (Some p), None)
                | Some r \<Rightarrow> (h2, Some \<lparr>dq_self = p, dq_rb = r\<rparr>))"

definition cdsa_free_deque :: "heap \<Rightarrow> cdsa_deque option \<Rightarrow> heap" where
  "cdsa_free_deque h deque =
     (case deque of
        None \<Rightarrow> h
      | Some d \<Rightarrow> cdsa_free_track (cdsa_free_ringbuffer h (Some (dq_rb d))) (Some (dq_self d)))"

definition cdsa_push_front_deque ::
  "heap \<Rightarrow> cdsa_deque option \<Rightarrow> bytes option \<Rightarrow> heap \<times> cdsa_deque option \<times> cdsa_status" where
  "cdsa_push_front_deque h deque elem =
     (case (deque, elem) of
        (Some d, Some e) \<Rightarrow>
          let (h1, rb, s) = cdsa_push_front_ringbuffer h (Some (dq_rb d)) (Some e)
          in (h1, Some (d\<lparr>dq_rb := the rb\<rparr>), s)
      | _ \<Rightarrow> (h, deque, CDSA_ERR_INVALID))"

definition cdsa_pop_front_deque :: "cdsa_deque option \<Rightarrow> cdsa_deque option \<times> cdsa_status" where
  "cdsa_pop_front_deque deque =
     (case deque of
        None \<Rightarrow> (None, CDSA_ERR_INVALID)
      | Some d \<Rightarrow>
          let (rb, s) = cdsa_pop_front_ringbuffer (Some (dq_rb d))
          in (Some (d\<lparr>dq_rb := the rb\<rparr>), s))"

definition cdsa_front_deque :: "cdsa_deque option \<Rightarrow> size_t option" where
  "cdsa_front_deque deque =
     (case deque of None \<Rightarrow> None | Some d \<Rightarrow> cdsa_front_ringbuffer (Some (dq_rb d)))"

definition cdsa_push_back_deque ::
  "heap \<Rightarrow> cdsa_deque option \<Rightarrow> bytes option \<Rightarrow> heap \<times> cdsa_deque option \<times> cdsa_status" where
  "cdsa_push_back_deque h deque elem =
     (case (deque, elem) of
        (Some d, Some e) \<Rightarrow>
          let (h1, rb, s) = cdsa_push_back_ringbuffer h (Some (dq_rb d)) (Some e)
          in (h1, Some (d\<lparr>dq_rb := the rb\<rparr>), s)
      | _ \<Rightarrow> (h, deque, CDSA_ERR_INVALID))"

definition cdsa_pop_back_deque :: "cdsa_deque option \<Rightarrow> cdsa_deque option \<times> cdsa_status" where
  "cdsa_pop_back_deque deque =
     (case deque of
        None \<Rightarrow> (None, CDSA_ERR_INVALID)
      | Some d \<Rightarrow>
          let (rb, s) = cdsa_pop_back_ringbuffer (Some (dq_rb d))
          in (Some (d\<lparr>dq_rb := the rb\<rparr>), s))"

definition cdsa_back_deque :: "cdsa_deque option \<Rightarrow> size_t option" where
  "cdsa_back_deque deque =
     (case deque of None \<Rightarrow> None | Some d \<Rightarrow> cdsa_back_ringbuffer (Some (dq_rb d)))"

definition cdsa_size_deque :: "cdsa_deque option \<Rightarrow> size_t" where
  "cdsa_size_deque deque =
     (case deque of None \<Rightarrow> 0 | Some d \<Rightarrow> cdsa_size_ringbuffer (Some (dq_rb d)))"

definition cdsa_is_empty_deque :: "cdsa_deque option \<Rightarrow> bool" where
  "cdsa_is_empty_deque deque =
     (case deque of None \<Rightarrow> True | Some d \<Rightarrow> cdsa_is_empty_ringbuffer (Some (dq_rb d)))"

definition cdsa_is_full_deque :: "cdsa_deque option \<Rightarrow> bool" where
  "cdsa_is_full_deque deque =
     (case deque of None \<Rightarrow> False | Some d \<Rightarrow> cdsa_is_full_ringbuffer (Some (dq_rb d)))"

definition cdsa_create_deque_iterator ::
  "heap \<Rightarrow> cdsa_deque option \<Rightarrow> heap \<times> ringbuffer_iterator option" where
  "cdsa_create_deque_iterator h deque =
     (case deque of
        None \<Rightarrow> (h, None)
      | Some d \<Rightarrow> cdsa_create_ringbuffer_iterator h (Some (dq_rb d)))"

definition cdsa_has_next_deque :: "cdsa_deque \<Rightarrow> ringbuffer_iterator option \<Rightarrow> bool" where
  "cdsa_has_next_deque d iter = cdsa_has_next_ringbuffer (Some (dq_rb d)) iter"

definition cdsa_next_deque :: "cdsa_deque \<Rightarrow> ringbuffer_iterator option \<Rightarrow>
    ringbuffer_iterator option \<times> cdsa_status \<times> size_t option" where
  "cdsa_next_deque d iter = cdsa_next_ringbuffer (dq_rb d) iter"

definition cdsa_free_deque_iterator :: "heap \<Rightarrow> ringbuffer_iterator option \<Rightarrow> heap" where
  "cdsa_free_deque_iterator h iter = cdsa_free_ringbuffer_iterator h iter"

lemma deque_null [null_simps]:
  "cdsa_push_back_deque h None e = (h, None, CDSA_ERR_INVALID)"
  "cdsa_push_back_deque h d None = (h, d, CDSA_ERR_INVALID)"
  "cdsa_push_front_deque h None e = (h, None, CDSA_ERR_INVALID)"
  "cdsa_push_front_deque h d None = (h, d, CDSA_ERR_INVALID)"
  "cdsa_pop_front_deque None = (None, CDSA_ERR_INVALID)"
  "cdsa_pop_back_deque None = (None, CDSA_ERR_INVALID)"
  "cdsa_front_deque None = None" "cdsa_back_deque None = None"
  "cdsa_size_deque None = 0" "cdsa_is_empty_deque None" "\<not> cdsa_is_full_deque None"
  "cdsa_free_deque h None = h"
  by (simp_all add: cdsa_push_back_deque_def cdsa_push_front_deque_def cdsa_pop_front_deque_def
      cdsa_pop_back_deque_def cdsa_front_deque_def cdsa_back_deque_def cdsa_size_deque_def
      cdsa_is_empty_deque_def cdsa_is_full_deque_def cdsa_free_deque_def split: option.splits)

section \<open>The deque provides the bounded deque\<close>

definition dq_push_back :: "heap \<Rightarrow> cdsa_deque \<Rightarrow> bytes \<Rightarrow> heap \<times> cdsa_deque \<times> cdsa_status" where
  "dq_push_back h d e =
     (case cdsa_push_back_deque h (Some d) (Some e) of (h', r, s) \<Rightarrow> (h', the r, s))"

definition dq_push_front :: "heap \<Rightarrow> cdsa_deque \<Rightarrow> bytes \<Rightarrow> heap \<times> cdsa_deque \<times> cdsa_status" where
  "dq_push_front h d e =
     (case cdsa_push_front_deque h (Some d) (Some e) of (h', r, s) \<Rightarrow> (h', the r, s))"

definition dq_pop_front :: "cdsa_deque \<Rightarrow> cdsa_deque \<times> cdsa_status" where
  "dq_pop_front d = (case cdsa_pop_front_deque (Some d) of (r, s) \<Rightarrow> (the r, s))"

definition dq_pop_back :: "cdsa_deque \<Rightarrow> cdsa_deque \<times> cdsa_status" where
  "dq_pop_back d = (case cdsa_pop_back_deque (Some d) of (r, s) \<Rightarrow> (the r, s))"

definition dq_front :: "cdsa_deque \<Rightarrow> bytes option" where
  "dq_front d = map_option (rb_deref (dq_rb d)) (cdsa_front_deque (Some d))"

definition dq_back :: "cdsa_deque \<Rightarrow> bytes option" where
  "dq_back d = map_option (rb_deref (dq_rb d)) (cdsa_back_deque (Some d))"

lemma deque_ops_ring:
  "dq_push_back h d e = (case rb_push_back h (dq_rb d) e of (h', r, s) \<Rightarrow> (h', d\<lparr>dq_rb := r\<rparr>, s))"
  "dq_push_front h d e =
     (case rb_push_front h (dq_rb d) e of (h', r, s) \<Rightarrow> (h', d\<lparr>dq_rb := r\<rparr>, s))"
  "dq_pop_front d = (case rb_pop_front (dq_rb d) of (r, s) \<Rightarrow> (d\<lparr>dq_rb := r\<rparr>, s))"
  "dq_pop_back d = (case rb_pop_back (dq_rb d) of (r, s) \<Rightarrow> (d\<lparr>dq_rb := r\<rparr>, s))"
  "dq_front d = rb_front (dq_rb d)" "dq_back d = rb_back (dq_rb d)"
  by (simp_all add: dq_push_back_def cdsa_push_back_deque_def rb_push_back_def dq_push_front_def
      cdsa_push_front_deque_def rb_push_front_def dq_pop_front_def cdsa_pop_front_deque_def
      rb_pop_front_def dq_pop_back_def cdsa_pop_back_deque_def rb_pop_back_def dq_front_def
      cdsa_front_deque_def rb_front_def dq_back_def cdsa_back_deque_def rb_back_def
      split: prod.splits)

interpretation bdq: bounded_deque "\<lambda>h d. rb_ok h (dq_rb d)" "\<lambda>d. rb_list (dq_rb d)"
  "\<lambda>d. (dq_self d, rb_shape (dq_rb d))" "\<lambda>k. shape_elem (snd k)" "\<lambda>k. shape_limit (snd k)"
  dq_push_back dq_pop_front dq_front dq_push_front dq_pop_back dq_back
proof (unfold_locales, goal_cases)
  case (1 h d)
  then show ?case using rdq.within by simp
next
  case (2 h d e)
  then show ?case using rdq.push_back_full [OF 2(1)] by (simp add: deque_ops_ring)
next
  case (3 h d e)
  then show ?case using rdq.push_back_room [OF 3(1), of e] by (force simp: deque_ops_ring)
next
  case (4 h d)
  then show ?case using rdq.pop_front_empty [OF 4] by (simp add: deque_ops_ring)
next
  case (5 h d x xs)
  then show ?case using rdq.pop_front_cons [OF 5] by (force simp: deque_ops_ring)
next
  case (6 h d)
  then show ?case using rdq.front_hd [OF 6] by (simp add: deque_ops_ring)
next
  case (7 h d e)
  then show ?case using rdq.push_front_full [OF 7(1)] by (simp add: deque_ops_ring)
next
  case (8 h d e)
  then show ?case using rdq.push_front_room [OF 8(1), of e] by (force simp: deque_ops_ring)
next
  case (9 h d)
  then show ?case using rdq.pop_back_empty [OF 9] by (simp add: deque_ops_ring)
next
  case (10 h d xs x)
  then show ?case using rdq.pop_back_snoc [OF 10] by (force simp: deque_ops_ring)
next
  case (11 h d)
  then show ?case using rdq.rear_last [OF 11] by (simp add: deque_ops_ring)
qed

section \<open>Properties\<close>

text \<open>
  C22: the deque a client creates is a list of at most \<open>capacity\<close> elements that grows and
  shrinks at both ends, call by call and status by status, \<open>cdsa_front_deque\<close> and
  \<open>cdsa_back_deque\<close> point to the ends of that list, and freeing it gives back all of its blocks.
\<close>

theorem deque_is_bounded_list:
  assumes "heap_ok h" and "0 < unat es" and "2 * unat cap < 2 ^ 64"
    and "unat cap * unat es + 8 < 2 ^ 64"
    and "cdsa_create_deque h cap es = (h0, Some d0)"
    and "\<forall>c \<in> set cs. deque_call_ok (\<lambda>e. length e = unat es) c"
    and "run_calls (bounded_deque_exec (unat cap)) [] cs = (xs, ss)"
  shows "\<exists>d. run_calls (deque_step dq_push_back dq_push_front dq_pop_front dq_pop_back) (h0, d0) cs =
        ((h0, d), ss) \<and> rb_list (dq_rb d) = xs \<and>
      (xs \<noteq> [] \<longrightarrow> dq_front d = Some (hd xs) \<and> dq_back d = Some (last xs)) \<and>
      fault h0 = fault h \<and> live (cdsa_free_deque h0 (Some d)) = live h"
proof -
  from assms(5) obtain h1 r0 p where m: "cdsa_malloc_track h sizeof_deque = (h1, Some p)"
    and c: "cdsa_create_ringbuffer h1 cap es = (h0, Some r0)" and d0: "d0 = \<lparr>dq_self = p, dq_rb = r0\<rparr>"
    by (auto simp: cdsa_create_deque_def split: option.splits prod.splits)
  have nw: "\<not> unat (sizeof_deque + 8) < 8" by (simp add: sizeof_deque_def)
  note w = wrapped_ringbuffer [OF assms(1) m nw c assms(2-4)]
  have ok1: "heap_ok h1" using malloc_ok [OF assms(1), of sizeof_deque] m by simp
  note cr = create_ringbuffer_ok [OF c ok1 assms(2-4)]
  have ok: "rb_ok h0 (dq_rb d0)" using w(1) d0 by simp
  have "shape_elem (rb_shape r0) = (\<lambda>e. length e = unat es)" using cr(4) by (simp add: fun_eq_iff)
  then have "\<forall>c \<in> set cs. deque_call_ok (shape_elem (snd (dq_self d0, rb_shape (dq_rb d0)))) c"
    using assms(6) d0 by simp
  from bdq.deque_run [OF ok this] obtain d where
    d: "run_calls (deque_step dq_push_back dq_push_front dq_pop_front dq_pop_back) (h0, d0) cs =
        ((h0, d), ss)"
      "rb_ok h0 (dq_rb d)" "dq_self d = p" "rb_shape (dq_rb d) = rb_shape r0"
      "rb_list (dq_rb d) = xs"
    using cr(2,3) d0 assms(7) by auto
  then show ?thesis
    using w(2,3) bdq.front_hd [OF d(2)] bdq.rear_last [OF d(2)] by (simp add: cdsa_free_deque_def)
qed

theorem deque_is_bounded_list_witness:
  "\<exists>h0 d0 d. cdsa_create_deque good_heap 2 1 = (h0, Some d0) \<and>
     run_calls (deque_step dq_push_back dq_push_front dq_pop_front dq_pop_back) (h0, d0)
         [PushFront [1], PushFront [2], PushFront [3], PopBack, PushBack [4]] =
       ((h0, d), [CDSA_OK, CDSA_OK, CDSA_ERR_FULL, CDSA_OK, CDSA_OK]) \<and>
     dq_front d = Some [2] \<and> dq_back d = Some [4]"
proof -
  obtain h0 d0 where c: "cdsa_create_deque good_heap 2 1 = (h0, Some d0)"
    by (simp add: cdsa_create_deque_def cdsa_create_ringbuffer_def cdsa_malloc_track_def Let_def)
  have "\<forall>c \<in> set [PushFront [1], PushFront [2], PushFront [3], PopBack, PushBack [4]].
      deque_call_ok (\<lambda>e. length e = unat (1 :: size_t)) c"
    by simp
  from deque_is_bounded_list [OF _ _ _ _ c this] show ?thesis using c by auto
qed

end
