(* ===== verification/Binary_Heap.thy ===== *)
theory Binary_Heap
  imports Interfaces "HOL-Library.Multiset"
begin

text \<open>
  The binary heap in an array, as a specification: sifting up and down on lists with natural
  number indices.  The priority queue refines these functions on its vector.  The comparator is
  a callback of the client; what it has to promise is the locale \<open>priority_order\<close>.
\<close>

section \<open>Parents and the exchange of two cells\<close>

definition parent :: "nat \<Rightarrow> nat" where
  "parent i = (i - 1) div 2"

definition swap_cells :: "'a list \<Rightarrow> nat \<Rightarrow> nat \<Rightarrow> 'a list" where
  "swap_cells xs i j = xs[i := xs ! j, j := xs ! i]"

lemma parent_less: "0 < i \<Longrightarrow> parent i < i"
  by (simp add: parent_def)

lemma parent_eq_iff: "0 < j \<Longrightarrow> parent j = i \<longleftrightarrow> j = 2 * i + 1 \<or> j = 2 * i + 2"
  by (simp add: parent_def) arith

lemma parent_child [simp]: "parent (Suc (2 * i)) = i" "parent (Suc (Suc (2 * i))) = i"
  by (simp_all add: parent_def)

lemma length_swap_cells [simp]: "length (swap_cells xs i j) = length xs"
  by (simp add: swap_cells_def)

lemma nth_swap_cells:
  "i < length xs \<Longrightarrow> j < length xs \<Longrightarrow> k < length xs \<Longrightarrow>
    swap_cells xs i j ! k = (if k = i then xs ! j else if k = j then xs ! i else xs ! k)"
  by (auto simp: swap_cells_def nth_list_update)

lemma mset_swap_cells:
  "i < length xs \<Longrightarrow> j < length xs \<Longrightarrow> mset (swap_cells xs i j) = mset xs"
  using mset_swap [of j xs i] by (simp add: swap_cells_def)

section \<open>Sifting\<close>

function sift_up_list :: "('a \<Rightarrow> 'a \<Rightarrow> bool) \<Rightarrow> 'a list \<Rightarrow> nat \<Rightarrow> 'a list" where
  "sift_up_list cmp xs i =
     (if 0 < i \<and> cmp (xs ! i) (xs ! parent i)
      then sift_up_list cmp (swap_cells xs i (parent i)) (parent i) else xs)"
  by pat_completeness auto

termination
  by (relation "measure (\<lambda>(cmp, xs, i). i)") (auto simp: parent_less)

text \<open>The child, if any, that has priority over both its parent and its sibling.\<close>

definition best_child :: "('a \<Rightarrow> 'a \<Rightarrow> bool) \<Rightarrow> 'a list \<Rightarrow> nat \<Rightarrow> nat" where
  "best_child cmp xs i =
     (let l = 2 * i + 1; r = 2 * i + 2;
          b = (if l < length xs \<and> cmp (xs ! l) (xs ! i) then l else i)
      in if r < length xs \<and> cmp (xs ! r) (xs ! b) then r else b)"

lemma best_child_range:
  assumes "best_child cmp xs i \<noteq> i"
  shows "i < best_child cmp xs i" and "best_child cmp xs i < length xs"
    and "parent (best_child cmp xs i) = i"
  using assms by (auto simp: best_child_def Let_def split: if_splits)

function sift_down_list :: "('a \<Rightarrow> 'a \<Rightarrow> bool) \<Rightarrow> 'a list \<Rightarrow> nat \<Rightarrow> 'a list" where
  "sift_down_list cmp xs i =
     (let b = best_child cmp xs i
      in if b \<noteq> i then sift_down_list cmp (swap_cells xs i b) b else xs)"
  by pat_completeness auto

termination
  by (relation "measure (\<lambda>(cmp, xs, i). length xs - i)")
    (use best_child_range in \<open>fastforce intro!: diff_less_mono2\<close>)+

declare sift_up_list.simps [simp del] sift_down_list.simps [simp del]

lemma mset_sift_up: "i < length xs \<Longrightarrow> mset (sift_up_list cmp xs i) = mset xs"
proof (induction cmp xs i rule: sift_up_list.induct)
  case (1 cmp xs i)
  then show ?case
    using parent_less [of i] by (subst sift_up_list.simps) (auto simp: mset_swap_cells)
qed

lemma mset_sift_down: "i < length xs \<Longrightarrow> mset (sift_down_list cmp xs i) = mset xs"
proof (induction cmp xs i rule: sift_down_list.induct)
  case (1 cmp xs i)
  then show ?case
    using best_child_range [of cmp xs i]
    by (subst sift_down_list.simps) (auto simp: mset_swap_cells Let_def)
qed

lemma length_sift_up [simp]: "i < length xs \<Longrightarrow> length (sift_up_list cmp xs i) = length xs"
  by (metis mset_sift_up size_mset)

lemma length_sift_down [simp]: "i < length xs \<Longrightarrow> length (sift_down_list cmp xs i) = length xs"
  by (metis mset_sift_down size_mset)

section \<open>Heap order\<close>

text \<open>No element has priority over its parent.\<close>

definition heap_ordered :: "('a \<Rightarrow> 'a \<Rightarrow> bool) \<Rightarrow> 'a list \<Rightarrow> bool" where
  "heap_ordered cmp xs \<longleftrightarrow> (\<forall>j \<in> {0<..<length xs}. \<not> cmp (xs ! j) (xs ! parent j))"

text \<open>Heap order but for the edge above \<open>i\<close>, and but for the edges below \<open>i\<close>.\<close>

definition ordered_but_above :: "('a \<Rightarrow> 'a \<Rightarrow> bool) \<Rightarrow> 'a list \<Rightarrow> nat \<Rightarrow> bool" where
  "ordered_but_above cmp xs i \<longleftrightarrow>
     (\<forall>j \<in> {0<..<length xs}. j \<noteq> i \<longrightarrow> \<not> cmp (xs ! j) (xs ! parent j)) \<and>
     (\<forall>j \<in> {0<..<length xs}. 0 < i \<and> parent j = i \<longrightarrow> \<not> cmp (xs ! j) (xs ! parent i))"

definition ordered_but_below :: "('a \<Rightarrow> 'a \<Rightarrow> bool) \<Rightarrow> 'a list \<Rightarrow> nat \<Rightarrow> bool" where
  "ordered_but_below cmp xs i \<longleftrightarrow>
     (\<forall>j \<in> {0<..<length xs}. parent j \<noteq> i \<longrightarrow> \<not> cmp (xs ! j) (xs ! parent j)) \<and>
     (\<forall>j \<in> {0<..<length xs}. 0 < i \<and> parent j = i \<longrightarrow> \<not> cmp (xs ! j) (xs ! parent i))"

lemma heap_ordered_snoc:
  assumes "heap_ordered cmp xs"
  shows "ordered_but_above cmp (xs @ [x]) (length xs)"
  unfolding ordered_but_above_def
proof (intro conjI ballI impI)
  fix j assume "j \<in> {0<..<length (xs @ [x])}" and "j \<noteq> length xs"
  then have "0 < j" "j < length xs" by auto
  then show "\<not> cmp ((xs @ [x]) ! j) ((xs @ [x]) ! parent j)"
    using assms parent_less [of j] by (auto simp: heap_ordered_def nth_append)
next
  fix j assume "j \<in> {0<..<length (xs @ [x])}" and "0 < length xs \<and> parent j = length xs"
  then show "\<not> cmp ((xs @ [x]) ! j) ((xs @ [x]) ! parent (length xs))"
    using parent_less [of j] by auto
qed

lemma heap_ordered_replace_root:
  assumes "heap_ordered cmp xs"
  shows "ordered_but_below cmp (butlast (xs[0 := x])) 0"
proof -
  have "butlast (xs[0 := x]) ! j = xs ! j" "butlast (xs[0 := x]) ! parent j = xs ! parent j"
    if "0 < j" "parent j \<noteq> 0" "j < length xs - 1" for j
    using that parent_less [OF that(1)] by (simp_all add: nth_butlast)
  then show ?thesis using assms by (auto simp: ordered_but_below_def heap_ordered_def)
qed

section \<open>What the comparator has to promise\<close>

text \<open>
  A strict weak order: asymmetric, and an element that has priority over another has priority over
  any third or the third over the other.
\<close>

locale priority_order =
  fixes before :: "'a \<Rightarrow> 'a \<Rightarrow> bool"
  assumes asym: "before x y \<Longrightarrow> \<not> before y x"
    and negatively_transitive: "before x z \<Longrightarrow> before x y \<or> before y z"
begin

lemma not_before_trans: "\<not> before x y \<Longrightarrow> \<not> before y z \<Longrightarrow> \<not> before x z"
  using negatively_transitive by blast

lemma sift_up_heap:
  "ordered_but_above before xs i \<Longrightarrow> i < length xs \<Longrightarrow> heap_ordered before (sift_up_list before xs i)"
proof (induction i arbitrary: xs rule: less_induct)
  case (less i)
  let ?p = "parent i" and ?ys = "swap_cells xs i (parent i)"
  show ?case
  proof (cases "0 < i \<and> before (xs ! i) (xs ! ?p)")
    case True
    then have p: "?p < i" "?p < length xs" using parent_less [of i] less.prems(2) True by auto
    have nth: "?ys ! k = (if k = i then xs ! ?p else if k = ?p then xs ! i else xs ! k)"
      if "k < length xs" for k
      using that p(2) less.prems(2) by (simp add: nth_swap_cells)
    have edge: "\<not> before (xs ! j) (xs ! parent j)" if "0 < j" "j < length xs" "j \<noteq> i" for j
      using less.prems(1) that by (auto simp: ordered_but_above_def)
    have grand: "\<not> before (xs ! j) (xs ! ?p)" if "0 < j" "j < length xs" "parent j = i" for j
      using less.prems(1) that True by (auto simp: ordered_but_above_def)
    have "\<not> before (?ys ! j) (?ys ! parent j)" if j: "0 < j" "j < length xs" "j \<noteq> ?p" for j
    proof -
      have pj: "parent j < j" "parent j < length xs" using parent_less [of j] j by auto
      consider "j = i" | "j \<noteq> i" "parent j = i" | "j \<noteq> i" "parent j = ?p"
        | "j \<noteq> i" "parent j \<noteq> i" "parent j \<noteq> ?p" by blast
      then show ?thesis
      proof cases
        case 1
        then show ?thesis using True asym p j nth [of i] nth [of ?p] by auto
      next
        case 2
        then show ?thesis using grand [of j] j pj nth [of j] nth [of i] by auto
      next
        case 3
        have "\<not> before (xs ! j) (xs ! i)"
          using edge [of j] 3 j True by (metis asym not_before_trans)
        then show ?thesis using 3 j pj p nth [of j] nth [of ?p] by auto
      next
        case 4
        then show ?thesis using edge [of j] j pj nth [of j] nth [of "parent j"] by auto
      qed
    qed
    moreover have "\<not> before (?ys ! j) (?ys ! parent ?p)"
      if j: "0 < j" "j < length xs" "parent j = ?p" and pos: "0 < ?p" for j
    proof -
      have pp: "parent ?p < ?p" using parent_less pos by simp
      have up: "\<not> before (xs ! ?p) (xs ! parent ?p)" using edge [of ?p] pos p by simp
      have y: "?ys ! parent ?p = xs ! parent ?p" using nth [of "parent ?p"] p pp by simp
      show ?thesis
      proof (cases "j = i")
        case True
        then show ?thesis using up y nth [of i] j by simp
      next
        case False
        then have "\<not> before (xs ! j) (xs ! parent ?p)"
          using not_before_trans [OF _ up] edge [of j] j by simp
        moreover have "j \<noteq> ?p" using parent_less [of j] j by auto
        ultimately show ?thesis using y nth [of j] False j by simp
      qed
    qed
    ultimately have "ordered_but_above before ?ys ?p" by (auto simp: ordered_but_above_def)
    then have "heap_ordered before (sift_up_list before ?ys ?p)" using less.IH [OF p(1)] p by simp
    then show ?thesis using True by (subst sift_up_list.simps) simp
  next
    case False
    then show ?thesis
      using less.prems by (subst sift_up_list.simps) (auto simp: heap_ordered_def ordered_but_above_def)
  qed
qed

text \<open>The best child beats its parent and is beaten by neither child.\<close>

lemma before_trans: "before x y \<Longrightarrow> before y z \<Longrightarrow> before x z"
  using negatively_transitive asym by blast

lemma best_child_better:
  assumes "best_child before xs i \<noteq> i"
  shows "before (xs ! best_child before xs i) (xs ! i)"
  using assms before_trans [of "xs ! Suc (Suc (2 * i))" "xs ! Suc (2 * i)" "xs ! i"]
  by (simp add: best_child_def Let_def split: if_splits)

lemma best_child_best:
  assumes "j < length xs" and "j = 2 * i + 1 \<or> j = 2 * i + 2"
  shows "\<not> before (xs ! j) (xs ! best_child before xs i)"
proof -
  let ?l = "xs ! Suc (2 * i)" and ?r = "xs ! Suc (Suc (2 * i))" and ?x = "xs ! i"
  have irr: "\<not> before x x" for x using asym by blast
  have "before ?r ?l \<Longrightarrow> \<not> before ?l ?r" "before ?r ?x \<Longrightarrow> \<not> before ?l ?x \<Longrightarrow> \<not> before ?l ?r"
    using asym not_before_trans by blast+
  then show ?thesis using assms irr by (auto simp: best_child_def Let_def)
qed

lemma sift_down_heap:
  "ordered_but_below before xs i \<Longrightarrow> i < length xs \<Longrightarrow>
    heap_ordered before (sift_down_list before xs i)"
proof (induction "length xs - i" arbitrary: xs i rule: less_induct)
  case (less xs i)
  let ?b = "best_child before xs i"
  let ?ys = "swap_cells xs i ?b"
  have edge: "\<not> before (xs ! j) (xs ! parent j)"
    if "0 < j" "j < length xs" "parent j \<noteq> i" for j
    using less.prems(1) that by (auto simp: ordered_but_below_def)
  have grand: "\<not> before (xs ! j) (xs ! parent i)"
    if "0 < j" "j < length xs" "parent j = i" "0 < i" for j
    using less.prems(1) that by (auto simp: ordered_but_below_def)
  have best: "\<not> before (xs ! j) (xs ! ?b)" if "0 < j" "j < length xs" "parent j = i" for j
    using that best_child_best [of j xs i] parent_eq_iff [of j i] by simp
  show ?case
  proof (cases "?b = i")
    case True
    have "\<not> before (xs ! j) (xs ! parent j)" if "0 < j" "j < length xs" for j
      using edge [OF that] best [OF that] True by (cases "parent j = i") simp_all
    then have "heap_ordered before xs" by (simp add: heap_ordered_def)
    then show ?thesis using True by (subst sift_down_list.simps) simp
  next
    case False
    note b = best_child_range [OF False]
    have nth: "?ys ! k = (if k = i then xs ! ?b else if k = ?b then xs ! i else xs ! k)"
      if "k < length xs" for k
      using that b(2) less.prems(2) by (simp add: nth_swap_cells)
    have "\<not> before (?ys ! j) (?ys ! parent j)"
      if j: "0 < j" "j < length xs" "parent j \<noteq> ?b" for j
    proof -
      have pj: "parent j < j" "parent j < length xs" using parent_less [of j] j by auto
      consider "j = i" | "j = ?b" | "j \<noteq> i" "j \<noteq> ?b" "parent j = i"
        | "j \<noteq> i" "j \<noteq> ?b" "parent j \<noteq> i" by blast
      then show ?thesis
      proof cases
        case 1
        then show ?thesis
          using grand [of ?b] b j pj nth [of i] nth [of "parent j"] by auto
      next
        case 2
        then show ?thesis
          using best_child_better [OF False] asym b nth [of i] nth [of ?b] less.prems(2) by auto
      next
        case 3
        then show ?thesis using best [of j] j nth [of j] nth [of i] less.prems(2) by auto
      next
        case 4
        then show ?thesis using edge [of j] j pj nth [of j] nth [of "parent j"] by auto
      qed
    qed
    moreover have "\<not> before (?ys ! j) (?ys ! parent ?b)"
      if j: "0 < j" "j < length xs" "parent j = ?b" for j
    proof -
      have "?b < j" using parent_less [of j] j by simp
      then show ?thesis
        using edge [of j] j b nth [of j] nth [of i] less.prems(2) by auto
    qed
    ultimately have "ordered_but_below before ?ys ?b" by (auto simp: ordered_but_below_def)
    then have "heap_ordered before (sift_down_list before ?ys ?b)"
      using less.hyps [of ?ys ?b] b less.prems(2) by simp
    then show ?thesis using False by (subst sift_down_list.simps) (simp add: Let_def)
  qed
qed

text \<open>No element of a heap has priority over its root.\<close>

lemma root_first:
  assumes "heap_ordered before xs"
  shows "i < length xs \<Longrightarrow> \<not> before (xs ! i) (xs ! 0)"
proof (induction i rule: less_induct)
  case (less i)
  show ?case
  proof (cases "i = 0")
    case True
    then show ?thesis using asym by blast
  next
    case False
    then have "\<not> before (xs ! i) (xs ! parent i)" "\<not> before (xs ! parent i) (xs ! 0)"
      using assms less parent_less [of i] by (auto simp: heap_ordered_def)
    then show ?thesis by (rule not_before_trans)
  qed
qed

end

section \<open>The contract of a priority queue\<close>

text \<open>
  \<open>ok n h q\<close>: \<open>q\<close> is well-formed in heap \<open>h\<close>, nothing will refuse it memory, and it can take \<open>n\<close>
  more elements.  \<open>before q\<close> is the order of the queue, \<open>frame h q\<close> what is outside it.  The outer option of \<open>pop\<close> is a call that
  does not return.
\<close>

fun push_all :: "('h \<Rightarrow> 'q \<Rightarrow> 'e \<Rightarrow> 'h \<times> 'q \<times> cdsa_status) \<Rightarrow> 'h \<Rightarrow> 'q \<Rightarrow> 'e list \<Rightarrow>
    'h \<times> 'q \<times> cdsa_status list" where
  "push_all push h q [] = (h, q, [])"
| "push_all push h q (e # es) =
     (case push h q e of
        (h1, q1, s) \<Rightarrow> (case push_all push h1 q1 es of (h2, q2, ss) \<Rightarrow> (h2, q2, s # ss)))"

fun pop_all :: "('h \<Rightarrow> 'q \<Rightarrow> ('h \<times> 'q \<times> cdsa_status \<times> 'e option) option) \<Rightarrow> nat \<Rightarrow> 'h \<Rightarrow> 'q \<Rightarrow>
    ('h \<times> 'q \<times> 'e list) option" where
  "pop_all pop 0 h q = Some (h, q, [])"
| "pop_all pop (Suc n) h q =
     (case pop h q of
        Some (h1, q1, CDSA_OK, Some x) \<Rightarrow>
          map_option (\<lambda>(h2, q2, xs). (h2, q2, x # xs)) (pop_all pop n h1 q1)
      | _ \<Rightarrow> None)"

locale priority_queue =
  fixes ok :: "nat \<Rightarrow> 'h \<Rightarrow> 'q \<Rightarrow> bool"
    and bag :: "'q \<Rightarrow> 'e multiset"
    and elem_ok :: "'q \<Rightarrow> 'e \<Rightarrow> bool"
    and before :: "'q \<Rightarrow> 'e \<Rightarrow> 'e \<Rightarrow> bool"
    and frame :: "'h \<Rightarrow> 'q \<Rightarrow> 'f"
    and push :: "'h \<Rightarrow> 'q \<Rightarrow> 'e \<Rightarrow> 'h \<times> 'q \<times> cdsa_status"
    and pop :: "'h \<Rightarrow> 'q \<Rightarrow> ('h \<times> 'q \<times> cdsa_status \<times> 'e option) option"
  assumes push_adds: "ok (Suc n) h q \<Longrightarrow> elem_ok q e \<Longrightarrow>
      \<exists>h' q'. push h q e = (h', q', CDSA_OK) \<and> ok n h' q' \<and> bag q' = add_mset e (bag q) \<and>
        before q' = before q \<and> elem_ok q' = elem_ok q \<and> frame h' q' = frame h q"
    and pop_first: "ok n h q \<Longrightarrow> bag q \<noteq> {#} \<Longrightarrow>
      \<exists>h' q' x. pop h q = Some (h', q', CDSA_OK, Some x) \<and> ok n h' q' \<and> x \<in># bag q \<and>
        bag q' = bag q - {#x#} \<and> (\<forall>y \<in># bag q. \<not> before q y x) \<and>
        before q' = before q \<and> elem_ok q' = elem_ok q \<and> frame h' q' = frame h q"
    and pop_empty: "ok n h q \<Longrightarrow> bag q = {#} \<Longrightarrow> pop h q = Some (h, q, CDSA_ERR_EMPTY, None)"
begin

lemma push_all_bag:
  assumes "ok (length es + n) h q" and "\<forall>e \<in> set es. elem_ok q e"
  shows "\<exists>h' q'. push_all push h q es = (h', q', replicate (length es) CDSA_OK) \<and> ok n h' q' \<and> bag q' = bag q + mset es \<and>
    before q' = before q \<and> frame h' q' = frame h q"
  using assms
proof (induction es arbitrary: h q)
  case Nil
  then show ?case by simp
next
  case (Cons e es)
  then have "ok (Suc (length es + n)) h q" "elem_ok q e" by simp_all
  from push_adds [OF this] obtain h1 q1 where
    1: "push h q e = (h1, q1, CDSA_OK)" "ok (length es + n) h1 q1" "bag q1 = add_mset e (bag q)"
      "before q1 = before q" "elem_ok q1 = elem_ok q" "frame h1 q1 = frame h q" by blast
  then show ?case using Cons.IH [OF 1(2)] Cons.prems(2) by auto
qed

text \<open>Popping everything yields a sorted permutation of what was in the queue.\<close>

lemma pop_all_sorts:
  assumes "ok n h q" and "size (bag q) = m"
  shows "\<exists>h' q' xs. pop_all pop m h q = Some (h', q', xs) \<and> mset xs = bag q \<and>
    sorted_wrt (\<lambda>x y. \<not> before q y x) xs \<and> bag q' = {#} \<and> ok n h' q' \<and>
    frame h' q' = frame h q"
  using assms
proof (induction m arbitrary: h q)
  case 0
  then show ?case by simp
next
  case (Suc m)
  then have "bag q \<noteq> {#}" by auto
  from pop_first [OF Suc.prems(1) this] obtain h1 q1 x where
    1: "pop h q = Some (h1, q1, CDSA_OK, Some x)" "ok n h1 q1" "x \<in># bag q"
      "bag q1 = bag q - {#x#}" "\<forall>y \<in># bag q. \<not> before q y x" "before q1 = before q" "frame h1 q1 = frame h q" by blast
  have "size (bag q1) = m" using 1(3,4) Suc.prems(2) by (simp add: size_Diff_singleton)
  from Suc.IH [OF 1(2) this] obtain h2 q2 xs where
    2: "pop_all pop m h1 q1 = Some (h2, q2, xs)" "mset xs = bag q1"
      "sorted_wrt (\<lambda>x y. \<not> before q y x) xs" "bag q2 = {#}" "ok n h2 q2"
      "frame h2 q2 = frame h1 q1"
    using 1(6) by auto
  have "set xs \<subseteq> set_mset (bag q)"
    using 2(2) 1(4) by (metis in_diffD set_mset_mset subsetI)
  then have "sorted_wrt (\<lambda>x y. \<not> before q y x) (x # xs)" using 2(3) 1(5) by auto
  then show ?case using 1 2 by auto
qed

end

end
