(* ===== verification/PriorityQueue.thy ===== *)
theory PriorityQueue
  imports Vector Binary_Heap
begin

text \<open>
  \<^verbatim>\<open>src/priority_queue.c\<close>: the binary heap in a vector.  The comparator is a callback the client
  passes at creation.  The two sift loops exchange elements through a temporary block; the
  operations that sift can therefore run out of memory after they have changed the vector.
\<close>

section \<open>State\<close>

record pqueue =
  pq_self :: block_id
  pq_data :: vector
  pq_elem_size :: size_t
  pq_cmp :: "bytes \<Rightarrow> bytes \<Rightarrow> bool"

definition sizeof_pqueue :: size_t where "sizeof_pqueue = 24"

section \<open>Operations\<close>

definition cdsa_create_pq ::
  "heap \<Rightarrow> size_t \<Rightarrow> (bytes \<Rightarrow> bytes \<Rightarrow> bool) \<Rightarrow> heap \<times> pqueue option" where
  "cdsa_create_pq h elem_size cmp_func =
     (let (h1, pq) = cdsa_malloc_track h sizeof_pqueue
      in case pq of
           None \<Rightarrow> (h1, None)
         | Some p \<Rightarrow>
             let (h2, data) = cdsa_create_vector h1 elem_size
             in case data of
                  None \<Rightarrow> (cdsa_free_track h2 (Some p), None)
                | Some d \<Rightarrow> (h2, Some \<lparr>pq_self = p, pq_data = d, pq_elem_size = elem_size,
                                       pq_cmp = cmp_func\<rparr>))"

definition cdsa_free_pq :: "heap \<Rightarrow> pqueue option \<Rightarrow> heap" where
  "cdsa_free_pq h pq =
     (case pq of
        None \<Rightarrow> h
      | Some q \<Rightarrow> cdsa_free_track (cdsa_free_vector h (Some (pq_data q))) (Some (pq_self q)))"

text \<open>
  The exchange of both loops: \<open>memcpy(temp, a[i])\<close>, \<open>set_vector(i, a[j])\<close>,
  \<open>set_vector(j, temp)\<close>.  A null element pointer is a fault.
\<close>

definition pq_swap :: "heap \<Rightarrow> pqueue \<Rightarrow> size_t \<Rightarrow> size_t \<Rightarrow> heap \<times> pqueue" where
  "pq_swap h pq i j =
     (case (vec_lookup (pq_data pq) i, vec_lookup (pq_data pq) j) of
        (Some current_val, Some target_val) \<Rightarrow>
          let temp = take (unat (pq_elem_size pq)) current_val;
              (h1, d1, _) = vec_update h (pq_data pq) i target_val;
              (h2, d2, _) = vec_update h1 d1 j temp
          in (h2, pq\<lparr>pq_data := d2\<rparr>)
      | _ \<Rightarrow> (set_fault True h, pq))"

lemma unat_parent_idx:
  assumes "0 < index"
  shows "unat ((index - 1) div 2 :: size_t) = parent (unat index)"
proof -
  have "0 < unat index" using assms by (simp add: size_t_less_iff)
  then show ?thesis by (simp add: unat_size_t_div unat_size_t_pred parent_def)
qed

function sift_up_loop :: "heap \<Rightarrow> pqueue \<Rightarrow> size_t \<Rightarrow> heap \<times> pqueue" where
  "sift_up_loop h pq index =
     (if 0 < index then
        let parent_idx = (index - 1) div 2
        in case (vec_lookup (pq_data pq) index, vec_lookup (pq_data pq) parent_idx) of
             (Some current_val, Some parent_val) \<Rightarrow>
               if pq_cmp pq current_val parent_val
               then let (h1, pq1) = pq_swap h pq index parent_idx in sift_up_loop h1 pq1 parent_idx
               else (h, pq)
           | _ \<Rightarrow> (set_fault True h, pq)
      else (h, pq))"
  by pat_completeness auto

termination
proof (relation "measure (\<lambda>(h, pq, index). unat index)", goal_cases)
  case (2 h pq index)
  then show ?case
    using unat_parent_idx [of index] parent_less [of "unat index"]
    by (simp add: size_t_less_iff)
qed simp

declare sift_up_loop.simps [simp del]

definition sift_up :: "heap \<Rightarrow> pqueue \<Rightarrow> size_t \<Rightarrow> heap \<times> pqueue \<times> cdsa_status" where
  "sift_up h pq index =
     (if index = 0 then (h, pq, CDSA_OK)
      else let (h1, temp) = cdsa_malloc_track h (pq_elem_size pq)
           in case temp of
                None \<Rightarrow> (h1, pq, CDSA_ERR_OOM)
              | Some t \<Rightarrow>
                  let (h2, pq2) = sift_up_loop h1 pq index
                  in (cdsa_free_track h2 (Some t), pq2, CDSA_OK))"

text \<open>One of the two tests \<open>if (child < size) ...\<close>: the index the loop goes on with.\<close>

definition pq_prefer :: "heap \<Rightarrow> pqueue \<Rightarrow> size_t \<Rightarrow> size_t \<Rightarrow> size_t \<Rightarrow> heap \<times> size_t" where
  "pq_prefer h pq n child highest_priority =
     (if child < n then
        case (vec_lookup (pq_data pq) child, vec_lookup (pq_data pq) highest_priority) of
          (Some child_val, Some target_val) \<Rightarrow>
            (h, if pq_cmp pq child_val target_val then child else highest_priority)
        | _ \<Rightarrow> (set_fault True h, highest_priority)
      else (h, highest_priority))"

partial_function (option) sift_down_loop ::
  "heap \<Rightarrow> pqueue \<Rightarrow> size_t \<Rightarrow> size_t \<Rightarrow> (heap \<times> pqueue) option" where
  "sift_down_loop h pq n index =
     (let left_child = 2 * index + 1; right_child = 2 * index + 2;
          (h1, best1) = pq_prefer h pq n left_child index;
          (h2, best) = pq_prefer h1 pq n right_child best1
      in if best \<noteq> index
         then let (h3, pq3) = pq_swap h2 pq index best in sift_down_loop h3 pq3 n best
         else Some (h2, pq))"

definition sift_down :: "heap \<Rightarrow> pqueue \<Rightarrow> size_t \<Rightarrow> (heap \<times> pqueue \<times> cdsa_status) option" where
  "sift_down h pq index =
     (let n = cdsa_size_vector (Some (pq_data pq));
          (h1, temp) = cdsa_malloc_track h (pq_elem_size pq)
      in case temp of
           None \<Rightarrow> Some (h1, pq, CDSA_ERR_OOM)
         | Some t \<Rightarrow>
             map_option (\<lambda>(h2, pq2). (cdsa_free_track h2 (Some t), pq2, CDSA_OK))
               (sift_down_loop h1 pq n index))"

definition cdsa_push_pq ::
  "heap \<Rightarrow> pqueue option \<Rightarrow> bytes option \<Rightarrow> heap \<times> pqueue option \<times> cdsa_status" where
  "cdsa_push_pq h pq elem =
     (case (pq, elem) of
        (Some q, Some e) \<Rightarrow>
          let (h1, d, push_status) = cdsa_push_vector h (Some (pq_data q)) (Some e);
              q1 = q\<lparr>pq_data := the d\<rparr>
          in if push_status \<noteq> CDSA_OK then (h1, Some q1, push_status)
             else let (h2, q2, s) = sift_up h1 q1 (cdsa_size_vector (Some (pq_data q1)) - 1)
                  in (h2, Some q2, s)
      | _ \<Rightarrow> (h, pq, CDSA_ERR_INVALID))"

definition cdsa_is_empty_pq :: "pqueue option \<Rightarrow> bool" where
  "cdsa_is_empty_pq pq =
     (case pq of None \<Rightarrow> True | Some q \<Rightarrow> cdsa_is_empty_vector (Some (pq_data q)))"

text \<open>
  \<open>out\<close> tells whether the caller passed a place for the element; the last component is what is
  written there.  \<open>None\<close> is a call that does not return.
\<close>

definition cdsa_pop_pq :: "heap \<Rightarrow> pqueue option \<Rightarrow> bool \<Rightarrow>
    (heap \<times> pqueue option \<times> cdsa_status \<times> bytes option) option" where
  "cdsa_pop_pq h pq out =
     (case pq of
        None \<Rightarrow> Some (h, None, CDSA_ERR_INVALID, None)
      | Some q \<Rightarrow>
          if \<not> out then Some (h, Some q, CDSA_ERR_INVALID, None)
          else if cdsa_is_empty_pq (Some q) then Some (h, Some q, CDSA_ERR_EMPTY, None)
          else
            let d = pq_data q; n = unat (pq_elem_size q);
                out_elem = bslice (v_buf d) (unat (the (cdsa_front_vector (Some d)))) n;
                last_val = map_option (vec_deref d) (cdsa_back_vector (Some d));
                (h1, d1, _) = set_vector h (Some d) 0 last_val;
                (d2, _) = cdsa_pop_vector d1;
                q1 = q\<lparr>pq_data := the d2\<rparr>
            in if \<not> cdsa_is_empty_pq (Some q1)
               then map_option (\<lambda>(h2, q2, s). (h2, Some q2, s, Some out_elem)) (sift_down h1 q1 0)
               else Some (h1, Some q1, CDSA_OK, Some out_elem))"

definition cdsa_peek_pq :: "pqueue option \<Rightarrow> size_t option" where
  "cdsa_peek_pq pq = (case pq of None \<Rightarrow> None | Some q \<Rightarrow> cdsa_front_vector (Some (pq_data q)))"

definition cdsa_size_pq :: "pqueue option \<Rightarrow> size_t" where
  "cdsa_size_pq pq = (case pq of None \<Rightarrow> 0 | Some q \<Rightarrow> cdsa_size_vector (Some (pq_data q)))"

definition cdsa_clear_pq :: "pqueue option \<Rightarrow> pqueue option" where
  "cdsa_clear_pq pq =
     map_option (\<lambda>q. q\<lparr>pq_data := the (cdsa_clear_vector (Some (pq_data q)))\<rparr>) pq"

definition cdsa_create_priority_queue_iterator ::
  "heap \<Rightarrow> pqueue option \<Rightarrow> heap \<times> vector_iterator option" where
  "cdsa_create_priority_queue_iterator h pq =
     (case pq of None \<Rightarrow> (h, None) | Some q \<Rightarrow> cdsa_create_vector_iterator h (Some (pq_data q)))"

definition cdsa_has_next_priority_queue :: "pqueue \<Rightarrow> vector_iterator option \<Rightarrow> bool" where
  "cdsa_has_next_priority_queue q iter = cdsa_has_next_vector (Some (pq_data q)) iter"

definition cdsa_next_priority_queue ::
  "pqueue \<Rightarrow> vector_iterator option \<Rightarrow> vector_iterator option \<times> cdsa_status \<times> size_t option" where
  "cdsa_next_priority_queue q iter = cdsa_next_vector (pq_data q) iter"

definition cdsa_free_priority_queue_iterator :: "heap \<Rightarrow> vector_iterator option \<Rightarrow> heap" where
  "cdsa_free_priority_queue_iterator h iter = cdsa_free_vector_iterator h iter"

lemma pq_null [null_simps]:
  "cdsa_push_pq h None e = (h, None, CDSA_ERR_INVALID)"
  "cdsa_push_pq h q None = (h, q, CDSA_ERR_INVALID)"
  "cdsa_pop_pq h None b = Some (h, None, CDSA_ERR_INVALID, None)"
  "cdsa_peek_pq None = None" "cdsa_size_pq None = 0" "cdsa_is_empty_pq None"
  "cdsa_free_pq h None = h" "cdsa_clear_pq None = None"
  by (simp_all add: cdsa_push_pq_def cdsa_pop_pq_def cdsa_peek_pq_def cdsa_size_pq_def
      cdsa_is_empty_pq_def cdsa_free_pq_def cdsa_clear_pq_def split: option.splits)

section \<open>The loops are sifts of the element list\<close>

abbreviation pq_list :: "pqueue \<Rightarrow> bytes list" where
  "pq_list q \<equiv> vec_list (pq_data q)"

definition pq_wf :: "heap \<Rightarrow> pqueue \<Rightarrow> bool" where
  "pq_wf h q \<longleftrightarrow> vec_ok h (pq_data q) \<and> pq_elem_size q = v_elem_size (pq_data q)"

text \<open>\<open>q'\<close> is \<open>q\<close> with other bytes in its vector.\<close>

definition same_but_cells :: "pqueue \<Rightarrow> pqueue \<Rightarrow> bool" where
  "same_but_cells q q' \<longleftrightarrow>
     (\<exists>d. q' = q\<lparr>pq_data := d\<rparr> \<and> vec_shape d = vec_shape (pq_data q))"

lemma same_but_cells_refl [simp]: "same_but_cells q q"
  unfolding same_but_cells_def by (intro exI [of _ "pq_data q"]) simp

lemma same_but_cells_trans:
  assumes "same_but_cells q q1" and "same_but_cells q1 q2"
  shows "same_but_cells q q2"
proof -
  from assms obtain d1 d2 where "q1 = q\<lparr>pq_data := d1\<rparr>" "vec_shape d1 = vec_shape (pq_data q)"
    "q2 = q1\<lparr>pq_data := d2\<rparr>" "vec_shape d2 = vec_shape (pq_data q1)"
    by (auto simp: same_but_cells_def)
  then show ?thesis unfolding same_but_cells_def by (intro exI [of _ d2]) simp
qed

lemma same_but_cellsD:
  assumes "same_but_cells q q'"
  shows "pq_cmp q' = pq_cmp q" and "pq_self q' = pq_self q" and "pq_elem_size q' = pq_elem_size q"
    and "vec_shape (pq_data q') = vec_shape (pq_data q)"
  using assms by (auto simp: same_but_cells_def)

lemma pq_lookup:
  assumes "pq_wf h q" and "unat i < length (pq_list q)"
  shows "vec_lookup (pq_data q) i = Some (pq_list q ! unat i)"
  using varr.lookup_cell [of h "pq_data q" i] assms by (simp add: pq_wf_def)

lemma pq_cell_size:
  assumes "pq_wf h q" and "e \<in> set (pq_list q)"
  shows "length e = unat (pq_elem_size q)"
  using varr.cells_elem [of h "pq_data q" e] assms by (simp add: pq_wf_def)

lemma pq_swap_cells:
  assumes "pq_wf h q" and "unat i < length (pq_list q)" and "unat j < length (pq_list q)"
  shows "\<exists>q'. pq_swap h q i j = (h, q') \<and> pq_wf h q' \<and>
    pq_list q' = swap_cells (pq_list q) (unat i) (unat j) \<and> same_but_cells q q'"
proof -
  have ok: "vec_ok h (pq_data q)" using assms(1) by (simp add: pq_wf_def)
  have t: "take (unat (pq_elem_size q)) (pq_list q ! unat i) = pq_list q ! unat i"
    using pq_cell_size [OF assms(1)] assms(2) by simp
  from varr.exchange [OF ok assms(2,3)] obtain v1 v2 where
    v: "vec_update h (pq_data q) i (pq_list q ! unat j) = (h, v1, CDSA_OK)"
      "vec_update h v1 j (pq_list q ! unat i) = (h, v2, CDSA_OK)" "vec_ok h v2"
      "vec_shape v2 = vec_shape (pq_data q)"
      "vec_list v2 = swap_cells (pq_list q) (unat i) (unat j)"
    by (auto simp: swap_cells_def)
  let ?q = "q\<lparr>pq_data := v2\<rparr>"
  have "pq_swap h q i j = (h, ?q)"
    using v(1,2) t pq_lookup [OF assms(1,2)] pq_lookup [OF assms(1,3)] by (simp add: pq_swap_def)
  moreover have "pq_wf h ?q"
    using assms(1) v(3) vec_shapeD(4) [OF v(4)] by (simp add: pq_wf_def)
  moreover have "same_but_cells q ?q" using v(4) by (auto simp: same_but_cells_def)
  ultimately show ?thesis using v(5) by auto
qed

lemma sift_up_loop_list:
  "pq_wf h q \<Longrightarrow> unat i < length (pq_list q) \<Longrightarrow>
   \<exists>q'. sift_up_loop h q i = (h, q') \<and> pq_wf h q' \<and>
     pq_list q' = sift_up_list (pq_cmp q) (pq_list q) (unat i) \<and> same_but_cells q q'"
proof (induction "unat i" arbitrary: q i rule: less_induct)
  case less
  show ?case
  proof (cases "0 < i")
    case False
    then have "i = 0" by (simp add: word_gt_0)
    then show ?thesis
      using less.prems by (subst sift_up_loop.simps, subst sift_up_list.simps) simp
  next
    case True
    let ?p = "(i - 1) div 2"
    have pos: "0 < unat i" using True by (simp add: size_t_less_iff)
    note p = unat_parent_idx [OF True]
    have pl: "unat ?p < unat i" using p parent_less [OF pos] by simp
    then have pb: "unat ?p < length (pq_list q)" using less.prems(2) by simp
    note look = pq_lookup [OF less.prems(1) less.prems(2)] pq_lookup [OF less.prems(1) pb]
    show ?thesis
    proof (cases "pq_cmp q (pq_list q ! unat i) (pq_list q ! parent (unat i))")
      case False
      then show ?thesis
        using True look less.prems(1) p
        by (subst sift_up_loop.simps, subst sift_up_list.simps) simp
    next
      case swap: True
      from pq_swap_cells [OF less.prems(1,2) pb] obtain q1 where
        q1: "pq_swap h q i ?p = (h, q1)" "pq_wf h q1"
          "pq_list q1 = swap_cells (pq_list q) (unat i) (parent (unat i))" "same_but_cells q q1"
        using p by auto
      have "unat ?p < length (pq_list q1)" using q1(3) pb by simp
      from less.hyps [OF pl q1(2) this] obtain q2 where
        q2: "sift_up_loop h q1 ?p = (h, q2)" "pq_wf h q2" "same_but_cells q1 q2"
          "pq_list q2 = sift_up_list (pq_cmp q1) (pq_list q1) (unat ?p)" by blast
      have "sift_up_loop h q i = (h, q2)"
        using True look swap q1(1) q2(1) p by (subst sift_up_loop.simps) simp
      moreover have "pq_list q2 = sift_up_list (pq_cmp q) (pq_list q) (unat i)"
        using swap pos p q1(3) q2(4) same_but_cellsD(1) [OF q1(4)]
        by (subst sift_up_list.simps) simp
      ultimately show ?thesis using q2(2) same_but_cells_trans [OF q1(4) q2(3)] by blast
    qed
  qed
qed

lemma pq_prefer_best:
  assumes "pq_wf h q" and "unat b < length (pq_list q)" and "unat n = length (pq_list q)"
  shows "pq_prefer h q n c b =
    (h, if unat c < length (pq_list q) \<and> pq_cmp q (pq_list q ! unat c) (pq_list q ! unat b)
        then c else b)"
  using assms pq_lookup [OF assms(1)] by (simp add: pq_prefer_def size_t_less_iff)

lemma sift_down_loop_list:
  "pq_wf h q \<Longrightarrow> unat i < length (pq_list q) \<Longrightarrow> unat n = length (pq_list q) \<Longrightarrow>
   2 * length (pq_list q) + 2 \<le> size_bound \<Longrightarrow>
   \<exists>q'. sift_down_loop h q n i = Some (h, q') \<and> pq_wf h q' \<and>
     pq_list q' = sift_down_list (pq_cmp q) (pq_list q) (unat i) \<and> same_but_cells q q'"
proof (induction "length (pq_list q) - unat i" arbitrary: q i rule: less_induct)
  case less
  let ?b = "best_child (pq_cmp q) (pq_list q) (unat i)"
  have "unat (2 * i) = 2 * unat i" using less.prems(2,4) by (subst unat_size_t_mult) simp_all
  then have lr: "unat (2 * i + 1) = Suc (2 * unat i)" "unat (2 * i + 2) = Suc (Suc (2 * unat i))"
    using less.prems(2,4) by (simp_all add: unat_size_t_add)
  define b1 where "b1 = (if unat (2 * i + 1) < length (pq_list q) \<and>
      pq_cmp q (pq_list q ! unat (2 * i + 1)) (pq_list q ! unat i) then 2 * i + 1 else i)"
  define b where "b = (if unat (2 * i + 2) < length (pq_list q) \<and>
      pq_cmp q (pq_list q ! unat (2 * i + 2)) (pq_list q ! unat b1) then 2 * i + 2 else b1)"
  have b1: "unat b1 < length (pq_list q)" using less.prems(2) by (simp add: b1_def)
  have pref: "pq_prefer h q n (2 * i + 1) i = (h, b1)" "pq_prefer h q n (2 * i + 2) b1 = (h, b)"
    using pq_prefer_best [OF less.prems(1,2,3)] pq_prefer_best [OF less.prems(1) b1 less.prems(3)]
    by (simp_all add: b1_def b_def)
  have ub: "unat b = ?b" using lr by (simp add: b_def b1_def best_child_def Let_def)
  show ?case
  proof (cases "b = i")
    case True
    then show ?thesis
      using less.prems(1) pref ub
      by (subst sift_down_loop.simps, subst sift_down_list.simps) (simp add: Let_def)
  next
    case False
    then have nb: "?b \<noteq> unat i" using ub by (metis size_t_eq_iff)
    note range = best_child_range [OF nb]
    have bl: "unat b < length (pq_list q)" using range ub by simp
    from pq_swap_cells [OF less.prems(1,2) bl] obtain q1 where
      q1: "pq_swap h q i b = (h, q1)" "pq_wf h q1"
        "pq_list q1 = swap_cells (pq_list q) (unat i) ?b" "same_but_cells q q1"
      using ub by auto
    have l1: "length (pq_list q1) = length (pq_list q)" by (simp add: q1(3) del: length_vec_list)
    then have "length (pq_list q1) - unat b < length (pq_list q) - unat i"
      "unat b < length (pq_list q1)" "unat n = length (pq_list q1)"
      "2 * length (pq_list q1) + 2 \<le> size_bound"
      using range ub less.prems(2,3,4) by simp_all
    from less.hyps [OF this(1) q1(2) this(2-4)] obtain q2 where
      q2: "sift_down_loop h q1 n b = Some (h, q2)" "pq_wf h q2" "same_but_cells q1 q2"
        "pq_list q2 = sift_down_list (pq_cmp q1) (pq_list q1) (unat b)" by blast
    have "sift_down_loop h q n i = Some (h, q2)"
      using False pref q1(1) q2(1) by (subst sift_down_loop.simps) simp
    moreover have "pq_list q2 = sift_down_list (pq_cmp q) (pq_list q) (unat i)"
      using nb ub q1(3) q2(4) same_but_cellsD(1) [OF q1(4)]
      by (subst sift_down_list.simps) (simp add: Let_def)
    ultimately show ?thesis using q2(2) same_but_cells_trans [OF q1(4) q2(3)] by blast
  qed
qed

section \<open>The queue's invariant\<close>

definition pq_ok :: "heap \<Rightarrow> pqueue \<Rightarrow> bool" where
  "pq_ok h q \<longleftrightarrow>
     pq_wf h q \<and> owns h (pq_self q) sizeof_pqueue \<and>
     pq_self q \<notin> {v_self (pq_data q), v_data (pq_data q)} \<and> heap_ordered (pq_cmp q) (pq_list q)"

abbreviation pq_frame :: "heap \<Rightarrow> pqueue \<Rightarrow> (block_id \<times> mblock) list" where
  "pq_frame h q \<equiv> others {pq_self q, v_self (pq_data q), v_data (pq_data q)} h"

text \<open>Room for \<open>n\<close> more elements without a growth that wraps.\<close>

definition pq_room :: "nat \<Rightarrow> pqueue \<Rightarrow> bool" where
  "pq_room n q \<longleftrightarrow>
     (\<exists>m. unat (v_capacity (pq_data q)) \<le> 4 + 2 * m \<and> unat (v_size (pq_data q)) \<le> m \<and>
          (8 + 4 * (m + n)) * unat (pq_elem_size q) + 8 < size_bound)"

definition pq_ready :: "nat \<Rightarrow> heap \<Rightarrow> pqueue \<Rightarrow> bool" where
  "pq_ready n h q \<longleftrightarrow> pq_ok h q \<and> pq_room n q \<and> never_refuses h \<and> priority_order (pq_cmp q) \<and>
     \<not> fault h"

lemma others_insert: "others (insert p ps) h = filter (\<lambda>(k, _). k \<noteq> p) (others ps h)"
  by (auto simp: others_def intro!: filter_cong)

lemma vec_ok_shape:
  assumes "vec_ok h v" and "vec_shape v' = vec_shape v" and "vector_inv v'"
  shows "vec_ok h v'"
  using assms vec_shapeD [OF assms(2)] by (simp add: vec_ok_def vector_owned_def)

lemma pq_wf_later:
  assumes "pq_wf h q" and "same_but_cells q q'" and "pq_wf h1 q'" and "next_id h \<le> n"
  shows "pq_wf (h\<lparr>next_id := n\<rparr>) q'"
proof -
  note s = same_but_cellsD [OF assms(2)]
  have "vec_ok h (pq_data q')"
    using vec_ok_shape [OF _ s(4)] assms(1,3) vec_okD(2) by (auto simp: pq_wf_def)
  then have "vec_ok (h\<lparr>next_id := n\<rparr>) (pq_data q')"
    using assms(4) by (simp add: vec_ok_def vector_owned_def later_heap_ok)
  then show ?thesis using assms(3) by (simp add: pq_wf_def)
qed

lemma pq_elem_no_wrap:
  assumes "pq_wf h q"
  shows "\<not> unat (pq_elem_size q + 8) < 8" and "0 < unat (pq_elem_size q)"
proof -
  have inv: "vector_inv (pq_data q)" "pq_elem_size q = v_elem_size (pq_data q)"
    using assms vec_okD(2) by (auto simp: pq_wf_def)
  then have "1 * unat (pq_elem_size q) \<le> unat (v_capacity (pq_data q)) * unat (pq_elem_size q)"
    by (intro mult_le_mono1) (simp add: vector_inv_def)
  then have "unat (pq_elem_size q) + 8 < size_bound"
    using inv(1) unfolding vector_inv_def inv(2) by linarith
  then show "\<not> unat (pq_elem_size q + 8) < 8" by (rule no_wrap_header)
  show "0 < unat (pq_elem_size q)" using inv by (simp add: vector_inv_def)
qed

lemma pq_wf_temp:
  assumes "pq_wf h q" and "cdsa_malloc_track h (pq_elem_size q) = (h1, Some t)"
  shows "pq_wf h1 q" and "cdsa_free_track h1 (Some t) = h\<lparr>next_id := Suc (next_id h)\<rparr>"
proof -
  have ok: "heap_ok h" "vec_ok h (pq_data q)" using assms(1) vec_okD(1) by (auto simp: pq_wf_def)
  note t = temporary_block [OF ok(1) assms(2) pq_elem_no_wrap(1) [OF assms(1)]]
  show "pq_wf h1 q" using assms(1) ok t(1,2) by (simp add: pq_wf_def vec_ok_def vector_owned_def)
  show "cdsa_free_track h1 (Some t) = h\<lparr>next_id := Suc (next_id h)\<rparr>" by (rule t(3))
qed

lemma sift_up_ok:
  assumes "pq_wf h q" and "unat i < length (pq_list q)" and "never_refuses h"
  shows "\<exists>n q'. sift_up h q i = (h\<lparr>next_id := n\<rparr>, q', CDSA_OK) \<and> next_id h \<le> n \<and>
    pq_wf (h\<lparr>next_id := n\<rparr>) q' \<and> same_but_cells q q' \<and>
    pq_list q' = sift_up_list (pq_cmp q) (pq_list q) (unat i)"
proof (cases "i = 0")
  case True
  then have "sift_up h q i = (h\<lparr>next_id := next_id h\<rparr>, q, CDSA_OK)" by (simp add: sift_up_def)
  moreover have "sift_up_list (pq_cmp q) (pq_list q) (unat i) = pq_list q"
    using True by (subst sift_up_list.simps) simp
  ultimately show ?thesis
    using assms(1) pq_wf_later [OF assms(1) same_but_cells_refl assms(1) order_refl]
    by (intro exI [of _ "next_id h"] exI [of _ q]) simp
next
  case False
  obtain h1 t where m: "cdsa_malloc_track h (pq_elem_size q) = (h1, Some t)"
    using never_refuses_malloc [OF assms(3)] by (metis option.exhaust prod.exhaust)
  note tmp = pq_wf_temp [OF assms(1) m]
  from sift_up_loop_list [OF tmp(1) assms(2)] obtain q' where
    q': "sift_up_loop h1 q i = (h1, q')" "pq_wf h1 q'" "same_but_cells q q'"
      "pq_list q' = sift_up_list (pq_cmp q) (pq_list q) (unat i)" by blast
  have "sift_up h q i = (h\<lparr>next_id := Suc (next_id h)\<rparr>, q', CDSA_OK)"
    using False m q'(1) tmp(2) by (simp add: sift_up_def)
  then show ?thesis using q' pq_wf_later [OF assms(1) q'(3,2)] by auto
qed

lemma sift_down_ok:
  assumes "pq_wf h q" and "pq_list q \<noteq> []" and "never_refuses h"
    and "2 * length (pq_list q) + 2 \<le> size_bound"
  shows "\<exists>n q'. sift_down h q 0 = Some (h\<lparr>next_id := n\<rparr>, q', CDSA_OK) \<and> next_id h \<le> n \<and>
    pq_wf (h\<lparr>next_id := n\<rparr>) q' \<and> same_but_cells q q' \<and>
    pq_list q' = sift_down_list (pq_cmp q) (pq_list q) 0"
proof -
  obtain h1 t where m: "cdsa_malloc_track h (pq_elem_size q) = (h1, Some t)"
    using never_refuses_malloc [OF assms(3)] by (metis option.exhaust prod.exhaust)
  note tmp = pq_wf_temp [OF assms(1) m]
  have "unat 0 < length (pq_list q)" using assms(2) by (simp del: length_vec_list)
  moreover have "unat (cdsa_size_vector (Some (pq_data q))) = length (pq_list q)"
    by (simp add: cdsa_size_vector_def)
  ultimately obtain q' where
    q': "sift_down_loop h1 q (cdsa_size_vector (Some (pq_data q))) 0 = Some (h1, q')"
      "pq_wf h1 q'" "same_but_cells q q'"
      "pq_list q' = sift_down_list (pq_cmp q) (pq_list q) 0"
    using sift_down_loop_list [OF tmp(1) _ _ assms(4)] by (metis unat_0)
  have "sift_down h q 0 = Some (h\<lparr>next_id := Suc (next_id h)\<rparr>, q', CDSA_OK)"
    using m q'(1) tmp(2) by (simp add: sift_down_def)
  then show ?thesis using q' pq_wf_later [OF assms(1) q'(3,2)] by auto
qed

subsection \<open>Push\<close>

lemma push_pq_ok:
  assumes "pq_ready (Suc n) h q" and "length e = unat (pq_elem_size q)"
  shows "\<exists>h' q'. cdsa_push_pq h (Some q) (Some e) = (h', Some q', CDSA_OK) \<and> pq_ready n h' q' \<and>
    mset (pq_list q') = add_mset e (mset (pq_list q)) \<and> pq_cmp q' = pq_cmp q \<and>
    pq_elem_size q' = pq_elem_size q \<and> pq_frame h' q' = pq_frame h q"
proof -
  from assms(1) have ok: "pq_ok h q" "never_refuses h" "priority_order (pq_cmp q)" "\<not> fault h"
    by (simp_all add: pq_ready_def)
  then have wf: "pq_wf h q" and es: "pq_elem_size q = v_elem_size (pq_data q)"
    and vok: "vec_ok h (pq_data q)" by (simp_all add: pq_ok_def pq_wf_def)
  from assms(1) obtain m where m: "unat (v_capacity (pq_data q)) \<le> 4 + 2 * m"
      "unat (v_size (pq_data q)) \<le> m"
      "(8 + 4 * (m + Suc n)) * unat (pq_elem_size q) + 8 < size_bound"
    by (auto simp: pq_ready_def pq_room_def)
  have "(8 + 4 * m) * unat (v_elem_size (pq_data q)) \<le> (8 + 4 * (m + Suc n)) * unat (pq_elem_size q)"
    unfolding es by (intro mult_le_mono1) simp
  then have bound: "(8 + 4 * m) * unat (v_elem_size (pq_data q)) + 8 < size_bound"
    using m(3) by linarith
  have call: "vec_call_ok (unat (v_elem_size (pq_data q))) (VPush e)" using assms(2) es by simp
  obtain h1 r s where push: "cdsa_push_vector h (Some (pq_data q)) (Some e) = (h1, r, s)"
    by (metis prod_cases3)
  then have ex: "vec_exec h (Some (pq_data q)) (VPush e) = (h1, r, s)" by simp
  obtain v where v: "r = Some v" "vec_ok h1 v" "never_refuses h1"
      "seq_exec (pq_list q) (VPush e) = (vec_list v, s)" "v_elem_size v = v_elem_size (pq_data q)"
      "fault h1 = fault h" "vec_frame h1 v = vec_frame h (pq_data q)"
      "unat (v_capacity v) \<le> 4 + 2 * Suc m" "unat (v_size v) \<le> Suc m"
    by (rule vec_exec_refines [OF vok ok(2) call m(1,2) bound ex])
  then have l: "vec_list v = pq_list q @ [e]" "s = CDSA_OK" by simp_all
  define q1 where "q1 = q\<lparr>pq_data := v\<rparr>"
  have wf1: "pq_wf h1 q1" using v(2,5) es by (simp add: pq_wf_def q1_def)
  have "length (vec_list v) = Suc (length (pq_list q))" by (simp only: l length_append_singleton)
  then have sz: "unat (v_size v) = Suc (length (pq_list q))" by simp
  then have idx: "unat (v_size v - 1) = length (pq_list q)" by (simp add: unat_size_t_pred)
  then have "unat (v_size v - 1) < length (pq_list q1)" using l by (simp add: q1_def sz)
  from sift_up_ok [OF wf1 this v(3)] obtain k q2 where
    q2: "sift_up h1 q1 (v_size v - 1) = (h1\<lparr>next_id := k\<rparr>, q2, CDSA_OK)" "next_id h1 \<le> k"
      "pq_wf (h1\<lparr>next_id := k\<rparr>) q2" "same_but_cells q1 q2"
      "pq_list q2 = sift_up_list (pq_cmp q1) (pq_list q1) (unat (v_size v - 1))" by blast
  note sb = same_but_cellsD [OF q2(4)] and sh = vec_shapeD [OF same_but_cellsD(4) [OF q2(4)]]
  have run: "cdsa_push_pq h (Some q) (Some e) = (h1\<lparr>next_id := k\<rparr>, Some q2, CDSA_OK)"
    using push v(1) l(2) q2(1) by (simp add: cdsa_push_pq_def cdsa_size_vector_def q1_def)
  have list2: "pq_list q2 = sift_up_list (pq_cmp q) (pq_list q @ [e]) (length (pq_list q))"
    using q2(5) idx l by (simp add: q1_def)
  have "ordered_but_above (pq_cmp q) (pq_list q @ [e]) (length (pq_list q))"
    using ok(1) by (intro heap_ordered_snoc) (simp add: pq_ok_def)
  then have heap2: "heap_ordered (pq_cmp q2) (pq_list q2)"
    using priority_order.sift_up_heap [OF ok(3)] sb(1) by (simp add: list2 q1_def)
  have own: "map_of (vec_frame h (pq_data q)) (pq_self q) =
      Some \<lparr>hdr = sizeof_pqueue, raw = sizeof_pqueue + 8\<rparr>"
    using ok(1) owns_others [of "pq_self q" "{v_self (pq_data q), v_data (pq_data q)}"]
    by (simp add: pq_ok_def)
  then have own1: "map_of (vec_frame h1 v) (pq_self q) =
      Some \<lparr>hdr = sizeof_pqueue, raw = sizeof_pqueue + 8\<rparr>" by (simp add: v(7))
  then have "pq_self q \<notin> {v_self v, v_data v}" by (auto simp: others_def map_of_filter split: if_splits)
  then have "pq_ok (h1\<lparr>next_id := k\<rparr>) q2"
    using q2(3) heap2 own1 sb(2) sh(1,2) owns_others [of "pq_self q" "{v_self v, v_data v}" h1]
    by (simp add: pq_ok_def q1_def)
  moreover have "pq_room n q2"
    unfolding pq_room_def using v(8,9) sh(3,5) sb(3) m(3)
    by (intro exI [of _ "Suc m"]) (simp add: q1_def)
  ultimately have "pq_ready n (h1\<lparr>next_id := k\<rparr>) q2"
    using ok v(3,6) sb(1) by (simp add: pq_ready_def q1_def)
  moreover have "mset (pq_list q2) = add_mset e (mset (pq_list q))"
    using mset_sift_up [of "length (pq_list q)" "pq_list q @ [e]"] by (simp add: list2 del: length_vec_list)
  moreover have "pq_frame (h1\<lparr>next_id := k\<rparr>) q2 = pq_frame h q"
    using v(7) sb(2) sh(1,2) by (simp add: q1_def others_insert [of "pq_self q"])
  ultimately show ?thesis using run sb(1,3) by (auto simp: q1_def)
qed

subsection \<open>Pop\<close>

lemma mset_replace_root:
  "xs \<noteq> [] \<Longrightarrow> mset (butlast (xs[0 := last xs])) = mset xs - {#hd xs#}"
proof (cases xs)
  case (Cons x ys)
  then show ?thesis
    by (cases ys rule: rev_cases) simp_all
qed simp

lemma pop_pq_vector:
  assumes "pq_wf h q" and "pq_list q \<noteq> []"
  obtains v where "pq_wf h (q\<lparr>pq_data := v\<rparr>)"
    and "vec_list v = butlast ((pq_list q)[0 := last (pq_list q)])"
    and "v_self v = v_self (pq_data q)" and "v_data v = v_data (pq_data q)"
    and "v_capacity v = v_capacity (pq_data q)" and "v_elem_size v = v_elem_size (pq_data q)"
    and "cdsa_pop_pq h (Some q) True =
      (if vec_list v = [] then Some (h, Some (q\<lparr>pq_data := v\<rparr>), CDSA_OK, Some (hd (pq_list q)))
       else map_option (\<lambda>(h2, q2, s). (h2, Some q2, s, Some (hd (pq_list q))))
              (sift_down h (q\<lparr>pq_data := v\<rparr>) 0))"
proof -
  let ?d = "pq_data q" and ?xs = "pq_list q"
  have vok: "vec_ok h ?d" and es: "pq_elem_size q = v_elem_size ?d"
    using assms(1) by (simp_all add: pq_wf_def)
  note inv = vec_okD(2) [OF vok]
  have pos: "0 < unat (v_size ?d)" using assms(2) by (metis length_greater_0_conv length_vec_list)
  then have nz: "v_size ?d \<noteq> 0" by (simp add: size_t_zero_iff)
  have front: "cdsa_front_vector (Some ?d) = Some 0" using nz by (simp add: cdsa_front_vector_def)
  have out: "bslice (v_buf ?d) (unat (the (cdsa_front_vector (Some ?d)))) (unat (pq_elem_size q)) =
      hd ?xs"
    using front_vector_hd [OF inv] assms(2) front es by (simp add: vec_deref_def)
  have last: "map_option (vec_deref ?d) (cdsa_back_vector (Some ?d)) = Some (last ?xs)"
    using back_vector_last [OF inv] assms(2) by simp
  have el: "length (last ?xs) = unat (v_elem_size ?d)"
    using varr.cells_elem [OF vok] assms(2) last_in_set by blast
  have "unat (0 :: size_t) < unat (v_size ?d)" using pos by simp
  note set = set_vector_ok [OF vok this el]
  define d1 where "d1 = ?d\<lparr>v_buf := blit (v_buf ?d) (unat (0 :: size_t) * unat (v_elem_size ?d)) (last ?xs)\<rparr>"
  note set = set [folded d1_def]
  have l1: "vec_list d1 = ?xs[0 := last ?xs]" using set(3) by simp
  then have "vec_list d1 \<noteq> []" using assms(2) by simp
  note pop = pop_vector_ok [OF set(2) this]
  define v where "v = d1\<lparr>v_size := v_size d1 - 1, v_version := v_version d1 + 1\<rparr>"
  have lv: "vec_list v = butlast (?xs[0 := last ?xs])" using pop(3) l1 by (simp add: v_def)
  have same: "v_self v = v_self ?d" "v_data v = v_data ?d" "v_capacity v = v_capacity ?d"
    "v_elem_size v = v_elem_size ?d"
    by (simp_all add: v_def d1_def)
  have "cdsa_is_empty_pq (Some (q\<lparr>pq_data := v\<rparr>)) \<longleftrightarrow> vec_list v = []"
    by (simp add: cdsa_is_empty_pq_def cdsa_is_empty_vector_def vec_list_Nil)
  moreover have "\<not> cdsa_is_empty_pq (Some q)"
    using nz by (simp add: cdsa_is_empty_pq_def cdsa_is_empty_vector_def)
  ultimately have run: "cdsa_pop_pq h (Some q) True =
      (if vec_list v = [] then Some (h, Some (q\<lparr>pq_data := v\<rparr>), CDSA_OK, Some (hd ?xs))
       else map_option (\<lambda>(h2, q2, s). (h2, Some q2, s, Some (hd ?xs)))
              (sift_down h (q\<lparr>pq_data := v\<rparr>) 0))"
    by (simp add: cdsa_pop_pq_def Let_def out last set(1) pop(1) [folded v_def])
  have "pq_wf h (q\<lparr>pq_data := v\<rparr>)" using pop(2) same es by (simp add: pq_wf_def v_def)
  then show thesis using that run lv same by blast
qed

lemma pop_pq_ok:
  assumes "pq_ready n h q" and "pq_list q \<noteq> []"
  shows "\<exists>h' q'. cdsa_pop_pq h (Some q) True = Some (h', Some q', CDSA_OK, Some (hd (pq_list q))) \<and>
    pq_ready n h' q' \<and> mset (pq_list q') = mset (pq_list q) - {#hd (pq_list q)#} \<and>
    pq_cmp q' = pq_cmp q \<and> pq_elem_size q' = pq_elem_size q \<and> pq_frame h' q' = pq_frame h q"
proof -
  from assms(1) have ok: "pq_ok h q" "never_refuses h" "priority_order (pq_cmp q)" "\<not> fault h"
    by (simp_all add: pq_ready_def)
  then have wf: "pq_wf h q" and heap: "heap_ordered (pq_cmp q) (pq_list q)"
    by (simp_all add: pq_ok_def)
  from assms(1) obtain m where m: "unat (v_capacity (pq_data q)) \<le> 4 + 2 * m"
      "unat (v_size (pq_data q)) \<le> m"
      "(8 + 4 * (m + n)) * unat (pq_elem_size q) + 8 < size_bound"
    by (auto simp: pq_ready_def pq_room_def)
  obtain v where v: "pq_wf h (q\<lparr>pq_data := v\<rparr>)"
      "vec_list v = butlast ((pq_list q)[0 := last (pq_list q)])"
      "v_self v = v_self (pq_data q)" "v_data v = v_data (pq_data q)"
      "v_capacity v = v_capacity (pq_data q)" "v_elem_size v = v_elem_size (pq_data q)"
      "cdsa_pop_pq h (Some q) True =
        (if vec_list v = [] then Some (h, Some (q\<lparr>pq_data := v\<rparr>), CDSA_OK, Some (hd (pq_list q)))
         else map_option (\<lambda>(h2, q2, s). (h2, Some q2, s, Some (hd (pq_list q))))
                (sift_down h (q\<lparr>pq_data := v\<rparr>) 0))"
    by (rule pop_pq_vector [OF wf assms(2)])
  have ms: "mset (vec_list v) = mset (pq_list q) - {#hd (pq_list q)#}"
    using mset_replace_root [OF assms(2)] v(2) by simp
  have "length (vec_list v) \<le> length (pq_list q)" by (simp only: v(2) length_butlast length_list_update)
  then have sz: "unat (v_size v) \<le> m" using m(2) by simp
  have step: "pq_ready n (h\<lparr>next_id := k\<rparr>) q'"
    if "pq_wf (h\<lparr>next_id := k\<rparr>) q'" "same_but_cells (q\<lparr>pq_data := v\<rparr>) q'"
      "heap_ordered (pq_cmp q) (pq_list q')" for k q'
  proof -
    note sb = same_but_cellsD [OF that(2)] and sh = vec_shapeD [OF same_but_cellsD(4) [OF that(2)]]
    have "pq_ok (h\<lparr>next_id := k\<rparr>) q'" using ok(1) that sb sh v by (simp add: pq_ok_def)
    moreover have "pq_room n q'"
      unfolding pq_room_def using m sz v sb sh by (intro exI [of _ m]) simp
    ultimately show ?thesis using ok sb by (simp add: pq_ready_def)
  qed
  show ?thesis
  proof (cases "vec_list v = []")
    case True
    have "heap_ordered (pq_cmp q) (pq_list (q\<lparr>pq_data := v\<rparr>))"
      using True by (simp add: heap_ordered_def del: length_vec_list)
    then have "pq_ready n (h\<lparr>next_id := next_id h\<rparr>) (q\<lparr>pq_data := v\<rparr>)"
      using v(1) by (intro step) simp_all
    then show ?thesis using v True ms by (intro exI [of _ h] exI [of _ "q\<lparr>pq_data := v\<rparr>"]) simp
  next
    case False
    define K where "K = 8 + 4 * (m + n)"
    have "K * 1 \<le> K * unat (pq_elem_size q)"
      using pq_elem_no_wrap(2) [OF wf] by (intro mult_le_mono2) simp
    moreover have "K * unat (pq_elem_size q) + 8 < size_bound" using m(3) by (simp add: K_def)
    ultimately have "8 + 4 * (m + n) < size_bound" unfolding K_def [symmetric] by linarith
    then have "2 * length (pq_list (q\<lparr>pq_data := v\<rparr>)) + 2 \<le> size_bound"
      using sz by (simp add: mult.commute)
    from sift_down_ok [OF v(1) _ ok(2) this] False obtain k q' where
      q': "sift_down h (q\<lparr>pq_data := v\<rparr>) 0 = Some (h\<lparr>next_id := k\<rparr>, q', CDSA_OK)"
        "pq_wf (h\<lparr>next_id := k\<rparr>) q'" "same_but_cells (q\<lparr>pq_data := v\<rparr>) q'"
        "pq_list q' = sift_down_list (pq_cmp q) (vec_list v) 0" by auto
    have len: "0 < length (vec_list v)" using False by (simp del: length_vec_list)
    have "ordered_but_below (pq_cmp q) (vec_list v) 0"
      unfolding v(2) by (rule heap_ordered_replace_root [OF heap])
    then have "heap_ordered (pq_cmp q) (pq_list q')"
      unfolding q'(4) by (rule priority_order.sift_down_heap [OF ok(3) _ len])
    from step [OF q'(2,3) this] have "pq_ready n (h\<lparr>next_id := k\<rparr>) q'" .
    moreover have "mset (pq_list q') = mset (vec_list v)"
      unfolding q'(4) by (rule mset_sift_down [OF len])
    ultimately show ?thesis
      using v False ms q'(1) same_but_cellsD [OF q'(3)] vec_shapeD [OF same_but_cellsD(4) [OF q'(3)]]
      by auto
  qed
qed

section \<open>Creation and release\<close>

lemma create_pq_ready:
  assumes "cdsa_create_pq h es cmp = (h', Some q)" and "heap_ok h" and "never_refuses h"
    and "\<not> fault h" and "priority_order cmp" and "0 < unat es"
    and "(8 + 4 * n) * unat es + 8 < size_bound"
  shows "pq_ready n h' q" and "pq_list q = []" and "pq_cmp q = cmp" and "pq_elem_size q = es"
    and "pq_frame h' q = live h"
proof -
  from assms(1) obtain h1 p v where m: "cdsa_malloc_track h sizeof_pqueue = (h1, Some p)"
    and c: "cdsa_create_vector h1 es = (h', Some v)"
    and q: "q = \<lparr>pq_self = p, pq_data = v, pq_elem_size = es, pq_cmp = cmp\<rparr>"
    by (auto simp: cdsa_create_pq_def split: option.splits prod.splits)
  note a = malloc_Some [OF m]
  have ok1: "heap_ok h1" using malloc_ok [OF assms(2), of sizeof_pqueue] m by simp
  have "4 * unat es \<le> (8 + 4 * n) * unat es" by (intro mult_le_mono1) simp
  then have "4 * unat es + 8 < size_bound" using assms(7) by linarith
  note ci = create_vector_inv [OF c assms(6) this] and co = create_vector_owned [OF c ok1]
  have frame: "vec_frame h' v = live h1" by (rule co(3))
  have own: "map_of (vec_frame h' v) p = Some \<lparr>hdr = sizeof_pqueue, raw = sizeof_pqueue + 8\<rparr>"
    using a(6) frame by (simp add: owns_def)
  then have fresh: "p \<notin> {v_self v, v_data v}" by (auto simp: others_def map_of_filter split: if_splits)
  have wf: "pq_wf h' q" using ci(1,3) co(1,2) by (simp add: pq_wf_def vec_ok_def q)
  have "owns h' p sizeof_pqueue"
    using own fresh owns_others [of p "{v_self v, v_data v}" h'] by simp
  then have "pq_ok h' q"
    using wf fresh ci(2) by (simp add: pq_ok_def q heap_ordered_def del: length_vec_list)
  moreover have "pq_room n q"
    unfolding pq_room_def using ci(2,6) assms(7)
    by (intro exI [of _ 0]) (simp add: q vec_list_Nil)
  moreover have "\<not> unat (sizeof_pqueue + 8) < 8" by (simp add: sizeof_pqueue_def)
  then have "\<not> fault h'" using ci(5) a(5) assms(4) by simp
  moreover have "never_refuses h'" using co(4) a(7) assms(3) by (simp add: never_refuses_def)
  ultimately show "pq_ready n h' q" using assms(5) by (simp add: pq_ready_def q)
  show "pq_list q = []" and "pq_cmp q = cmp" and "pq_elem_size q = es" using ci(2) by (simp_all add: q)
  have "p \<notin> fst ` set (live h)" using a(1) heap_okD(4) [OF assms(2)] by simp
  then show "pq_frame h' q = live h"
    using frame a(2) by (simp add: q others_insert [of p] filter_fst_absent)
qed

lemma free_pq_blocks:
  assumes "pq_ok h q"
  shows "live (cdsa_free_pq h (Some q)) = pq_frame h q"
    and "fault (cdsa_free_pq h (Some q)) = fault h"
proof -
  have vo: "vector_owned h (pq_data q)" using assms by (simp add: pq_ok_def pq_wf_def vec_ok_def)
  let ?h = "cdsa_free_vector h (Some (pq_data q))"
  note fv = free_vector_blocks [OF vo]
  have "map_of (live ?h) (pq_self q) = Some \<lparr>hdr = sizeof_pqueue, raw = sizeof_pqueue + 8\<rparr>"
    using assms owns_others [of "pq_self q" "{v_self (pq_data q), v_data (pq_data q)}" h]
    by (simp add: pq_ok_def fv(1))
  then have own: "owns ?h (pq_self q) sizeof_pqueue" by (simp add: owns_def)
  have "others {pq_self q} ?h = pq_frame h q"
    unfolding others_insert [of "pq_self q" "{v_self (pq_data q), v_data (pq_data q)}"]
    by (simp add: others_def [of "{pq_self q}"] fv(1))
  then show "live (cdsa_free_pq h (Some q)) = pq_frame h q"
    and "fault (cdsa_free_pq h (Some q)) = fault h"
    using fv(2) by (simp_all add: cdsa_free_pq_def free_owned [OF own])
qed

lemma create_pq_succeeds:
  "never_refuses h \<Longrightarrow> \<exists>h' q. cdsa_create_pq h es cmp = (h', Some q)"
  by (simp add: cdsa_create_pq_def cdsa_create_vector_def cdsa_malloc_track_def never_refuses_def
      Let_def)

section \<open>The queue provides the priority queue contract\<close>

definition pq_push :: "heap \<Rightarrow> pqueue \<Rightarrow> bytes \<Rightarrow> heap \<times> pqueue \<times> cdsa_status" where
  "pq_push h q e = (case cdsa_push_pq h (Some q) (Some e) of (h', r, s) \<Rightarrow> (h', the r, s))"

definition pq_pop :: "heap \<Rightarrow> pqueue \<Rightarrow> (heap \<times> pqueue \<times> cdsa_status \<times> bytes option) option" where
  "pq_pop h q = map_option (\<lambda>(h', r, s, x). (h', the r, s, x)) (cdsa_pop_pq h (Some q) True)"

interpretation pqs: priority_queue pq_ready "\<lambda>q. mset (pq_list q)"
  "\<lambda>q e. length e = unat (pq_elem_size q)" pq_cmp pq_frame pq_push pq_pop
proof (unfold_locales, goal_cases)
  case (1 n h q e)
  then show ?case using push_pq_ok [OF 1] by (force simp: pq_push_def)
next
  case (2 n h q)
  then have ne: "pq_list q \<noteq> []" by auto
  from pop_pq_ok [OF 2(1) ne] obtain h' q' where
    p: "cdsa_pop_pq h (Some q) True = Some (h', Some q', CDSA_OK, Some (hd (pq_list q)))"
      "pq_ready n h' q'" "mset (pq_list q') = mset (pq_list q) - {#hd (pq_list q)#}"
      "pq_cmp q' = pq_cmp q" "pq_elem_size q' = pq_elem_size q" "pq_frame h' q' = pq_frame h q"
    by blast
  have "priority_order (pq_cmp q)" "heap_ordered (pq_cmp q) (pq_list q)"
    using 2(1) by (simp_all add: pq_ready_def pq_ok_def)
  from priority_order.root_first [OF this]
  have "\<forall>y \<in> set (pq_list q). \<not> pq_cmp q y (hd (pq_list q))"
    using ne by (metis hd_conv_nth in_set_conv_nth)
  moreover have "hd (pq_list q) \<in> set (pq_list q)" using ne by simp
  ultimately show ?case using p by (simp add: pq_pop_def)
next
  case (3 n h q)
  then have "v_size (pq_data q) = 0" using vec_list_Nil [of "pq_data q"] by simp
  then show ?case
    by (simp add: pq_pop_def cdsa_pop_pq_def cdsa_is_empty_pq_def cdsa_is_empty_vector_def)
qed

section \<open>The comparators of the tests\<close>

text \<open>\<open>*(int *)p\<close> on a little-endian machine.\<close>

definition int_at :: "bytes \<Rightarrow> int" where
  "int_at bs = sint (word_rcat (rev (take 4 bs)) :: 32 word)"

definition min_compare :: "bytes \<Rightarrow> bytes \<Rightarrow> bool" where
  "min_compare a b = (int_at a < int_at b)"

definition max_compare :: "bytes \<Rightarrow> bytes \<Rightarrow> bool" where
  "max_compare a b = (int_at a > int_at b)"

interpretation min_order: priority_order min_compare
  by unfold_locales (auto simp: min_compare_def)

interpretation max_order: priority_order max_compare
  by unfold_locales (auto simp: max_compare_def)

section \<open>Properties\<close>

text \<open>
  C9: a priority queue sorts: when libc refuses nothing, pushing any elements into a new queue and
  popping as many succeeds in every call and yields a permutation of them in which no element comes after one it
  has priority over, for every comparator that is a strict weak order; the sift loops terminate,
  no access leaves a buffer, and freeing the queue gives back all of its blocks.
\<close>

theorem priority_queue_sorts:
  assumes "heap_ok h" and "never_refuses h" and "\<not> fault h" and "priority_order cmp"
    and "0 < unat es" and "(8 + 4 * length xs) * unat es + 8 < 2 ^ 64"
    and "\<forall>e \<in> set xs. length e = unat es"
    and "cdsa_create_pq h es cmp = (h0, Some q0)"
  shows "\<exists>h1 q1 h2 q2 ys. push_all pq_push h0 q0 xs = (h1, q1, replicate (length xs) CDSA_OK) \<and>
      pop_all pq_pop (length xs) h1 q1 = Some (h2, q2, ys) \<and>
      mset ys = mset xs \<and> sorted_wrt (\<lambda>x y. \<not> cmp y x) ys \<and> \<not> fault h2 \<and>
      live (cdsa_free_pq h2 (Some q2)) = live h"
proof -
  note c = create_pq_ready [OF assms(8,1-6)]
  have "pq_ready (length xs + 0) h0 q0" "\<forall>e \<in> set xs. length e = unat (pq_elem_size q0)"
    using c(1,4) assms(7) by simp_all
  from pqs.push_all_bag [OF this] obtain h1 q1 where
    1: "push_all pq_push h0 q0 xs = (h1, q1, replicate (length xs) CDSA_OK)" "pq_ready 0 h1 q1" "mset (pq_list q1) = mset xs"
      "pq_cmp q1 = cmp" "pq_frame h1 q1 = pq_frame h0 q0"
    using c(2,3) by auto
  have "size (mset (pq_list q1)) = length xs" by (simp only: 1(3) size_mset)
  from pqs.pop_all_sorts [OF 1(2) this] obtain h2 q2 ys where
    2: "pop_all pq_pop (length xs) h1 q1 = Some (h2, q2, ys)" "mset ys = mset xs"
      "sorted_wrt (\<lambda>x y. \<not> cmp y x) ys" "pq_ready 0 h2 q2" "pq_frame h2 q2 = pq_frame h1 q1"
    using 1(3,4) by auto
  have "live (cdsa_free_pq h2 (Some q2)) = live h"
    using free_pq_blocks(1) 2(4,5) 1(5) c(5) by (simp add: pq_ready_def)
  then show ?thesis using 1(1) 2 by (auto simp: pq_ready_def)
qed

theorem priority_queue_sorts_witness:
  "\<exists>h0 q0 h1 q1 h2 q2 ys. cdsa_create_pq good_heap 4 min_compare = (h0, Some q0) \<and>
     push_all pq_push h0 q0 [[45, 0, 0, 0], [12, 0, 0, 0], [85, 0, 0, 0]] =
       (h1, q1, [CDSA_OK, CDSA_OK, CDSA_OK]) \<and>
     pop_all pq_pop 3 h1 q1 = Some (h2, q2, ys) \<and>
     mset ys = {#[45, 0, 0, 0], [12, 0, 0, 0], [85, 0, 0, 0]#} \<and>
     sorted_wrt (\<lambda>x y. int_at x \<le> int_at y) ys"
proof -
  obtain h0 q0 where c: "cdsa_create_pq good_heap 4 min_compare = (h0, Some q0)"
    using create_pq_succeeds [of good_heap 4 min_compare] by auto
  let ?xs = "[[45, 0, 0, 0], [12, 0, 0, 0], [85, 0, 0, 0]] :: bytes list"
  have el: "\<forall>e \<in> set ?xs. length e = unat (4 :: size_t)" and three: "length ?xs = 3" by simp_all
  have ok3: "replicate 3 CDSA_OK = [CDSA_OK, CDSA_OK, CDSA_OK]" by (simp add: eval_nat_numeral)
  obtain h1 q1 h2 q2 ys where r: "push_all pq_push h0 q0 ?xs = (h1, q1, [CDSA_OK, CDSA_OK, CDSA_OK])"
      "pop_all pq_pop 3 h1 q1 = Some (h2, q2, ys)" "mset ys = mset ?xs"
      "sorted_wrt (\<lambda>x y. \<not> min_compare y x) ys"
    using priority_queue_sorts [OF _ _ _ min_order.priority_order_axioms _ _ el c, unfolded three ok3]
    by auto
  have "mset ys = {#[45, 0, 0, 0], [12, 0, 0, 0], [85, 0, 0, 0]#}" using r(3) by simp
  moreover have "sorted_wrt (\<lambda>x y. int_at x \<le> int_at y) ys"
    using r(4) by (simp add: min_compare_def not_less)
  ultimately show ?thesis using c r(1,2) by blast
qed

text \<open>
  C23: whatever was pushed and popped before, when libc refuses nothing a pop of a well-formed
  non-empty queue returns an element no other has priority over, removes exactly that occurrence and leaves a
  well-formed queue; a pop of an empty one reports \<open>CDSA_ERR_EMPTY\<close> and changes nothing.
\<close>

theorem priority_queue_pop_first:
  assumes "pq_ready n h q"
  shows "if pq_list q = [] then cdsa_pop_pq h (Some q) True = Some (h, Some q, CDSA_ERR_EMPTY, None)
    else \<exists>h' q' x. cdsa_pop_pq h (Some q) True = Some (h', Some q', CDSA_OK, Some x) \<and>
      (\<forall>y \<in> set (pq_list q). \<not> pq_cmp q y x) \<and> x \<in> set (pq_list q) \<and>
      mset (pq_list q') = mset (pq_list q) - {#x#} \<and> pq_ready n h' q'"
proof (cases "pq_list q = []")
  case True
  then show ?thesis
    by (simp add: cdsa_pop_pq_def cdsa_is_empty_pq_def cdsa_is_empty_vector_def vec_list_Nil)
next
  case False
  from pop_pq_ok [OF assms False] obtain h' q' where
    p: "cdsa_pop_pq h (Some q) True = Some (h', Some q', CDSA_OK, Some (hd (pq_list q)))"
      "pq_ready n h' q'" "mset (pq_list q') = mset (pq_list q) - {#hd (pq_list q)#}"
    by blast
  have "pq_pop h q = Some (h', q', CDSA_OK, Some (hd (pq_list q)))" using p(1) by (simp add: pq_pop_def)
  then have "\<forall>y \<in> set (pq_list q). \<not> pq_cmp q y (hd (pq_list q))"
    using pqs.pop_first [OF assms] False by auto
  then show ?thesis using p False by auto
qed

theorem priority_queue_pop_first_witness:
  "\<exists>h q h' q' x. pq_list q = [[1], [3], [2]] \<and> pq_cmp q [1] [2] \<and>
     cdsa_pop_pq h (Some q) True = Some (h', Some q', CDSA_OK, Some x) \<and>
     (\<forall>y \<in> {[1], [3], [2]}. \<not> pq_cmp q y x)"
proof -
  define cmp :: "bytes \<Rightarrow> bytes \<Rightarrow> bool" where "cmp = (\<lambda>a b. hd a < hd b)"
  have po: "priority_order cmp" by unfold_locales (auto simp: cmp_def)
  define h where "h = good_heap\<lparr>next_id := Suc (Suc (Suc 0)), mem_used := 68,
      live := [(Suc (Suc 0), \<lparr>hdr = 4, raw = 12\<rparr>), (Suc 0, \<lparr>hdr = 40, raw = 48\<rparr>),
               (0, \<lparr>hdr = 24, raw = 32\<rparr>)]\<rparr>"
  define v where "v = \<lparr>v_self = Suc 0, v_data = Suc (Suc 0), v_buf = [1, 3, 2, 0], v_size = 3,
      v_capacity = 4, v_elem_size = 1, v_version = 3\<rparr>"
  define q where "q = \<lparr>pq_self = 0, pq_data = v, pq_elem_size = 1, pq_cmp = cmp\<rparr>"
  have ok: "vec_ok h v"
    by (simp add: h_def v_def vec_ok_def heap_ok_def vector_inv_def vector_owned_def owns_def
        sizeof_vector_def)
  have l: "pq_list q = [[1], [3], [2]]"
    by (simp add: q_def v_def vec_list_def elems_def bslice_def upt_rec)
  have three: "{0<..<length (pq_list q)} = {1, 2}" unfolding l by auto
  have "heap_ordered cmp (pq_list q)" unfolding heap_ordered_def three unfolding l
    by (simp add: parent_def cmp_def)
  then have "pq_ok h q"
    using ok by (simp add: pq_ok_def pq_wf_def q_def v_def h_def owns_def sizeof_pqueue_def)
  moreover have "pq_room 0 q"
    unfolding pq_room_def by (intro exI [of _ 3]) (simp add: q_def v_def)
  ultimately have "pq_ready 0 h q"
    using po by (simp add: pq_ready_def q_def h_def never_refuses_def)
  from priority_queue_pop_first [OF this] obtain h' q' x where
    "cdsa_pop_pq h (Some q) True = Some (h', Some q', CDSA_OK, Some x)"
    "\<forall>y \<in> set (pq_list q). \<not> pq_cmp q y x"
    using l by auto
  moreover have "pq_cmp q [1] [2]" by (simp add: q_def cmp_def)
  moreover have "set (pq_list q) = {[1], [3], [2]}" unfolding l by simp
  ultimately show ?thesis using l by (metis (no_types))
qed

lemma sift_down_oom:
  "sift_down h q i = Some (h', q', CDSA_ERR_OOM) \<Longrightarrow> q' = q"
  by (auto simp: sift_down_def Let_def split: option.splits prod.splits)

text \<open>
  C28: an operation that reports \<open>CDSA_ERR_OOM\<close> because the temporary block of a sift was
  refused has changed the queue all the same: the pushed element is in the vector, at its end and
  unsifted, and the popped element is gone, with the last one unsifted in its place.
\<close>

theorem priority_queue_oom_keeps_change:
  assumes "pq_wf h q" and "length e = unat (pq_elem_size q)"
  shows "(v_size (pq_data q) < v_capacity (pq_data q) \<and>
        cdsa_push_pq h (Some q) (Some e) = (h1, Some q1, CDSA_ERR_OOM) \<longrightarrow>
      pq_list q1 = pq_list q @ [e]) \<and>
    (pq_list q \<noteq> [] \<and> cdsa_pop_pq h (Some q) True = Some (h2, Some q2, CDSA_ERR_OOM, x) \<longrightarrow>
      x = Some (hd (pq_list q)) \<and> pq_list q2 = butlast ((pq_list q)[0 := last (pq_list q)]))"
proof (intro conjI impI)
  assume a: "v_size (pq_data q) < v_capacity (pq_data q) \<and>
    cdsa_push_pq h (Some q) (Some e) = (h1, Some q1, CDSA_ERR_OOM)"
  have vok: "vector_inv (pq_data q)" and el: "vec_elem (pq_data q) e"
    using assms by (auto simp: pq_wf_def vec_ok_def)
  have lt: "unat (v_size (pq_data q)) < unat (v_capacity (pq_data q))"
    using a by (simp add: size_t_less_iff)
  show "pq_list q1 = pq_list q @ [e]"
    using a push_no_growth [OF vok lt el, of h] vec_list_append(2) [OF vok lt el]
    by (auto simp: cdsa_push_pq_def sift_up_def Let_def split: if_splits option.splits prod.splits)
next
  assume a: "pq_list q \<noteq> [] \<and> cdsa_pop_pq h (Some q) True = Some (h2, Some q2, CDSA_ERR_OOM, x)"
  obtain v where v: "vec_list v = butlast ((pq_list q)[0 := last (pq_list q)])"
      "cdsa_pop_pq h (Some q) True =
        (if vec_list v = [] then Some (h, Some (q\<lparr>pq_data := v\<rparr>), CDSA_OK, Some (hd (pq_list q)))
         else map_option (\<lambda>(h2, q2, s). (h2, Some q2, s, Some (hd (pq_list q))))
                (sift_down h (q\<lparr>pq_data := v\<rparr>) 0))"
    using a by (auto intro: pop_pq_vector [OF assms(1)])
  let ?r = "map_option (\<lambda>(h2, q2, s). (h2, Some q2, s, Some (hd (pq_list q))))
    (sift_down h (q\<lparr>pq_data := v\<rparr>) 0)"
  have "(if vec_list v = [] then Some (h, Some (q\<lparr>pq_data := v\<rparr>), CDSA_OK, Some (hd (pq_list q)))
      else ?r) = Some (h2, Some q2, CDSA_ERR_OOM, x)"
    using a v(2) by simp
  then have "sift_down h (q\<lparr>pq_data := v\<rparr>) 0 = Some (h2, q2, CDSA_ERR_OOM)"
    and x: "x = Some (hd (pq_list q))"
    by (auto split: if_splits)
  then have "q2 = q\<lparr>pq_data := v\<rparr>" using sift_down_oom by blast
  then show "pq_list q2 = butlast ((pq_list q)[0 := last (pq_list q)])" using v(1) by simp
  show "x = Some (hd (pq_list q))" by (rule x)
qed

text \<open>A heap that refuses every request from now on: the pushed minimum stays at the end.\<close>

theorem priority_queue_oom_keeps_change_witness:
  "\<exists>h q h1 q1. pq_list q = [[3], [5]] \<and>
     cdsa_push_pq h (Some q) (Some [1]) = (h1, Some q1, CDSA_ERR_OOM) \<and>
     pq_list q1 = [[3], [5], [1]] \<and> pq_cmp q [1] [3]"
proof -
  define cmp :: "bytes \<Rightarrow> bytes \<Rightarrow> bool" where "cmp = (\<lambda>a b. hd a < hd b)"
  define h where "h = (tight_heap 3)\<lparr>next_id := Suc (Suc (Suc 0)), mem_used := 68,
      live := [(Suc (Suc 0), \<lparr>hdr = 4, raw = 12\<rparr>), (Suc 0, \<lparr>hdr = 40, raw = 48\<rparr>),
               (0, \<lparr>hdr = 24, raw = 32\<rparr>)]\<rparr>"
  define v where "v = \<lparr>v_self = Suc 0, v_data = Suc (Suc 0), v_buf = [3, 5, 2, 0], v_size = 2,
      v_capacity = 4, v_elem_size = 1, v_version = 2\<rparr>"
  define q where "q = \<lparr>pq_self = 0, pq_data = v, pq_elem_size = 1, pq_cmp = cmp\<rparr>"
  have "vec_ok h v"
    by (simp add: h_def v_def vec_ok_def heap_ok_def vector_inv_def vector_owned_def owns_def
        sizeof_vector_def)
  then have wf: "pq_wf h q" by (simp add: pq_wf_def q_def v_def)
  have l: "pq_list q = [[3], [5]]"
    by (simp add: q_def v_def vec_list_def elems_def bslice_def upt_rec)
  obtain h1 q1 where p: "cdsa_push_pq h (Some q) (Some [1]) = (h1, Some q1, CDSA_ERR_OOM)"
    by (simp add: cdsa_push_pq_def cdsa_push_vector_def vec_store_def sift_up_def cdsa_malloc_track_def
        cdsa_size_vector_def q_def v_def h_def set_fault_def Let_def)
  have "length [1 :: byte] = unat (pq_elem_size q)" by (simp add: q_def)
  note t = priority_queue_oom_keeps_change [OF wf this, THEN conjunct1]
  have "v_size (pq_data q) < v_capacity (pq_data q)" by (simp add: q_def v_def)
  then have "pq_list q1 = [[3], [5], [1]]" using t p l by fastforce
  moreover have "pq_cmp q [1] [3]" by (simp add: q_def cmp_def)
  ultimately show ?thesis using l p by blast
qed

end
