(* ===== verification/HashMap.thy ===== *)
theory HashMap
  imports Tracking_Heap Interfaces
begin

text \<open>
  \<^verbatim>\<open>src/hashmap.c\<close>: the Robin Hood hash map from C strings to pointers.  This theory holds the
  state and the operations; \<open>Robin_Hood\<close> proves what they do.

  The map stores the caller's key pointers; a key is modelled by the string it points to, which
  the caller must not change while it is in the map.  The \<open>while (true)\<close> loops are partial
  functions: \<open>None\<close> is a call that does not return.
\<close>

section \<open>State\<close>

type_synonym pointer = size_t

record hash_entry =
  he_key :: "cstring option"
  he_value :: "pointer option"
  he_hash :: size_t
  he_psl :: size_t

record hashmap =
  hm_self :: block_id
  hm_block :: block_id
  hm_capacity :: size_t
  hm_size :: size_t
  hm_max_psl :: size_t
  hm_version :: size_t
  hm_entries :: "hash_entry list"

definition sizeof_hashmap :: size_t where "sizeof_hashmap = 40"
definition sizeof_hash_entry :: size_t where "sizeof_hash_entry = 32"
definition sizeof_hashmap_iterator :: size_t where "sizeof_hashmap_iterator = 24"

text \<open>A slot of a cleared block: all fields zero.\<close>

definition empty_entry :: hash_entry where
  "empty_entry = \<lparr>he_key = None, he_value = None, he_hash = 0, he_psl = 0\<rparr>"

text \<open>The slots that fit a cleared block of that many bytes.\<close>

definition zero_entries :: "bytes \<Rightarrow> hash_entry list" where
  "zero_entries buf = replicate (length buf div unat sizeof_hash_entry) empty_entry"

definition hm_at :: "hashmap \<Rightarrow> size_t \<Rightarrow> hash_entry" where
  "hm_at m i = hm_entries m ! unat i"

definition hm_put :: "hashmap \<Rightarrow> size_t \<Rightarrow> hash_entry \<Rightarrow> hashmap" where
  "hm_put m i e = m\<lparr>hm_entries := (hm_entries m)[unat i := e]\<rparr>"

section \<open>Operations\<close>

definition cdsa_create_hashmap :: "heap \<Rightarrow> size_t \<Rightarrow> heap \<times> hashmap option" where
  "cdsa_create_hashmap h capacity =
     (let (h1, hmap) = cdsa_malloc_track h sizeof_hashmap
      in case hmap of
           None \<Rightarrow> (h1, None)
         | Some self \<Rightarrow>
             let capacity = (if capacity = 0 then 1 else capacity);
                 (h2, entries) = cdsa_calloc_track h1 capacity sizeof_hash_entry
             in case entries of
                  None \<Rightarrow> (cdsa_free_track h2 (Some self), None)
                | Some (p, buf) \<Rightarrow>
                    (h2, Some \<lparr>hm_self = self, hm_block = p, hm_capacity = capacity, hm_size = 0,
                           hm_max_psl = 0, hm_version = 0, hm_entries = zero_entries buf\<rparr>))"

definition cdsa_free_hashmap :: "heap \<Rightarrow> hashmap option \<Rightarrow> heap" where
  "cdsa_free_hashmap h hmap =
     (case hmap of
        None \<Rightarrow> h
      | Some m \<Rightarrow> cdsa_free_track (cdsa_free_track h (Some (hm_block m))) (Some (hm_self m)))"

definition cdsa_size_hashmap :: "hashmap option \<Rightarrow> size_t" where
  "cdsa_size_hashmap hmap = (case hmap of None \<Rightarrow> 0 | Some m \<Rightarrow> hm_size m)"

text \<open>\<open>char\<close> is signed: \<open>*key\<close> is sign-extended before it is added.\<close>

definition get_raw_hash :: "cstring \<Rightarrow> size_t" where
  "get_raw_hash key = fold (\<lambda>c hash. hash * 31 + scast c) key 0"

partial_function (option) insert_loop ::
  "hashmap \<Rightarrow> hash_entry \<Rightarrow> size_t \<Rightarrow> (hashmap \<times> cdsa_status) option" where
  "insert_loop m incoming index =
     (let e = hm_at m index
      in if he_key e = None then
           let m1 = hm_put m index incoming;
               m2 = m1\<lparr>hm_size := hm_size m1 + 1\<rparr>
           in Some (if he_psl incoming > hm_max_psl m2 then m2\<lparr>hm_max_psl := he_psl incoming\<rparr>
                    else m2, CDSA_OK)
         else if he_hash e = he_hash incoming \<and> he_key e = he_key incoming then
           Some (hm_put m index (e\<lparr>he_value := he_value incoming\<rparr>), CDSA_OK)
         else
           let (m1, incoming1) =
                 (if he_psl incoming > he_psl e then (hm_put m index incoming, e)
                  else (m, incoming))
           in insert_loop m1 (incoming1\<lparr>he_psl := he_psl incoming1 + 1\<rparr>)
                ((index + 1) mod hm_capacity m1))"

definition internal_insert ::
  "hashmap \<Rightarrow> cstring \<Rightarrow> pointer option \<Rightarrow> size_t \<Rightarrow> (hashmap \<times> cdsa_status) option" where
  "internal_insert m key value raw_hash =
     insert_loop m \<lparr>he_key = Some key, he_value = value, he_hash = raw_hash, he_psl = 0\<rparr>
       (raw_hash mod hm_capacity m)"

definition recalculate_max_psl :: "hashmap \<Rightarrow> hashmap" where
  "recalculate_max_psl m =
     m\<lparr>hm_max_psl :=
        fold (\<lambda>e new_max. if he_key e \<noteq> None \<and> he_psl e > new_max then he_psl e else new_max)
          (take (unat (hm_capacity m)) (hm_entries m)) 0\<rparr>"

text \<open>The loop that feeds the old entries to the new table, with their cached hashes.\<close>

fun resize_loop :: "hash_entry list \<Rightarrow> hashmap \<Rightarrow> hashmap option" where
  "resize_loop [] m = Some m"
| "resize_loop (e # es) m =
     (case he_key e of
        None \<Rightarrow> resize_loop es m
      | Some key \<Rightarrow>
          (case internal_insert m key (he_value e) (he_hash e) of
             None \<Rightarrow> None
           | Some (m1, _) \<Rightarrow> resize_loop es m1))"

definition resize_hashmap ::
  "heap \<Rightarrow> hashmap option \<Rightarrow> (heap \<times> hashmap option \<times> cdsa_status) option" where
  "resize_hashmap h hmap =
     (case hmap of
        None \<Rightarrow> Some (h, None, CDSA_ERR_INVALID)
      | Some m \<Rightarrow>
          let new_capacity = hm_capacity m * 2;
              (h1, new_entries) = cdsa_calloc_track h new_capacity sizeof_hash_entry
          in case new_entries of
               None \<Rightarrow> Some (h1, Some m, CDSA_ERR_OOM)
             | Some (p, buf) \<Rightarrow>
                 let m1 = m\<lparr>hm_block := p, hm_entries := zero_entries buf,
                            hm_capacity := new_capacity, hm_size := 0\<rparr>
                 in map_option (\<lambda>m2. (cdsa_free_track h1 (Some (hm_block m)),
                                      Some (m2\<lparr>hm_version := hm_version m2 + 1\<rparr>), CDSA_OK))
                      (resize_loop (take (unat (hm_capacity m)) (hm_entries m)) m1))"

definition insert_hashmap :: "heap \<Rightarrow> hashmap option \<Rightarrow> cstring option \<Rightarrow> pointer option \<Rightarrow>
    (heap \<times> hashmap option \<times> cdsa_status) option" where
  "insert_hashmap h hmap key value =
     (case (hmap, key) of
        (Some m, Some k) \<Rightarrow>
          (case (if hm_size m \<ge> (hm_capacity m * 3) div 4 then resize_hashmap h (Some m)
                 else Some (h, Some m, CDSA_OK)) of
             None \<Rightarrow> None
           | Some (h1, m1, status) \<Rightarrow>
               if status \<noteq> CDSA_OK then Some (h1, m1, status)
               else map_option (\<lambda>(m2, s). (h1, Some m2, s))
                      (internal_insert (the m1) k value (get_raw_hash k)))
      | _ \<Rightarrow> Some (h, hmap, CDSA_ERR_INVALID))"

partial_function (option) get_loop ::
  "hashmap \<Rightarrow> cstring \<Rightarrow> size_t \<Rightarrow> size_t \<Rightarrow> size_t \<Rightarrow> pointer option option" where
  "get_loop m key raw_hash index probe_distance =
     (let e = hm_at m index
      in if he_key e \<noteq> None \<and> probe_distance \<le> hm_max_psl m then
           if he_hash e = raw_hash \<and> he_key e = Some key then Some (he_value e)
           else get_loop m key raw_hash ((index + 1) mod hm_capacity m) (probe_distance + 1)
         else Some None)"

text \<open>The outer option is the call that does not return, the inner one the pointer.\<close>

definition get_hashmap :: "hashmap option \<Rightarrow> cstring option \<Rightarrow> pointer option option" where
  "get_hashmap hmap key =
     (case (hmap, key) of
        (Some m, Some k) \<Rightarrow>
          let raw_hash = get_raw_hash k
          in get_loop m k raw_hash (raw_hash mod hm_capacity m) 0
      | _ \<Rightarrow> Some None)"

definition contains_hashmap :: "hashmap option \<Rightarrow> cstring option \<Rightarrow> bool option" where
  "contains_hashmap hmap key = map_option (\<lambda>v. v \<noteq> None) (get_hashmap hmap key)"

text \<open>The backward shift: \<open>affected\<close> is \<open>max_psl_affected\<close>.\<close>

partial_function (option) shift_loop ::
  "hashmap \<Rightarrow> size_t \<Rightarrow> bool \<Rightarrow> (hashmap \<times> size_t \<times> bool) option" where
  "shift_loop m cur affected =
     (let next = (cur + 1) mod hm_capacity m; e = hm_at m next
      in if he_key e \<noteq> None \<and> he_psl e > 0 then
           shift_loop (hm_put m cur (e\<lparr>he_psl := he_psl e - 1\<rparr>)) next
             (affected \<or> he_psl e = hm_max_psl m)
         else Some (m, cur, affected))"

definition remove_at :: "hashmap \<Rightarrow> size_t \<Rightarrow> (hashmap \<times> cdsa_status) option" where
  "remove_at m index =
     (let affected = (he_psl (hm_at m index) = hm_max_psl m);
          m1 = m\<lparr>hm_size := hm_size m - 1, hm_version := hm_version m + 1\<rparr>
      in case shift_loop m1 index affected of
           None \<Rightarrow> None
         | Some (m2, cur, affected2) \<Rightarrow>
             let m3 = hm_put m2 cur empty_entry
             in Some (if affected2 then recalculate_max_psl m3 else m3, CDSA_OK))"

partial_function (option) remove_loop ::
  "hashmap \<Rightarrow> cstring \<Rightarrow> size_t \<Rightarrow> size_t \<Rightarrow> size_t \<Rightarrow> (hashmap \<times> cdsa_status) option" where
  "remove_loop m key raw_hash index probe_distance =
     (let e = hm_at m index
      in if he_key e \<noteq> None \<and> probe_distance \<le> hm_max_psl m then
           if he_hash e = raw_hash \<and> he_key e = Some key then remove_at m index
           else remove_loop m key raw_hash ((index + 1) mod hm_capacity m) (probe_distance + 1)
         else Some (m, CDSA_ERR_NOT_FOUND))"

definition remove_hashmap ::
  "hashmap option \<Rightarrow> cstring option \<Rightarrow> (hashmap option \<times> cdsa_status) option" where
  "remove_hashmap hmap key =
     (case (hmap, key) of
        (Some m, Some k) \<Rightarrow>
          let raw_hash = get_raw_hash k
          in map_option (\<lambda>(m', s). (Some m', s))
               (remove_loop m k raw_hash (raw_hash mod hm_capacity m) 0)
      | _ \<Rightarrow> Some (hmap, CDSA_ERR_INVALID))"

subsection \<open>The iterator\<close>

record hashmap_iterator =
  hi_self :: block_id
  hi_index :: size_t
  hi_snapshot :: size_t

definition cdsa_create_hashmap_iterator ::
  "heap \<Rightarrow> hashmap option \<Rightarrow> heap \<times> hashmap_iterator option" where
  "cdsa_create_hashmap_iterator h hmap =
     (case hmap of
        None \<Rightarrow> (h, None)
      | Some m \<Rightarrow>
          let (h1, iter) = cdsa_malloc_track h sizeof_hashmap_iterator
          in case iter of
               None \<Rightarrow> (h1, None)
             | Some p \<Rightarrow> (h1, Some \<lparr>hi_self = p, hi_index = 0, hi_snapshot = hm_version m\<rparr>))"

lemma size_t_inc_below:
  assumes "(i :: size_t) < n"
  shows "unat (i + 1) = Suc (unat i)"
proof -
  have "unat i < unat n" using assms by (simp add: size_t_less_iff)
  then show ?thesis using unat_size_t_lt [of n] by (intro unat_size_t_Suc) linarith
qed

text \<open>The loop of \<open>cdsa_has_next_hashmap\<close>, which moves the iterator over empty slots.\<close>

function skip_empty :: "hashmap \<Rightarrow> size_t \<Rightarrow> size_t \<times> bool" where
  "skip_empty m index =
     (if index < hm_capacity m then
        if he_key (hm_at m index) \<noteq> None then (index, True) else skip_empty m (index + 1)
      else (index, False))"
  by pat_completeness auto

termination
  by (relation "measure (\<lambda>(m, i). unat (hm_capacity m) - unat i)")
    (auto simp: size_t_inc_below size_t_less_iff)

declare skip_empty.simps [simp del]

definition cdsa_has_next_hashmap ::
  "hashmap option \<Rightarrow> hashmap_iterator option \<Rightarrow> hashmap_iterator option \<times> bool" where
  "cdsa_has_next_hashmap hmap iter =
     (case (iter, hmap) of
        (Some i, Some m) \<Rightarrow>
          if hm_version m \<noteq> hi_snapshot i then (Some i, False)
          else let (index, found) = skip_empty m (hi_index i)
               in (Some (i\<lparr>hi_index := index\<rparr>), found)
      | _ \<Rightarrow> (iter, False))"

text \<open>Yields the key and the value; \<open>out_key\<close> tells whether a place for the key was passed.\<close>

definition cdsa_next_hashmap :: "hashmap \<Rightarrow> hashmap_iterator option \<Rightarrow> bool \<Rightarrow>
    hashmap_iterator option \<times> cdsa_status \<times> (cstring \<times> pointer option) option" where
  "cdsa_next_hashmap m iter out_key =
     (case iter of
        None \<Rightarrow> (None, CDSA_ERR_INVALID, None)
      | Some i \<Rightarrow>
          if \<not> out_key then (Some i, CDSA_ERR_INVALID, None)
          else if hm_version m \<noteq> hi_snapshot i then (Some i, CDSA_ERR_ITER_INVALIDATED, None)
          else
            (case cdsa_has_next_hashmap (Some m) (Some i) of
               (i1, False) \<Rightarrow> (i1, CDSA_ERR_NOT_FOUND, None)
             | (i1, True) \<Rightarrow>
                 let i2 = the i1; e = hm_at m (hi_index i2)
                 in (Some (i2\<lparr>hi_index := hi_index i2 + 1\<rparr>), CDSA_OK,
                     Some (the (he_key e), he_value e))))"

definition cdsa_free_hashmap_iterator :: "heap \<Rightarrow> hashmap_iterator option \<Rightarrow> heap" where
  "cdsa_free_hashmap_iterator h iter = cdsa_free_track h (map_option hi_self iter)"

text \<open>
  \<open>print_hashmap\<close> as what it prints: the index, the key, and the value pointer whose \<open>int\<close> it shows.  The
  flag is the access through a NULL value.
\<close>

definition print_hashmap :: "hashmap option \<Rightarrow> (nat \<times> cstring \<times> pointer option) list \<times> bool" where
  "print_hashmap hmap =
     (case hmap of
        None \<Rightarrow> ([], False)
      | Some m \<Rightarrow>
          let out = concat (map (\<lambda>i. case he_key (hm_entries m ! i) of
                      None \<Rightarrow> [] | Some k \<Rightarrow> [(i, k, he_value (hm_entries m ! i))]) [0..<unat (hm_capacity m)])
          in (out, \<exists>(i, k, v) \<in> set out. v = None))"

section \<open>Null pointers\<close>

lemma hashmap_null [null_simps]:
  "insert_hashmap h None k v = Some (h, None, CDSA_ERR_INVALID)"
  "insert_hashmap h m None v = Some (h, m, CDSA_ERR_INVALID)"
  "remove_hashmap None k = Some (None, CDSA_ERR_INVALID)"
  "remove_hashmap m None = Some (m, CDSA_ERR_INVALID)"
  "get_hashmap None k = Some None" "get_hashmap m None = Some None"
  "contains_hashmap None k = Some False" "cdsa_size_hashmap None = 0"
  "resize_hashmap h None = Some (h, None, CDSA_ERR_INVALID)" "cdsa_free_hashmap h None = h"
  "print_hashmap None = ([], False)"
  by (simp_all add: insert_hashmap_def remove_hashmap_def get_hashmap_def contains_hashmap_def
      cdsa_size_hashmap_def resize_hashmap_def cdsa_free_hashmap_def print_hashmap_def split: option.splits)

end
