(* ===== verification/Robin_Hood.thy ===== *)
theory Robin_Hood
  imports HashMap
begin

text \<open>
  What the operations of the hash map do to its table: the Robin Hood invariant, insertion with
  displacement, growth, removal with backward shift, and lookup.
\<close>

section \<open>The Robin Hood invariant\<close>

abbreviation occupied :: "hash_entry \<Rightarrow> bool" where
  "occupied e \<equiv> he_key e \<noteq> None"

abbreviation psl :: "hash_entry \<Rightarrow> nat" where
  "psl e \<equiv> unat (he_psl e)"

abbreviation home :: "nat \<Rightarrow> hash_entry \<Rightarrow> nat" where
  "home c e \<equiv> unat (he_hash e) mod c"

text \<open>An entry carries the hash of its key.\<close>

definition hashed :: "hash_entry \<Rightarrow> bool" where
  "hashed e \<longleftrightarrow> occupied e \<and> he_hash e = get_raw_hash (the (he_key e))"

text \<open>
  Every entry sits \<open>psl\<close> slots behind its home; an entry away from home follows an occupied slot
  whose \<open>psl\<close> is at most one smaller; no key is there twice.
\<close>

definition placed :: "hash_entry list \<Rightarrow> bool" where
  "placed es \<longleftrightarrow> (\<forall>i < length es. occupied (es ! i) \<longrightarrow>
     hashed (es ! i) \<and> (home (length es) (es ! i) + psl (es ! i)) mod length es = i \<and>
     psl (es ! i) < length es)"

definition rising :: "hash_entry list \<Rightarrow> bool" where
  "rising es \<longleftrightarrow> (\<forall>i < length es.
     occupied (es ! (Suc i mod length es)) \<and> 0 < psl (es ! (Suc i mod length es)) \<longrightarrow>
     occupied (es ! i) \<and> psl (es ! (Suc i mod length es)) \<le> Suc (psl (es ! i)))"

definition unique_keys :: "hash_entry list \<Rightarrow> bool" where
  "unique_keys es \<longleftrightarrow> (\<forall>i < length es. \<forall>j < length es.
     occupied (es ! i) \<and> he_key (es ! i) = he_key (es ! j) \<longrightarrow> i = j)"

definition robin_hood :: "hash_entry list \<Rightarrow> bool" where
  "robin_hood es \<longleftrightarrow> placed es \<and> rising es \<and> unique_keys es"

definition holds :: "hash_entry list \<Rightarrow> cstring \<Rightarrow> pointer option \<Rightarrow> bool" where
  "holds es k v \<longleftrightarrow> (\<exists>i < length es. he_key (es ! i) = Some k \<and> he_value (es ! i) = v)"

text \<open>The map a table represents.\<close>

definition table_map :: "hash_entry list \<Rightarrow> cstring \<Rightarrow> pointer option option" where
  "table_map es = map_of (map (\<lambda>e. (the (he_key e), he_value e)) (filter occupied es))"

definition load :: "hash_entry list \<Rightarrow> nat" where
  "load es = length (filter occupied es)"

lemma holds_in_set: "holds es k v \<longleftrightarrow> (\<exists>e \<in> set es. he_key e = Some k \<and> he_value e = v)"
  unfolding holds_def by (metis in_set_conv_nth)

lemma table_map_SomeD: "table_map es k = Some v \<Longrightarrow> holds es k v"
  unfolding table_map_def holds_in_set by (drule map_of_SomeD) force

lemma unique_keysD:
  "unique_keys es \<Longrightarrow> i < length es \<Longrightarrow> j < length es \<Longrightarrow> he_key (es ! i) = Some k \<Longrightarrow>
    he_key (es ! j) = Some k \<Longrightarrow> i = j"
  unfolding unique_keys_def by (metis option.distinct(1))

lemma table_map_holds:
  assumes "unique_keys es"
  shows "table_map es k = Some v \<longleftrightarrow> holds es k v"
proof
  assume h: "holds es k v"
  then have "k \<in> fst ` set (map (\<lambda>e. (the (he_key e), he_value e)) (filter occupied es))"
    unfolding holds_in_set by force
  then have "table_map es k \<noteq> None" unfolding table_map_def by (simp add: map_of_eq_None_iff)
  then obtain w where w: "table_map es k = Some w" by blast
  from h obtain i where i: "i < length es" "he_key (es ! i) = Some k" "he_value (es ! i) = v"
    by (auto simp: holds_def)
  from table_map_SomeD [OF w] obtain j where
    j: "j < length es" "he_key (es ! j) = Some k" "he_value (es ! j) = w"
    by (auto simp: holds_def)
  show "table_map es k = Some v" using unique_keysD [OF assms i(1) j(1) i(2) j(2)] i j w by simp
qed (rule table_map_SomeD)

lemma option_eqI:
  assumes "\<And>v. a = Some v \<longleftrightarrow> b = Some v"
  shows "a = b"
proof (cases a)
  case None
  then have "b \<noteq> Some (the b)" using assms [of "the b"] by simp
  then show ?thesis using None by (cases b) simp_all
next
  case (Some x)
  then show ?thesis using assms [of x] by simp
qed

lemma table_map_eqI:
  assumes "unique_keys es" and "\<And>k v. holds es k v \<longleftrightarrow> m k = Some v"
  shows "table_map es = m"
proof (intro ext option_eqI)
  fix k v
  show "table_map es k = Some v \<longleftrightarrow> m k = Some v"
    unfolding table_map_holds [OF assms(1)] by (rule assms(2))
qed

lemma load_le: "load es \<le> length es"
  by (simp add: load_def)

lemma load_less:
  assumes "load es < length es"
  shows "\<exists>i < length es. \<not> occupied (es ! i)"
proof (rule ccontr)
  assume "\<not> ?thesis"
  then have "\<forall>e \<in> set es. occupied e" unfolding all_set_conv_all_nth by blast
  then have "filter occupied es = es" by simp
  then show False using assms by (simp add: load_def)
qed

lemma load_update:
  assumes "i < length es"
  shows "load (es[i := e]) + (if occupied (es ! i) then 1 else 0) =
    load es + (if occupied e then 1 else 0)"
proof -
  have a: "es = take i es @ es ! i # drop (Suc i) es" using assms by (rule id_take_nth_drop)
  have b: "es[i := e] = take i es @ e # drop (Suc i) es" using assms by (rule upd_conv_take_nth_drop)
  have "load es = length (filter occupied (take i es)) +
      (if occupied (es ! i) then 1 else 0) + length (filter occupied (drop (Suc i) es))"
    unfolding load_def by (subst a) simp
  moreover have "load (es[i := e]) = length (filter occupied (take i es)) +
      (if occupied e then 1 else 0) + length (filter occupied (drop (Suc i) es))"
    unfolding load_def by (subst b) simp
  ultimately show ?thesis by simp
qed

section \<open>Probing\<close>

text \<open>Before an entry of \<open>psl\<close> \<open>d\<close>, all slots from its home on are occupied by ones as poor.\<close>

lemma rising_chain:
  assumes "rising es" and "0 < length es"
  shows "occupied (es ! ((a + d) mod length es)) \<Longrightarrow> d \<le> psl (es ! ((a + d) mod length es)) \<Longrightarrow>
    j \<le> d \<Longrightarrow> occupied (es ! ((a + j) mod length es)) \<and> j \<le> psl (es ! ((a + j) mod length es))"
proof (induction d)
  case 0
  then show ?case by simp
next
  case (Suc d)
  show ?case
  proof (cases "j = Suc d")
    case True
    then show ?thesis using Suc.prems by simp
  next
    case False
    let ?i = "(a + d) mod length es"
    have s: "Suc ?i mod length es = (a + Suc d) mod length es" by (simp add: mod_Suc_eq)
    have "?i < length es" using assms(2) by simp
    moreover have "0 < psl (es ! ((a + Suc d) mod length es))" using Suc.prems(2) by linarith
    ultimately have "occupied (es ! ?i) \<and> psl (es ! ((a + Suc d) mod length es)) \<le> Suc (psl (es ! ?i))"
      using assms(1) Suc.prems(1) unfolding rising_def s [symmetric] by blast
    then have "occupied (es ! ?i)" "d \<le> psl (es ! ?i)" using Suc.prems(2) by linarith+
    then show ?thesis using Suc.IH Suc.prems(3) False by simp
  qed
qed

text \<open>\<open>pending es x\<close>: the slots an incoming entry has passed are occupied by ones as poor.\<close>

definition pending :: "hash_entry list \<Rightarrow> hash_entry \<Rightarrow> bool" where
  "pending es x \<longleftrightarrow> (\<forall>j < psl x.
     occupied (es ! ((home (length es) x + j) mod length es)) \<and>
     j \<le> psl (es ! ((home (length es) x + j) mod length es)))"

lemma pending_bound:
  assumes "pending es x" and "i < length es" and "\<not> occupied (es ! i)"
  shows "psl x < length es"
proof (rule ccontr)
  assume "\<not> psl x < length es"
  let ?c = "length es" and ?a = "home (length es) x"
  have "?a < ?c" using assms(2) by (intro mod_less_divisor) linarith
  define j where "j = (i + ?c - ?a) mod ?c"
  have "(?a + j) mod ?c = (?a + (i + ?c - ?a)) mod ?c" by (simp add: j_def mod_add_right_eq)
  also have "?a + (i + ?c - ?a) = i + ?c" using \<open>?a < ?c\<close> by simp
  finally have "(?a + j) mod ?c = i" using assms(2) by simp
  moreover have "j < psl x"
  proof -
    have "j < ?c" unfolding j_def using assms(2) by (intro mod_less_divisor) linarith
    then show ?thesis using \<open>\<not> psl x < ?c\<close> by simp
  qed
  ultimately show False using assms(1,3) by (auto simp: pending_def)
qed

section \<open>Changing one slot\<close>

text \<open>The successor of a slot is another slot unless the table has only one.\<close>

lemma rising_update:
  assumes "rising es" and "i < length es"
    and here: "occupied e \<and> 0 < psl e \<longrightarrow>
      (\<forall>p < length es. Suc p mod length es = i \<longrightarrow>
        occupied (es[i := e] ! p) \<and> psl e \<le> Suc (psl (es[i := e] ! p)))"
    and succ: "Suc i mod length es \<noteq> i \<Longrightarrow> occupied (es ! (Suc i mod length es)) \<Longrightarrow>
      0 < psl (es ! (Suc i mod length es)) \<Longrightarrow>
      occupied e \<and> psl (es ! (Suc i mod length es)) \<le> Suc (psl e)"
  shows "rising (es[i := e])"
  unfolding rising_def length_list_update
proof (intro allI impI)
  fix p
  let ?s = "Suc p mod length es"
  assume p: "p < length es"
    and occ: "occupied (es[i := e] ! ?s) \<and> 0 < psl (es[i := e] ! ?s)"
  have s: "?s < length es" using p by (intro mod_less_divisor) linarith
  show "occupied (es[i := e] ! p) \<and> psl (es[i := e] ! ?s) \<le> Suc (psl (es[i := e] ! p))"
  proof (cases "?s = i")
    case True
    then show ?thesis using occ here p assms(2) by simp
  next
    case ne: False
    then have old: "es[i := e] ! ?s = es ! ?s" by simp
    show ?thesis
    proof (cases "p = i")
      case True
      then show ?thesis using succ ne occ old assms(2) by simp
    next
      case False
      then show ?thesis using assms(1) occ old p by (simp add: rising_def)
    qed
  qed
qed

lemma placed_update:
  assumes "placed es" and "i < length es"
    and "occupied e \<Longrightarrow> hashed e \<and> (home (length es) e + psl e) mod length es = i \<and> psl e < length es"
  shows "placed (es[i := e])"
  using assms by (auto simp: placed_def nth_list_update)

lemma unique_keys_update:
  assumes "unique_keys es" and "i < length es"
    and "\<And>j. j < length es \<Longrightarrow> j \<noteq> i \<Longrightarrow> occupied e \<Longrightarrow> he_key (es ! j) \<noteq> he_key e"
  shows "unique_keys (es[i := e])"
  unfolding unique_keys_def length_list_update
proof (intro allI impI)
  fix a b
  assume ab: "a < length es" "b < length es"
    and k: "occupied (es[i := e] ! a) \<and> he_key (es[i := e] ! a) = he_key (es[i := e] ! b)"
  show "a = b"
  proof (cases "a = i \<or> b = i")
    case True
    then show ?thesis using k ab assms(2) assms(3) [of a] assms(3) [of b]
      by (auto simp: nth_list_update split: if_splits) metis+
  next
    case False
    then have "es[i := e] ! a = es ! a" "es[i := e] ! b = es ! b" by simp_all
    note k' = k [unfolded this]
    then have "occupied (es ! a)" and eq: "he_key (es ! a) = he_key (es ! b)" by blast+
    then obtain kk where kk: "he_key (es ! a) = Some kk" by blast
    then have "he_key (es ! b) = Some kk" using eq by simp
    then show ?thesis by (rule unique_keysD [OF assms(1) ab kk])
  qed
qed

lemma holds_update:
  assumes "i < length es"
  shows "holds (es[i := e]) k v \<longleftrightarrow>
    (he_key e = Some k \<and> he_value e = v) \<or>
    (\<exists>j < length es. j \<noteq> i \<and> he_key (es ! j) = Some k \<and> he_value (es ! j) = v)"
  using assms by (auto simp: holds_def nth_list_update)

section \<open>Insertion\<close>

lemma robin_hoodD:
  assumes "robin_hood es"
  shows "placed es" and "rising es" and "unique_keys es"
  using assms by (simp_all add: robin_hood_def)

text \<open>An incoming entry at its next slot.\<close>

definition arriving :: "hash_entry list \<Rightarrow> hash_entry \<Rightarrow> nat \<Rightarrow> bool" where
  "arriving es x i \<longleftrightarrow> hashed x \<and> pending es x \<and> i < length es \<and>
     i = (home (length es) x + psl x) mod length es"

lemma arriving_predecessor:
  assumes "arriving es x i" and "0 < psl x" and "psl x < length es"
    and "p < length es" and "Suc p mod length es = i"
  shows "p \<noteq> i" and "occupied (es ! p)" and "psl x \<le> Suc (psl (es ! p))"
proof -
  let ?c = "length es" and ?j = "psl x - 1"
  have "Suc ((home ?c x + ?j) mod ?c) mod ?c = Suc (home ?c x + ?j) mod ?c" by (rule mod_Suc_eq)
  also have "Suc (home ?c x + ?j) = home ?c x + psl x" using assms(2) by simp
  finally have "Suc ((home ?c x + ?j) mod ?c) mod ?c = Suc p mod ?c"
    using assms(1,5) by (simp add: arriving_def)
  moreover have "(home ?c x + ?j) mod ?c < ?c" using assms(4) by (intro mod_less_divisor) linarith
  ultimately have p: "p = (home ?c x + ?j) mod ?c" using Suc_mod_inject assms(4) by metis
  show "p \<noteq> i"
    using mod_differ [of ?j ?c "psl x" "home ?c x"] assms(1,2,3) p by (simp add: arriving_def)
  have "?j < psl x" using assms(2) by simp
  then have "occupied (es ! p) \<and> ?j \<le> psl (es ! p)"
    using assms(1) unfolding arriving_def pending_def p by blast
  then show "occupied (es ! p)" and "psl x \<le> Suc (psl (es ! p))" by linarith+
qed

lemma arriving_place:
  assumes "robin_hood es" and "arriving es x i" and "psl x < length es"
    and "\<forall>v. \<not> holds es (the (he_key x)) v" and "occupied (es ! i) \<longrightarrow> psl (es ! i) \<le> psl x"
  shows "robin_hood (es[i := x])"
proof -
  note rh = robin_hoodD [OF assms(1)]
  have x: "hashed x" "occupied x" "i < length es"
    "(home (length es) x + psl x) mod length es = i"
    using assms(2) by (auto simp: arriving_def hashed_def)
  have "rising (es[i := x])"
  proof (rule rising_update [OF rh(2) x(3)])
    show "occupied x \<and> 0 < psl x \<longrightarrow> (\<forall>p < length es. Suc p mod length es = i \<longrightarrow>
        occupied (es[i := x] ! p) \<and> psl x \<le> Suc (psl (es[i := x] ! p)))"
    proof (intro impI allI)
      fix p
      assume "occupied x \<and> 0 < psl x" and p: "p < length es" "Suc p mod length es = i"
      then have "0 < psl x" by simp
      note a = arriving_predecessor [OF assms(2) this assms(3) p]
      then show "occupied (es[i := x] ! p) \<and> psl x \<le> Suc (psl (es[i := x] ! p))" by simp
    qed
  next
    assume s: "occupied (es ! (Suc i mod length es))" "0 < psl (es ! (Suc i mod length es))"
    then have "occupied (es ! i) \<and> psl (es ! (Suc i mod length es)) \<le> Suc (psl (es ! i))"
      using rh(2) x(3) unfolding rising_def by blast
    then show "occupied x \<and> psl (es ! (Suc i mod length es)) \<le> Suc (psl x)"
      using assms(5) x(2) by linarith
  qed
  moreover have "unique_keys (es[i := x])"
    using assms(4) x(2,3)
    by (intro unique_keys_update [OF rh(3)]) (auto simp: holds_def)
  moreover have "placed (es[i := x])"
    using placed_update [OF rh(1) x(3)] x assms(3) by simp
  ultimately show ?thesis by (simp add: robin_hood_def)
qed

lemma psl_inc:
  assumes "psl x < n" and "2 * n < size_bound"
  shows "psl (x\<lparr>he_psl := he_psl x + 1\<rparr>) = Suc (psl x)"
proof -
  have "unat (he_psl x) < size_bound - 1" using assms by linarith
  then show ?thesis by (simp add: unat_size_t_Suc)
qed

text \<open>The incoming entry takes the slot; the one displaced moves on.\<close>

lemma arriving_swap:
  fixes es i
  assumes "robin_hood es" and "arriving es x i" and "psl x < length es"
    and "occupied (es ! i)" and "psl (es ! i) < psl x" and "2 * length es < size_bound"
  defines "y \<equiv> (es ! i)\<lparr>he_psl := he_psl (es ! i) + 1\<rparr>"
  shows "arriving (es[i := x]) y (Suc i mod length es)"
proof -
  let ?c = "length es" and ?e = "es ! i"
  note rh = robin_hoodD [OF assms(1)]
  have i: "i < ?c" using assms(2) by (simp add: arriving_def)
  have e: "hashed ?e" "(home ?c ?e + psl ?e) mod ?c = i" "psl ?e < ?c"
    using rh(1) i assms(4) by (auto simp: placed_def)
  have y: "psl y = Suc (psl ?e)" "home ?c y = home ?c ?e" "hashed y"
    using psl_inc [OF e(3) assms(6)] e(1) by (simp_all add: y_def hashed_def)
  have "pending (es[i := x]) y"
    unfolding pending_def length_list_update y(1,2)
  proof (intro allI impI)
    fix j
    assume j: "j < Suc (psl ?e)"
    let ?s = "(home ?c ?e + j) mod ?c"
    show "occupied (es[i := x] ! ?s) \<and> j \<le> psl (es[i := x] ! ?s)"
    proof (cases "j = psl ?e")
      case True
      then show ?thesis using e(2) i assms(2,5) by (auto simp: arriving_def hashed_def)
    next
      case False
      then have "?s \<noteq> i" using j e mod_differ [of j ?c "psl ?e" "home ?c ?e"] by simp
      moreover have "occupied (es ! ?s) \<and> j \<le> psl (es ! ?s)"
      proof (rule rising_chain [OF rh(2), where d = "psl ?e"])
        show "0 < ?c" using i by linarith
      qed (use e(2) assms(4) j in simp_all)
      ultimately show ?thesis by simp
    qed
  qed
  moreover have "Suc i mod ?c = (home ?c y + psl y) mod ?c"
    using e(2) y by (metis add_Suc_right mod_Suc_eq)
  moreover have "Suc i mod ?c < ?c" using i by (intro mod_less_divisor) linarith
  ultimately show ?thesis using y(3) unfolding arriving_def length_list_update by blast
qed

lemma arriving_pass:
  assumes "arriving es x i" and "psl x < length es" and "occupied (es ! i)"
    and "psl x \<le> psl (es ! i)" and "2 * length es < size_bound"
  shows "arriving es (x\<lparr>he_psl := he_psl x + 1\<rparr>) (Suc i mod length es)"
proof -
  let ?c = "length es"
  note y = psl_inc [OF assms(2,5)]
  have "pending es (x\<lparr>he_psl := he_psl x + 1\<rparr>)"
    using assms(1,3,4) y by (auto simp: pending_def arriving_def less_Suc_eq)
  moreover have "Suc i mod ?c = (home ?c x + Suc (psl x)) mod ?c"
    using assms(1) by (metis add_Suc_right arriving_def mod_Suc_eq)
  moreover have "Suc i mod ?c < ?c" using assms(2) by (intro mod_less_divisor) linarith
  ultimately show ?thesis using assms(1) y by (simp add: arriving_def hashed_def)
qed

text \<open>The state of the map and its table.\<close>

definition geometry :: "hashmap \<Rightarrow> bool" where
  "geometry m \<longleftrightarrow> length (hm_entries m) = unat (hm_capacity m) \<and> 0 < unat (hm_capacity m) \<and>
     2 * unat (hm_capacity m) < size_bound"

abbreviation slots :: "hashmap \<Rightarrow> nat" where
  "slots m \<equiv> length (hm_entries m)"

lemma geometryD:
  assumes "geometry m"
  shows "unat (hm_capacity m) = slots m" and "0 < slots m" and "2 * slots m < size_bound"
  using assms by (simp_all add: geometry_def)

lemma next_slot:
  assumes "geometry m" and "unat i < slots m"
  shows "unat ((i + 1) mod hm_capacity m) = Suc (unat i) mod slots m"
proof -
  note g = geometryD [OF assms(1)]
  have "unat (i + 1) = Suc (unat i)" using g assms(2) by (intro unat_size_t_Suc) linarith
  then show ?thesis using g(1) by (simp add: unat_size_t_mod)
qed

lemma holds_fresh_place:
  assumes "i < length es" and "\<not> occupied (es ! i)"
  shows "holds (es[i := x]) k v \<longleftrightarrow> holds es k v \<or> (he_key x = Some k \<and> he_value x = v)"
  using assms by (auto simp: holds_update) (auto simp: holds_def)

lemma holds_swap:
  assumes "i < length es"
  shows "holds (es[i := x]) k v \<or> (he_key (es ! i) = Some k \<and> he_value (es ! i) = v) \<longleftrightarrow>
    holds es k v \<or> (he_key x = Some k \<and> he_value x = v)"
  using assms by (auto simp: holds_update) (auto simp: holds_def)

text \<open>What a finished insertion has done to the map.\<close>

definition inserted :: "hashmap \<Rightarrow> hash_entry \<Rightarrow> hashmap \<Rightarrow> bool" where
  "inserted m x m' \<longleftrightarrow>
     (\<exists>es p. m' = m\<lparr>hm_entries := es, hm_size := hm_size m + 1, hm_max_psl := p\<rparr> \<and>
        length es = slots m \<and> robin_hood es \<and> load es = Suc (load (hm_entries m)) \<and>
        (\<forall>k v. holds es k v \<longleftrightarrow>
           holds (hm_entries m) k v \<or> (he_key x = Some k \<and> he_value x = v)))"

lemma insert_loop_place:
  assumes "robin_hood (hm_entries m)" and "arriving (hm_entries m) x (unat i)"
    and "\<forall>v. \<not> holds (hm_entries m) (the (he_key x)) v" and "\<not> occupied (hm_entries m ! unat i)"
  shows "\<exists>m'. insert_loop m x i = Some (m', CDSA_OK) \<and> inserted m x m'"
proof -
  let ?es = "hm_entries m"
  have i: "unat i < slots m" using assms(2) by (simp add: arriving_def)
  have b: "psl x < slots m"
    using pending_bound [OF _ i assms(4)] assms(2) by (simp add: arriving_def)
  let ?m = "m\<lparr>hm_entries := ?es[unat i := x], hm_size := hm_size m + 1,
    hm_max_psl := (if he_psl x > hm_max_psl m then he_psl x else hm_max_psl m)\<rparr>"
  have "robin_hood (?es[unat i := x])"
    using arriving_place [OF assms(1,2) b assms(3)] assms(4) by simp
  moreover have "load (?es[unat i := x]) = Suc (load ?es)"
    using load_update [OF i, of x] assms(2,4) by (simp add: arriving_def hashed_def)
  ultimately have "inserted m x ?m"
    unfolding inserted_def using holds_fresh_place [OF i assms(4)]
    by (intro exI [of _ "?es[unat i := x]"]
        exI [of _ "if he_psl x > hm_max_psl m then he_psl x else hm_max_psl m"]) simp
  moreover have "insert_loop m x i = Some (?m, CDSA_OK)"
    using assms(4) by (subst insert_loop.simps) (simp add: hm_at_def hm_put_def Let_def)
  ultimately show ?thesis by blast
qed

lemma insert_loop_fresh:
  "geometry m \<Longrightarrow> robin_hood (hm_entries m) \<Longrightarrow> arriving (hm_entries m) x (unat i) \<Longrightarrow>
   \<forall>v. \<not> holds (hm_entries m) (the (he_key x)) v \<Longrightarrow>
   \<not> occupied (hm_entries m ! ((unat i + n) mod slots m)) \<Longrightarrow>
   \<exists>m'. insert_loop m x i = Some (m', CDSA_OK) \<and> inserted m x m'"
proof (induction n arbitrary: m x i)
  case 0
  then show ?case using insert_loop_place [OF "0.prems"(2-4)] by (simp add: arriving_def)
next
  case (Suc n)
  let ?es = "hm_entries m" and ?e = "hm_entries m ! unat i" and ?i = "(i + 1) mod hm_capacity m"
  note g = geometryD [OF Suc.prems(1)]
  have i: "unat i < slots m" using Suc.prems(3) by (simp add: arriving_def)
  define z where "z = (unat i + Suc n) mod slots m"
  have z: "z < slots m" "\<not> occupied (?es ! z)" using g(2) Suc.prems(5) by (simp_all add: z_def)
  note ni = next_slot [OF Suc.prems(1) i]
  have zn: "(unat ?i + n) mod slots m = z" by (simp add: ni z_def mod_add_left_eq)
  have b: "psl x < slots m"
    using pending_bound [OF _ z] Suc.prems(3) by (simp add: arriving_def)
  have kx: "occupied x" "he_key x = Some (the (he_key x))"
    using Suc.prems(3) by (auto simp: arriving_def hashed_def)
  show ?case
  proof (cases "occupied ?e")
    case False
    then show ?thesis using insert_loop_place [OF Suc.prems(2-4)] by simp
  next
    case occ: True
    have ne: "he_key ?e \<noteq> he_key x"
      using Suc.prems(4) i kx(2) unfolding holds_def by metis
    have zi: "z \<noteq> unat i" using z(2) occ by auto
    show ?thesis
    proof (cases "he_psl x > he_psl ?e")
      case True
      then have poorer: "psl ?e < psl x" by (simp add: size_t_less_iff)
      let ?m = "hm_put m i x" and ?y = "?e\<lparr>he_psl := he_psl ?e + 1\<rparr>"
      have es: "hm_entries ?m = ?es[unat i := x]" "hm_capacity ?m = hm_capacity m"
        by (simp_all add: hm_put_def)
      have g': "geometry ?m" using Suc.prems(1) by (simp add: geometry_def hm_put_def)
      have rh: "robin_hood (hm_entries ?m)"
        unfolding es using poorer by (intro arriving_place [OF Suc.prems(2,3) b Suc.prems(4)]) simp
      have ar: "arriving (hm_entries ?m) ?y (unat ?i)"
        unfolding es ni by (rule arriving_swap [OF Suc.prems(2,3) b occ poorer g(3)])
      have nh: "\<forall>v. \<not> holds (hm_entries ?m) (the (he_key ?y)) v"
        using i ne occ unique_keysD [OF robin_hoodD(3) [OF Suc.prems(2)]]
        by (auto simp: es holds_update)
      have "\<not> occupied (hm_entries ?m ! ((unat ?i + n) mod slots ?m))"
        using z zi by (simp add: es zn)
      from Suc.IH [OF g' rh ar nh this] obtain m' where
        m': "insert_loop ?m ?y ?i = Some (m', CDSA_OK)" "inserted ?m ?y m'" by blast
      have "insert_loop m x i = Some (m', CDSA_OK)"
        using occ ne True m'(1) es(2) by (subst insert_loop.simps) (auto simp: hm_at_def Let_def)
      moreover have "load (hm_entries ?m) = load ?es"
        using load_update [OF i, of x] occ kx(1) by (simp add: es)
      then have "inserted m x m'"
        using m'(2) holds_swap [OF i, of x] by (auto simp: inserted_def es hm_put_def)
      ultimately show ?thesis by blast
    next
      case False
      then have richer: "psl x \<le> psl ?e" by (simp add: size_t_less_iff)
      let ?y = "x\<lparr>he_psl := he_psl x + 1\<rparr>"
      have ar: "arriving ?es ?y (unat ?i)"
        unfolding ni by (rule arriving_pass [OF Suc.prems(3) b occ richer g(3)])
      have nh: "\<forall>v. \<not> holds ?es (the (he_key ?y)) v" using Suc.prems(4) by simp
      have "\<not> occupied (?es ! ((unat ?i + n) mod slots m))" using z by (simp add: zn)
      from Suc.IH [OF Suc.prems(1,2) ar nh this] obtain m' where
        m': "insert_loop m ?y ?i = Some (m', CDSA_OK)" "inserted m ?y m'" by blast
      have "insert_loop m x i = Some (m', CDSA_OK)"
        using occ ne False m'(1) by (subst insert_loop.simps) (auto simp: hm_at_def Let_def)
      moreover have "inserted m x m'" using m'(2) by (simp add: inserted_def)
      ultimately show ?thesis by blast
    qed
  qed
qed

text \<open>An entry that is in the table, met at its slot by a probe for its key.\<close>

lemma probe_reaches:
  assumes "robin_hood es" and "i < length es" and "he_key (es ! i) = Some k"
    and "j \<le> psl (es ! i)"
  defines "s \<equiv> (unat (get_raw_hash k) mod length es + j) mod length es"
  shows "occupied (es ! s)" and "j \<le> psl (es ! s)" and "he_hash (es ! i) = get_raw_hash k"
    and "s = i \<longleftrightarrow> j = psl (es ! i)" and "s < length es"
    and "he_key (es ! s) = Some k \<longleftrightarrow> j = psl (es ! i)"
proof -
  let ?c = "length es" and ?e = "es ! i"
  note rh = robin_hoodD [OF assms(1)]
  have e: "hashed ?e" "(home ?c ?e + psl ?e) mod ?c = i" "psl ?e < ?c"
    using rh(1) assms(2,3) by (auto simp: placed_def)
  show hash: "he_hash ?e = get_raw_hash k" using e(1) assms(3) by (simp add: hashed_def)
  have c: "0 < ?c" using assms(2) by linarith
  have "occupied (es ! ((home ?c ?e + j) mod ?c)) \<and> j \<le> psl (es ! ((home ?c ?e + j) mod ?c))"
    by (rule rising_chain [OF rh(2) c, where d = "psl ?e"]) (use e(2) assms(3,4) in simp_all)
  then show "occupied (es ! s)" and "j \<le> psl (es ! s)" by (simp_all add: s_def hash)
  have si: "s = i \<longleftrightarrow> j = psl ?e"
  proof
    assume "s = i"
    then have "(home ?c ?e + j) mod ?c = (home ?c ?e + psl ?e) mod ?c"
      using e(2) by (simp add: s_def hash)
    then show "j = psl ?e" using mod_differ [of j ?c "psl ?e" "home ?c ?e"] e(3) assms(4) by auto
  next
    assume "j = psl ?e"
    then show "s = i" using e(2) by (simp add: s_def hash)
  qed
  then show "s = i \<longleftrightarrow> j = psl ?e" .
  show sl: "s < ?c" using c by (simp add: s_def)
  show "he_key (es ! s) = Some k \<longleftrightarrow> j = psl ?e"
    using unique_keysD [OF rh(3) sl assms(2) _ assms(3)] si assms(3) by auto
qed

lemma insert_loop_existing:
  "geometry m \<Longrightarrow> robin_hood (hm_entries m) \<Longrightarrow> j < slots m \<Longrightarrow>
   he_key (hm_entries m ! j) = Some k \<Longrightarrow> he_key x = Some k \<Longrightarrow> he_hash x = get_raw_hash k \<Longrightarrow>
   psl x + n = psl (hm_entries m ! j) \<Longrightarrow>
   unat i = (unat (get_raw_hash k) mod slots m + psl x) mod slots m \<Longrightarrow>
   insert_loop m x i =
     Some (m\<lparr>hm_entries := (hm_entries m)[j := (hm_entries m ! j)\<lparr>he_value := he_value x\<rparr>]\<rparr>, CDSA_OK)"
proof (induction n arbitrary: x i)
  case 0
  have le: "psl x \<le> psl (hm_entries m ! j)" using "0.prems"(7) by simp
  note pr = probe_reaches [OF "0.prems"(2-4) le]
  have "unat i = j" using pr(4) "0.prems"(7,8) by simp
  then show ?case
    using "0.prems"(4-6) pr(3) by (subst insert_loop.simps) (simp add: hm_at_def hm_put_def Let_def)
next
  case (Suc n)
  let ?es = "hm_entries m" and ?i = "(i + 1) mod hm_capacity m"
    and ?y = "x\<lparr>he_psl := he_psl x + 1\<rparr>"
  have le: "psl x \<le> psl (?es ! j)" using Suc.prems(7) by simp
  note pr = probe_reaches [OF Suc.prems(2-4) le, folded Suc.prems(8)]
  note g = geometryD [OF Suc.prems(1)]
  have "psl (?es ! j) < slots m"
    using robin_hoodD(1) [OF Suc.prems(2)] Suc.prems(3,4) by (simp add: placed_def)
  then have y: "psl ?y = Suc (psl x)" using psl_inc [OF _ g(3), of x] le by simp
  have ni: "unat ?i = (unat (get_raw_hash k) mod slots m + psl ?y) mod slots m"
    unfolding next_slot [OF Suc.prems(1) pr(5)] y by (simp add: Suc.prems(8) mod_Suc_eq)
  have "psl ?y + n = psl (?es ! j)" using Suc.prems(7) y by simp
  from Suc.IH [OF Suc.prems(1-4) _ _ this ni]
  have "insert_loop m ?y ?i =
      Some (m\<lparr>hm_entries := ?es[j := (?es ! j)\<lparr>he_value := he_value x\<rparr>]\<rparr>, CDSA_OK)"
    using Suc.prems(5,6) by simp
  moreover have "he_key (?es ! unat i) \<noteq> he_key x" using pr(6) Suc.prems(5,7) by simp
  moreover have "\<not> he_psl x > he_psl (?es ! unat i)" using pr(2) by (simp add: size_t_less_iff)
  ultimately show ?case
    using pr(1) by (subst insert_loop.simps) (auto simp: hm_at_def Let_def)
qed

lemma robin_hood_set_value:
  assumes "robin_hood es" and "j < length es"
  shows "robin_hood (es[j := (es ! j)\<lparr>he_value := v\<rparr>])"
proof -
  have f: "he_key (es[j := (es ! j)\<lparr>he_value := v\<rparr>] ! i) = he_key (es ! i)"
    "he_psl (es[j := (es ! j)\<lparr>he_value := v\<rparr>] ! i) = he_psl (es ! i)"
    "he_hash (es[j := (es ! j)\<lparr>he_value := v\<rparr>] ! i) = he_hash (es ! i)" for i
    using assms(2) by (cases "i = j"; simp)+
  show ?thesis
    using assms(1)
    unfolding robin_hood_def placed_def rising_def unique_keys_def hashed_def length_list_update f .
qed

section \<open>The invariant of the map and its operations\<close>

text \<open>
  The table is in Robin Hood order, \<open>size\<close> counts its entries, and at least one slot is free,
  which is what makes every probe end.
\<close>

definition hashmap_inv :: "hashmap \<Rightarrow> bool" where
  "hashmap_inv m \<longleftrightarrow> geometry m \<and> robin_hood (hm_entries m) \<and>
     unat (hm_size m) = load (hm_entries m) \<and> load (hm_entries m) < slots m"

abbreviation the_map :: "hashmap \<Rightarrow> cstring \<Rightarrow> pointer option option" where
  "the_map m \<equiv> table_map (hm_entries m)"

lemma hashmap_invD:
  assumes "hashmap_inv m"
  shows "geometry m" and "robin_hood (hm_entries m)" and "unat (hm_size m) = load (hm_entries m)"
    and "load (hm_entries m) < slots m" and "unique_keys (hm_entries m)"
  using assms by (simp_all add: hashmap_inv_def robin_hood_def)

text \<open>\<open>m'\<close> has the blocks, the capacity and the version of \<open>m\<close>.\<close>

definition same_frame :: "hashmap \<Rightarrow> hashmap \<Rightarrow> bool" where
  "same_frame m m' \<longleftrightarrow> hm_self m' = hm_self m \<and> hm_block m' = hm_block m \<and>
     hm_capacity m' = hm_capacity m \<and> hm_version m' = hm_version m"

lemma internal_insert_ok:
  assumes "hashmap_inv m" and "Suc (load (hm_entries m)) < slots m \<or> the_map m k \<noteq> None"
  shows "\<exists>m'. internal_insert m k v (get_raw_hash k) = Some (m', CDSA_OK) \<and> hashmap_inv m' \<and>
    same_frame m m' \<and> the_map m' = (the_map m)(k \<mapsto> v) \<and>
    load (hm_entries m') = load (hm_entries m) + (if the_map m k = None then 1 else 0)"
proof -
  let ?es = "hm_entries m" and ?x = "\<lparr>he_key = Some k, he_value = v, he_hash = get_raw_hash k, he_psl = 0\<rparr>"
    and ?i = "get_raw_hash k mod hm_capacity m"
  note inv = hashmap_invD [OF assms(1)] and g = geometryD [OF hashmap_invD(1) [OF assms(1)]]
  have i: "unat ?i = unat (get_raw_hash k) mod slots m" using g(1) by (simp add: unat_size_t_mod)
  show ?thesis
  proof (cases "the_map m k")
    case None
    then have nh: "\<forall>v. \<not> holds ?es (the (he_key ?x)) v"
      using table_map_holds [OF inv(5), of k] by auto
    have ar: "arriving ?es ?x (unat ?i)"
      using i g(2) by (simp add: arriving_def hashed_def pending_def)
    obtain z where z: "z < slots m" "\<not> occupied (?es ! z)" using load_less [OF inv(4)] by blast
    have il: "unat ?i < slots m" using i g(2) by simp
    have "(unat ?i + (z + slots m - unat ?i)) mod slots m = z" using il z(1) by simp
    then have "\<not> occupied (?es ! ((unat ?i + (z + slots m - unat ?i)) mod slots m))" using z(2) by simp
    from insert_loop_fresh [OF inv(1,2) ar nh this] obtain m' where
      m': "insert_loop m ?x ?i = Some (m', CDSA_OK)" "inserted m ?x m'" by blast
    from m'(2) obtain es p where es: "m' = m\<lparr>hm_entries := es, hm_size := hm_size m + 1, hm_max_psl := p\<rparr>"
        "length es = slots m" "robin_hood es" "load es = Suc (load ?es)"
        "\<And>k' v'. holds es k' v' \<longleftrightarrow> holds ?es k' v' \<or> (k' = k \<and> v = v')"
      by (auto simp: inserted_def)
    have "unat (hm_size m + 1) = Suc (load ?es)"
      using inv(3,4) g(3) by (subst unat_size_t_Suc) linarith+
    then have "hashmap_inv m'"
      using es inv(1) assms(2) None by (auto simp: hashmap_inv_def geometry_def)
    moreover have "table_map es = (table_map ?es)(k \<mapsto> v)"
      using es(5) nh table_map_holds [OF inv(5)]
      by (intro table_map_eqI) (auto simp: robin_hoodD(3) [OF es(3)])
    ultimately show ?thesis
      using m'(1) es None by (auto simp: internal_insert_def same_frame_def)
  next
    case (Some w)
    then obtain j where j: "j < slots m" "he_key (?es ! j) = Some k"
      using table_map_holds [OF inv(5), of k] by (auto simp: holds_def)
    let ?es' = "?es[j := (?es ! j)\<lparr>he_value := v\<rparr>]"
    let ?m = "m\<lparr>hm_entries := ?es'\<rparr>"
    have "unat ?i = (unat (get_raw_hash k) mod slots m + psl ?x) mod slots m" using i by simp
    from insert_loop_existing [OF inv(1,2) j _ _ _ this]
    have run: "insert_loop m ?x ?i = Some (?m, CDSA_OK)" by simp
    have rh: "robin_hood ?es'" by (rule robin_hood_set_value [OF inv(2) j(1)])
    have ld: "load ?es' = load ?es" using load_update [OF j(1), of "(?es ! j)\<lparr>he_value := v\<rparr>"] by simp
    have "hashmap_inv ?m" using assms(1) rh ld by (simp add: hashmap_inv_def geometry_def)
    moreover have "table_map ?es' = (table_map ?es)(k \<mapsto> v)"
    proof (rule table_map_eqI [OF robin_hoodD(3) [OF rh]])
      fix k' v'
      have "holds ?es' k' v' \<longleftrightarrow> (k' = k \<and> v' = v) \<or> (k' \<noteq> k \<and> holds ?es k' v')"
        using j unique_keysD [OF inv(5)] by (auto simp: holds_update) (auto simp: holds_def)
      then show "holds ?es' k' v' \<longleftrightarrow> ((table_map ?es)(k \<mapsto> v)) k' = Some v'"
        using table_map_holds [OF inv(5)] by auto
    qed
    ultimately show ?thesis
      using run Some ld by (auto simp: internal_insert_def same_frame_def)
  qed
qed

section \<open>Lookup\<close>

text \<open>
  A key is lost when its entry is poorer than \<open>max_psl\<close> says any entry is: the probe of a lookup
  gives up before it.
\<close>

definition lost :: "hashmap \<Rightarrow> cstring \<Rightarrow> bool" where
  "lost m k \<longleftrightarrow> (\<exists>e \<in> set (hm_entries m). he_key e = Some k \<and> psl e > unat (hm_max_psl m))"

lemma lost_entry:
  assumes "unique_keys (hm_entries m)" and "j < slots m" and "he_key (hm_entries m ! j) = Some k"
  shows "lost m k \<longleftrightarrow> \<not> psl (hm_entries m ! j) \<le> unat (hm_max_psl m)"
proof
  assume "lost m k"
  then obtain i where "i < slots m" "he_key (hm_entries m ! i) = Some k"
      "psl (hm_entries m ! i) > unat (hm_max_psl m)"
    by (auto simp: lost_def in_set_conv_nth)
  then show "\<not> psl (hm_entries m ! j) \<le> unat (hm_max_psl m)"
    using unique_keysD [OF assms(1) _ assms(2) _ assms(3)] by fastforce
next
  assume "\<not> psl (hm_entries m ! j) \<le> unat (hm_max_psl m)"
  then show "lost m k" using assms(2,3) nth_mem [OF assms(2)] unfolding lost_def by force
qed

text \<open>
  Both probe loops do the same: they stop at the key's entry unless it is lost.  \<open>P\<close> stands for
  what the loop does there, \<open>Q\<close> for what it does when it gives up.
\<close>

lemma probe_found:
  assumes loop: "\<And>i d. L i d = (let e = hm_at m i in
      if he_key e \<noteq> None \<and> d \<le> hm_max_psl m then
        if he_hash e = get_raw_hash k \<and> he_key e = Some k then P i
        else L ((i + 1) mod hm_capacity m) (d + 1)
      else Q)"
    and inv: "hashmap_inv m" and j: "j < slots m" "he_key (hm_entries m ! j) = Some k"
  shows "unat d + n = psl (hm_entries m ! j) \<Longrightarrow>
    unat i = (unat (get_raw_hash k) mod slots m + unat d) mod slots m \<Longrightarrow>
    L i d = (if lost m k then Q else P (of_nat j))"
proof (induction n arbitrary: i d)
  case 0
  note iv = hashmap_invD [OF inv]
  have le: "unat d \<le> psl (hm_entries m ! j)" using "0.prems"(1) by simp
  note pr = probe_reaches [OF iv(2) j le, folded "0.prems"(2)]
  have ij: "unat i = j" using pr(4) "0.prems"(1) by simp
  then have "i = of_nat j" by (simp flip: ij)
  then show ?case
    using ij pr(3) j(2) "0.prems"(1) lost_entry [OF iv(5) j]
    by (subst loop) (simp add: hm_at_def Let_def size_t_le_iff)
next
  case (Suc n)
  note iv = hashmap_invD [OF inv] and g = geometryD [OF hashmap_invD(1) [OF inv]]
  have le: "unat d \<le> psl (hm_entries m ! j)" using Suc.prems(1) by simp
  note pr = probe_reaches [OF iv(2) j le, folded Suc.prems(2)]
  have "psl (hm_entries m ! j) < slots m"
    using robin_hoodD(1) [OF iv(2)] j by (simp add: placed_def)
  then have d: "unat (d + 1) = Suc (unat d)"
    using g(3) le by (intro unat_size_t_Suc) linarith
  have ni: "unat ((i + 1) mod hm_capacity m) =
      (unat (get_raw_hash k) mod slots m + unat (d + 1)) mod slots m"
    unfolding next_slot [OF iv(1) pr(5)] d by (simp add: Suc.prems(2) mod_Suc_eq)
  have "unat (d + 1) + n = psl (hm_entries m ! j)" using Suc.prems(1) d by simp
  note rest = Suc.IH [OF this ni]
  have "he_key (hm_entries m ! unat i) \<noteq> Some k" using pr(6) Suc.prems(1) by simp
  moreover have "\<not> d \<le> hm_max_psl m \<Longrightarrow> lost m k"
    using le lost_entry [OF iv(5) j] by (simp add: size_t_le_iff)
  ultimately show ?case using pr(1) rest by (subst loop) (auto simp: hm_at_def Let_def)
qed

lemma probe_absent:
  assumes loop: "\<And>i d. L i d = (let e = hm_at m i in
      if he_key e \<noteq> None \<and> d \<le> hm_max_psl m then
        if he_hash e = get_raw_hash k \<and> he_key e = Some k then P i
        else L ((i + 1) mod hm_capacity m) (d + 1)
      else Q)"
    and inv: "hashmap_inv m" and absent: "\<forall>v. \<not> holds (hm_entries m) k v"
  shows "unat i < slots m \<Longrightarrow> \<not> occupied (hm_entries m ! ((unat i + n) mod slots m)) \<Longrightarrow> L i d = Q"
proof (induction n arbitrary: i d)
  case 0
  then show ?case by (subst loop) (simp add: hm_at_def)
next
  case (Suc n)
  note iv = hashmap_invD [OF inv] and g = geometryD [OF hashmap_invD(1) [OF inv]]
  note ni = next_slot [OF iv(1) Suc.prems(1)]
  have "unat ((i + 1) mod hm_capacity m) < slots m" using ni g(2) by simp
  moreover have "(unat ((i + 1) mod hm_capacity m) + n) mod slots m = (unat i + Suc n) mod slots m"
    by (simp add: ni mod_add_left_eq)
  ultimately have "L ((i + 1) mod hm_capacity m) (d + 1) = Q"
    using Suc.IH Suc.prems(2) by simp
  moreover have "he_key (hm_entries m ! unat i) \<noteq> Some k"
    using absent Suc.prems(1) by (auto simp: holds_def)
  ultimately show ?case by (subst loop) (auto simp: hm_at_def Let_def)
qed

lemma probe_result:
  assumes loop: "\<And>i d. L i d = (let e = hm_at m i in
      if he_key e \<noteq> None \<and> d \<le> hm_max_psl m then
        if he_hash e = get_raw_hash k \<and> he_key e = Some k then P i
        else L ((i + 1) mod hm_capacity m) (d + 1)
      else Q)"
    and inv: "hashmap_inv m"
  shows "(the_map m k = None \<longrightarrow> L (get_raw_hash k mod hm_capacity m) 0 = Q) \<and>
    (\<forall>j < slots m. he_key (hm_entries m ! j) = Some k \<longrightarrow>
      L (get_raw_hash k mod hm_capacity m) 0 = (if lost m k then Q else P (of_nat j)))"
proof (intro conjI impI allI)
  note iv = hashmap_invD [OF inv] and g = geometryD [OF hashmap_invD(1) [OF inv]]
  let ?i = "get_raw_hash k mod hm_capacity m"
  have i: "unat ?i = unat (get_raw_hash k) mod slots m" using g(1) by (simp add: unat_size_t_mod)
  then have il: "unat ?i < slots m" using g(2) by simp
  show "L ?i 0 = Q" if "the_map m k = None"
  proof -
    have "\<forall>v. \<not> holds (hm_entries m) k v" using that table_map_holds [OF iv(5), of k] by auto
    moreover obtain z where z: "z < slots m" "\<not> occupied (hm_entries m ! z)"
      using load_less [OF iv(4)] by blast
    moreover have "(unat ?i + (z + slots m - unat ?i)) mod slots m = z" using il z(1) by simp
    then have "\<not> occupied (hm_entries m ! ((unat ?i + (z + slots m - unat ?i)) mod slots m))"
      using z(2) by simp
    ultimately show ?thesis using probe_absent [OF loop inv _ il] by blast
  qed
  fix j assume j: "j < slots m" "he_key (hm_entries m ! j) = Some k"
  show "L ?i 0 = (if lost m k then Q else P (of_nat j))"
    by (rule probe_found [OF loop inv j, where n = "psl (hm_entries m ! j)"]) (simp_all add: i)
qed

lemma the_map_entry:
  assumes "unique_keys (hm_entries m)" and "the_map m k = Some v"
  obtains j where "j < slots m" and "he_key (hm_entries m ! j) = Some k"
    and "he_value (hm_entries m ! j) = v"
  using assms table_map_holds [OF assms(1), of k v] by (auto simp: holds_def)

lemma get_hashmap_result:
  assumes "hashmap_inv m"
  shows "get_hashmap (Some m) (Some k) =
    Some (case the_map m k of None \<Rightarrow> None | Some v \<Rightarrow> if lost m k then None else v)"
proof -
  note iv = hashmap_invD [OF assms] and g = geometryD [OF hashmap_invD(1) [OF assms]]
  note res = probe_result [where L = "get_loop m k (get_raw_hash k)" and P = "\<lambda>i. Some (he_value (hm_at m i))"
      and Q = "Some None", OF _ assms, of k]
  have loop: "get_loop m k (get_raw_hash k) i d = (let e = hm_at m i in
      if he_key e \<noteq> None \<and> d \<le> hm_max_psl m then
        if he_hash e = get_raw_hash k \<and> he_key e = Some k then Some (he_value (hm_at m i))
        else get_loop m k (get_raw_hash k) ((i + 1) mod hm_capacity m) (d + 1)
      else Some None)" for i d
    by (subst get_loop.simps) (simp add: Let_def)
  show ?thesis
  proof (cases "the_map m k")
    case None
    then show ?thesis using res [OF loop] by (simp add: get_hashmap_def Let_def)
  next
    case (Some v)
    then obtain j where j: "j < slots m" "he_key (hm_entries m ! j) = Some k"
        "he_value (hm_entries m ! j) = v"
      by (rule the_map_entry [OF iv(5)])
    have "hm_at m (of_nat j) = hm_entries m ! j"
      using j(1) g(3) by (simp add: hm_at_def)
    then show ?thesis using res [OF loop] j Some by (simp add: get_hashmap_def Let_def)
  qed
qed

section \<open>Removal\<close>

lemma empty_entry_simps [simp]:
  "he_key empty_entry = None" "he_psl empty_entry = 0"
  by (simp_all add: empty_entry_def)

lemma next_differs:
  assumes "i < length es" and "z < length es" and "z \<noteq> i"
  shows "Suc i mod length es \<noteq> i"
proof -
  have "1 < length es" "0 < length es" using assms by linarith+
  from mod_differ [OF this, of i] show ?thesis using assms(1) by simp
qed

text \<open>One step of the backward shift: the next entry moves one slot towards its home.\<close>

lemma shift_step:
  fixes es i
  defines "n \<equiv> Suc i mod length es"
  defines "x \<equiv> (es ! n)\<lparr>he_psl := he_psl (es ! n) - 1\<rparr>"
  assumes "placed es" and "rising es" and "unique_keys (es[i := empty_entry])"
    and "i < length es" and "occupied (es ! i)" and "occupied (es ! n)" and "0 < psl (es ! n)"
    and "z < length es" and "\<not> occupied (es ! z)"
  shows "placed (es[i := x])" and "rising (es[i := x])"
    and "unique_keys (es[i := x, n := empty_entry])"
    and "holds (es[i := x, n := empty_entry]) k v \<longleftrightarrow> holds (es[i := empty_entry]) k v"
    and "psl x = psl (es ! n) - 1" and "n \<noteq> i" and "occupied x"
proof -
  let ?c = "length es" and ?e = "es ! n"
  have zi: "z \<noteq> i" using assms(7,11) by auto
  show ni: "n \<noteq> i" unfolding n_def by (rule next_differs [OF assms(6,10) zi])
  have n: "n < ?c" using assms(6) unfolding n_def by (intro mod_less_divisor) linarith
  show px: "psl x = psl ?e - 1" using assms(9) by (simp add: x_def unat_size_t_pred)
  show ox: "occupied x" using assms(8) by (simp add: x_def)
  have e: "hashed ?e" "(home ?c ?e + psl ?e) mod ?c = n" "psl ?e < ?c"
    using assms(3,8) n by (auto simp: placed_def)
  have hx: "home ?c x = home ?c ?e" "hashed x" "he_key x = he_key ?e" "he_value x = he_value ?e"
    using e(1) by (simp_all add: x_def hashed_def)
  have "Suc ((home ?c ?e + psl x) mod ?c) mod ?c = n"
    using e(2) px assms(9) by (simp add: mod_Suc_eq)
  then have "(home ?c x + psl x) mod ?c = i"
    using Suc_mod_inject [of "(home ?c ?e + psl x) mod ?c" ?c i] assms(6) hx(1)
    by (simp add: n_def) (metis length_greater_0_conv list.size(3) mod_less_divisor not_less0)
  moreover have "psl x < ?c" using px e(3) by linarith
  ultimately show "placed (es[i := x])" using placed_update [OF assms(3,6)] hx(2) by blast
  have here: "occupied (es ! i) \<and> psl ?e \<le> Suc (psl (es ! i))"
    using assms(4,6,8,9) unfolding rising_def n_def by blast
  show "rising (es[i := x])"
  proof (rule rising_update [OF assms(4,6)])
    show "occupied x \<and> 0 < psl x \<longrightarrow> (\<forall>p < ?c. Suc p mod ?c = i \<longrightarrow>
        occupied (es[i := x] ! p) \<and> psl x \<le> Suc (psl (es[i := x] ! p)))"
    proof (intro impI allI)
      fix p assume "occupied x \<and> 0 < psl x" and p: "p < ?c" "Suc p mod ?c = i"
      then have pos: "0 < psl (es ! i)" and le: "psl x \<le> psl (es ! i)" using here px by linarith+
      have "occupied (es ! p) \<and> psl (es ! i) \<le> Suc (psl (es ! p))"
        using assms(4,7) p pos unfolding rising_def by blast
      moreover have "p \<noteq> i" using ni p(2) by (auto simp: n_def)
      ultimately show "occupied (es[i := x] ! p) \<and> psl x \<le> Suc (psl (es[i := x] ! p))"
        using le by auto
    qed
  next
    show "occupied x \<and> psl (es ! (Suc i mod ?c)) \<le> Suc (psl x)"
      using ox px by (simp add: n_def)
  qed
  let ?b = "es[i := empty_entry, n := empty_entry]"
  have swap: "es[i := x, n := empty_entry] = ?b[i := x]"
    using ni by (simp add: list_update_swap [of n i])
  have ub: "unique_keys ?b"
    using unique_keys_update [OF assms(5), of n empty_entry] n by simp
  have "he_key (?b ! j) \<noteq> he_key x" if j: "j < ?c" "j \<noteq> i" for j
  proof (cases "j = n")
    case True
    then show ?thesis using n ox by auto
  next
    case False
    then show ?thesis
      using unique_keysD [OF assms(5), of j n] j n ni ox hx(3) assms(8) by auto
  qed
  then show "unique_keys (es[i := x, n := empty_entry])"
    unfolding swap using unique_keys_update [OF ub, of i x] assms(6) by simp
  show "holds (es[i := x, n := empty_entry]) k v \<longleftrightarrow> holds (es[i := empty_entry]) k v"
    unfolding swap using assms(6) n ni hx(3,4)
    by (auto simp: holds_update nth_list_update)
qed

text \<open>The highest probe length in the map is at least that of every entry.\<close>

definition max_psl_ok :: "hashmap \<Rightarrow> bool" where
  "max_psl_ok m \<longleftrightarrow> (\<forall>e \<in> set (hm_entries m). occupied e \<longrightarrow> psl e \<le> unat (hm_max_psl m))"

lemma max_psl_ok_lost: "max_psl_ok m \<Longrightarrow> \<not> lost m k"
  by (fastforce simp: max_psl_ok_def lost_def)

lemma shift_loop_ok:
  "geometry m \<Longrightarrow> placed (hm_entries m) \<Longrightarrow> rising (hm_entries m) \<Longrightarrow>
   unique_keys ((hm_entries m)[unat i := empty_entry]) \<Longrightarrow> unat i < slots m \<Longrightarrow>
   occupied (hm_entries m ! unat i) \<Longrightarrow>
   \<not> occupied (hm_entries m ! ((Suc (unat i) + n) mod slots m)) \<Longrightarrow>
   \<exists>es j a'. shift_loop m i a = Some (m\<lparr>hm_entries := es\<rparr>, j, a') \<and> length es = slots m \<and>
     placed es \<and> rising es \<and> unat j < slots m \<and> occupied (es ! unat j) \<and>
     \<not> (occupied (es ! (Suc (unat j) mod slots m)) \<and> 0 < psl (es ! (Suc (unat j) mod slots m))) \<and>
     unique_keys (es[unat j := empty_entry]) \<and> load es = load (hm_entries m) \<and>
     (\<forall>k v. holds (es[unat j := empty_entry]) k v \<longleftrightarrow>
        holds ((hm_entries m)[unat i := empty_entry]) k v) \<and>
     (max_psl_ok m \<longrightarrow> max_psl_ok (m\<lparr>hm_entries := es\<rparr>))"
proof (induction n arbitrary: m i a)
  case 0
  note ni = next_slot [OF "0.prems"(1,5)]
  have free: "\<not> occupied (hm_entries m ! (Suc (unat i) mod slots m))" using "0.prems"(7) by simp
  then have "shift_loop m i a = Some (m\<lparr>hm_entries := hm_entries m\<rparr>, i, a)"
    by (subst shift_loop.simps) (simp add: hm_at_def ni Let_def)
  moreover have "m\<lparr>hm_entries := hm_entries m\<rparr> = m" by simp
  ultimately show ?case using "0.prems" free by (intro exI [of _ "hm_entries m"] exI [of _ i]) simp
next
  case (Suc n)
  let ?es = "hm_entries m" and ?i = "(i + 1) mod hm_capacity m"
  note ni = next_slot [OF Suc.prems(1,5)] and g = geometryD [OF Suc.prems(1)]
  let ?e = "?es ! (Suc (unat i) mod slots m)"
  show ?case
  proof (cases "occupied ?e \<and> 0 < psl ?e")
    case False
    then have stop: "\<not> (he_key ?e \<noteq> None \<and> he_psl ?e > 0)" by (auto simp: size_t_less_iff)
    then have "shift_loop m i a = Some (m\<lparr>hm_entries := ?es\<rparr>, i, a)"
      by (subst shift_loop.simps) (auto simp: hm_at_def ni Let_def)
    moreover have "m\<lparr>hm_entries := ?es\<rparr> = m" by simp
    ultimately show ?thesis
      using Suc.prems False by (intro exI [of _ ?es] exI [of _ i]) simp
  next
    case True
    define z where "z = (Suc (unat i) + Suc n) mod slots m"
    have z: "z < slots m" "\<not> occupied (?es ! z)" using g(2) Suc.prems(7) by (simp_all add: z_def)
    define x where "x = ?e\<lparr>he_psl := he_psl ?e - 1\<rparr>"
    note st = shift_step [OF Suc.prems(2,3,4,5,6) True [THEN conjunct1] True [THEN conjunct2] z,
        folded x_def]
    have zi: "z \<noteq> unat i" using z(2) Suc.prems(6) by auto
    let ?m = "hm_put m i x"
    have es: "hm_entries ?m = ?es[unat i := x]" "hm_capacity ?m = hm_capacity m"
      "hm_max_psl ?m = hm_max_psl m"
      by (simp_all add: hm_put_def)
    have g': "geometry ?m" using Suc.prems(1) by (simp add: geometry_def hm_put_def)
    have nl: "unat ?i < slots ?m" using ni g(2) es by simp
    have occ: "occupied (hm_entries ?m ! unat ?i)" using True st(6) by (simp add: es ni)
    have "(Suc (unat ?i) + n) mod slots m = z"
      using mod_add_left_eq [of "Suc (unat i)" "slots m" "Suc n"] by (simp add: ni z_def)
    then have "\<not> occupied (hm_entries ?m ! ((Suc (unat ?i) + n) mod slots ?m))"
      using z zi by (simp add: es)
    moreover have "placed (hm_entries ?m)" "rising (hm_entries ?m)"
      "unique_keys ((hm_entries ?m)[unat ?i := empty_entry])"
      using st(1,2,3) by (simp_all add: es ni)
    ultimately obtain es' j a' where r:
      "shift_loop ?m ?i (a \<or> he_psl ?e = hm_max_psl m) = Some (?m\<lparr>hm_entries := es'\<rparr>, j, a')"
      "length es' = slots ?m" "placed es'" "rising es'" "unat j < slots ?m" "occupied (es' ! unat j)"
      "\<not> (occupied (es' ! (Suc (unat j) mod slots ?m)) \<and> 0 < psl (es' ! (Suc (unat j) mod slots ?m)))"
      "unique_keys (es'[unat j := empty_entry])" "load es' = load (hm_entries ?m)"
      "\<forall>k v. holds (es'[unat j := empty_entry]) k v \<longleftrightarrow>
        holds ((hm_entries ?m)[unat ?i := empty_entry]) k v"
      "max_psl_ok ?m \<longrightarrow> max_psl_ok (?m\<lparr>hm_entries := es'\<rparr>)"
      using Suc.IH [OF g' _ _ _ nl occ] by blast
    have "he_psl ?e > 0" using True by (simp add: size_t_less_iff)
    then have "shift_loop m i a = Some (m\<lparr>hm_entries := es'\<rparr>, j, a')"
      using r(1) True by (subst shift_loop.simps) (auto simp: hm_at_def ni x_def hm_put_def Let_def)
    moreover have "load (hm_entries ?m) = load ?es"
      using load_update [OF Suc.prems(5), of x] Suc.prems(6) st(7) by (simp add: es)
    moreover have "\<forall>k v. holds ((hm_entries ?m)[unat ?i := empty_entry]) k v \<longleftrightarrow>
        holds (?es[unat i := empty_entry]) k v"
      using st(4) by (simp add: es ni)
    moreover have "max_psl_ok m \<longrightarrow> max_psl_ok ?m"
    proof
      assume mx: "max_psl_ok m"
      have "?e \<in> set ?es" using g(2) by simp
      then have "psl ?e \<le> unat (hm_max_psl m)" using mx True by (simp add: max_psl_ok_def)
      then have "psl x \<le> unat (hm_max_psl m)" using st(5) by simp
      then show "max_psl_ok ?m"
        using mx set_update_subset_insert [of ?es "unat i" x] by (auto simp: max_psl_ok_def es)
    qed
    moreover have "max_psl_ok (?m\<lparr>hm_entries := es'\<rparr>) = max_psl_ok (m\<lparr>hm_entries := es'\<rparr>)"
      by (simp add: max_psl_ok_def hm_put_def)
    ultimately show ?thesis using r(2-11) es by (intro exI [of _ es'] exI [of _ j] exI [of _ a']) simp
  qed
qed

lemma fold_max_psl:
  "M \<le> fold (\<lambda>e b. if occupied e \<and> he_psl e > b then he_psl e else b) es M \<and>
   (\<forall>e \<in> set es. occupied e \<longrightarrow>
      he_psl e \<le> fold (\<lambda>e b. if occupied e \<and> he_psl e > b then he_psl e else b) es M)"
proof (induction es arbitrary: M)
  case Nil
  then show ?case by simp
next
  case (Cons e es)
  let ?M = "if occupied e \<and> he_psl e > M then he_psl e else M"
  have "M \<le> ?M" "occupied e \<longrightarrow> he_psl e \<le> ?M" by auto
  then show ?case using Cons.IH [of ?M] by (auto intro: order_trans)
qed

lemma recalculate_ok:
  assumes "geometry m"
  shows "max_psl_ok (recalculate_max_psl m)" and "hm_entries (recalculate_max_psl m) = hm_entries m"
    and "same_frame m (recalculate_max_psl m)" and "hm_size (recalculate_max_psl m) = hm_size m"
  using fold_max_psl [of 0 "hm_entries m"] geometryD(1) [OF assms]
  by (simp_all add: max_psl_ok_def recalculate_max_psl_def same_frame_def size_t_le_iff)

lemma remove_at_ok:
  assumes "hashmap_inv m" and "unat i < slots m" and "he_key (hm_entries m ! unat i) = Some k"
  shows "\<exists>m'. remove_at m i = Some (m', CDSA_OK) \<and> hashmap_inv m' \<and>
    the_map m' = (the_map m)(k := None) \<and> Suc (load (hm_entries m')) = load (hm_entries m) \<and>
    hm_self m' = hm_self m \<and> hm_block m' = hm_block m \<and> hm_capacity m' = hm_capacity m \<and>
    hm_version m' = hm_version m + 1 \<and> (max_psl_ok m \<longrightarrow> max_psl_ok m')"
proof -
  let ?es = "hm_entries m"
  note iv = hashmap_invD [OF assms(1)] and g = geometryD [OF hashmap_invD(1) [OF assms(1)]]
  define m1 where "m1 = m\<lparr>hm_size := hm_size m - 1, hm_version := hm_version m + 1\<rparr>"
  have es1: "hm_entries m1 = ?es" by (simp add: m1_def)
  have g1: "geometry m1" using iv(1) by (simp add: geometry_def m1_def)
  obtain z where z: "z < slots m" "\<not> occupied (?es ! z)" using load_less [OF iv(4)] by blast
  let ?n = "z + slots m - Suc (unat i)"
  have "Suc (unat i) + ?n = z + slots m" using assms(2) by simp
  then have free: "\<not> occupied (hm_entries m1 ! ((Suc (unat i) + ?n) mod slots m1))"
    unfolding es1 using z by (simp only: mod_add_self2 mod_less not_False_eq_True)
  have u: "unique_keys ((hm_entries m1)[unat i := empty_entry])"
    using unique_keys_update [OF iv(5) assms(2), of empty_entry] by (simp add: es1)
  from robin_hoodD(1,2) [OF iv(2)] have "placed (hm_entries m1)" "rising (hm_entries m1)"
    by (simp_all add: es1)
  from shift_loop_ok [OF g1 this u _ _ free, of "he_psl (hm_at m i) = hm_max_psl m"]
  obtain es j a where r:
    "shift_loop m1 i (he_psl (hm_at m i) = hm_max_psl m) = Some (m1\<lparr>hm_entries := es\<rparr>, j, a)"
    "length es = slots m" "placed es" "rising es" "unat j < slots m" "occupied (es ! unat j)"
    "\<not> (occupied (es ! (Suc (unat j) mod slots m)) \<and> 0 < psl (es ! (Suc (unat j) mod slots m)))"
    "unique_keys (es[unat j := empty_entry])" "load es = load ?es"
    "\<forall>k v. holds (es[unat j := empty_entry]) k v \<longleftrightarrow> holds (?es[unat i := empty_entry]) k v"
    "max_psl_ok m1 \<longrightarrow> max_psl_ok (m1\<lparr>hm_entries := es\<rparr>)"
    using assms(2,3) unfolding es1 by auto
  define m2 where "m2 = hm_put (m1\<lparr>hm_entries := es\<rparr>) j empty_entry"
  let ?f = "es[unat j := empty_entry]"
  have e2: "hm_entries m2 = ?f" by (simp add: m2_def hm_put_def)
  have "rising ?f"
    using r(4,5,7) r(2) by (intro rising_update) simp_all
  moreover have "placed ?f" using r(2,3,5) by (intro placed_update) simp_all
  ultimately have rh: "robin_hood ?f" using r(8) by (simp add: robin_hood_def)
  have ld: "Suc (load ?f) = load ?es"
    using load_update [of "unat j" es empty_entry] r(2,5,6,9) by simp
  have "0 < unat (hm_size m)" using ld iv(3) by linarith
  then have sz: "unat (hm_size m2) = load ?f"
    using ld iv(3) by (simp add: m2_def m1_def hm_put_def unat_size_t_pred)
  have g2: "geometry m2" using iv(1) r(2) by (simp add: geometry_def m2_def m1_def hm_put_def)
  have inv2: "hashmap_inv m2"
    using g2 rh sz ld iv(4) r(2) by (simp add: hashmap_inv_def e2)
  have map2: "the_map m2 = (the_map m)(k := None)"
    unfolding e2
  proof (rule table_map_eqI [OF robin_hoodD(3) [OF rh]])
    fix k' v'
    have "holds ?f k' v' \<longleftrightarrow> k' \<noteq> k \<and> holds ?es k' v'"
      using assms(2,3) r(10) unique_keysD [OF iv(5)] by (auto simp: holds_update) (auto simp: holds_def)
    then show "holds ?f k' v' \<longleftrightarrow> ((the_map m)(k := None)) k' = Some v'"
      using table_map_holds [OF iv(5)] by auto
  qed
  have mx: "max_psl_ok m \<longrightarrow> max_psl_ok m2"
    using r(11) set_update_subset_insert [of es "unat j" empty_entry]
    by (auto simp: max_psl_ok_def e2 m2_def m1_def hm_put_def)
  let ?m = "if a then recalculate_max_psl m2 else m2"
  note rc = recalculate_ok [OF g2]
  have "remove_at m i = Some (?m, CDSA_OK)"
    using r(1) by (simp add: remove_at_def m1_def [symmetric] m2_def Let_def)
  moreover have "hashmap_inv ?m"
    using inv2 rc(2-4) by (simp add: hashmap_inv_def geometry_def same_frame_def)
  moreover have "the_map ?m = (the_map m)(k := None)" using map2 rc(2) by simp
  moreover have "Suc (load (hm_entries ?m)) = load ?es" using ld rc(2) e2 by simp
  moreover have "hm_self ?m = hm_self m \<and> hm_block ?m = hm_block m \<and>
      hm_capacity ?m = hm_capacity m \<and> hm_version ?m = hm_version m + 1"
    using rc(3) by (simp add: same_frame_def m2_def m1_def hm_put_def)
  moreover have "max_psl_ok m \<longrightarrow> max_psl_ok ?m" using mx rc(1) by simp
  ultimately show ?thesis by blast
qed

lemma remove_hashmap_result:
  assumes "hashmap_inv m"
  shows "if the_map m k = None \<or> lost m k
    then remove_hashmap (Some m) (Some k) = Some (Some m, CDSA_ERR_NOT_FOUND)
    else \<exists>m'. remove_hashmap (Some m) (Some k) = Some (Some m', CDSA_OK) \<and> hashmap_inv m' \<and>
      the_map m' = (the_map m)(k := None) \<and> Suc (load (hm_entries m')) = load (hm_entries m) \<and>
      hm_self m' = hm_self m \<and> hm_block m' = hm_block m \<and> hm_capacity m' = hm_capacity m \<and>
      hm_version m' = hm_version m + 1 \<and> (max_psl_ok m \<longrightarrow> max_psl_ok m')"
proof -
  note iv = hashmap_invD [OF assms] and g = geometryD [OF hashmap_invD(1) [OF assms]]
  have loop: "remove_loop m k (get_raw_hash k) i d = (let e = hm_at m i in
      if he_key e \<noteq> None \<and> d \<le> hm_max_psl m then
        if he_hash e = get_raw_hash k \<and> he_key e = Some k then remove_at m i
        else remove_loop m k (get_raw_hash k) ((i + 1) mod hm_capacity m) (d + 1)
      else Some (m, CDSA_ERR_NOT_FOUND))" for i d
    by (subst remove_loop.simps) simp
  note res = probe_result [where L = "remove_loop m k (get_raw_hash k)" and P = "remove_at m"
      and Q = "Some (m, CDSA_ERR_NOT_FOUND)", OF loop assms]
  show ?thesis
  proof (cases "the_map m k")
    case None
    then show ?thesis using res by (simp add: remove_hashmap_def Let_def)
  next
    case (Some v)
    then obtain j where j: "j < slots m" "he_key (hm_entries m ! j) = Some k"
      by (rule the_map_entry [OF iv(5)])
    show ?thesis
    proof (cases "lost m k")
      case True
      then show ?thesis using res j by (simp add: remove_hashmap_def Let_def)
    next
      case False
      have u: "unat (of_nat j :: size_t) = j" using j(1) g(3) by simp
      from remove_at_ok [OF assms, of "of_nat j" k] j u obtain m' where
        "remove_at m (of_nat j) = Some (m', CDSA_OK)" "hashmap_inv m'"
        "the_map m' = (the_map m)(k := None)" "Suc (load (hm_entries m')) = load (hm_entries m)"
        "hm_self m' = hm_self m" "hm_block m' = hm_block m" "hm_capacity m' = hm_capacity m"
        "hm_version m' = hm_version m + 1" "max_psl_ok m \<longrightarrow> max_psl_ok m'" by auto
      then show ?thesis using res j False Some by (simp add: remove_hashmap_def Let_def)
    qed
  qed
qed

section \<open>Growth\<close>

lemma unique_keys_Cons:
  assumes "unique_keys (e # es)"
  shows "unique_keys es" and "he_key e = Some k \<Longrightarrow> table_map es k = None"
proof -
  have "i = j" if "i < length es" "j < length es" "occupied (es ! i)" "he_key (es ! i) = he_key (es ! j)"
    for i j
  proof -
    from that(3) obtain k where k: "he_key (es ! i) = Some k" by blast
    then show ?thesis
      using unique_keysD [OF assms, of "Suc i" "Suc j" k] that by simp
  qed
  then show u: "unique_keys es" unfolding unique_keys_def by blast
  show "table_map es k = None" if k: "he_key e = Some k"
  proof (rule ccontr)
    assume "table_map es k \<noteq> None"
    then obtain v where "holds es k v" using table_map_holds [OF u] by blast
    then obtain i where "i < length es" "he_key (es ! i) = Some k" by (auto simp: holds_def)
    then show False using unique_keysD [OF assms, of 0 "Suc i" k] k by simp
  qed
qed

lemma table_map_Cons:
  "table_map (e # es) = (case he_key e of None \<Rightarrow> table_map es | Some k \<Rightarrow> (table_map es)(k \<mapsto> he_value e))"
  by (auto simp: table_map_def split: option.splits)

lemma load_Cons: "load (e # es) = (if occupied e then 1 else 0) + load es"
  by (simp add: load_def)

lemma resize_loop_ok:
  "hashmap_inv m \<Longrightarrow> unique_keys es \<Longrightarrow> \<forall>e \<in> set es. occupied e \<longrightarrow> hashed e \<Longrightarrow>
   dom (the_map m) \<inter> dom (table_map es) = {} \<Longrightarrow> load (hm_entries m) + load es < slots m \<Longrightarrow>
   \<exists>m'. resize_loop es m = Some m' \<and> hashmap_inv m' \<and> same_frame m m' \<and>
     the_map m' = the_map m ++ table_map es \<and>
     load (hm_entries m') = load (hm_entries m) + load es"
proof (induction es arbitrary: m)
  case Nil
  then show ?case by (simp add: same_frame_def table_map_def load_def)
next
  case (Cons e es)
  note u = unique_keys_Cons [OF Cons.prems(2)]
  show ?case
  proof (cases "he_key e")
    case None
    then show ?thesis
      using Cons.IH [OF Cons.prems(1) u(1)] Cons.prems(3-5) by (simp add: table_map_Cons load_Cons)
  next
    case (Some k)
    have hash: "he_hash e = get_raw_hash k" using Cons.prems(3) Some by (simp add: hashed_def)
    have "table_map (e # es) = (table_map es)(k \<mapsto> he_value e)"
      using Some by (simp add: table_map_Cons)
    then have dj: "dom (the_map m) \<inter> dom ((table_map es)(k \<mapsto> he_value e)) = {}"
      using Cons.prems(4) by metis
    then have new: "the_map m k = None" by auto
    have ld: "load (hm_entries m) + Suc (load es) < slots m"
      using Cons.prems(5) Some by (simp add: load_Cons)
    then have room: "Suc (load (hm_entries m)) < slots m \<or> the_map m k \<noteq> None" by simp
    from internal_insert_ok [OF Cons.prems(1) room, of "he_value e"] obtain m1 where
      m1: "internal_insert m k (he_value e) (get_raw_hash k) = Some (m1, CDSA_OK)" "hashmap_inv m1"
        "same_frame m m1" "the_map m1 = (the_map m)(k \<mapsto> he_value e)"
        "load (hm_entries m1) = load (hm_entries m) + 1"
      using new by auto
    have "slots m1 = slots m"
      using geometryD(1) [OF hashmap_invD(1) [OF m1(2)]] geometryD(1) [OF hashmap_invD(1) [OF Cons.prems(1)]]
        m1(3) by (simp add: same_frame_def)
    moreover have "dom (the_map m1) \<inter> dom (table_map es) = {}"
      using dj u(2) [OF Some] m1(4) by (auto simp: domIff)
    ultimately obtain m2 where
      m2: "resize_loop es m1 = Some m2" "hashmap_inv m2" "same_frame m1 m2"
        "the_map m2 = the_map m1 ++ table_map es" "load (hm_entries m2) = load (hm_entries m1) + load es"
      using Cons.IH [OF m1(2) u(1)] Cons.prems(3) ld m1(5) by auto
    have "the_map m2 = the_map m ++ table_map (e # es)"
      using m2(4) m1(4) u(2) [OF Some] Some
      by (simp add: table_map_Cons fun_eq_iff map_add_def split: option.split)
    then show ?thesis
      using m1 m2 Some hash by (simp add: load_Cons same_frame_def)
  qed
qed

lemma robin_hood_empty: "robin_hood (replicate n empty_entry)"
  by (auto simp: robin_hood_def placed_def rising_def unique_keys_def)

lemma empty_table:
  "table_map (replicate n empty_entry) = Map.empty" "load (replicate n empty_entry) = 0"
  by (simp_all add: table_map_def load_def)

lemma zero_entries_calloc:
  assumes "unat c * 32 < size_bound"
  shows "zero_entries (replicate (unat (c * sizeof_hash_entry)) 0) = replicate (unat c) empty_entry"
proof -
  have "unat (c * sizeof_hash_entry) = unat c * 32"
    using assms by (simp add: sizeof_hash_entry_def unat_size_t_mult)
  then show ?thesis by (simp add: zero_entries_def sizeof_hash_entry_def)
qed

section \<open>The map on the heap\<close>

definition hashmap_owned :: "heap \<Rightarrow> hashmap \<Rightarrow> bool" where
  "hashmap_owned h m \<longleftrightarrow> hm_self m \<noteq> hm_block m \<and> owns h (hm_self m) sizeof_hashmap \<and>
     owns h (hm_block m) (hm_capacity m * sizeof_hash_entry)"

definition hm_ok :: "heap \<Rightarrow> hashmap \<Rightarrow> bool" where
  "hm_ok h m \<longleftrightarrow> heap_ok h \<and> hashmap_inv m \<and> hashmap_owned h m"

abbreviation hm_frame :: "heap \<Rightarrow> hashmap \<Rightarrow> (block_id \<times> mblock) list" where
  "hm_frame h m \<equiv> others {hm_self m, hm_block m} h"

text \<open>The next growth does not wrap.\<close>

definition hm_room :: "hashmap \<Rightarrow> bool" where
  "hm_room m \<longleftrightarrow> 128 * unat (hm_capacity m) < size_bound"

lemma entries_size:
  assumes "32 * unat c + 8 < size_bound"
  shows "\<not> unat (c * sizeof_hash_entry + 8) < 8"
proof -
  have "unat (c * sizeof_hash_entry) = unat c * 32"
    using assms by (simp add: sizeof_hash_entry_def unat_size_t_mult)
  then show ?thesis using assms by (intro no_wrap_header) simp
qed

lemma resize_hashmap_ok:
  assumes "hm_ok h m" and "hm_room m"
  shows "\<exists>h' m' s. resize_hashmap h (Some m) = Some (h', Some m', s) \<and> fault h' = fault h \<and>
    hm_frame h' m' = hm_frame h m \<and> hm_ok h' m' \<and> libc_refuses h' = libc_refuses h \<and>
    (s = CDSA_OK \<and> the_map m' = the_map m \<and> hm_capacity m' = 2 * hm_capacity m \<and>
       load (hm_entries m') = load (hm_entries m) \<and> hm_version m' = hm_version m + 1 \<or>
     s = CDSA_ERR_OOM \<and> m' = m \<and> \<not> never_refuses h)"
proof -
  note iv = hashmap_invD and ok = assms(1) [unfolded hm_ok_def]
  have inv: "hashmap_inv m" and own: "hashmap_owned h m" using ok by simp_all
  note g = geometryD [OF iv(1) [OF inv]]
  let ?c2 = "hm_capacity m * 2"
  have small: "32 * (2 * slots m) + 8 < size_bound"
    using assms(2) g(1,2) by (simp add: hm_room_def)
  have c2: "unat ?c2 = 2 * slots m" using g(1,3) by (subst unat_size_t_mult) simp_all
  have nw: "\<not> unat (?c2 * sizeof_hash_entry + 8) < 8"
    using small by (intro entries_size) (simp only: c2)
  obtain h1 t where m: "cdsa_malloc_track h (?c2 * sizeof_hash_entry) = (h1, t)" by fastforce
  show ?thesis
  proof (cases t)
    case None
    note mn = malloc_None [OF m [unfolded None]]
    have "resize_hashmap h (Some m) = Some (h1, Some m, CDSA_ERR_OOM)"
      using m None by (simp add: resize_hashmap_def cdsa_calloc_track_def Let_def)
    moreover have "\<not> never_refuses h" using never_refuses_malloc m None by metis
    moreover have "hm_ok h1 m"
      using ok by (simp add: mn hm_ok_def hashmap_owned_def later_heap_ok)
    ultimately show ?thesis by (simp add: mn)
  next
    case (Some p)
    let ?es = "replicate (2 * slots m) empty_entry"
    let ?m1 = "m\<lparr>hm_block := p, hm_entries := ?es, hm_capacity := ?c2, hm_size := 0\<rparr>"
    have z: "zero_entries (replicate (unat (?c2 * sizeof_hash_entry)) 0) = ?es"
      using zero_entries_calloc [of ?c2] small c2 by simp
    have inv1: "hashmap_inv ?m1"
      using g small c2 by (simp add: hashmap_inv_def geometry_def robin_hood_empty empty_table)
    have "\<forall>e \<in> set (hm_entries m). occupied e \<longrightarrow> hashed e"
      using robin_hoodD(1) [OF iv(2) [OF inv]] by (auto simp: placed_def in_set_conv_nth)
    moreover have "load (hm_entries ?m1) + load (hm_entries m) < slots ?m1"
      using iv(4) [OF inv] by (simp add: empty_table)
    ultimately obtain m2 where
      m2: "resize_loop (hm_entries m) ?m1 = Some m2" "hashmap_inv m2" "same_frame ?m1 m2"
        "the_map m2 = the_map ?m1 ++ the_map m"
        "load (hm_entries m2) = load (hm_entries ?m1) + load (hm_entries m)"
      using resize_loop_ok [OF inv1 iv(5) [OF inv]] by (auto simp: empty_table)
    let ?h = "cdsa_free_track h1 (Some (hm_block m))"
    let ?m = "m2\<lparr>hm_version := hm_version m2 + 1\<rparr>"
    have "owns h (hm_self m) sizeof_hashmap" "owns h (hm_block m) (hm_capacity m * sizeof_hash_entry)"
      "hm_self m \<noteq> hm_block m" using own by (simp_all add: hashmap_owned_def)
    from replace_block [OF _ this m [unfolded Some]] ok
    have rb: "heap_ok ?h" "owns ?h (hm_self m) sizeof_hashmap" "owns ?h p (?c2 * sizeof_hash_entry)"
      "hm_self m \<noteq> p" "others {hm_self m, p} ?h = hm_frame h m"
      "fault ?h \<longleftrightarrow> fault h \<or> unat (?c2 * sizeof_hash_entry + 8) < 8"
      "libc_refuses ?h = libc_refuses h" by simp_all
    have sf: "hm_self m2 = hm_self m" "hm_block m2 = p" "hm_capacity m2 = ?c2"
      "hm_version m2 = hm_version m"
      using m2(3) by (simp_all add: same_frame_def)
    have run: "resize_hashmap h (Some m) = Some (?h, Some ?m, CDSA_OK)"
      using m Some m2(1) g(1) z by (simp add: resize_hashmap_def cdsa_calloc_track_def Let_def)
    have "hm_ok ?h ?m"
      using rb(1-4) m2(2) sf by (simp add: hm_ok_def hashmap_owned_def hashmap_inv_def geometry_def)
    then show ?thesis
      using run rb(5-7) nw m2(4,5) sf by (simp add: empty_table mult.commute)
  qed
qed

lemma insert_hashmap_ok:
  assumes "hm_ok h m" and "hm_room m"
  shows "\<exists>h' m' s. insert_hashmap h (Some m) (Some k) v = Some (h', Some m', s) \<and>
    fault h' = fault h \<and> hm_frame h' m' = hm_frame h m \<and> hm_ok h' m' \<and>
    libc_refuses h' = libc_refuses h \<and>
    (s = CDSA_OK \<and> the_map m' = (the_map m)(k \<mapsto> v) \<and>
       load (hm_entries m') = load (hm_entries m) + (if the_map m k = None then 1 else 0) \<and>
       (slots m' = slots m \<or> slots m' \<le> 3 * load (hm_entries m) + 3) \<or>
     s = CDSA_ERR_OOM \<and> m' = m \<and> \<not> never_refuses h)"
proof -
  note iv = hashmap_invD
  have inv: "hashmap_inv m" using assms(1) by (simp add: hm_ok_def)
  note g = geometryD [OF iv(1) [OF inv]]
  have insert: "\<exists>m2. map_option (\<lambda>(m2, s). (h1, Some m2, s)) (internal_insert m1 k v (get_raw_hash k)) =
        Some (h1, Some m2, CDSA_OK) \<and> hm_frame h1 m2 = hm_frame h1 m1 \<and> hm_ok h1 m2 \<and>
        the_map m2 = (the_map m1)(k \<mapsto> v) \<and> slots m2 = slots m1 \<and>
        load (hm_entries m2) = load (hm_entries m1) + (if the_map m1 k = None then 1 else 0)"
    if ok1: "hm_ok h1 m1" and room: "Suc (load (hm_entries m1)) < slots m1" for h1 m1
  proof -
    have "hashmap_inv m1" using ok1 by (simp add: hm_ok_def)
    from internal_insert_ok [OF this, of k v] room obtain m2 where
      "internal_insert m1 k v (get_raw_hash k) = Some (m2, CDSA_OK)" "hashmap_inv m2"
      "same_frame m1 m2" "the_map m2 = (the_map m1)(k \<mapsto> v)"
      "load (hm_entries m2) = load (hm_entries m1) + (if the_map m1 k = None then 1 else 0)"
      by blast
    moreover from this have "slots m2 = slots m1"
      using geometryD(1) [OF iv(1)] \<open>hashmap_inv m1\<close> by (metis same_frame_def)
    ultimately show ?thesis
      using ok1 by (intro exI [of _ m2]) (simp add: hm_ok_def hashmap_owned_def same_frame_def)
  qed
  have c3: "unat (hm_capacity m * 3 div 4) = slots m * 3 div 4"
    using assms(2) g(1) by (simp add: hm_room_def unat_size_t_div unat_size_t_mult)
  show ?thesis
  proof (cases "hm_size m \<ge> (hm_capacity m * 3) div 4")
    case False
    then have "load (hm_entries m) < slots m * 3 div 4"
      using iv(3) [OF inv] c3 by (simp add: size_t_le_iff)
    then have "Suc (load (hm_entries m)) < slots m" using g(2) by linarith
    from insert [OF assms(1) this] False show ?thesis
      by (auto simp: insert_hashmap_def)
  next
    case True
    from resize_hashmap_ok [OF assms] obtain h1 m1 s1 where
      r: "resize_hashmap h (Some m) = Some (h1, Some m1, s1)" "fault h1 = fault h"
        "hm_frame h1 m1 = hm_frame h m" "hm_ok h1 m1" "libc_refuses h1 = libc_refuses h"
      and c: "s1 = CDSA_OK \<and> the_map m1 = the_map m \<and> hm_capacity m1 = 2 * hm_capacity m \<and>
          load (hm_entries m1) = load (hm_entries m) \<or> s1 = CDSA_ERR_OOM \<and> m1 = m \<and> \<not> never_refuses h"
      by blast
    from c show ?thesis
    proof (elim disjE)
      assume a: "s1 = CDSA_OK \<and> the_map m1 = the_map m \<and> hm_capacity m1 = 2 * hm_capacity m \<and>
          load (hm_entries m1) = load (hm_entries m)"
      have "unat (2 * hm_capacity m) = 2 * slots m" using g(1,3) by (subst unat_size_t_mult) simp_all
      then have "slots m1 = 2 * slots m"
        using geometryD(1) [OF iv(1)] r(4) a by (metis hm_ok_def)
      then have room: "Suc (load (hm_entries m1)) < slots m1" and "slots m1 = 2 * slots m"
        using iv(4) [OF inv] a by linarith+
      moreover have "slots m * 3 div 4 \<le> load (hm_entries m)"
        using True iv(3) [OF inv] c3 by (simp add: size_t_le_iff)
      ultimately have "slots m1 \<le> 3 * load (hm_entries m) + 3" by linarith
      with insert [OF r(4) room] a r True show ?thesis by (auto simp: insert_hashmap_def)
    next
      assume "s1 = CDSA_ERR_OOM \<and> m1 = m \<and> \<not> never_refuses h"
      then show ?thesis using r True by (auto simp: insert_hashmap_def)
    qed
  qed
qed

lemma create_hashmap_ok:
  assumes "cdsa_create_hashmap h cap = (h', Some m)" and "heap_ok h"
    and "128 * (unat cap + 1) < size_bound"
  shows "hm_ok h' m" and "the_map m = Map.empty" and "max_psl_ok m" and "fault h' = fault h"
    and "hm_frame h' m = live h" and "libc_refuses h' = libc_refuses h"
    and "hm_capacity m = (if cap = 0 then 1 else cap)" and "load (hm_entries m) = 0"
proof -
  define c where "c = (if cap = 0 then 1 else cap)"
  have c: "0 < unat c" "unat c \<le> unat cap + 1" by (auto simp: c_def size_t_zero_iff)
  have "128 * unat c \<le> 128 * (unat cap + 1)" using c(2) by simp
  from order_le_less_trans [OF this assms(3)]
  have small: "32 * unat c + 8 < size_bound" "unat c * 32 < size_bound"
    "2 * unat c < size_bound"
    using c(1) by simp_all
  from assms(1) obtain h1 where m: "cdsa_malloc_track h sizeof_hashmap = (h1, Some (hm_self m))"
      "cdsa_malloc_track h1 (c * sizeof_hash_entry) = (h', Some (hm_block m))"
    and mm: "m = \<lparr>hm_self = hm_self m, hm_block = hm_block m, hm_capacity = c, hm_size = 0,
        hm_max_psl = 0, hm_version = 0, hm_entries =
          zero_entries (replicate (unat (c * sizeof_hash_entry)) 0)\<rparr>"
    by (auto simp: cdsa_create_hashmap_def cdsa_calloc_track_def c_def Let_def
        split: option.splits prod.splits)
  note f = arg_cong [OF mm, of hm_entries] arg_cong [OF mm, of hm_capacity]
    arg_cong [OF mm, of hm_size] arg_cong [OF mm, of hm_max_psl]
  have f': "hm_entries m = replicate (unat c) empty_entry" "hm_capacity m = c" "hm_size m = 0"
    using f zero_entries_calloc [OF small(2)] by simp_all
  note two = malloc_two_blocks [OF assms(2) m]
  show "hm_ok h' m"
    using two(1-4) f' c(1) small(3)
    by (simp add: hm_ok_def hashmap_inv_def geometry_def robin_hood_empty empty_table hashmap_owned_def)
  show "the_map m = Map.empty" and "load (hm_entries m) = 0" by (simp_all add: f' empty_table)
  show "max_psl_ok m" by (simp add: max_psl_ok_def f')
  have "\<not> unat (sizeof_hashmap + 8) < 8" by (simp add: sizeof_hashmap_def)
  then show "fault h' = fault h" using two(6) entries_size [OF small(1)] by simp
  show "hm_frame h' m = live h" and "libc_refuses h' = libc_refuses h" by (rule two(5), rule two(7))
  show "hm_capacity m = (if cap = 0 then 1 else cap)" by (simp add: f' c_def)
qed

lemma free_hashmap_blocks:
  assumes "hm_ok h m"
  shows "live (cdsa_free_hashmap h (Some m)) = hm_frame h m"
    and "fault (cdsa_free_hashmap h (Some m)) = fault h"
  using free_two_blocks [of h "hm_self m" sizeof_hashmap "hm_block m"] assms
  by (auto simp: cdsa_free_hashmap_def hm_ok_def hashmap_owned_def)

section \<open>The iterator\<close>

definition entry_pairs :: "hash_entry list \<Rightarrow> (cstring \<times> pointer option) list" where
  "entry_pairs es = map (\<lambda>e. (the (he_key e), he_value e)) (filter occupied es)"

definition hm_iter_has_next :: "hashmap \<Rightarrow> hashmap_iterator \<Rightarrow> hashmap_iterator \<times> bool" where
  "hm_iter_has_next m i = (case cdsa_has_next_hashmap (Some m) (Some i) of (r, b) \<Rightarrow> (the r, b))"

definition hm_iter_next :: "hashmap \<Rightarrow> hashmap_iterator \<Rightarrow>
    hashmap_iterator \<times> cdsa_status \<times> (cstring \<times> pointer option) option" where
  "hm_iter_next m i = (case cdsa_next_hashmap m (Some i) True of (r, s, x) \<Rightarrow> (the r, s, x))"

definition hm_iter_rest :: "hashmap \<Rightarrow> hashmap_iterator \<Rightarrow> (cstring \<times> pointer option) list" where
  "hm_iter_rest m i = entry_pairs (drop (unat (hi_index i)) (hm_entries m))"

text \<open>Printing shows the pairs the iterator yields, in the same order.\<close>

lemma print_hashmap_pairs:
  assumes "geometry m"
  shows "map snd (fst (print_hashmap (Some m))) = entry_pairs (hm_entries m)"
proof -
  define f where "f = (\<lambda>es i. case he_key (es ! i :: hash_entry) of
      None \<Rightarrow> [] | Some k \<Rightarrow> [(i, k, he_value (es ! i))])"
  have "map snd (concat (map (f es) [0..<length es])) = entry_pairs es" for es
  proof (induction es rule: rev_induct)
    case (snoc x es)
    have "f (es @ [x]) i = f es i" if "i < length es" for i
      using that by (auto simp: f_def nth_append cong: option.case_cong)
    then have c: "concat (map (f (es @ [x])) [0..<length es]) = concat (map (f es) [0..<length es])"
      by (intro arg_cong [of _ _ concat] map_cong) simp_all
    have "map snd (f (es @ [x]) (length es)) = entry_pairs [x]"
      by (auto simp: f_def entry_pairs_def split: option.split)
    then show ?case using snoc by (simp add: entry_pairs_def c)
  qed (simp add: entry_pairs_def)
  then show ?thesis using geometryD(1) [OF assms] by (simp add: print_hashmap_def Let_def f_def)
qed

lemma skip_empty_rest:
  "geometry m \<Longrightarrow> skip_empty m i = (j, b) \<Longrightarrow>
    b = (entry_pairs (drop (unat i) (hm_entries m)) \<noteq> []) \<and>
    entry_pairs (drop (unat j) (hm_entries m)) = entry_pairs (drop (unat i) (hm_entries m)) \<and>
    (b \<longrightarrow> unat j < slots m \<and> occupied (hm_entries m ! unat j))"
proof (induction m i rule: skip_empty.induct)
  case (1 m i)
  note g = geometryD [OF "1.prems"(1)]
  show ?case
  proof (cases "i < hm_capacity m")
    case True
    then have lt: "unat i < slots m" using g(1) by (simp add: size_t_less_iff)
    then have d: "drop (unat i) (hm_entries m) = hm_at m i # drop (Suc (unat i)) (hm_entries m)"
      by (simp add: hm_at_def Cons_nth_drop_Suc)
    show ?thesis
    proof (cases "he_key (hm_at m i) = None")
      case free: True
      then have "skip_empty m (i + 1) = (j, b)"
        using "1.prems"(2) True by (subst (asm) skip_empty.simps) simp
      then show ?thesis
        using "1.IH" [OF True _ "1.prems"(1)] free d size_t_inc_below [OF True]
        by (simp add: entry_pairs_def)
    next
      case False
      then have "j = i" "b" using "1.prems"(2) True by (subst (asm) skip_empty.simps; auto)+
      then show ?thesis using False lt d by (simp add: entry_pairs_def hm_at_def)
    qed
  next
    case False
    then have "j = i" "\<not> b" using "1.prems"(2) by (subst (asm) skip_empty.simps; simp)+
    then show ?thesis using False g(1) by (simp add: entry_pairs_def size_t_less_iff)
  qed
qed

lemma has_next_fresh_map:
  assumes "geometry m" and "hm_version m = hi_snapshot i"
  obtains j where "cdsa_has_next_hashmap (Some m) (Some i) =
      (Some (i\<lparr>hi_index := j\<rparr>), hm_iter_rest m i \<noteq> [])"
    and "hm_iter_rest m (i\<lparr>hi_index := j\<rparr>) = hm_iter_rest m i"
    and "hm_iter_rest m i \<noteq> [] \<Longrightarrow> unat j < slots m \<and> occupied (hm_entries m ! unat j)"
proof -
  obtain j b where "skip_empty m (hi_index i) = (j, b)" by fastforce
  then show thesis
    using skip_empty_rest [OF assms(1), of "hi_index i" j b] assms(2)
    by (intro that [of j]) (simp_all add: cdsa_has_next_hashmap_def hm_iter_rest_def)
qed

interpretation hm_iter: fail_fast_iterator hm_version hi_snapshot hm_iter_has_next hm_iter_next
  "\<lambda>m i. geometry m" hm_iter_rest
proof (unfold_locales, goal_cases)
  case (1 m i)
  then show ?case by (simp add: hm_iter_has_next_def cdsa_has_next_hashmap_def)
next
  case (2 m i)
  then show ?case by (simp add: hm_iter_next_def cdsa_next_hashmap_def)
next
  case (3 m i)
  then obtain j where "cdsa_has_next_hashmap (Some m) (Some i) =
      (Some (i\<lparr>hi_index := j\<rparr>), hm_iter_rest m i \<noteq> [])"
    "hm_iter_rest m (i\<lparr>hi_index := j\<rparr>) = hm_iter_rest m i"
    by (rule has_next_fresh_map)
  then show ?case using 3 by (simp add: hm_iter_has_next_def)
next
  case (4 m i x xs)
  obtain j where j: "cdsa_has_next_hashmap (Some m) (Some i) =
      (Some (i\<lparr>hi_index := j\<rparr>), True)"
    "hm_iter_rest m (i\<lparr>hi_index := j\<rparr>) = x # xs"
    "unat j < slots m" "occupied (hm_entries m ! unat j)"
    by (rule has_next_fresh_map [OF 4(1,2)]) (auto simp: 4(3))
  have "drop (unat j) (hm_entries m) = hm_at m j # drop (Suc (unat j)) (hm_entries m)"
    using j(3) by (simp add: hm_at_def Cons_nth_drop_Suc)
  then have x: "x = (the (he_key (hm_at m j)), he_value (hm_at m j))"
    and xs: "xs = entry_pairs (drop (Suc (unat j)) (hm_entries m))"
    using j(2,4) by (simp_all add: hm_iter_rest_def entry_pairs_def hm_at_def)
  have "unat (j + 1) = Suc (unat j)"
    using j(3) geometryD(3) [OF 4(1)] by (intro unat_size_t_Suc) linarith
  then show ?case
    using 4 j(1) x xs by (simp add: hm_iter_next_def cdsa_next_hashmap_def hm_iter_rest_def Let_def)
next
  case (5 m i)
  obtain j where "cdsa_has_next_hashmap (Some m) (Some i) = (Some (i\<lparr>hi_index := j\<rparr>), False)"
    by (rule has_next_fresh_map [OF 5(1,2)]) (simp add: 5(3))
  then show ?case using 5 by (simp add: hm_iter_next_def cdsa_next_hashmap_def)
qed

lemma entry_pairs_distinct:
  "unique_keys es \<Longrightarrow> distinct (map fst (entry_pairs es))"
proof (induction es)
  case Nil
  then show ?case by (simp add: entry_pairs_def)
next
  case (Cons e es)
  note u = unique_keys_Cons [OF Cons.prems]
  have "k \<notin> fst ` set (entry_pairs es)" if "he_key e = Some k" for k
    using u(2) [OF that] by (simp add: table_map_def entry_pairs_def map_of_eq_None_iff)
  moreover have "entry_pairs (e # es) = (case he_key e of None \<Rightarrow> [] | Some k \<Rightarrow> [(k, he_value e)]) @
      entry_pairs es" by (auto simp: entry_pairs_def split: option.splits)
  ultimately show ?case using Cons.IH [OF u(1)] by (auto split: option.splits)
qed

lemma entry_pairs_map: "map_of (entry_pairs es) = table_map es"
  by (simp add: entry_pairs_def table_map_def)

lemma length_entry_pairs: "length (entry_pairs es) = load es"
  by (simp add: entry_pairs_def load_def)

section \<open>Runs of insertions\<close>

fun hm_inserts :: "heap \<Rightarrow> hashmap option \<Rightarrow> (cstring \<times> pointer option) list \<Rightarrow>
    (heap \<times> hashmap option \<times> cdsa_status list) option" where
  "hm_inserts h m [] = Some (h, m, [])"
| "hm_inserts h m ((k, v) # kvs) =
     (case insert_hashmap h m (Some k) v of
        None \<Rightarrow> None
      | Some (h1, m1, s) \<Rightarrow>
          map_option (\<lambda>(h2, m2, ss). (h2, m2, s # ss)) (hm_inserts h1 m1 kvs))"

lemma hm_inserts_ok:
  "hm_ok h m \<Longrightarrow> never_refuses h \<Longrightarrow> load (hm_entries m) + length kvs \<le> n \<Longrightarrow> slots m \<le> c \<Longrightarrow>
   3 * n + 3 \<le> c \<Longrightarrow> 128 * c < size_bound \<Longrightarrow>
   load (hm_entries m) = card (dom (the_map m)) \<Longrightarrow> finite (dom (the_map m)) \<Longrightarrow>
   \<exists>h' m'. hm_inserts h (Some m) kvs = Some (h', Some m', replicate (length kvs) CDSA_OK) \<and>
     hm_ok h' m' \<and> the_map m' = the_map m ++ map_of (rev kvs) \<and> fault h' = fault h \<and>
     hm_frame h' m' = hm_frame h m \<and> load (hm_entries m') = card (dom (the_map m'))"
proof (induction kvs arbitrary: h m)
  case Nil
  then show ?case by simp
next
  case (Cons kv kvs)
  obtain k v where kv: "kv = (k, v)" by fastforce
  have gm: "unat (hm_capacity m) = slots m"
    using geometryD(1) [OF hashmap_invD(1)] Cons.prems(1) by (simp add: hm_ok_def)
  have "128 * slots m \<le> 128 * c" using Cons.prems(4) by simp
  from order_le_less_trans [OF this Cons.prems(6)] have "hm_room m" by (simp add: hm_room_def gm)
  from insert_hashmap_ok [OF Cons.prems(1) this, of k v] Cons.prems(2) obtain h1 m1 where
    i: "insert_hashmap h (Some m) (Some k) v = Some (h1, Some m1, CDSA_OK)" "fault h1 = fault h"
      "hm_frame h1 m1 = hm_frame h m" "hm_ok h1 m1" "libc_refuses h1 = libc_refuses h"
      "the_map m1 = (the_map m)(k \<mapsto> v)"
      "load (hm_entries m1) = load (hm_entries m) + (if the_map m k = None then 1 else 0)"
      "slots m1 = slots m \<or> slots m1 \<le> 3 * load (hm_entries m) + 3"
    by blast
  have card: "load (hm_entries m1) = card (dom (the_map m1))" "finite (dom (the_map m1))"
    using i(6,7) Cons.prems(7,8) by (auto simp: domIff insert_absorb card_insert_if)
  have n: "load (hm_entries m1) + length kvs \<le> n" using i(7) Cons.prems(3) by (simp split: if_splits)
  have nr: "never_refuses h1" using i(5) Cons.prems(2) by (simp add: never_refuses_def)
  have "slots m1 \<le> c" using i(8) Cons.prems(3-5) by auto
  from Cons.IH [OF i(4) nr n this Cons.prems(5,6) card] obtain h2 m2 where
    2: "hm_inserts h1 (Some m1) kvs = Some (h2, Some m2, replicate (length kvs) CDSA_OK)"
      "hm_ok h2 m2" "the_map m2 = the_map m1 ++ map_of (rev kvs)" "fault h2 = fault h1"
      "hm_frame h2 m2 = hm_frame h1 m1" "load (hm_entries m2) = card (dom (the_map m2))"
    by blast
  have "the_map m1 ++ map_of (rev kvs) = the_map m ++ map_of (rev (kv # kvs))"
    by (simp add: i(6) kv map_add_assoc)
  moreover have "hm_inserts h (Some m) (kv # kvs) =
      Some (h2, Some m2, replicate (length (kv # kvs)) CDSA_OK)"
    using i(1) 2(1) kv by simp
  ultimately show ?case using 2(2-6) i(2,3) by (intro exI [of _ h2] exI [of _ m2]) simp
qed

section \<open>Properties\<close>

text \<open>
  C3: insertion builds the map: inserting any list of pairs into a new map, when libc
  refuses nothing, returns \<open>CDSA_OK\<close> each time, through displacements and growth; afterwards the
  table holds for every key the last value inserted for it, \<open>size\<close> is the number of different
  keys, and freeing the map gives back its blocks.
\<close>

theorem hashmap_inserts_build_map:
  assumes "heap_ok h" and "never_refuses h" and "128 * (unat cap + 3 * length kvs + 4) < 2 ^ 64"
    and "cdsa_create_hashmap h cap = (h0, Some m0)"
  shows "\<exists>h1 m1. hm_inserts h0 (Some m0) kvs =
        Some (h1, Some m1, replicate (length kvs) CDSA_OK) \<and>
      the_map m1 = map_of (rev kvs) \<and> unat (hm_size m1) = card (fst ` set kvs) \<and>
      fault h1 = fault h \<and> live (cdsa_free_hashmap h1 (Some m1)) = live h"
proof -
  define c where "c = unat cap + 3 * length kvs + 4"
  have bound: "128 * c < size_bound" using assms(3) by (simp add: c_def)
  have "128 * (unat cap + 1) \<le> 128 * c" by (simp add: c_def)
  from order_le_less_trans [OF this bound] have b: "128 * (unat cap + 1) < size_bound" .
  note cr = create_hashmap_ok [OF assms(4,1) b]
  have "slots m0 = unat (hm_capacity m0)"
    using geometryD(1) [OF hashmap_invD(1)] cr(1) by (simp add: hm_ok_def)
  then have "slots m0 \<le> c" using cr(7) by (simp add: c_def)
  moreover have "never_refuses h0" using cr(6) assms(2) by (simp add: never_refuses_def)
  moreover have "3 * length kvs + 3 \<le> c" by (simp add: c_def)
  ultimately obtain h1 m1 where
    r: "hm_inserts h0 (Some m0) kvs = Some (h1, Some m1, replicate (length kvs) CDSA_OK)"
      "hm_ok h1 m1" "the_map m1 = the_map m0 ++ map_of (rev kvs)" "fault h1 = fault h0"
      "hm_frame h1 m1 = hm_frame h0 m0" "load (hm_entries m1) = card (dom (the_map m1))"
    using hm_inserts_ok [of h0 m0 kvs "length kvs" c] cr(1,2,8) bound by auto
  have "unat (hm_size m1) = load (hm_entries m1)"
    using r(2) hashmap_invD(3) by (simp add: hm_ok_def)
  moreover have "dom (the_map m1) = fst ` set kvs" using r(3) cr(2) by (simp add: dom_map_of_conv_image_fst)
  ultimately show ?thesis
    using r cr(2,4,5) free_hashmap_blocks(1) [OF r(2)] by auto
qed

lemma create_hashmap_succeeds:
  "never_refuses h \<Longrightarrow> \<exists>h' m. cdsa_create_hashmap h cap = (h', Some m)"
  by (simp add: cdsa_create_hashmap_def cdsa_calloc_track_def cdsa_malloc_track_def
      never_refuses_def Let_def)

theorem hashmap_inserts_build_map_witness:
  "\<exists>h0 m0 h1 m1. cdsa_create_hashmap good_heap 2 = (h0, Some m0) \<and>
     hm_inserts h0 (Some m0) [([97], Some 1), ([98], Some 2), ([97], Some 3)] =
       Some (h1, Some m1, [CDSA_OK, CDSA_OK, CDSA_OK]) \<and>
     the_map m1 [97] = Some (Some 3) \<and> the_map m1 [98] = Some (Some 2) \<and> unat (hm_size m1) = 2"
proof -
  obtain h0 m0 where c: "cdsa_create_hashmap good_heap 2 = (h0, Some m0)"
    using create_hashmap_succeeds [of good_heap 2] by auto
  let ?kvs = "[([97], Some 1), ([98], Some 2), ([97], Some 3)] :: (cstring \<times> pointer option) list"
  obtain h1 m1 where r: "hm_inserts h0 (Some m0) ?kvs = Some (h1, Some m1, replicate (length ?kvs) CDSA_OK)"
      "the_map m1 = map_of (rev ?kvs)" "unat (hm_size m1) = card (fst ` set ?kvs)"
    using hashmap_inserts_build_map [OF _ _ _ c, of ?kvs] by (auto simp del: hm_inserts.simps)
  have "replicate (length ?kvs) CDSA_OK = [CDSA_OK, CDSA_OK, CDSA_OK]"
    by (simp add: eval_nat_numeral)
  moreover have "the_map m1 [97] = Some (Some 3)" "the_map m1 [98] = Some (Some 2)"
    unfolding r(2) by simp_all
  moreover have "fst ` set ?kvs = {[97], [98]}" by auto
  then have "unat (hm_size m1) = 2" unfolding r(3) by simp
  ultimately show ?thesis using c r(1) by metis
qed

text \<open>A concrete map: created with 8 slots, then filled.\<close>

definition map_after :: "(cstring \<times> pointer option) list \<Rightarrow> heap \<times> hashmap option" where
  "map_after kvs =
     (case cdsa_create_hashmap good_heap 8 of
        (h, m) \<Rightarrow> (case hm_inserts h m kvs of Some (h', m', _) \<Rightarrow> (h', m') | None \<Rightarrow> (h, None)))"

lemma map_after_ok:
  assumes "length kvs \<le> 100"
  shows "\<exists>h m. map_after kvs = (h, Some m) \<and> hm_ok h m \<and> the_map m = map_of (rev kvs)"
proof -
  obtain h0 m0 where c: "cdsa_create_hashmap good_heap 8 = (h0, Some m0)"
    using create_hashmap_succeeds [of good_heap 8] by auto
  have b: "128 * (unat (8 :: size_t) + 1) < size_bound" by simp
  note cr = create_hashmap_ok [OF c _ b]
  have "unat (hm_capacity m0) = slots m0"
    using geometryD(1) [OF hashmap_invD(1)] cr(1) by (simp add: hm_ok_def)
  then have g: "slots m0 = 8" using cr(7) by simp
  have "never_refuses h0" using cr(6) by (simp add: never_refuses_def)
  then obtain h1 m1 where r: "hm_inserts h0 (Some m0) kvs =
      Some (h1, Some m1, replicate (length kvs) CDSA_OK)" "hm_ok h1 m1"
      "the_map m1 = the_map m0 ++ map_of (rev kvs)"
    using hm_inserts_ok [of h0 m0 kvs 100 400] cr(1,2,8) assms g by auto
  then show ?thesis using c r cr(2) by (auto simp: map_after_def)
qed

text \<open>
  C7: a lookup always returns; it returns the value stored for the key, and NULL when
  the key is not in the table or its entry sits further from home than \<open>max_psl\<close> records.  When no
  entry does, lookup is exactly the map.
\<close>

theorem hashmap_get:
  assumes "hashmap_inv m"
  shows "get_hashmap (Some m) (Some k) =
      Some (case the_map m k of None \<Rightarrow> None | Some v \<Rightarrow> if lost m k then None else v) \<and>
    (max_psl_ok m \<longrightarrow> get_hashmap (Some m) (Some k) = Some (case the_map m k of None \<Rightarrow> None | Some v \<Rightarrow> v))"
  using get_hashmap_result [OF assms, of k] max_psl_ok_lost [of m k] by (simp split: option.splits)

text \<open>The four keys of the next section: the last one is in the table and is not found.\<close>

definition four_keys :: "(cstring \<times> pointer option) list" where
  "four_keys = [([97], Some 1), ([105], Some 2), ([99], Some 3), ([113], Some 4)]"

declare insert_loop.simps [code] get_loop.simps [code] remove_loop.simps [code]
  shift_loop.simps [code]

lemma four_keys_lost:
  "case map_after four_keys of (h, Some m) \<Rightarrow> lost m [113] \<and> \<not> lost m [97] | _ \<Rightarrow> False"
  by code_simp

lemma four_keys_map:
  obtains h m where "map_after four_keys = (h, Some m)" and "hm_ok h m" and "lost m [113]"
    and "\<not> lost m [97]" and "the_map m [113] = Some (Some 4)" and "the_map m [97] = Some (Some 1)"
    and "hm_capacity m = 8"
proof -
  obtain h m where m: "map_after four_keys = (h, Some m)" "hm_ok h m"
      "the_map m = map_of (rev four_keys)"
    using map_after_ok [of four_keys] by (auto simp: four_keys_def)
  have "case map_after four_keys of (h, Some m) \<Rightarrow> hm_capacity m = 8 | _ \<Rightarrow> False" by code_simp
  then show thesis
    using that [of h m] m four_keys_lost by (simp add: four_keys_def)
qed

theorem hashmap_get_witness:
  "\<exists>m. the_map m [97] = Some (Some 1) \<and> get_hashmap (Some m) (Some [97]) = Some (Some 1) \<and>
     the_map m [113] = Some (Some 4) \<and> get_hashmap (Some m) (Some [113]) = Some None"
proof -
  obtain h m where m: "hm_ok h m" "lost m [113]" "\<not> lost m [97]"
    "the_map m [113] = Some (Some 4)" "the_map m [97] = Some (Some 1)"
    by (rule four_keys_map)
  then have "hashmap_inv m" by (simp add: hm_ok_def)
  from hashmap_get [OF this, of "[97]"] hashmap_get [OF this, of "[113]"] m show ?thesis by auto
qed

text \<open>
  C8: a removal always returns; it removes exactly the key, closes the gap by shifting
  the following entries back, keeps the invariant, and never makes another key unreachable; a key
  that is absent, or that lookup has lost, is reported as \<open>CDSA_ERR_NOT_FOUND\<close>.
\<close>

theorem hashmap_remove:
  assumes "hashmap_inv m"
  shows "if the_map m k = None \<or> lost m k
    then remove_hashmap (Some m) (Some k) = Some (Some m, CDSA_ERR_NOT_FOUND)
    else \<exists>m'. remove_hashmap (Some m) (Some k) = Some (Some m', CDSA_OK) \<and> hashmap_inv m' \<and>
      the_map m' = (the_map m)(k := None) \<and> unat (hm_size m') = unat (hm_size m) - 1 \<and>
      hm_version m' = hm_version m + 1 \<and> (max_psl_ok m \<longrightarrow> max_psl_ok m')"
  using remove_hashmap_result [OF assms, of k] hashmap_invD(3) [OF assms] hashmap_invD(3)
  by (fastforce split: if_splits)

theorem hashmap_remove_witness:
  "\<exists>m m'. the_map m [97] = Some (Some 1) \<and> remove_hashmap (Some m) (Some [97]) = Some (Some m', CDSA_OK) \<and>
     the_map m' [97] = None \<and> the_map m' [113] = Some (Some 4) \<and>
     remove_hashmap (Some m) (Some [113]) = Some (Some m, CDSA_ERR_NOT_FOUND)"
proof -
  obtain h m where m: "hm_ok h m" "lost m [113]" "\<not> lost m [97]"
    "the_map m [113] = Some (Some 4)" "the_map m [97] = Some (Some 1)"
    by (rule four_keys_map)
  then have "hashmap_inv m" by (simp add: hm_ok_def)
  note r = hashmap_remove [OF this]
  from r [of "[97]"] m obtain m' where
    "remove_hashmap (Some m) (Some [97]) = Some (Some m', CDSA_OK)" "the_map m' = (the_map m)([97] := None)"
    by auto
  then show ?thesis using r [of "[113]"] m by auto
qed

text \<open>
  Growth keeps the map: a resize either reports \<open>CDSA_ERR_OOM\<close> and leaves the map as
  it was, or doubles the capacity with the same keys and values, replaces the block, and counts
  the version up.
\<close>

theorem hashmap_resize_keeps_map:
  assumes "hm_ok h m" and "hm_room m"
  shows "\<exists>h' m' s. resize_hashmap h (Some m) = Some (h', Some m', s) \<and> fault h' = fault h \<and>
    hm_frame h' m' = hm_frame h m \<and> hm_ok h' m' \<and> the_map m' = the_map m \<and>
    (s = CDSA_OK \<and> hm_capacity m' = 2 * hm_capacity m \<and> hm_version m' = hm_version m + 1 \<or>
     s = CDSA_ERR_OOM \<and> m' = m)"
  using resize_hashmap_ok [OF assms] by blast

theorem hashmap_resize_keeps_map_witness:
  "\<exists>h m h' m' s. resize_hashmap h (Some m) = Some (h', Some m', s) \<and>
     the_map m [113] = Some (Some 4) \<and> the_map m' [113] = Some (Some 4)"
proof -
  obtain h m where m: "hm_ok h m" "the_map m [113] = Some (Some 4)" "hm_capacity m = 8"
    by (rule four_keys_map)
  then have "hm_room m" by (simp add: hm_room_def)
  from hashmap_resize_keeps_map [OF m(1) this] show ?thesis using m(2) by metis
qed








text \<open>Which operations count the version up: growth and removal, not insertion by itself.\<close>

lemma insert_loop_version:
  assumes "insert_loop m x i = Some r"
  shows "hm_version (fst r) = hm_version m"
proof (rule insert_loop.raw_induct [where P = "\<lambda>m x i r. hm_version (fst r) = hm_version m", OF _ assms])
  fix f :: "hashmap \<Rightarrow> hash_entry \<Rightarrow> size_t \<Rightarrow> (hashmap \<times> cdsa_status) option" and m x i r
  assume IH: "\<And>m x i r. f m x i = Some r \<Longrightarrow> hm_version (fst r) = hm_version m"
  let ?e = "hm_at m i"
  assume eq: "(let e = hm_at m i
      in if he_key e = None then
           let m1 = hm_put m i x; m2 = m1\<lparr>hm_size := hm_size m1 + 1\<rparr>
           in Some (if he_psl x > hm_max_psl m2 then m2\<lparr>hm_max_psl := he_psl x\<rparr> else m2, CDSA_OK)
         else if he_hash e = he_hash x \<and> he_key e = he_key x then
           Some (hm_put m i (e\<lparr>he_value := he_value x\<rparr>), CDSA_OK)
         else
           let (m1, incoming1) = (if he_psl x > he_psl e then (hm_put m i x, e) else (m, x))
           in f m1 (incoming1\<lparr>he_psl := he_psl incoming1 + 1\<rparr>) ((i + 1) mod hm_capacity m1)) = Some r"
  show "hm_version (fst r) = hm_version m"
  proof (cases "he_key ?e = None \<or> (he_hash ?e = he_hash x \<and> he_key ?e = he_key x)")
    case True
    then show ?thesis using eq by (auto simp: Let_def hm_put_def split: if_splits)
  next
    case False
    then show ?thesis using eq IH by (auto simp: Let_def hm_put_def split: if_splits dest!: IH)
  qed
qed

lemma insert_version:
  assumes "internal_insert m k v rh = Some (m', s)"
  shows "hm_version m' = hm_version m"
  using insert_loop_version [of m _ _ "(m', s)"] assms by (simp add: internal_insert_def)

lemma resize_loop_version:
  "resize_loop es m = Some m' \<Longrightarrow> hm_version m' = hm_version m"
proof (induction es arbitrary: m)
  case (Cons e es)
  then show ?case by (auto split: option.splits prod.splits dest: insert_version)
qed simp

lemma resize_version:
  assumes "resize_hashmap h (Some m) = Some (h', Some m', CDSA_OK)"
  shows "hm_version m' = hm_version m + 1"
  using assms by (auto simp: resize_hashmap_def Let_def split: prod.splits option.splits dest: resize_loop_version)

lemma insert_hashmap_version:
  assumes "insert_hashmap h (Some m) (Some k) v = Some (h', Some m', CDSA_OK)"
  shows "hm_version m' = (if hm_size m < (hm_capacity m * 3) div 4 then hm_version m else hm_version m + 1)"
proof (cases "hm_size m < (hm_capacity m * 3) div 4")
  case True
  then show ?thesis
    using assms True [folded not_le] by (auto simp: insert_hashmap_def dest: insert_version)
next
  case False
  then obtain h1 m1 where "resize_hashmap h (Some m) = Some (h1, m1, CDSA_OK)"
      "\<exists>s. internal_insert (the m1) k v (get_raw_hash k) = Some (m', s)"
    using assms by (auto simp: insert_hashmap_def not_less split: option.splits prod.splits if_splits)
  moreover from this(1) obtain m2 where "m1 = Some m2"
    by (auto simp: resize_hashmap_def Let_def split: prod.splits option.splits)
  ultimately show ?thesis using False resize_version insert_version by fastforce
qed

text \<open>
  C24: the loop over a map's iterator ends: every call in it succeeds and they yield every key of the
  table exactly once, with its value, lost keys included, after which a further call reports
  \<open>CDSA_ERR_NOT_FOUND\<close>.  Once a removal has succeeded, the table has been resized or an insertion has
  made it grow, the iterator yields nothing more and reports \<open>CDSA_ERR_ITER_INVALIDATED\<close>; an
  insertion that does not make it grow goes unnoticed, although it may move entries.
\<close>

theorem hashmap_iterator_yields_entries:
  assumes "hashmap_inv m" and "cdsa_create_hashmap_iterator h (Some m) = (h', Some i)"
  shows "(\<exists>i' kvs. drain hm_iter_has_next hm_iter_next m i = Some (i', yields kvs) \<and>
      distinct (map fst kvs) \<and> map_of kvs = the_map m \<and>
      snd (hm_iter_next m i') = (CDSA_ERR_NOT_FOUND, None)) \<and>
    (\<forall>k v h2 m'. remove_hashmap (Some m) (Some k) = Some (Some m', CDSA_OK) \<or>
        resize_hashmap h' (Some m) = Some (h2, Some m', CDSA_OK) \<or>
        (hm_capacity m * 3) div 4 \<le> hm_size m \<and>
          insert_hashmap h' (Some m) (Some k) v = Some (h2, Some m', CDSA_OK) \<longrightarrow>
      cdsa_next_hashmap m' (Some i) True = (Some i, CDSA_ERR_ITER_INVALIDATED, None) \<and>
      cdsa_has_next_hashmap (Some m') (Some i) = (Some i, False)) \<and>
    (\<forall>k v h2 m'. hm_size m < (hm_capacity m * 3) div 4 \<and>
        insert_hashmap h' (Some m) (Some k) v = Some (h2, Some m', CDSA_OK) \<longrightarrow>
      hm_version m' = hi_snapshot i)"
proof -
  note iv = hashmap_invD [OF assms(1)]
  have i: "hi_index i = 0" "hi_snapshot i = hm_version m"
    using assms(2) by (auto simp: cdsa_create_hashmap_iterator_def split: option.splits prod.splits)
  have rest: "hm_iter_rest m i = entry_pairs (hm_entries m)" by (simp add: hm_iter_rest_def i(1))
  from hm_iter.drain_yields [OF iv(1) i(2) [symmetric]] obtain i' where
    d: "drain hm_iter_has_next hm_iter_next m i = Some (i', yields (entry_pairs (hm_entries m)))"
      "snd (hm_iter_next m i') = (CDSA_ERR_NOT_FOUND, None)"
    unfolding rest by blast
  note kvs = entry_pairs_distinct [OF iv(5)] entry_pairs_map [of "hm_entries m"]
  have stale: "cdsa_next_hashmap m' (Some i) True = (Some i, CDSA_ERR_ITER_INVALIDATED, None)"
      "cdsa_has_next_hashmap (Some m') (Some i) = (Some i, False)"
    if "hm_version m' = hm_version m + 1" for m'
    using that i(2) by (simp_all add: cdsa_next_hashmap_def cdsa_has_next_hashmap_def)
  have "hm_version m' = hm_version m + 1"
    if "remove_hashmap (Some m) (Some k) = Some (Some m', CDSA_OK)" for k m'
    using remove_hashmap_result [OF assms(1), of k] that by (auto split: if_splits)
  moreover have "hm_version m' = hm_version m + 1"
    if "(hm_capacity m * 3) div 4 \<le> hm_size m"
      "insert_hashmap h' (Some m) (Some k) v = Some (h2, Some m', CDSA_OK)" for k v h2 m'
    using insert_hashmap_version [OF that(2)] that(1) by simp
  moreover have "hm_version m' = hi_snapshot i"
    if "hm_size m < (hm_capacity m * 3) div 4"
      "insert_hashmap h' (Some m) (Some k) v = Some (h2, Some m', CDSA_OK)" for k v h2 m'
    using insert_hashmap_version [OF that(2)] that(1) i(2) by simp
  ultimately show ?thesis using d kvs stale resize_version by blast
qed

theorem hashmap_iterator_yields_entries_witness:
  "\<exists>h m h' i i' kvs. cdsa_create_hashmap_iterator h (Some m) = (h', Some i) \<and>
     drain hm_iter_has_next hm_iter_next m i = Some (i', yields kvs) \<and>
     distinct (map fst kvs) \<and> map_of kvs [113] = Some (Some 4) \<and>
     (\<exists>m'. remove_hashmap (Some m) (Some [97]) = Some (Some m', CDSA_OK) \<and>
       cdsa_next_hashmap m' (Some i) True = (Some i, CDSA_ERR_ITER_INVALIDATED, None))"
proof -
  obtain h m where m: "hm_ok h m" "\<not> lost m [97]" "the_map m [113] = Some (Some 4)"
      "the_map m [97] = Some (Some 1)" by (rule four_keys_map)
  then have inv: "hashmap_inv m" by (simp add: hm_ok_def)
  obtain h' i where it: "cdsa_create_hashmap_iterator good_heap (Some m) = (h', Some i)"
    by (simp add: cdsa_create_hashmap_iterator_def cdsa_malloc_track_def Let_def)
  obtain m' where rm: "remove_hashmap (Some m) (Some [97]) = Some (Some m', CDSA_OK)"
    using remove_hashmap_result [OF inv, of "[97]"] m(2,4) by auto
  note all = hashmap_iterator_yields_entries [OF inv it]
  obtain i' kvs where d: "drain hm_iter_has_next hm_iter_next m i = Some (i', yields kvs)"
      "distinct (map fst kvs)" "map_of kvs [113] = Some (Some 4)"
    using all m(3) by metis
  have "cdsa_next_hashmap m' (Some i) True = (Some i, CDSA_ERR_ITER_INVALIDATED, None)"
    using all rm by blast
  with it d rm show ?thesis by blast
qed

end
