(* ===== verification/KString.thy ===== *)
theory KString
  imports Tracking_Heap Status
begin

text \<open>
  \<^verbatim>\<open>src/kstring.c\<close>: the growing NUL-terminated string.  \<open>ks_buf\<close> is the content of the block
  \<open>ks_data\<close>, as long as the block really is.  The text a caller appends is a C string outside that
  block; its bytes are given without the terminating NUL.
\<close>

section \<open>State\<close>

record kstring =
  ks_self :: block_id
  ks_data :: block_id
  ks_buf :: bytes
  ks_size :: size_t
  ks_capacity :: size_t

definition KSTRING_CAPACITY :: size_t where "KSTRING_CAPACITY = 16"
definition sizeof_kstring :: size_t where "sizeof_kstring = 24"

section \<open>Operations\<close>

text \<open>A write of \<open>bs\<close> at \<open>data + off\<close>, with the bounds of the block.\<close>

definition ks_store :: "heap \<Rightarrow> kstring \<Rightarrow> size_t \<Rightarrow> bytes \<Rightarrow> heap \<times> kstring" where
  "ks_store h s off bs =
     (let bad = (length (ks_buf s) < unat off + length bs)
      in (set_fault bad h, if bad then s else s\<lparr>ks_buf := blit (ks_buf s) (unat off) bs\<rparr>))"

definition cdsa_create_kstring :: "heap \<Rightarrow> heap \<times> kstring option" where
  "cdsa_create_kstring h =
     (let (h1, str) = cdsa_malloc_track h sizeof_kstring
      in case str of
           None \<Rightarrow> (h1, None)
         | Some self \<Rightarrow>
             let (h2, data) = cdsa_malloc_track h1 KSTRING_CAPACITY
             in case data of
                  None \<Rightarrow> (cdsa_free_track h2 (Some self), None)
                | Some d \<Rightarrow>
                    let s = \<lparr>ks_self = self, ks_data = d,
                             ks_buf = fresh_bytes h2 d (user_len KSTRING_CAPACITY),
                             ks_size = 0, ks_capacity = KSTRING_CAPACITY\<rparr>;
                        (h3, s') = ks_store h2 s 0 [0]
                    in (h3, Some s'))"

definition cdsa_free_kstring :: "heap \<Rightarrow> kstring option \<Rightarrow> heap" where
  "cdsa_free_kstring h str =
     (case str of
        None \<Rightarrow> h
      | Some s \<Rightarrow> cdsa_free_track (cdsa_free_track h (Some (ks_data s))) (Some (ks_self s)))"

definition cdsa_size_kstring :: "kstring option \<Rightarrow> size_t" where
  "cdsa_size_kstring str = (case str of None \<Rightarrow> 0 | Some s \<Rightarrow> ks_size s)"

text \<open>The C string a reader finds at the returned pointer.\<close>

definition c_str_kstring :: "kstring option \<Rightarrow> cstring option" where
  "c_str_kstring str =
     (case str of None \<Rightarrow> None | Some s \<Rightarrow> Some (takeWhile (\<lambda>b. b \<noteq> 0) (ks_buf s)))"

definition capacity_kstring :: "kstring option \<Rightarrow> size_t" where
  "capacity_kstring str = (case str of None \<Rightarrow> 0 | Some s \<Rightarrow> ks_capacity s)"

definition cdsa_is_empty_kstring :: "kstring option \<Rightarrow> bool" where
  "cdsa_is_empty_kstring str = (case str of None \<Rightarrow> True | Some s \<Rightarrow> ks_size s = 0)"

definition cdsa_clear_kstring :: "heap \<Rightarrow> kstring option \<Rightarrow> heap \<times> kstring option" where
  "cdsa_clear_kstring h str =
     (case str of
        None \<Rightarrow> (h, None)
      | Some s \<Rightarrow> let (h', s') = ks_store h (s\<lparr>ks_size := 0\<rparr>) 0 [0] in (h', Some s'))"

text \<open>
  The loop that doubles the capacity; it does not end (the value is \<open>None\<close>) once the doubling has
  wrapped to 0.
\<close>

partial_function (option) double_capacity :: "size_t \<Rightarrow> size_t \<Rightarrow> size_t option" where
  "double_capacity capacity required =
     (if capacity < required then double_capacity (capacity * 2) required else Some capacity)"

definition append_kstring ::
  "heap \<Rightarrow> kstring option \<Rightarrow> cstring option \<Rightarrow> (heap \<times> kstring option \<times> cdsa_status) option" where
  "append_kstring h str txt =
     (case (str, txt) of
        (Some s, Some text) \<Rightarrow>
          let text_len = of_nat (length text) :: size_t;
              required_space = ks_size s + text_len + 1;
              append = (\<lambda>h s.
                let (h1, s1) = ks_store h s (ks_size s) text;
                    s2 = s1\<lparr>ks_size := ks_size s1 + text_len\<rparr>;
                    (h2, s3) = ks_store h1 s2 (ks_size s2) [0]
                in (h2, Some s3, CDSA_OK))
          in if required_space > ks_capacity s then
               (case double_capacity (ks_capacity s) required_space of
                  None \<Rightarrow> None
                | Some c \<Rightarrow>
                    let s1 = s\<lparr>ks_capacity := c\<rparr>;
                        (h1, temp) = cdsa_realloc_track h (Some (ks_data s1)) c
                    in Some (case temp of
                         None \<Rightarrow> (h1, Some s1, CDSA_ERR_OOM)
                       | Some p \<Rightarrow>
                           append h1 (s1\<lparr>ks_data := p,
                             ks_buf := moved_bytes h1 p (ks_buf s1) (user_len c)\<rparr>)))
             else Some (append h s)
      | _ \<Rightarrow> Some (h, str, CDSA_ERR_INVALID))"

lemma kstring_null [null_simps]:
  "append_kstring h None t = Some (h, None, CDSA_ERR_INVALID)"
  "append_kstring h s None = Some (h, s, CDSA_ERR_INVALID)"
  "cdsa_size_kstring None = 0" "capacity_kstring None = 0" "cdsa_is_empty_kstring None"
  "c_str_kstring None = None" "cdsa_clear_kstring h None = (h, None)" "cdsa_free_kstring h None = h"
  by (simp_all add: append_kstring_def cdsa_size_kstring_def capacity_kstring_def
      cdsa_is_empty_kstring_def c_str_kstring_def cdsa_clear_kstring_def cdsa_free_kstring_def
      split: option.splits)

section \<open>The loop\<close>

text \<open>The loop stops at the first doubling that is large enough.\<close>

lemma double_capacity_returns:
  assumes "unat c * 2 ^ k < size_bound" and "unat r \<le> unat c * 2 ^ k"
  shows "\<exists>j \<le> k. double_capacity c r = Some (c * 2 ^ j) \<and> unat (c * 2 ^ j) = unat c * 2 ^ j \<and>
    unat r \<le> unat c * 2 ^ j \<and> (j = 0 \<or> unat c * 2 ^ j < 2 * unat r)"
  using assms
proof (induction k arbitrary: c)
  case 0
  then show ?case by (auto simp: double_capacity.simps [of c] size_t_less_iff)
next
  case (Suc k)
  show ?case
  proof (cases "c < r")
    case False
    then show ?thesis
      by (intro exI [of _ 0]) (simp add: double_capacity.simps [of c] size_t_less_iff)
  next
    case True
    have "unat c * 2 \<le> unat c * 2 ^ Suc k" by (intro mult_le_mono2) simp
    from order_le_less_trans [OF this Suc.prems(1)]
    have c2: "unat (c * 2) = 2 * unat c" by (subst unat_size_t_mult) auto
    with Suc.prems have "unat (c * 2) * 2 ^ k < size_bound" "unat r \<le> unat (c * 2) * 2 ^ k"
      by (simp_all add: mult_ac)
    from Suc.IH [OF this] obtain j where j: "j \<le> k" "double_capacity (c * 2) r = Some (c * 2 * 2 ^ j)"
      "unat (c * 2 * 2 ^ j) = unat (c * 2) * 2 ^ j" "unat r \<le> unat (c * 2) * 2 ^ j"
      "j = 0 \<or> unat (c * 2) * 2 ^ j < 2 * unat r"
      by blast
    have "unat (c * 2) * 2 ^ j < 2 * unat r"
      using j(5) True by (auto simp: c2 size_t_less_iff)
    then show ?thesis
      using j True by (intro exI [of _ "Suc j"])
        (simp add: double_capacity.simps [of c] c2 mult_ac)
  qed
qed

text \<open>Once the capacity is 0 the loop does not end.\<close>

lemma double_capacity_zero: "double_capacity c r = Some y \<Longrightarrow> c = 0 \<longrightarrow> r = 0"
  by (rule double_capacity.raw_induct [where P = "\<lambda>c r y. c = 0 \<longrightarrow> r = 0"])
    (auto simp: word_gt_0 split: if_splits)

lemma double_capacity_wraps:
  assumes "unat c = 2 ^ k" and "k \<le> 63" and "2 ^ 63 < unat r"
  shows "double_capacity c r = None"
  using assms(1,2)
proof (induction "63 - k" arbitrary: c k)
  case 0
  then have c: "unat c = 2 ^ 63" by simp
  have "c = of_nat (unat c)" by simp
  then have "c * 2 = 0" unfolding c by simp
  moreover have "c < r" using assms(3) c by (simp add: size_t_less_iff)
  moreover have "r \<noteq> 0" using assms(3) by (auto simp: size_t_zero_iff)
  ultimately show ?case
    using double_capacity_zero [of 0 r] by (cases "double_capacity 0 r") (auto simp: double_capacity.simps [of c])
next
  case (Suc n)
  have "(2 :: nat) ^ Suc k \<le> 2 ^ 63" using Suc.hyps(2) by (intro power_increasing) auto
  then have "unat (c * 2) = 2 ^ Suc k" using Suc.prems(1) by (subst unat_size_t_mult) auto
  moreover have "n = 63 - Suc k" "Suc k \<le> 63" using Suc.hyps(2) by auto
  ultimately have "double_capacity (c * 2) r = None" using Suc.hyps(1) by blast
  moreover have "(2 :: nat) ^ k \<le> 2 ^ 63" using Suc.prems(2) by (intro power_increasing) auto
  then have "c < r" using Suc.prems(1) assms(3) by (simp add: size_t_less_iff)
  ultimately show ?case by (simp add: double_capacity.simps [of c])
qed

section \<open>The string and its invariant\<close>

definition ks_text :: "kstring \<Rightarrow> cstring" where
  "ks_text s = take (unat (ks_size s)) (ks_buf s)"

text \<open>The capacity is a power of 2, and the byte behind the text is the NUL.\<close>

definition ks_inv :: "kstring \<Rightarrow> bool" where
  "ks_inv s \<longleftrightarrow> (\<exists>k. unat (ks_capacity s) = 2 ^ k) \<and> unat (ks_capacity s) + 8 < size_bound \<and>
     length (ks_buf s) = unat (ks_capacity s) \<and> unat (ks_size s) < unat (ks_capacity s) \<and>
     ks_buf s ! unat (ks_size s) = 0 \<and> 0 \<notin> set (ks_text s)"

definition ks_owned :: "heap \<Rightarrow> kstring \<Rightarrow> bool" where
  "ks_owned h s \<longleftrightarrow> ks_self s \<noteq> ks_data s \<and> owns h (ks_self s) sizeof_kstring \<and>
     owns h (ks_data s) (ks_capacity s)"

definition ks_ok :: "heap \<Rightarrow> kstring \<Rightarrow> bool" where
  "ks_ok h s \<longleftrightarrow> heap_ok h \<and> ks_inv s \<and> ks_owned h s"

abbreviation ks_frame :: "heap \<Rightarrow> kstring \<Rightarrow> (block_id \<times> mblock) list" where
  "ks_frame h s \<equiv> others {ks_self s, ks_data s} h"

lemma ks_invD:
  assumes "ks_inv s"
  shows "length (ks_buf s) = unat (ks_capacity s)" and "unat (ks_size s) < unat (ks_capacity s)"
    and "unat (ks_capacity s) + 8 < size_bound" and "length (ks_text s) = unat (ks_size s)"
    and "0 \<notin> set (ks_text s)" and "ks_buf s ! unat (ks_size s) = 0"
  using assms by (auto simp: ks_inv_def ks_text_def)

text \<open>A reader of the C string finds the text.\<close>

lemma c_str_text:
  assumes "ks_inv s"
  shows "c_str_kstring (Some s) = Some (ks_text s)"
proof -
  note iv = ks_invD [OF assms]
  have "ks_buf s = ks_text s @ drop (unat (ks_size s)) (ks_buf s)" by (simp add: ks_text_def)
  also have "drop (unat (ks_size s)) (ks_buf s) = 0 # drop (Suc (unat (ks_size s))) (ks_buf s)"
    using iv by (metis Cons_nth_drop_Suc)
  finally have "takeWhile (\<lambda>b. b \<noteq> 0) (ks_buf s) =
      takeWhile (\<lambda>b. b \<noteq> 0) (ks_text s @ 0 # drop (Suc (unat (ks_size s))) (ks_buf s))" by simp
  also have "\<dots> = ks_text s" using iv(5) by (subst takeWhile_append2) auto
  finally show ?thesis by (simp add: c_str_kstring_def)
qed

text \<open>Writing a text and its NUL behind what is there.\<close>

lemma ks_append_ok:
  assumes "ks_inv s" and "unat (ks_size s) + length text + 1 \<le> unat (ks_capacity s)"
    and "0 \<notin> set text"
  defines "n \<equiv> of_nat (length text) :: size_t"
  shows "\<exists>s'. (let (h1, s1) = ks_store h s (ks_size s) text; s2 = s1\<lparr>ks_size := ks_size s1 + n\<rparr>;
        (h2, s3) = ks_store h1 s2 (ks_size s2) [0] in (h2, Some s3, CDSA_OK)) = (h, Some s', CDSA_OK) \<and>
      ks_inv s' \<and> ks_text s' = ks_text s @ text \<and> ks_self s' = ks_self s \<and>
      ks_data s' = ks_data s \<and> ks_capacity s' = ks_capacity s"
proof -
  let ?z = "unat (ks_size s)"
  note iv = ks_invD [OF assms(1)]
  have len: "length text < size_bound" using assms(2) iv(3) by linarith
  then have n: "unat n = length text" by (simp add: n_def)
  have z: "unat (ks_size s + n) = ?z + length text"
    using assms(2) iv(3) n by (subst unat_size_t_add) auto
  define b1 where "b1 = blit (ks_buf s) ?z text"
  define b2 where "b2 = blit b1 (?z + length text) [0]"
  have l1: "length b1 = unat (ks_capacity s)" using assms(2) iv(1) by (simp add: b1_def)
  have l2: "length b2 = unat (ks_capacity s)" using assms(2) l1 by (simp add: b2_def)
  have t: "take (?z + length text) b2 = ks_text s @ text"
    using assms(2) iv(1) by (simp add: b2_def b1_def blit_def ks_text_def)
  have nul: "b2 ! (?z + length text) = 0"
    using assms(2) l1 by (simp add: b2_def nth_blit)
  let ?s' = "s\<lparr>ks_buf := b2, ks_size := ks_size s + n\<rparr>"
  have st: "ks_store h s (ks_size s) text = (h, s\<lparr>ks_buf := b1\<rparr>)"
    using assms(2) iv(1) by (simp add: ks_store_def Let_def b1_def set_fault_def)
  have "ks_store h (s\<lparr>ks_buf := b1, ks_size := ks_size s + n\<rparr>) (ks_size s + n) [0] = (h, ?s')"
    using assms(2) l1 z by (simp add: ks_store_def Let_def b2_def set_fault_def)
  moreover have "ks_inv ?s'"
    using assms(1,2,3) iv l2 nul t z by (auto simp: ks_inv_def ks_text_def)
  ultimately show ?thesis using st t z by (intro exI [of _ ?s']) (simp add: ks_text_def)
qed

lemma ks_grown_inv:
  fixes h :: heap and p :: block_id
  assumes "ks_inv s" and "unat c = unat (ks_capacity s) * 2 ^ j" and "unat c + 8 < size_bound"
  defines "s' \<equiv> s\<lparr>ks_capacity := c, ks_data := p, ks_buf := moved_bytes h p (ks_buf s) (user_len c)\<rparr>"
  shows "ks_inv s'" and "ks_text s' = ks_text s" and "ks_size s' = ks_size s"
proof -
  note iv = ks_invD [OF assms(1)]
  have "unat (ks_capacity s) * 1 \<le> unat (ks_capacity s) * 2 ^ j" by (intro mult_le_mono2) simp
  then have le: "unat (ks_capacity s) \<le> unat c" using assms(2) by simp
  have ul: "user_len c = unat c" using assms(3) by (rule user_len_no_wrap)
  have b: "moved_bytes h p (ks_buf s) (unat c) = ks_buf s @ map (libc_fill h p) [unat (ks_capacity s)..<unat c]"
    using le iv(1) by (simp add: moved_bytes_def)
  show t: "ks_text s' = ks_text s" using iv(1,2) by (simp add: s'_def ks_text_def ul b)
  show "ks_size s' = ks_size s" by (simp add: s'_def)
  obtain k where "unat (ks_capacity s) = 2 ^ k" using assms(1) by (auto simp: ks_inv_def)
  then have "unat c = 2 ^ (k + j)" using assms(2) by (simp add: power_add)
  then have pow: "\<exists>k. unat c = 2 ^ k" by blast
  have "moved_bytes h p (ks_buf s) (unat c) ! unat (ks_size s) = 0"
    using iv by (simp add: b nth_append)
  then show "ks_inv s'"
    using assms(3) iv le t pow by (simp add: ks_inv_def s'_def ul)
qed

text \<open>
  An append to a well-formed string whose doubled size does not wrap: it is stored, or the growth
  is refused and only the capacity field has changed.
\<close>

lemma append_kstring_cases:
  assumes "ks_ok h s" and "0 \<notin> set text"
    and "2 * (unat (ks_size s) + length text + 1) + 8 < size_bound"
  shows "\<exists>h' r t. append_kstring h (Some s) (Some text) = Some (h', r, t) \<and>
    (t = CDSA_OK \<and> (\<exists>s'. r = Some s' \<and> ks_ok h' s' \<and> ks_text s' = ks_text s @ text \<and>
        fault h' = fault h \<and> ks_frame h' s' = ks_frame h s \<and> libc_refuses h' = libc_refuses h) \<or>
     t = CDSA_ERR_OOM \<and> unat (ks_capacity s) < unat (ks_size s) + length text + 1 \<and>
       fault h' = fault h \<and> \<not> never_refuses h \<and>
       (\<exists>c. r = Some (s\<lparr>ks_capacity := c\<rparr>) \<and> unat (ks_size s) + length text + 1 \<le> unat c))"
proof -
  let ?n = "of_nat (length text) :: size_t" and ?req = "unat (ks_size s) + length text + 1"
  have ok: "heap_ok h" "ks_inv s" "ks_owned h s" using assms(1) by (simp_all add: ks_ok_def)
  note iv = ks_invD [OF ok(2)]
  have n: "unat ?n = length text" using assms(3) by simp
  have "unat (ks_size s + ?n) = unat (ks_size s) + length text"
    using assms(3) n by (subst unat_size_t_add) auto
  then have req: "unat (ks_size s + ?n + 1) = ?req"
    using assms(3) by (subst unat_size_t_Suc) auto
  show ?thesis
  proof (cases "unat (ks_capacity s) < ?req")
    case False
    then have nc: "\<not> ks_capacity s < ks_size s + ?n + 1" by (simp add: size_t_less_iff req)
    have "?req \<le> unat (ks_capacity s)" using False by simp
    from ks_append_ok [OF ok(2) this assms(2), of h] obtain s' where
      s': "ks_inv s'" "ks_text s' = ks_text s @ text" "ks_self s' = ks_self s"
        "ks_data s' = ks_data s" "ks_capacity s' = ks_capacity s"
      and e: "append_kstring h (Some s) (Some text) = Some (h, Some s', CDSA_OK)"
      using nc by (auto simp: append_kstring_def Let_def)
    then have "ks_ok h s'" using ok by (simp add: ks_ok_def ks_owned_def)
    then show ?thesis using e s' by simp
  next
    case True
    obtain k where k: "unat (ks_capacity s) = 2 ^ k" using ok(2) by (auto simp: ks_inv_def)
    have cap: "ks_capacity s < ks_size s + ?n + 1" using True by (simp add: size_t_less_iff req)
    have k63: "k \<le> 63"
    proof (rule ccontr)
      assume "\<not> k \<le> 63"
      then have "(2 :: nat) ^ 64 \<le> 2 ^ k" by (intro power_increasing) auto
      then show False using iv(3) k by simp
    qed
    then have p63: "unat (ks_capacity s) * 2 ^ (63 - k) = 2 ^ 63"
      by (simp add: k flip: power_add)
    obtain j where j: "double_capacity (ks_capacity s) (ks_size s + ?n + 1) = Some (ks_capacity s * 2 ^ j)"
      "unat (ks_capacity s * 2 ^ j) = unat (ks_capacity s) * 2 ^ j" "?req \<le> unat (ks_capacity s) * 2 ^ j"
      "unat (ks_capacity s) * 2 ^ j < 2 * ?req"
      using double_capacity_returns [of "ks_capacity s" "63 - k" "ks_size s + ?n + 1"] p63 assms(3) True
      unfolding req by fastforce
    define c where "c = ks_capacity s * 2 ^ j"
    have c: "unat c = unat (ks_capacity s) * 2 ^ j" "?req \<le> unat c" "unat c + 8 < size_bound"
      using j assms(3) by (simp_all add: c_def)
    obtain h1 temp where re: "cdsa_realloc_track h (Some (ks_data s)) c = (h1, temp)"
      by (metis surj_pair)
    have own: "owns h (ks_self s) sizeof_kstring" "owns h (ks_data s) (ks_capacity s)" "ks_self s \<noteq> ks_data s"
      using ok(3) by (simp_all add: ks_owned_def)
    show ?thesis
    proof (cases temp)
      case None
      have "unat c \<noteq> 0" using c(2) by auto
      then have "c \<noteq> 0" by auto
      from realloc_None [OF re [unfolded None] own(2) this]
      have "h1 = h\<lparr>next_id := Suc (next_id h)\<rparr>" "\<not> never_refuses h"
        by (auto simp: never_refuses_def)
      moreover have "append_kstring h (Some s) (Some text) = Some (h1, Some (s\<lparr>ks_capacity := c\<rparr>), CDSA_ERR_OOM)"
        using cap j(1) re None by (simp add: append_kstring_def Let_def flip: c_def)
      ultimately show ?thesis using True c(2) by auto
    next
      case (Some p)
      note rb = realloc_two_blocks [OF ok(1) own re [unfolded Some]]
      define g where "g = s\<lparr>ks_capacity := c, ks_data := p, ks_buf := moved_bytes h1 p (ks_buf s) (user_len c)\<rparr>"
      have g: "ks_inv g" "ks_text g = ks_text s" "ks_size g = ks_size s" "ks_self g = ks_self s"
        "ks_data g = p" "ks_capacity g = c"
        using ks_grown_inv [OF ok(2) c(1,3), of h1 p] by (simp_all add: g_def)
      have "unat (ks_size g) + length text + 1 \<le> unat (ks_capacity g)" using c(2) g by simp
      from ks_append_ok [OF g(1) this assms(2), of h1] obtain s' where
        s': "ks_inv s'" "ks_text s' = ks_text g @ text" "ks_self s' = ks_self g"
          "ks_data s' = ks_data g" "ks_capacity s' = ks_capacity g"
        and e: "append_kstring h (Some s) (Some text) = Some (h1, Some s', CDSA_OK)"
        using cap j(1) re Some by (auto simp: append_kstring_def Let_def g_def simp flip: c_def)
      have "ks_ok h1 s'" using rb s' g by (simp add: ks_ok_def ks_owned_def)
      moreover have "\<not> unat (c + 8) < 8" using c(3) by (rule no_wrap_header)
      ultimately show ?thesis using e s' g rb by auto
    qed
  qed
qed

section \<open>Creation, clearing, release\<close>

lemma create_kstring_ok:
  assumes "cdsa_create_kstring h = (h', Some s)" and "heap_ok h"
  shows "ks_ok h' s" and "ks_text s = []" and "fault h' = fault h" and "ks_frame h' s = live h"
    and "libc_refuses h' = libc_refuses h"
proof -
  from assms(1) obtain h1 self d where m: "cdsa_malloc_track h sizeof_kstring = (h1, Some self)"
      "cdsa_malloc_track h1 KSTRING_CAPACITY = (h', Some d)"
    and s: "ks_self s = self" "ks_data s = d" "ks_size s = 0" "ks_capacity s = KSTRING_CAPACITY"
      "ks_buf s = blit (fresh_bytes h' d 16) 0 [0]"
    by (auto simp: cdsa_create_kstring_def ks_store_def KSTRING_CAPACITY_def user_len_def Let_def
        set_fault_def split: option.splits prod.splits if_splits)
  note b = malloc_two_blocks [OF assms(2) m]
  have "ks_inv s"
    by (auto simp: ks_inv_def ks_text_def s KSTRING_CAPACITY_def nth_blit intro!: exI [of _ 4])
  then show "ks_ok h' s" using b by (simp add: ks_ok_def ks_owned_def s)
  show "ks_text s = []" by (simp add: ks_text_def s)
  show "fault h' = fault h" using b(6) by (simp add: sizeof_kstring_def KSTRING_CAPACITY_def)
  show "ks_frame h' s = live h" "libc_refuses h' = libc_refuses h" using b by (simp_all add: s)
qed

lemma create_kstring_succeeds:
  "never_refuses h \<Longrightarrow> \<exists>h' s. cdsa_create_kstring h = (h', Some s)"
  by (simp add: cdsa_create_kstring_def cdsa_malloc_track_def never_refuses_def Let_def
      split: prod.splits)

lemma free_kstring_blocks:
  assumes "ks_ok h s"
  shows "live (cdsa_free_kstring h (Some s)) = ks_frame h s" and "fault (cdsa_free_kstring h (Some s)) = fault h"
proof -
  have "owns h (ks_self s) sizeof_kstring" "owns h (ks_data s) (ks_capacity s)" "ks_self s \<noteq> ks_data s"
    using assms by (simp_all add: ks_ok_def ks_owned_def)
  note free_two_blocks [OF this]
  then show "live (cdsa_free_kstring h (Some s)) = ks_frame h s"
    and "fault (cdsa_free_kstring h (Some s)) = fault h"
    by (simp_all add: cdsa_free_kstring_def)
qed

lemma clear_kstring_ok:
  assumes "ks_ok h s"
  shows "\<exists>s'. cdsa_clear_kstring h (Some s) = (h, Some s') \<and> ks_ok h s' \<and> ks_text s' = [] \<and>
    ks_frame h s' = ks_frame h s"
proof -
  have iv: "ks_inv s" "heap_ok h" "ks_owned h s" using assms by (simp_all add: ks_ok_def)
  note d = ks_invD [OF iv(1)]
  have pos: "0 < unat (ks_capacity s)" using d(2) by linarith
  let ?s' = "s\<lparr>ks_size := 0, ks_buf := blit (ks_buf s) 0 [0]\<rparr>"
  have "cdsa_clear_kstring h (Some s) = (h, Some ?s')"
    using d(1) pos by (simp add: cdsa_clear_kstring_def ks_store_def Let_def set_fault_def)
  moreover have "ks_inv ?s'"
    using iv(1) d(1) pos by (auto simp: ks_inv_def ks_text_def nth_blit)
  ultimately show ?thesis using iv by (auto simp: ks_ok_def ks_owned_def ks_text_def)
qed

section \<open>Runs\<close>

datatype ks_call = KAppend cstring | KClear

fun ks_exec :: "heap \<Rightarrow> kstring option \<Rightarrow> ks_call \<Rightarrow> (heap \<times> kstring option \<times> cdsa_status) option" where
  "ks_exec h s (KAppend t) = append_kstring h s (Some t)"
| "ks_exec h s KClear = (case cdsa_clear_kstring h s of (h', s') \<Rightarrow> Some (h', s', CDSA_OK))"

fun ks_run :: "heap \<Rightarrow> kstring option \<Rightarrow> ks_call list \<Rightarrow>
    (heap \<times> kstring option \<times> cdsa_status list) option" where
  "ks_run h s [] = Some (h, s, [])"
| "ks_run h s (c # cs) =
     (case ks_exec h s c of
        None \<Rightarrow> None
      | Some (h1, s1, st) \<Rightarrow>
          map_option (\<lambda>(h2, s2, sts). (h2, s2, st # sts)) (ks_run h1 s1 cs))"

text \<open>The text the calls describe, and the bytes they hand in.\<close>

fun text_after :: "cstring \<Rightarrow> ks_call list \<Rightarrow> cstring" where
  "text_after t [] = t"
| "text_after t (KAppend u # cs) = text_after (t @ u) cs"
| "text_after t (KClear # cs) = text_after [] cs"

fun call_bytes :: "ks_call \<Rightarrow> bytes" where
  "call_bytes (KAppend t) = t"
| "call_bytes KClear = []"

lemma ks_run_ok:
  assumes "ks_ok h s" and "never_refuses h" and "\<forall>c \<in> set cs. 0 \<notin> set (call_bytes c)"
    and "2 * (length (ks_text s) + length (concat (map call_bytes cs)) + 1) + 8 < size_bound"
  shows "\<exists>h' s'. ks_run h (Some s) cs = Some (h', Some s', replicate (length cs) CDSA_OK) \<and>
    ks_ok h' s' \<and> ks_text s' = text_after (ks_text s) cs \<and> fault h' = fault h \<and>
    ks_frame h' s' = ks_frame h s"
  using assms
proof (induction cs arbitrary: h s)
  case Nil
  then show ?case by simp
next
  case (Cons c cs)
  have len: "length (ks_text s) = unat (ks_size s)"
    using Cons.prems(1) by (simp add: ks_ok_def ks_invD(4))
  obtain h1 s1 where one: "ks_exec h (Some s) c = Some (h1, Some s1, CDSA_OK)" "ks_ok h1 s1"
      "ks_text s1 = text_after (ks_text s) [c]" "fault h1 = fault h" "ks_frame h1 s1 = ks_frame h s"
      "libc_refuses h1 = libc_refuses h"
  proof (cases c)
    case (KAppend t)
    have "0 \<notin> set t" "2 * (unat (ks_size s) + length t + 1) + 8 < size_bound"
      using Cons.prems(3,4) KAppend len by simp_all
    from append_kstring_cases [OF Cons.prems(1) this] Cons.prems(2) KAppend show thesis
      by (auto intro: that)
  next
    case KClear
    then show thesis using clear_kstring_ok [OF Cons.prems(1)] by (auto intro: that)
  qed
  have "never_refuses h1" using one(6) Cons.prems(2) by (simp add: never_refuses_def)
  moreover have "2 * (length (ks_text s1) + length (concat (map call_bytes cs)) + 1) + 8 < size_bound"
    using Cons.prems(4) one(3) by (cases c) auto
  ultimately obtain h2 s2 where "ks_run h1 (Some s1) cs = Some (h2, Some s2, replicate (length cs) CDSA_OK)"
      "ks_ok h2 s2" "ks_text s2 = text_after (ks_text s1) cs" "fault h2 = fault h1"
      "ks_frame h2 s2 = ks_frame h1 s1"
    using Cons.IH [OF one(2)] Cons.prems(3) by auto
  then show ?case using one by (cases c) auto
qed

section \<open>Properties\<close>

text \<open>
  C20: a string is the text appended to it: from its creation on, when libc refuses nothing,
  any run of appends and clears returns, reports \<open>CDSA_OK\<close> each time and leaves the bytes appended
  since the last clear, NUL-terminated, for the reader of \<open>c_str_kstring\<close>; no write leaves the
  block, and releasing the string gives back its blocks.
\<close>

theorem kstring_is_appended_text:
  assumes "heap_ok h" and "never_refuses h" and "\<forall>c \<in> set cs. 0 \<notin> set (call_bytes c)"
    and "2 * (length (concat (map call_bytes cs)) + 1) + 8 < 2 ^ 64"
    and "cdsa_create_kstring h = (h0, Some s0)"
  shows "\<exists>h1 s1. ks_run h0 (Some s0) cs = Some (h1, Some s1, replicate (length cs) CDSA_OK) \<and>
    c_str_kstring (Some s1) = Some (text_after [] cs) \<and>
    unat (cdsa_size_kstring (Some s1)) = length (text_after [] cs) \<and> fault h1 = fault h \<and>
    live (cdsa_free_kstring h1 (Some s1)) = live h"
proof -
  note c = create_kstring_ok [OF assms(5,1)]
  have "never_refuses h0" using c(5) assms(2) by (simp add: never_refuses_def)
  then obtain h1 s1 where r: "ks_run h0 (Some s0) cs = Some (h1, Some s1, replicate (length cs) CDSA_OK)"
      "ks_ok h1 s1" "ks_text s1 = text_after [] cs" "fault h1 = fault h0" "ks_frame h1 s1 = ks_frame h0 s0"
    using ks_run_ok [OF c(1) _ assms(3)] assms(4) c(2) by auto
  have iv: "ks_inv s1" using r(2) by (simp add: ks_ok_def)
  show ?thesis
    using r c(3,4) c_str_text [OF iv] ks_invD(4) [OF iv] free_kstring_blocks(1) [OF r(2)]
    by (auto simp: cdsa_size_kstring_def)
qed

theorem kstring_is_appended_text_witness:
  "\<exists>h0 s0 h1 s1. cdsa_create_kstring good_heap = (h0, Some s0) \<and>
     ks_run h0 (Some s0) [KAppend [1, 2], KClear, KAppend (replicate 20 7), KAppend [9]] =
       Some (h1, Some s1, [CDSA_OK, CDSA_OK, CDSA_OK, CDSA_OK]) \<and>
     c_str_kstring (Some s1) = Some (replicate 20 7 @ [9])"
proof -
  obtain h0 s0 where c: "cdsa_create_kstring good_heap = (h0, Some s0)"
    using create_kstring_succeeds [of good_heap] by auto
  let ?cs = "[KAppend [1, 2], KClear, KAppend (replicate 20 7), KAppend [9]]"
  have "\<forall>c \<in> set ?cs. 0 \<notin> set (call_bytes c)" by simp
  moreover have "2 * (length (concat (map call_bytes ?cs)) + 1) + 8 < 2 ^ 64" by simp
  ultimately obtain h1 s1 where
    "ks_run h0 (Some s0) ?cs = Some (h1, Some s1, replicate (length ?cs) CDSA_OK)"
    "c_str_kstring (Some s1) = Some (text_after [] ?cs)"
    using kstring_is_appended_text [OF _ _ _ _ c, of ?cs] by auto
  moreover have "replicate (length ?cs) CDSA_OK = [CDSA_OK, CDSA_OK, CDSA_OK, CDSA_OK]"
    by simp
  moreover have "text_after [] ?cs = replicate 20 7 @ [9]" by simp
  ultimately show ?thesis using c by metis
qed

text \<open>
  C31: an append whose growth is refused has raised the capacity all the same: repeating it
  reports \<open>CDSA_OK\<close> and writes behind the block.
\<close>

theorem kstring_append_after_oom_overflows:
  assumes "ks_ok h s" and "0 \<notin> set text" and "2 * (unat (ks_size s) + length text + 1) + 8 < 2 ^ 64"
    and "append_kstring h (Some s) (Some text) = Some (h1, r, CDSA_ERR_OOM)"
  shows "\<exists>h2 r'. append_kstring h1 r (Some text) = Some (h2, r', CDSA_OK) \<and> fault h2"
proof -
  from append_kstring_cases [OF assms(1-3)] assms(4) obtain c where
    r: "r = Some (s\<lparr>ks_capacity := c\<rparr>)" and small: "unat (ks_capacity s) < unat (ks_size s) + length text + 1"
    and c: "unat (ks_size s) + length text + 1 \<le> unat c"
    by auto
  let ?n = "of_nat (length text) :: size_t"
  have n: "unat ?n = length text" using assms(3) by simp
  have z: "unat (ks_size s + ?n) = unat (ks_size s) + length text"
    using assms(3) n by (subst unat_size_t_add) auto
  then have req: "unat (ks_size s + ?n + 1) = unat (ks_size s) + length text + 1"
    using assms(3) by (subst unat_size_t_Suc) auto
  have "\<not> c < ks_size s + ?n + 1" using c req by (simp add: size_t_less_iff)
  moreover have "length (ks_buf s) = unat (ks_capacity s)"
    using assms(1) ks_invD(1) by (simp add: ks_ok_def)
  ultimately show ?thesis
    using small z by (auto simp: r append_kstring_def ks_store_def Let_def set_fault_def)
qed

theorem kstring_append_after_oom_overflows_witness:
  "\<exists>h s h1 r h2 r'. ks_text s = [] \<and> \<not> fault h1 \<and>
     append_kstring h (Some s) (Some (replicate 20 7)) = Some (h1, r, CDSA_ERR_OOM) \<and>
     append_kstring h1 r (Some (replicate 20 7)) = Some (h2, r', CDSA_OK) \<and> fault h2"
proof -
  define h where "h = (initial_heap (\<lambda>k _. 2 \<le> k) (\<lambda>_ _. 0) (\<lambda>_. 0))\<lparr>next_id := Suc (Suc 0),
      mem_used := 40, live := [(Suc 0, \<lparr>hdr = 16, raw = 24\<rparr>), (0, \<lparr>hdr = 24, raw = 32\<rparr>)]\<rparr>"
  define s where "s = \<lparr>ks_self = 0, ks_data = Suc 0, ks_buf = replicate 16 0, ks_size = 0,
      ks_capacity = 16\<rparr>"
  have ok: "ks_ok h s"
    by (auto simp: h_def s_def ks_ok_def heap_ok_def ks_inv_def ks_owned_def owns_def ks_text_def
        sizeof_kstring_def intro!: exI [of _ 4])
  have "0 \<notin> set (replicate 20 7 :: cstring)" by simp
  from append_kstring_cases [OF ok this, simplified]
  obtain h1 r t where a: "append_kstring h (Some s) (Some (replicate 20 7)) = Some (h1, r, t)"
    and f: "t = CDSA_ERR_OOM \<longrightarrow> fault h1 = fault h" by (auto simp: s_def)
  have "double_capacity 16 21 = Some 32"
    by (simp add: double_capacity.simps [of 16] double_capacity.simps [of 32])
  then have t: "t = CDSA_ERR_OOM"
    using a by (simp add: h_def s_def append_kstring_def cdsa_realloc_track_def Let_def)
  have nul: "0 \<notin> set (replicate 20 7 :: cstring)" by simp
  have room: "2 * (unat (ks_size s) + length (replicate 20 7 :: cstring) + 1) + 8 < 2 ^ 64"
    by (simp add: s_def)
  from kstring_append_after_oom_overflows [OF ok nul room a [unfolded t]]
  obtain h2 r' where "append_kstring h1 r (Some (replicate 20 7)) = Some (h2, r', CDSA_OK)" "fault h2"
    by blast
  moreover have "ks_text s = []" "\<not> fault h1" using f t by (simp_all add: s_def ks_text_def h_def)
  ultimately show ?thesis using a t by metis
qed

text \<open>
  C32: the doubling loop of an append ends exactly when the space it needs is at most
  \<open>2 ^ 63\<close>: beyond that the capacity wraps to 0 and the call never returns.
\<close>

theorem kstring_append_returns_iff:
  assumes "ks_inv s" and "unat (ks_size s) + length text + 1 < 2 ^ 64"
  shows "append_kstring h (Some s) (Some text) \<noteq> None \<longleftrightarrow> unat (ks_size s) + length text + 1 \<le> 2 ^ 63"
proof -
  let ?n = "of_nat (length text) :: size_t" and ?req = "unat (ks_size s) + length text + 1"
  have n: "unat ?n = length text" using assms(2) by simp
  have "unat (ks_size s + ?n) = unat (ks_size s) + length text"
    using assms(2) n by (subst unat_size_t_add) auto
  then have req: "unat (ks_size s + ?n + 1) = ?req"
    using assms(2) by (subst unat_size_t_Suc) auto
  obtain k where k: "unat (ks_capacity s) = 2 ^ k" using assms(1) by (auto simp: ks_inv_def)
  have k63: "k \<le> 63"
  proof (rule ccontr)
    assume "\<not> k \<le> 63"
    then have "(2 :: nat) ^ 64 \<le> 2 ^ k" by (intro power_increasing) auto
    then show False using ks_invD(3) [OF assms(1)] k by simp
  qed
  then have p63: "unat (ks_capacity s) * 2 ^ (63 - k) = 2 ^ 63" by (simp add: k flip: power_add)
  have app: "append_kstring h (Some s) (Some text) = None \<longleftrightarrow>
      ks_capacity s < ks_size s + ?n + 1 \<and> double_capacity (ks_capacity s) (ks_size s + ?n + 1) = None"
    by (auto simp: append_kstring_def Let_def split: option.splits prod.splits)
  show ?thesis
  proof (cases "?req \<le> 2 ^ 63")
    case True
    then show ?thesis
      using double_capacity_returns [of "ks_capacity s" "63 - k" "ks_size s + ?n + 1"] p63 req app
      by fastforce
  next
    case False
    then have big: "2 ^ 63 < unat (ks_size s + ?n + 1)" using req by simp
    have "(2 :: nat) ^ k \<le> 2 ^ 63" using k63 by (intro power_increasing) auto
    then have "ks_capacity s < ks_size s + ?n + 1" using big k by (simp add: size_t_less_iff)
    then show ?thesis using double_capacity_wraps [OF k k63 big] False app by simp
  qed
qed

theorem kstring_append_returns_iff_witness:
  "\<exists>s. append_kstring good_heap (Some s) (Some (replicate 3 7)) \<noteq> None \<and>
     append_kstring good_heap (Some s) (Some (replicate (2 ^ 63) 7)) = None"
proof -
  define s where "s = \<lparr>ks_self = 0, ks_data = Suc 0, ks_buf = replicate 16 0, ks_size = 0,
      ks_capacity = 16\<rparr>"
  have inv: "ks_inv s" by (auto simp: s_def ks_inv_def ks_text_def intro!: exI [of _ 4])
  have "unat (ks_size s) = 0" by (simp add: s_def)
  then show ?thesis
    using kstring_append_returns_iff [OF inv, of "replicate 3 7" good_heap]
      kstring_append_returns_iff [OF inv, of "replicate (2 ^ 63) 7" good_heap]
    by (intro exI [of _ s]) (simp del: not_None_eq)
qed

end
