(* ===== verification/LinkedList.thy ===== *)
theory LinkedList
  imports Tracking_Heap Interfaces
begin

text \<open>
  \<^verbatim>\<open>src/linkedlist.c\<close>: the singly linked list.  Each element has two blocks, the node and its
  payload; \<open>ll_nodes\<close> and \<open>ll_cells\<close> are the contents of those blocks, by block.  Following a
  pointer to a node that is not there is a fault.  The loops over the nodes are partial: on a
  cyclic chain they would not end (the value is \<open>None\<close>).
\<close>

section \<open>State\<close>

record list_node =
  nd_data :: "block_id option"
  nd_next :: "block_id option"

record linkedlist =
  ll_self :: block_id
  ll_nodes :: "block_id \<Rightarrow> list_node option"
  ll_cells :: "block_id \<Rightarrow> bytes option"
  ll_head :: "block_id option"
  ll_size :: size_t
  ll_elem_size :: size_t
  ll_version :: size_t

definition sizeof_list_node :: size_t where "sizeof_list_node = 16"
definition sizeof_linkedlist :: size_t where "sizeof_linkedlist = 32"
definition sizeof_linkedlist_iterator :: size_t where "sizeof_linkedlist_iterator = 24"

section \<open>Operations\<close>

definition cdsa_create_linkedlist :: "heap \<Rightarrow> size_t \<Rightarrow> heap \<times> linkedlist option" where
  "cdsa_create_linkedlist h elem_size =
     (let (h1, list) = cdsa_malloc_track h sizeof_linkedlist
      in (h1, map_option (\<lambda>self. \<lparr>ll_self = self, ll_nodes = Map.empty, ll_cells = Map.empty,
            ll_head = None, ll_size = 0, ll_elem_size = elem_size, ll_version = 0\<rparr>) list))"

definition cdsa_size_linkedlist :: "linkedlist option \<Rightarrow> size_t" where
  "cdsa_size_linkedlist list = (case list of None \<Rightarrow> 0 | Some l \<Rightarrow> ll_size l)"

definition cdsa_is_empty_linkedlist :: "linkedlist option \<Rightarrow> bool" where
  "cdsa_is_empty_linkedlist list = (case list of None \<Rightarrow> True | Some l \<Rightarrow> ll_size l = 0)"

text \<open>One round of the loop that gives back every node and payload, and the loop.\<close>

definition free_node ::
  "heap \<Rightarrow> (block_id \<Rightarrow> list_node option) \<Rightarrow> (block_id \<Rightarrow> bytes option) \<Rightarrow> block_id \<Rightarrow> list_node \<Rightarrow>
   heap \<times> (block_id \<Rightarrow> list_node option) \<times> (block_id \<Rightarrow> bytes option)" where
  "free_node h nodes cells p nd =
     (let h1 = (if nd_data nd \<noteq> None then cdsa_free_track h (nd_data nd) else h);
          cells1 = (case nd_data nd of None \<Rightarrow> cells | Some d \<Rightarrow> cells(d := None))
      in (cdsa_free_track h1 (Some p), nodes(p := None), cells1))"

partial_function (option) free_nodes ::
  "heap \<Rightarrow> (block_id \<Rightarrow> list_node option) \<Rightarrow> (block_id \<Rightarrow> bytes option) \<Rightarrow> block_id option \<Rightarrow>
   (heap \<times> (block_id \<Rightarrow> list_node option) \<times> (block_id \<Rightarrow> bytes option)) option" where
  "free_nodes h nodes cells current =
     (if current = None then Some (h, nodes, cells)
      else let p = the current
           in if nodes p = None then Some (set_fault True h, nodes, cells)
              else let next = nd_next (the (nodes p));
                       (h1, nodes1, cells1) = free_node h nodes cells p (the (nodes p))
                   in free_nodes h1 nodes1 cells1 next)"

definition cdsa_free_linkedlist :: "heap \<Rightarrow> linkedlist option \<Rightarrow> heap option" where
  "cdsa_free_linkedlist h list =
     (case list of
        None \<Rightarrow> Some h
      | Some l \<Rightarrow>
          (case free_nodes h (ll_nodes l) (ll_cells l) (ll_head l) of
             None \<Rightarrow> None
           | Some (h1, _, _) \<Rightarrow> Some (cdsa_free_track h1 (Some (ll_self l)))))"

definition cdsa_push_front_linkedlist ::
  "heap \<Rightarrow> linkedlist option \<Rightarrow> bytes option \<Rightarrow> heap \<times> linkedlist option \<times> cdsa_status" where
  "cdsa_push_front_linkedlist h list val =
     (case (list, val) of
        (Some l, Some v) \<Rightarrow>
          let (h1, new_node) = cdsa_malloc_track h sizeof_list_node
          in (case new_node of
                None \<Rightarrow> (h1, list, CDSA_ERR_OOM)
              | Some p \<Rightarrow>
                  let (h2, data) = cdsa_malloc_track h1 (ll_elem_size l)
                  in (case data of
                        None \<Rightarrow> (cdsa_free_track h2 (Some p), list, CDSA_ERR_OOM)
                      | Some d \<Rightarrow>
                          let n = unat (ll_elem_size l);
                              bad = (length v < n \<or> user_len (ll_elem_size l) < n)
                          in (set_fault bad h2,
                              Some (l\<lparr>ll_nodes := (ll_nodes l)(p \<mapsto>
                                        \<lparr>nd_data = Some d, nd_next = ll_head l\<rparr>),
                                      ll_cells := (ll_cells l)(d \<mapsto> take n v),
                                      ll_head := Some p,
                                      ll_size := ll_size l + 1,
                                      ll_version := ll_version l + 1\<rparr>), CDSA_OK)))
      | _ \<Rightarrow> (h, list, CDSA_ERR_INVALID))"

definition cdsa_pop_front_linkedlist ::
  "heap \<Rightarrow> linkedlist option \<Rightarrow> heap \<times> linkedlist option \<times> cdsa_status" where
  "cdsa_pop_front_linkedlist h list =
     (case list of
        None \<Rightarrow> (h, None, CDSA_ERR_INVALID)
      | Some l \<Rightarrow>
          (case ll_head l of
             None \<Rightarrow> (h, list, CDSA_ERR_EMPTY)
           | Some old_head \<Rightarrow>
               (case ll_nodes l old_head of
                  None \<Rightarrow> (set_fault True h, list, CDSA_OK)
                | Some nd \<Rightarrow>
                    let h1 = cdsa_free_track h (nd_data nd);
                        h2 = cdsa_free_track h1 (Some old_head);
                        cells1 = (case nd_data nd of
                                    None \<Rightarrow> ll_cells l
                                  | Some d \<Rightarrow> (ll_cells l)(d := None))
                    in (h2, Some (l\<lparr>ll_head := nd_next nd,
                                    ll_nodes := (ll_nodes l)(old_head := None),
                                    ll_cells := cells1,
                                    ll_size := ll_size l - 1,
                                    ll_version := ll_version l + 1\<rparr>), CDSA_OK))))"

definition cdsa_clear_linkedlist ::
  "heap \<Rightarrow> linkedlist option \<Rightarrow> (heap \<times> linkedlist option) option" where
  "cdsa_clear_linkedlist h list =
     (case list of
        None \<Rightarrow> Some (h, None)
      | Some l \<Rightarrow>
          (case free_nodes h (ll_nodes l) (ll_cells l) (ll_head l) of
             None \<Rightarrow> None
           | Some (h1, nodes, cells) \<Rightarrow>
               Some (h1, Some (l\<lparr>ll_nodes := nodes, ll_cells := cells, ll_head := None,
                                 ll_size := 0, ll_version := ll_version l + 1\<rparr>))))"

text \<open>The front element is a pointer to its payload block; a dangling head is a fault.\<close>

definition cdsa_front_linkedlist :: "heap \<Rightarrow> linkedlist option \<Rightarrow> heap \<times> block_id option" where
  "cdsa_front_linkedlist h list =
     (case list of
        None \<Rightarrow> (h, None)
      | Some l \<Rightarrow>
          (case ll_head l of
             None \<Rightarrow> (h, None)
           | Some p \<Rightarrow>
               (case ll_nodes l p of
                  None \<Rightarrow> (set_fault True h, None)
                | Some nd \<Rightarrow> (h, nd_data nd))))"

text \<open>\<open>print_linkedlist\<close>: the payload pointers \<open>print_fn\<close> is called with, in order.\<close>

partial_function (option) print_nodes ::
  "heap \<Rightarrow> (block_id \<Rightarrow> list_node option) \<Rightarrow> block_id option \<Rightarrow>
   (heap \<times> block_id option list) option" where
  "print_nodes h nodes current =
     (if current = None then Some (h, [])
      else let p = the current
           in if nodes p = None then Some (set_fault True h, [])
              else Option.bind (print_nodes h nodes (nd_next (the (nodes p))))
                     (\<lambda>(h', ds). Some (h', nd_data (the (nodes p)) # ds)))"

definition print_linkedlist ::
  "heap \<Rightarrow> linkedlist option \<Rightarrow> bool \<Rightarrow> (heap \<times> block_id option list) option" where
  "print_linkedlist h list print_fn =
     (case list of
        None \<Rightarrow> Some (h, [])
      | Some l \<Rightarrow> if \<not> print_fn then Some (h, []) else print_nodes h (ll_nodes l) (ll_head l))"

subsection \<open>The iterator\<close>

record linkedlist_iterator =
  li_self :: block_id
  li_current :: "block_id option"
  li_snapshot :: size_t

definition cdsa_create_linkedlist_iterator ::
  "heap \<Rightarrow> linkedlist option \<Rightarrow> heap \<times> linkedlist_iterator option" where
  "cdsa_create_linkedlist_iterator h list =
     (case list of
        None \<Rightarrow> (h, None)
      | Some l \<Rightarrow>
          let (h1, iter) = cdsa_malloc_track h sizeof_linkedlist_iterator
          in (h1, map_option (\<lambda>p. \<lparr>li_self = p, li_current = ll_head l,
                                   li_snapshot = ll_version l\<rparr>) iter))"

definition cdsa_has_next_linkedlist :: "linkedlist option \<Rightarrow> linkedlist_iterator option \<Rightarrow> bool" where
  "cdsa_has_next_linkedlist list iter =
     (case (iter, list) of
        (Some i, Some l) \<Rightarrow>
          if ll_version l \<noteq> li_snapshot i then False else li_current i \<noteq> None
      | _ \<Rightarrow> False)"

text \<open>The value yielded is the payload pointer.\<close>

definition cdsa_next_linkedlist :: "heap \<Rightarrow> linkedlist \<Rightarrow> linkedlist_iterator option \<Rightarrow> bool \<Rightarrow>
    heap \<times> linkedlist_iterator option \<times> cdsa_status \<times> block_id option" where
  "cdsa_next_linkedlist h l iter out_value =
     (case iter of
        None \<Rightarrow> (h, None, CDSA_ERR_INVALID, None)
      | Some i \<Rightarrow>
          if \<not> out_value then (h, iter, CDSA_ERR_INVALID, None)
          else if ll_version l \<noteq> li_snapshot i then (h, iter, CDSA_ERR_ITER_INVALIDATED, None)
          else if \<not> cdsa_has_next_linkedlist (Some l) iter then (h, iter, CDSA_ERR_NOT_FOUND, None)
          else (case Option.bind (li_current i) (ll_nodes l) of
                  None \<Rightarrow> (set_fault True h, iter, CDSA_OK, None)
                | Some nd \<Rightarrow> (h, Some (i\<lparr>li_current := nd_next nd\<rparr>), CDSA_OK, nd_data nd)))"

definition cdsa_free_linkedlist_iterator :: "heap \<Rightarrow> linkedlist_iterator option \<Rightarrow> heap" where
  "cdsa_free_linkedlist_iterator h iter = cdsa_free_track h (map_option li_self iter)"

lemma linkedlist_null [null_simps]:
  "cdsa_push_front_linkedlist h None v = (h, None, CDSA_ERR_INVALID)"
  "cdsa_push_front_linkedlist h l None = (h, l, CDSA_ERR_INVALID)"
  "cdsa_pop_front_linkedlist h None = (h, None, CDSA_ERR_INVALID)"
  "cdsa_clear_linkedlist h None = Some (h, None)" "cdsa_free_linkedlist h None = Some h"
  "cdsa_front_linkedlist h None = (h, None)" "cdsa_size_linkedlist None = 0"
  "cdsa_is_empty_linkedlist None" "print_linkedlist h None f = Some (h, [])"
  "cdsa_create_linkedlist_iterator h None = (h, None)" "\<not> cdsa_has_next_linkedlist l None"
  "cdsa_next_linkedlist h x None b = (h, None, CDSA_ERR_INVALID, None)"
  "cdsa_free_linkedlist_iterator h None = h"
  by (simp_all add: cdsa_push_front_linkedlist_def cdsa_pop_front_linkedlist_def
      cdsa_clear_linkedlist_def cdsa_free_linkedlist_def cdsa_front_linkedlist_def
      cdsa_size_linkedlist_def cdsa_is_empty_linkedlist_def print_linkedlist_def
      cdsa_create_linkedlist_iterator_def cdsa_has_next_linkedlist_def cdsa_next_linkedlist_def
      cdsa_free_linkedlist_iterator_def split: option.splits)

section \<open>The chain of nodes and its invariant\<close>

text \<open>
  \<open>ll_seg ns cs p xs\<close>: from \<open>p\<close> the nodes are linked as \<open>xs\<close> lists them, each entry a node block, its
  payload block and the payload, up to NULL.
\<close>

fun ll_seg :: "(block_id \<Rightarrow> list_node option) \<Rightarrow> (block_id \<Rightarrow> bytes option) \<Rightarrow> block_id option \<Rightarrow>
    (block_id \<times> block_id \<times> bytes) list \<Rightarrow> bool" where
  "ll_seg ns cs p [] \<longleftrightarrow> p = None"
| "ll_seg ns cs p ((a, d, b) # xs) \<longleftrightarrow> p = Some a \<and> cs d = Some b \<and>
     (\<exists>next. ns a = Some \<lparr>nd_data = Some d, nd_next = next\<rparr> \<and> ll_seg ns cs next xs)"

abbreviation node_ids :: "(block_id \<times> block_id \<times> bytes) list \<Rightarrow> block_id set" where
  "node_ids xs \<equiv> fst ` set xs"

abbreviation cell_ids :: "(block_id \<times> block_id \<times> bytes) list \<Rightarrow> block_id set" where
  "cell_ids xs \<equiv> (\<lambda>x. fst (snd x)) ` set xs"

definition ll_blocks :: "size_t \<Rightarrow> (block_id \<times> block_id \<times> bytes) list \<Rightarrow> (block_id \<times> size_t) list" where
  "ll_blocks es xs = concat (map (\<lambda>(a, d, _). [(d, es), (a, sizeof_list_node)]) xs)"

lemma ll_blocks_simps [simp]:
  "ll_blocks es [] = []"
  "ll_blocks es ((a, d, b) # xs) = (d, es) # (a, sizeof_list_node) # ll_blocks es xs"
  by (simp_all add: ll_blocks_def)

lemma ll_blocks_ids: "fst ` set (ll_blocks es xs) = node_ids xs \<union> cell_ids xs"
proof (induction xs)
  case (Cons x xs)
  then show ?case by (cases x) auto
qed simp

lemma ll_seg_upd_node: "a \<notin> node_ids xs \<Longrightarrow> ll_seg (ns(a := v)) cs p xs = ll_seg ns cs p xs"
  by (induction xs arbitrary: p) auto

lemma ll_seg_upd_cell: "d \<notin> cell_ids xs \<Longrightarrow> ll_seg ns (cs(d := v)) p xs = ll_seg ns cs p xs"
  by (induction xs arbitrary: p) auto

definition ll_ids :: "linkedlist \<Rightarrow> block_id set" where
  "ll_ids l = insert (ll_self l) (dom (ll_nodes l) \<union> dom (ll_cells l))"

definition ll_repr :: "heap \<Rightarrow> linkedlist \<Rightarrow> (block_id \<times> block_id \<times> bytes) list \<Rightarrow> bool" where
  "ll_repr h l xs \<longleftrightarrow> heap_ok h \<and> ll_seg (ll_nodes l) (ll_cells l) (ll_head l) xs \<and>
     dom (ll_nodes l) = node_ids xs \<and> dom (ll_cells l) = cell_ids xs \<and>
     owns_all h ((ll_self l, sizeof_linkedlist) # ll_blocks (ll_elem_size l) xs) \<and>
     ll_size l = of_nat (length xs) \<and> unat (ll_elem_size l) + 8 < size_bound \<and>
     (\<forall>(a, d, b) \<in> set xs. length b = unat (ll_elem_size l))"

definition ll_rep :: "heap \<Rightarrow> linkedlist \<Rightarrow> bytes list \<Rightarrow> bool" where
  "ll_rep h l bs \<longleftrightarrow> (\<exists>xs. ll_repr h l xs \<and> bs = map (snd \<circ> snd) xs)"

text \<open>What no operation changes.\<close>

definition ll_frame :: "heap \<Rightarrow> linkedlist \<Rightarrow> bool \<times> (block_id \<times> mblock) list \<times> size_t" where
  "ll_frame h l = (fault h, others (ll_ids l) h, ll_elem_size l)"

lemma ll_reprD:
  assumes "ll_repr h l xs"
  shows "heap_ok h" and "ll_seg (ll_nodes l) (ll_cells l) (ll_head l) xs"
    and "owns_all h ((ll_self l, sizeof_linkedlist) # ll_blocks (ll_elem_size l) xs)"
    and "dom (ll_nodes l) = node_ids xs" and "dom (ll_cells l) = cell_ids xs"
    and "ll_size l = of_nat (length xs)" and "unat (ll_elem_size l) + 8 < size_bound"
    and "ll_ids l = insert (ll_self l) (node_ids xs \<union> cell_ids xs)"
  using assms by (auto simp: ll_repr_def ll_ids_def)

section \<open>What each operation does\<close>

lemma free_nodes_ok:
  assumes "ll_seg ns cs p xs" and "heap_ok h" and "owns_all h (ll_blocks es xs @ rest)"
  shows "\<exists>h'. free_nodes h ns cs p = Some (h', ns |` (- node_ids xs), cs |` (- cell_ids xs)) \<and>
    heap_ok h' \<and> owns_all h' rest \<and> fault h' = fault h \<and> libc_refuses h' = libc_refuses h \<and>
    (\<forall>ps. others ps h' = others (node_ids xs \<union> cell_ids xs \<union> ps) h)"
  using assms
proof (induction xs arbitrary: h ns cs p)
  case Nil
  then show ?case by (simp add: free_nodes.simps [of _ _ _ None])
next
  case (Cons x xs)
  obtain a d b where x: "x = (a, d, b)" by (metis prod_cases3)
  from Cons.prems(1) obtain nx where p: "p = Some a" "ns a = Some \<lparr>nd_data = Some d, nd_next = nx\<rparr>"
    and seg: "ll_seg ns cs nx xs" by (auto simp: x)
  have own: "owns_all h ((d, es) # (a, sizeof_list_node) # ll_blocks es xs @ rest)"
    using Cons.prems(3) by (simp add: x)
  note f1 = free_owns_all [OF own]
  note f2 = free_owns_all [OF f1(1)]
  define h2 where "h2 = cdsa_free_track (cdsa_free_track h (Some d)) (Some a)"
  have dis: "a \<notin> node_ids xs" "d \<notin> cell_ids xs"
    using own by (auto simp: ll_blocks_ids image_Un)
  then have "ll_seg (ns(a := None)) (cs(d := None)) nx xs"
    using seg by (simp add: ll_seg_upd_node ll_seg_upd_cell)
  moreover have h2: "heap_ok h2" "owns_all h2 (ll_blocks es xs @ rest)" "fault h2 = fault h"
      "libc_refuses h2 = libc_refuses h"
    using f1 f2 Cons.prems(2) by (simp_all add: h2_def)
  ultimately obtain h' where
    h': "free_nodes h2 (ns(a := None)) (cs(d := None)) nx =
        Some (h', ns(a := None) |` (- node_ids xs), cs(d := None) |` (- cell_ids xs))"
      "heap_ok h'" "owns_all h' rest" "fault h' = fault h" "libc_refuses h' = libc_refuses h"
      "\<forall>ps. others ps h' = others (node_ids xs \<union> cell_ids xs \<union> ps) h2"
    using Cons.IH [of "ns(a := None)" "cs(d := None)" nx h2] by metis
  have "ns(a := None) |` (- node_ids xs) = ns |` (- node_ids (x # xs))"
    and "cs(d := None) |` (- cell_ids xs) = cs |` (- cell_ids (x # xs))"
    by (auto simp: x restrict_map_def)
  moreover have "free_nodes h ns cs p = free_nodes h2 (ns(a := None)) (cs(d := None)) nx"
    by (subst free_nodes.simps) (simp add: p free_node_def h2_def)
  moreover have "others (node_ids xs \<union> cell_ids xs \<union> ps) h2 =
      others (node_ids (x # xs) \<union> cell_ids (x # xs) \<union> ps) h" for ps
    using f1(2) f2(2) by (simp add: h2_def x insert_commute)
  ultimately show ?case using h' by auto
qed

lemma push_front_linkedlist_ok:
  assumes "ll_repr h l xs" and "length v = unat (ll_elem_size l)"
  shows "\<exists>h' r s. cdsa_push_front_linkedlist h (Some l) (Some v) = (h', Some r, s) \<and>
    ll_frame h' r = ll_frame h l \<and> libc_refuses h' = libc_refuses h \<and>
    (s = CDSA_OK \<and> ll_version r = ll_version l + 1 \<and> (\<exists>a d. ll_repr h' r ((a, d, v) # xs)) \<or>
     s = CDSA_ERR_OOM \<and> r = l \<and> ll_repr h' l xs \<and> \<not> never_refuses h)"
proof -
  note rd = ll_reprD [OF assms(1)]
  let ?es = "ll_elem_size l" and ?bs = "(ll_self l, sizeof_linkedlist) # ll_blocks (ll_elem_size l) xs"
  obtain h1 n where m1: "cdsa_malloc_track h sizeof_list_node = (h1, n)" by (metis surj_pair)
  show ?thesis
  proof (cases n)
    case None
    note e = malloc_None [OF m1 [unfolded None]]
    have "\<not> never_refuses h" using never_refuses_malloc m1 None by blast
    moreover have "ll_repr h1 l xs"
      using assms(1) later_heap_ok [OF rd(1), of "Suc (next_id h)"] by (simp add: e ll_repr_def)
    ultimately show ?thesis
      using m1 None e by (simp add: cdsa_push_front_linkedlist_def ll_frame_def)
  next
    case (Some a)
    note a = malloc_owns_all [OF rd(1) m1 [unfolded Some]]
    have f1: "fault h1 = fault h" by (rule a(6)) (simp add: sizeof_list_node_def)
    obtain h2 m where m2: "cdsa_malloc_track h1 ?es = (h2, m)" by (metis surj_pair)
    show ?thesis
    proof (cases m)
      case None
      note e = malloc_None [OF m2 [unfolded None]]
      have nr: "\<not> never_refuses h"
        using never_refuses_malloc [of h1] m2 None a(4) by (auto simp: never_refuses_def)
      have own: "owns_all h2 ((a, sizeof_list_node) # ?bs)" using a(2) [OF rd(3)] by (simp add: e)
      note f = free_owns_all [OF own]
      have ok2: "heap_ok h2" using later_heap_ok [OF a(1), of "Suc (next_id h1)"] by (simp add: e)
      let ?h3 = "cdsa_free_track h2 (Some a)"
      have "ll_repr ?h3 l xs" using assms(1) f(1,5) ok2 by (simp add: ll_repr_def)
      moreover have "others (ll_ids l) ?h3 = others (ll_ids l) h"
        using f(2) [of "ll_ids l"] a(3) [of "ll_ids l"] by (simp add: e)
      ultimately show ?thesis
        using m1 m2 Some None e nr f a f1 by (simp add: cdsa_push_front_linkedlist_def ll_frame_def)
    next
      case (Some d)
      note b = malloc_owns_all [OF a(1) m2 [unfolded Some]]
      have f2: "fault h2 = fault h1" by (rule b(6) [OF rd(7)])
      have own: "owns_all h2 ((d, ?es) # (a, sizeof_list_node) # ?bs)" by (rule b(2) [OF a(2) [OF rd(3)]])
      let ?r = "l\<lparr>ll_nodes := (ll_nodes l)(a \<mapsto> \<lparr>nd_data = Some d, nd_next = ll_head l\<rparr>),
          ll_cells := (ll_cells l)(d \<mapsto> v), ll_head := Some a, ll_size := ll_size l + 1,
          ll_version := ll_version l + 1\<rparr>"
      have dis: "a \<notin> node_ids xs" "d \<notin> cell_ids xs" "a \<notin> cell_ids xs" "d \<notin> node_ids xs"
          "a \<noteq> ll_self l" "d \<noteq> ll_self l" "a \<noteq> d"
        using own by (auto simp: ll_blocks_ids)
      have "user_len ?es = unat ?es" by (rule user_len_no_wrap [OF rd(7)])
      then have "cdsa_push_front_linkedlist h (Some l) (Some v) = (h2, Some ?r, CDSA_OK)"
        using m1 m2 \<open>n = Some a\<close> Some assms(2) by (simp add: cdsa_push_front_linkedlist_def set_fault_def)
      moreover have "ll_repr h2 ?r ((a, d, v) # xs)"
        using assms b(1) own rd(2) dis
        by (auto simp: ll_repr_def ll_seg_upd_node ll_seg_upd_cell insert_commute)
      moreover have "others (ll_ids ?r) h2 = others (ll_ids l) h"
        using b(3) [of "insert a (ll_ids l)"] a(3) [of "ll_ids l"]
        by (simp add: ll_ids_def insert_commute)
      ultimately show ?thesis using a(4) b(4) f1 f2 by (auto simp: ll_frame_def)
    qed
  qed
qed

lemma pop_front_linkedlist_ok:
  assumes "ll_repr h l ((a, d, v) # xs)"
  shows "\<exists>h' r. cdsa_pop_front_linkedlist h (Some l) = (h', Some r, CDSA_OK) \<and> ll_repr h' r xs \<and>
    ll_frame h' r = ll_frame h l \<and> libc_refuses h' = libc_refuses h \<and> ll_version r = ll_version l + 1"
proof -
  note rd = ll_reprD [OF assms]
  let ?es = "ll_elem_size l" and ?s = "(ll_self l, sizeof_linkedlist)"
  have own: "owns_all h ((d, ?es) # (a, sizeof_list_node) # ?s # ll_blocks ?es xs)"
    using rd(3) by (subst (asm) owns_all_permute [of _ "(d, ?es) # (a, sizeof_list_node) # ?s # ll_blocks ?es xs"]) simp_all
  note f1 = free_owns_all [OF own]
  note f2 = free_owns_all [OF f1(1)]
  let ?h = "cdsa_free_track (cdsa_free_track h (Some d)) (Some a)"
  from rd(2) obtain nx where hd: "ll_head l = Some a" "ll_nodes l a = Some \<lparr>nd_data = Some d, nd_next = nx\<rparr>"
    and seg: "ll_seg (ll_nodes l) (ll_cells l) nx xs" by auto
  have dis: "a \<notin> node_ids xs" "d \<notin> cell_ids xs" "a \<notin> cell_ids xs" "d \<notin> node_ids xs"
      "a \<noteq> ll_self l" "d \<noteq> ll_self l" "a \<noteq> d"
    using own by (auto simp: ll_blocks_ids)
  let ?r = "l\<lparr>ll_head := nx, ll_nodes := (ll_nodes l)(a := None), ll_cells := (ll_cells l)(d := None),
      ll_size := ll_size l - 1, ll_version := ll_version l + 1\<rparr>"
  have "cdsa_pop_front_linkedlist h (Some l) = (?h, Some ?r, CDSA_OK)"
    by (simp add: cdsa_pop_front_linkedlist_def hd)
  moreover have dom: "dom (ll_nodes ?r) = node_ids xs" "dom (ll_cells ?r) = cell_ids xs"
    using rd(4,5) dis by auto
  have "ll_seg (ll_nodes ?r) (ll_cells ?r) nx xs" using seg dis by (simp add: ll_seg_upd_node ll_seg_upd_cell)
  then have "ll_repr ?h ?r xs"
    using assms f1 f2 dom rd(6) by (simp add: ll_repr_def)
  moreover have "others (ll_ids ?r) ?h = others (ll_ids l) h"
    using f1(2) f2(2) rd(8) dom by (simp add: ll_ids_def insert_commute)
  ultimately show ?thesis using f1 f2 by (simp add: ll_frame_def)
qed

lemma pop_front_linkedlist_empty:
  "ll_repr h l [] \<Longrightarrow> cdsa_pop_front_linkedlist h (Some l) = (h, Some l, CDSA_ERR_EMPTY)"
  by (simp add: cdsa_pop_front_linkedlist_def ll_repr_def)

text \<open>The loop on the nodes of a list gives back all of their blocks and nothing else.\<close>

lemma free_nodes_linkedlist:
  assumes "ll_repr h l xs"
  shows "\<exists>h'. free_nodes h (ll_nodes l) (ll_cells l) (ll_head l) = Some (h', Map.empty, Map.empty) \<and>
    heap_ok h' \<and> owns_all h' [(ll_self l, sizeof_linkedlist)] \<and> fault h' = fault h \<and>
    libc_refuses h' = libc_refuses h \<and> others {ll_self l} h' = others (ll_ids l) h"
proof -
  note rd = ll_reprD [OF assms]
  let ?s = "(ll_self l, sizeof_linkedlist)" and ?bs = "ll_blocks (ll_elem_size l) xs"
  have "owns_all h (?s # ?bs) = owns_all h (?bs @ [?s])" by (rule owns_all_permute) simp
  then have "owns_all h (?bs @ [?s])" using rd(3) by blast
  moreover have "ll_nodes l |` (- node_ids xs) = Map.empty" "ll_cells l |` (- cell_ids xs) = Map.empty"
    using rd(4,5) by (auto simp: restrict_map_def fun_eq_iff)
  ultimately show ?thesis
    using free_nodes_ok [OF rd(2,1), of "ll_elem_size l" "[?s]"] rd(8) by (auto simp: Un_commute)
qed

lemma clear_linkedlist_ok:
  assumes "ll_repr h l xs"
  shows "\<exists>h' r. cdsa_clear_linkedlist h (Some l) = Some (h', Some r) \<and> ll_repr h' r [] \<and>
    ll_frame h' r = ll_frame h l \<and> libc_refuses h' = libc_refuses h \<and> ll_version r = ll_version l + 1"
  using free_nodes_linkedlist [OF assms] ll_reprD(7) [OF assms]
  by (auto simp: cdsa_clear_linkedlist_def ll_repr_def ll_frame_def ll_ids_def)

lemma free_linkedlist_ok:
  assumes "ll_repr h l xs"
  shows "\<exists>h'. cdsa_free_linkedlist h (Some l) = Some h' \<and> live h' = others (ll_ids l) h \<and>
    fault h' = fault h \<and> heap_ok h'"
proof -
  from free_nodes_linkedlist [OF assms] obtain h1 where
    h1: "free_nodes h (ll_nodes l) (ll_cells l) (ll_head l) = Some (h1, Map.empty, Map.empty)"
      "heap_ok h1" "owns_all h1 [(ll_self l, sizeof_linkedlist)]" "fault h1 = fault h"
      "others {ll_self l} h1 = others (ll_ids l) h"
    by blast
  note f = free_owns_all [OF h1(3)]
  have "live (cdsa_free_track h1 (Some (ll_self l))) = others (ll_ids l) h"
    using f(2) [of "{}"] h1(5) by simp
  then show ?thesis using h1(1,2,4) f(3,5) by (simp add: cdsa_free_linkedlist_def)
qed

lemma create_linkedlist_ok:
  assumes "cdsa_create_linkedlist h es = (h', Some l)" and "heap_ok h" and "unat es + 8 < size_bound"
  shows "ll_repr h' l []" and "ll_frame h' l = (fault h, live h, es)"
    and "libc_refuses h' = libc_refuses h"
proof -
  obtain p where m: "cdsa_malloc_track h sizeof_linkedlist = (h', Some p)"
    and l: "l = \<lparr>ll_self = p, ll_nodes = Map.empty, ll_cells = Map.empty, ll_head = None,
      ll_size = 0, ll_elem_size = es, ll_version = 0\<rparr>"
    using assms(1) by (auto simp: cdsa_create_linkedlist_def split: prod.splits)
  note a = malloc_owns_all [OF assms(2) m]
  show "ll_repr h' l []" using a(1) a(2) [of "[]"] assms(3) by (simp add: ll_repr_def l)
  have "fault h' = fault h" by (rule a(6)) (simp add: sizeof_linkedlist_def)
  then show "ll_frame h' l = (fault h, live h, es)"
    using a(3) [of "{}"] by (simp add: ll_frame_def ll_ids_def l)
  show "libc_refuses h' = libc_refuses h" by (rule a(4))
qed

lemma create_linkedlist_succeeds:
  "never_refuses h \<Longrightarrow> \<exists>h' l. cdsa_create_linkedlist h es = (h', Some l)"
  by (simp add: cdsa_create_linkedlist_def cdsa_malloc_track_def never_refuses_def Let_def)

lemma front_linkedlist_ok:
  assumes "ll_repr h l xs"
  shows "cdsa_front_linkedlist h (Some l) = (h, case xs of [] \<Rightarrow> None | (a, d, v) # _ \<Rightarrow> Some d)"
  using ll_reprD(2) [OF assms] by (auto simp: cdsa_front_linkedlist_def split: list.splits)

lemma ll_seg_cells: "ll_seg ns cs p xs \<Longrightarrow> (a, d, v) \<in> set xs \<Longrightarrow> cs d = Some v"
proof (induction xs arbitrary: p)
  case (Cons x xs)
  then show ?case by (cases x) auto
qed simp

lemma print_nodes_ok:
  "ll_seg ns cs p xs \<Longrightarrow> print_nodes h ns p = Some (h, map (\<lambda>(a, d, v). Some d) xs)"
proof (induction xs arbitrary: p)
  case Nil
  then show ?case by (simp add: print_nodes.simps [of _ _ None])
next
  case (Cons x xs)
  obtain a d b where x: "x = (a, d, b)" by (metis prod_cases3)
  then show ?case using Cons by (subst print_nodes.simps) auto
qed

section \<open>Runs\<close>

datatype ll_call = LPush bytes | LPop | LClear

fun ll_step :: "heap \<Rightarrow> linkedlist \<Rightarrow> ll_call \<Rightarrow> (heap \<times> linkedlist \<times> cdsa_status) option" where
  "ll_step h l (LPush v) =
     (case cdsa_push_front_linkedlist h (Some l) (Some v) of (h', r, s) \<Rightarrow> Some (h', the r, s))"
| "ll_step h l LPop = (case cdsa_pop_front_linkedlist h (Some l) of (h', r, s) \<Rightarrow> Some (h', the r, s))"
| "ll_step h l LClear =
     (case cdsa_clear_linkedlist h (Some l) of None \<Rightarrow> None | Some (h', r) \<Rightarrow> Some (h', the r, CDSA_OK))"

fun ll_spec :: "bytes list \<Rightarrow> ll_call \<Rightarrow> bytes list \<times> cdsa_status" where
  "ll_spec bs (LPush v) = (v # bs, CDSA_OK)"
| "ll_spec bs LPop = (if bs = [] then (bs, CDSA_ERR_EMPTY) else (tl bs, CDSA_OK))"
| "ll_spec bs LClear = ([], CDSA_OK)"

fun ll_call_ok :: "bool \<times> (block_id \<times> mblock) list \<times> size_t \<Rightarrow> ll_call \<Rightarrow> bool" where
  "ll_call_ok f (LPush v) \<longleftrightarrow> length v = unat (snd (snd f))"
| "ll_call_ok f _ \<longleftrightarrow> True"

interpretation lls: all_or_nothing ll_rep ll_frame never_refuses ll_call_ok ll_step ll_spec
proof (unfold_locales, goal_cases)
  case (1 h l bs c)
  then obtain xs where xs: "ll_repr h l xs" "bs = map (snd \<circ> snd) xs" by (auto simp: ll_rep_def)
  show ?case
  proof (cases c)
    case (LPush v)
    then have "length v = unat (ll_elem_size l)" using 1(2) by (simp add: ll_frame_def)
    from push_front_linkedlist_ok [OF xs(1) this] show ?thesis
      using xs(2) LPush by (fastforce simp: ll_rep_def never_refuses_def)
  next
    case LPop
    show ?thesis
    proof (cases xs)
      case Nil
      then show ?thesis using xs LPop pop_front_linkedlist_empty by (fastforce simp: ll_rep_def)
    next
      case (Cons x ys)
      then obtain a d v where x: "xs = (a, d, v) # ys" by (metis prod_cases3)
      from pop_front_linkedlist_ok [OF xs(1) [unfolded x]] show ?thesis
        using xs(2) x LPop by (fastforce simp: ll_rep_def never_refuses_def)
    qed
  next
    case LClear
    then show ?thesis
      using clear_linkedlist_ok [OF xs(1)] by (fastforce simp: ll_rep_def never_refuses_def)
  qed
next
  case (2 bs c)
  then show ?case by (cases c) auto
qed

section \<open>The iterator\<close>

text \<open>
  The loop over an iterator threads the heap, which records a dangling pointer; the container is
  the list with the heap it is in.
\<close>

definition ll_iter_next :: "heap \<times> linkedlist \<Rightarrow> heap \<times> linkedlist_iterator \<Rightarrow>
    (heap \<times> linkedlist_iterator) \<times> cdsa_status \<times> block_id option" where
  "ll_iter_next c hi =
     (case cdsa_next_linkedlist (fst hi) (snd c) (Some (snd hi)) True of
        (h', r, s, p) \<Rightarrow> ((h', the r), s, p))"

definition ll_iter_has_next :: "heap \<times> linkedlist \<Rightarrow> heap \<times> linkedlist_iterator \<Rightarrow>
    (heap \<times> linkedlist_iterator) \<times> bool" where
  "ll_iter_has_next c hi = (hi, cdsa_has_next_linkedlist (Some (snd c)) (Some (snd hi)))"

text \<open>The payload pointers from a node on, for at most \<open>n\<close> nodes.\<close>

fun ll_walk :: "(block_id \<Rightarrow> list_node option) \<Rightarrow> nat \<Rightarrow> block_id option \<Rightarrow> block_id list" where
  "ll_walk ns 0 p = []"
| "ll_walk ns (Suc n) p =
     (case Option.bind p ns of
        None \<Rightarrow> []
      | Some nd \<Rightarrow> (case nd_data nd of None \<Rightarrow> [] | Some d \<Rightarrow> d # ll_walk ns n (nd_next nd)))"

lemma ll_walk_seg:
  "ll_seg ns cs p xs \<Longrightarrow> length xs \<le> n \<Longrightarrow> ll_walk ns n p = map (fst \<circ> snd) xs"
proof (induction xs arbitrary: n p)
  case Nil
  then show ?case by (cases n) simp_all
next
  case (Cons x xs)
  obtain a d b where x: "x = (a, d, b)" by (metis prod_cases3)
  then show ?case using Cons by (cases n) auto
qed

definition ll_iter_rest :: "heap \<times> linkedlist \<Rightarrow> heap \<times> linkedlist_iterator \<Rightarrow> block_id list" where
  "ll_iter_rest c hi =
     ll_walk (ll_nodes (snd c)) (card (dom (ll_nodes (snd c)))) (li_current (snd hi))"

text \<open>The heap is the one of the container, and the rest of the walk is the end of its chain.\<close>

definition ll_iter_ok :: "heap \<times> linkedlist \<Rightarrow> heap \<times> linkedlist_iterator \<Rightarrow> bool" where
  "ll_iter_ok c hi \<longleftrightarrow> fst hi = fst c \<and> (\<exists>ys zs. ll_repr (fst c) (snd c) (ys @ zs) \<and>
     ll_seg (ll_nodes (snd c)) (ll_cells (snd c)) (li_current (snd hi)) zs)"

lemma ll_repr_card:
  assumes "ll_repr h l xs"
  shows "card (dom (ll_nodes l)) = length xs"
proof -
  have "distinct (map fst xs)" if "owns_all h (ll_blocks es xs)" for es
    using that
  proof (induction xs)
    case (Cons x xs)
    then show ?case by (cases x) (auto simp: ll_blocks_ids)
  qed simp
  from this [of "ll_elem_size l"] have "distinct (map fst xs)" using ll_reprD(3) [OF assms] by simp
  then have "card (node_ids xs) = length xs" by (metis distinct_card length_map set_map)
  then show ?thesis by (simp add: ll_reprD(4) [OF assms])
qed

lemma ll_iter_rest_seg:
  assumes "ll_repr (fst c) (snd c) (ys @ zs)"
    and "ll_seg (ll_nodes (snd c)) (ll_cells (snd c)) (li_current (snd hi)) zs"
  shows "ll_iter_rest c hi = map (fst \<circ> snd) zs"
  using ll_walk_seg [OF assms(2)] ll_repr_card [OF assms(1)] by (simp add: ll_iter_rest_def)

lemma ll_iter_okE:
  assumes "ll_iter_ok c hi"
  obtains ys zs where "fst hi = fst c" and "ll_repr (fst c) (snd c) (ys @ zs)"
    and "ll_seg (ll_nodes (snd c)) (ll_cells (snd c)) (li_current (snd hi)) zs"
    and "ll_iter_rest c hi = map (fst \<circ> snd) zs"
  using assms ll_iter_rest_seg unfolding ll_iter_ok_def by blast

interpretation ll_iter: fail_fast_iterator "\<lambda>c. ll_version (snd c)" "\<lambda>hi. li_snapshot (snd hi)"
  ll_iter_has_next ll_iter_next ll_iter_ok ll_iter_rest
proof (unfold_locales, goal_cases)
  case (1 c hi)
  then show ?case by (simp add: ll_iter_has_next_def cdsa_has_next_linkedlist_def)
next
  case (2 c hi)
  then show ?case by (simp add: ll_iter_next_def cdsa_next_linkedlist_def)
next
  case (3 c hi)
  from 3(1) obtain ys zs where "ll_seg (ll_nodes (snd c)) (ll_cells (snd c)) (li_current (snd hi)) zs"
      "ll_iter_rest c hi = map (fst \<circ> snd) zs"
    by (rule ll_iter_okE)
  then show ?case
    using 3 by (cases zs) (auto simp: ll_iter_has_next_def cdsa_has_next_linkedlist_def)
next
  case (4 c hi x xs)
  from 4(1) obtain ys zs where hi: "fst hi = fst c" "ll_repr (fst c) (snd c) (ys @ zs)"
      "ll_seg (ll_nodes (snd c)) (ll_cells (snd c)) (li_current (snd hi)) zs"
      "ll_iter_rest c hi = map (fst \<circ> snd) zs"
    by (rule ll_iter_okE)
  with 4(3) obtain a d v zs' where z: "zs = (a, d, v) # zs'" "x = d" "xs = map (fst \<circ> snd) zs'"
    by (auto simp: map_eq_Cons_conv)
  from hi(3) z(1) obtain nx where cur: "li_current (snd hi) = Some a"
      "ll_nodes (snd c) a = Some \<lparr>nd_data = Some d, nd_next = nx\<rparr>"
      "ll_seg (ll_nodes (snd c)) (ll_cells (snd c)) nx zs'" by auto
  let ?hi = "(fst hi, snd hi\<lparr>li_current := nx\<rparr>)"
  have n: "ll_iter_next c hi = (?hi, CDSA_OK, Some d)"
    using 4(2) cur(1,2) by (simp add: ll_iter_next_def cdsa_next_linkedlist_def cdsa_has_next_linkedlist_def)
  have r: "ll_repr (fst c) (snd c) ((ys @ [(a, d, v)]) @ zs')" using hi(2) z(1) by simp
  have s: "ll_seg (ll_nodes (snd c)) (ll_cells (snd c)) (li_current (snd ?hi)) zs'" using cur(3) by simp
  have "ll_iter_ok c ?hi" unfolding ll_iter_ok_def using hi(1) r s by (metis fst_conv)
  then show ?case using n z ll_iter_rest_seg [OF r s] by auto
next
  case (5 c hi)
  from 5(1) obtain ys zs where "ll_seg (ll_nodes (snd c)) (ll_cells (snd c)) (li_current (snd hi)) zs"
      "ll_iter_rest c hi = map (fst \<circ> snd) zs"
    by (rule ll_iter_okE)
  then show ?case
    using 5 by (auto simp: ll_iter_next_def cdsa_next_linkedlist_def cdsa_has_next_linkedlist_def)
qed

section \<open>Properties\<close>

text \<open>
  C16: a linked list is a stack of payloads, whatever libc refuses: from its creation on, every
  run of pushes, pops and clears returns, answers each call as the list of payloads would or with
  \<open>CDSA_ERR_OOM\<close> and no change, and follows no dangling pointer; the front pointer leads to the
  first payload, and releasing the list gives back exactly its blocks.  When libc refuses nothing
  there is no \<open>CDSA_ERR_OOM\<close>.
\<close>

theorem linkedlist_is_stack:
  assumes "heap_ok h" and "unat es + 8 < 2 ^ 64" and "\<forall>v. LPush v \<in> set cs \<longrightarrow> length v = unat es"
    and "cdsa_create_linkedlist h es = (h0, Some l0)"
  shows "\<exists>h1 l1 ss bs h2. run_partial ll_step h0 l0 cs = Some (h1, l1, ss) \<and>
    accept ll_spec [] cs ss = Some bs \<and> (never_refuses h \<longrightarrow> CDSA_ERR_OOM \<notin> set ss) \<and>
    fault h1 = fault h \<and> unat (cdsa_size_linkedlist (Some l1)) = length bs mod 2 ^ 64 \<and>
    map_option (ll_cells l1) (snd (cdsa_front_linkedlist h1 (Some l1))) =
      (if bs = [] then None else Some (Some (hd bs))) \<and>
    cdsa_free_linkedlist h1 (Some l1) = Some h2 \<and> live h2 = live h"
proof -
  note c = create_linkedlist_ok [OF assms(4,1,2)]
  have "ll_rep h0 l0 []" using c(1) by (auto simp: ll_rep_def)
  moreover have "ll_call_ok (ll_frame h0 l0) c" if "c \<in> set cs" for c
    by (rule ll_call.exhaust [of c]) (use that assms(3) c(2) in auto)
  ultimately obtain h1 l1 ss bs where r: "run_partial ll_step h0 l0 cs = Some (h1, l1, ss)"
      "accept ll_spec [] cs ss = Some bs" "ll_rep h1 l1 bs" "ll_frame h1 l1 = ll_frame h0 l0"
      "never_refuses h0 \<longrightarrow> CDSA_ERR_OOM \<notin> set ss"
    using lls.run_accepted by blast
  from r(3) obtain xs where xs: "ll_repr h1 l1 xs" "bs = map (snd \<circ> snd) xs" by (auto simp: ll_rep_def)
  from free_linkedlist_ok [OF xs(1)] r(4) c(2) obtain h2 where
    h2: "cdsa_free_linkedlist h1 (Some l1) = Some h2" "live h2 = live h"
    by (auto simp: ll_frame_def)
  have "map_option (ll_cells l1) (snd (cdsa_front_linkedlist h1 (Some l1))) =
      (if bs = [] then None else Some (Some (hd bs)))"
    using ll_reprD(2) [OF xs(1)] xs(2)
    by (cases xs) (auto simp: front_linkedlist_ok [OF xs(1)])
  moreover have "unat (cdsa_size_linkedlist (Some l1)) = length bs mod 2 ^ 64"
    using ll_reprD(6) [OF xs(1)] xs(2) by (simp add: cdsa_size_linkedlist_def unat_of_nat)
  ultimately show ?thesis
    using r c h2 by (auto simp: ll_frame_def never_refuses_def)
qed

theorem linkedlist_is_stack_witness:
  "\<exists>h0 l0 h1 l1. cdsa_create_linkedlist good_heap 2 = (h0, Some l0) \<and>
     run_partial ll_step h0 l0 [LPush [1, 2], LPush [3, 4], LPop, LClear, LPop, LPush [5, 6]] =
       Some (h1, l1, [CDSA_OK, CDSA_OK, CDSA_OK, CDSA_OK, CDSA_ERR_EMPTY, CDSA_OK]) \<and>
     map_option (ll_cells l1) (snd (cdsa_front_linkedlist h1 (Some l1))) = Some (Some [5, 6])"
proof -
  let ?cs = "[LPush [1, 2], LPush [3, 4], LPop, LClear, LPop, LPush [5, 6]]"
  obtain h0 l0 where c: "cdsa_create_linkedlist good_heap 2 = (h0, Some l0)"
    using create_linkedlist_succeeds [of good_heap 2] by auto
  obtain h1 l1 ss bs where r: "run_partial ll_step h0 l0 ?cs = Some (h1, l1, ss)"
      "accept ll_spec [] ?cs ss = Some bs" "CDSA_ERR_OOM \<notin> set ss"
      "map_option (ll_cells l1) (snd (cdsa_front_linkedlist h1 (Some l1))) =
        (if bs = [] then None else Some (Some (hd bs)))"
    using linkedlist_is_stack [OF _ _ _ c, of ?cs] by auto
  have "ss = [CDSA_OK, CDSA_OK, CDSA_OK, CDSA_OK, CDSA_ERR_EMPTY, CDSA_OK] \<and> bs = [[5, 6]]"
    using r(2,3) by (auto simp: accept_call)
  then show ?thesis using c r by auto
qed

text \<open>
  C17: the loop over a list's iterator ends: every call in it succeeds and they yield the payload
  pointers from front to back, each once, without touching a dangling node, after which a further
  call reports \<open>CDSA_ERR_NOT_FOUND\<close>; after a push, a pop or a clear it
  yields nothing more and reports \<open>CDSA_ERR_ITER_INVALIDATED\<close>, so it never follows a node that
  was given back.
\<close>

theorem linkedlist_iterator_yields_payloads:
  assumes "ll_rep h l bs" and "cdsa_create_linkedlist_iterator h (Some l) = (h', Some i)"
  shows "(\<exists>i' ps. drain ll_iter_has_next ll_iter_next (h', l) (h', i) = Some ((h', i'), yields ps) \<and>
      map (ll_cells l) ps = map Some bs \<and>
      snd (ll_iter_next (h', l) (h', i')) = (CDSA_ERR_NOT_FOUND, None)) \<and>
    (\<forall>l'. ll_version l' = ll_version l + 1 \<longrightarrow>
      cdsa_next_linkedlist h2 l' (Some i) True = (h2, Some i, CDSA_ERR_ITER_INVALIDATED, None) \<and>
      \<not> cdsa_has_next_linkedlist (Some l') (Some i)) \<and>
    (\<forall>v h3 l3. cdsa_push_front_linkedlist h' (Some l) (Some v) = (h3, Some l3, CDSA_OK) \<longrightarrow>
      ll_version l3 = ll_version l + 1) \<and>
    (\<forall>h3 l3. cdsa_pop_front_linkedlist h' (Some l) = (h3, Some l3, CDSA_OK) \<longrightarrow>
      ll_version l3 = ll_version l + 1) \<and>
    (\<forall>h3 l3. cdsa_clear_linkedlist h' (Some l) = Some (h3, Some l3) \<longrightarrow>
      ll_version l3 = ll_version l + 1)"
proof -
  obtain xs where xs: "ll_repr h l xs" "bs = map (snd \<circ> snd) xs" using assms(1) by (auto simp: ll_rep_def)
  note rd = ll_reprD [OF xs(1)]
  from assms(2) obtain p where m: "cdsa_malloc_track h sizeof_linkedlist_iterator = (h', Some p)"
    and i: "li_current i = ll_head l" "li_snapshot i = ll_version l"
    by (auto simp: cdsa_create_linkedlist_iterator_def split: prod.splits)
  note a = malloc_owns_all [OF rd(1) m]
  have rep: "ll_repr h' l xs" using xs(1) a(1) a(2) [OF rd(3)] by (simp add: ll_repr_def)
  let ?c = "(h', l)" and ?i = "(h', i)"
  have seg: "ll_seg (ll_nodes (snd ?c)) (ll_cells (snd ?c)) (li_current (snd ?i)) xs"
    using rd(2) i(1) by simp
  have r: "ll_repr (fst ?c) (snd ?c) ([] @ xs)" using rep by simp
  have ok: "ll_iter_ok ?c ?i" unfolding ll_iter_ok_def using r seg by (metis fst_conv)
  note rest = ll_iter_rest_seg [OF r seg]
  have v: "ll_version (snd ?c) = li_snapshot (snd ?i)" using i(2) by simp
  from ll_iter.drain_yields [OF ok v] obtain hi where
    d: "drain ll_iter_has_next ll_iter_next ?c ?i = Some (hi, yields (map (fst \<circ> snd) xs))"
      "ll_iter_ok ?c hi" "snd (ll_iter_next ?c hi) = (CDSA_ERR_NOT_FOUND, None)"
    unfolding rest by blast
  have "hi = (h', snd hi)" using d(2) by (simp add: ll_iter_ok_def prod_eq_iff)
  moreover have "map (ll_cells l) (map (fst \<circ> snd) xs) = map Some bs"
    using ll_seg_cells [OF rd(2)] xs(2) by force
  ultimately have all: "\<exists>i' ps. drain ll_iter_has_next ll_iter_next (h', l) (h', i) = Some ((h', i'), yields ps) \<and>
      map (ll_cells l) ps = map Some bs \<and>
      snd (ll_iter_next (h', l) (h', i')) = (CDSA_ERR_NOT_FOUND, None)"
    using d(1,3) by metis
  have "cdsa_next_linkedlist h2 l' (Some i) True = (h2, Some i, CDSA_ERR_ITER_INVALIDATED, None)"
    and "\<not> cdsa_has_next_linkedlist (Some l') (Some i)" if "ll_version l' = ll_version l + 1" for l'
    using that i(2) by (simp_all add: cdsa_next_linkedlist_def cdsa_has_next_linkedlist_def)
  moreover have "ll_version l3 = ll_version l + 1"
    if "cdsa_push_front_linkedlist h' (Some l) (Some v) = (h3, Some l3, CDSA_OK)" for v h3 l3
    using that by (auto simp: cdsa_push_front_linkedlist_def Let_def split: prod.splits option.splits)
  moreover have "ll_version l3 = ll_version l + 1"
    if "cdsa_pop_front_linkedlist h' (Some l) = (h3, Some l3, CDSA_OK)" for h3 l3
    using that pop_front_linkedlist_empty [of h' l] pop_front_linkedlist_ok [of h' l] rep
    by (cases xs) auto
  moreover have "ll_version l3 = ll_version l + 1"
    if "cdsa_clear_linkedlist h' (Some l) = Some (h3, Some l3)" for h3 l3
    using that clear_linkedlist_ok [OF rep] by auto
  ultimately show ?thesis using all by blast
qed

theorem linkedlist_iterator_yields_payloads_witness:
  "\<exists>h l h' i i' ps. ll_rep h l [[3], [2]] \<and> cdsa_create_linkedlist_iterator h (Some l) = (h', Some i) \<and>
     drain ll_iter_has_next ll_iter_next (h', l) (h', i) = Some ((h', i'), yields ps) \<and>
     map (ll_cells l) ps = [Some [3], Some [2]]"
proof -
  obtain h0 l0 where c: "cdsa_create_linkedlist good_heap 1 = (h0, Some l0)"
    using create_linkedlist_succeeds [of good_heap 1] by auto
  note cr = create_linkedlist_ok [OF c]
  have "ll_rep h0 l0 []" using cr(1) by (auto simp: ll_rep_def)
  moreover have "\<forall>c \<in> set [LPush [2], LPush [3]]. ll_call_ok (ll_frame h0 l0) c"
    using cr(2) by simp
  ultimately obtain h l ss bs where r: "accept ll_spec [] [LPush [2], LPush [3]] ss = Some bs"
      "ll_rep h l bs" "never_refuses h0 \<longrightarrow> CDSA_ERR_OOM \<notin> set ss"
    using lls.run_accepted [of h0 l0 "[]" "[LPush [2], LPush [3]]"] by blast
  have "never_refuses h0" using cr(3) by (simp add: never_refuses_def)
  then have "bs = [[3], [2]]" using r(1,3) by (auto simp: accept_call)
  then have rep: "ll_rep h l [[3], [2]]" using r(2) by simp
  let ?h = "h\<lparr>libc_refuses := \<lambda>_ _. False\<rparr>"
  have rep': "ll_rep ?h l [[3], [2]]"
    using rep by (auto simp: ll_rep_def ll_repr_def heap_ok_def owns_all_def owns_def)
  obtain h' i where it: "cdsa_create_linkedlist_iterator ?h (Some l) = (h', Some i)"
    by (simp add: cdsa_create_linkedlist_iterator_def cdsa_malloc_track_def Let_def)
  obtain i' ps where "drain ll_iter_has_next ll_iter_next (h', l) (h', i) = Some ((h', i'), yields ps)"
      "map (ll_cells l) ps = map Some [[3], [2]]"
    using linkedlist_iterator_yields_payloads [OF rep' it] by blast
  then have "drain ll_iter_has_next ll_iter_next (h', l) (h', i) = Some ((h', i'), yields ps)"
      "map (ll_cells l) ps = [Some [3], Some [2]]" by simp_all
  then show ?thesis using rep' it by (intro exI conjI)
qed

end
