(* ===== verification/SkipList.thy ===== *)
theory SkipList
  imports Tracking_Heap Interfaces "HOL-Library.List_Lexorder" "HOL-Library.Product_Lexorder"
begin

unbundle bit_operations_syntax

text \<open>
  \<^verbatim>\<open>src/skiplist.c\<close>: the skip list, ordered by score and then by value.  A node has three blocks:
  itself, its copy of the value and its array of forward pointers; \<open>sl_nodes\<close> is the content of
  the nodes, by node block.  Reading a node that is not there, or a forward pointer outside its
  array, is a fault.  Scores are IEEE doubles, given by their 64 bits.  The draws of \<open>rand\<close> are a
  parameter: the \<open>n\<close>th call returns \<open>rand n\<close>.  The \<open>int\<close> counters of levels and of the range
  query are natural numbers here; levels stay below 17 and counts below the length of the list.
\<close>

section \<open>Doubles and C strings\<close>

type_synonym double = "64 word"

definition dbl_nan :: "double \<Rightarrow> bool" where
  "dbl_nan d \<longleftrightarrow> uint (d AND 0x7FFFFFFFFFFFFFFF) > 0x7FF0000000000000"

text \<open>The order of the doubles that are not NaN; both zeros have key 0.\<close>

definition dbl_key :: "double \<Rightarrow> int" where
  "dbl_key d = (let m = uint (d AND 0x7FFFFFFFFFFFFFFF) in if bit d 63 then - m else m)"

definition dbl_lt :: "double \<Rightarrow> double \<Rightarrow> bool" where
  "dbl_lt a b \<longleftrightarrow> \<not> dbl_nan a \<and> \<not> dbl_nan b \<and> dbl_key a < dbl_key b"

definition dbl_le :: "double \<Rightarrow> double \<Rightarrow> bool" where
  "dbl_le a b \<longleftrightarrow> \<not> dbl_nan a \<and> \<not> dbl_nan b \<and> dbl_key a \<le> dbl_key b"

definition dbl_eq :: "double \<Rightarrow> double \<Rightarrow> bool" where
  "dbl_eq a b \<longleftrightarrow> \<not> dbl_nan a \<and> \<not> dbl_nan b \<and> dbl_key a = dbl_key b"

text \<open>The sign of \<open>strcmp\<close>, which compares bytes as unsigned characters.\<close>

fun strcmp :: "cstring \<Rightarrow> cstring \<Rightarrow> int" where
  "strcmp [] [] = 0"
| "strcmp [] (b # bs) = - 1"
| "strcmp (a # as) [] = 1"
| "strcmp (a # as) (b # bs) = (if a < b then - 1 else if b < a then 1 else strcmp as bs)"

lemma strcmp_less: "strcmp a b < 0 \<longleftrightarrow> a < b"
  by (induction a b rule: strcmp.induct) (auto simp: Cons_less_Cons)

lemma strcmp_eq: "strcmp a b = 0 \<longleftrightarrow> a = b"
  by (induction a b rule: strcmp.induct) auto

section \<open>State\<close>

record skip_node =
  sn_score :: double
  sn_value :: cstring
  sn_value_block :: block_id
  sn_level :: nat
  sn_forward :: "block_id option list"
  sn_forward_block :: block_id

record skiplist =
  sl_self :: block_id
  sl_nodes :: "block_id \<Rightarrow> skip_node option"
  sl_header :: block_id
  sl_level :: nat
  sl_size :: size_t
  sl_version :: size_t

definition SKIPLIST_MAX_LEVEL :: nat where "SKIPLIST_MAX_LEVEL = 16"
definition sizeof_skip_node :: size_t where "sizeof_skip_node = 32"
definition sizeof_skiplist :: size_t where "sizeof_skiplist = 32"
definition sizeof_skiplist_iterator :: size_t where "sizeof_skiplist_iterator = 24"

section \<open>Helpers\<close>

function random_loop :: "(nat \<Rightarrow> nat) \<Rightarrow> nat \<Rightarrow> nat \<Rightarrow> nat \<times> nat" where
  "random_loop rand n level =
     (if rand n mod 2 = 0 \<and> level < SKIPLIST_MAX_LEVEL then random_loop rand (Suc n) (Suc level)
      else (level, Suc n))"
  by pat_completeness auto

termination
  by (relation "measure (\<lambda>(rand, n, level). SKIPLIST_MAX_LEVEL - level)") auto

declare random_loop.simps [simp del]

text \<open>The level drawn, and how many draws have been made.\<close>

definition random_level :: "(nat \<Rightarrow> nat) \<Rightarrow> nat \<Rightarrow> nat \<times> nat" where
  "random_level rand n = random_loop rand n 1"

definition safe_strdup :: "heap \<Rightarrow> cstring \<Rightarrow> heap \<times> block_id option" where
  "safe_strdup h s = cdsa_malloc_track h (of_nat (length s) + 1)"

definition cdsa_create_node ::
  "heap \<Rightarrow> nat \<Rightarrow> double \<Rightarrow> cstring \<Rightarrow> heap \<times> (block_id \<times> skip_node) option" where
  "cdsa_create_node h level score val =
     (let (h1, node) = cdsa_malloc_track h sizeof_skip_node
      in case node of
           None \<Rightarrow> (h1, None)
         | Some p \<Rightarrow>
             let (h2, dup) = safe_strdup h1 val
             in case dup of
                  None \<Rightarrow> (cdsa_free_track h2 (Some p), None)
                | Some v \<Rightarrow>
                    let (h3, forward) = cdsa_calloc_track h2 (of_nat level) 8
                    in case forward of
                         None \<Rightarrow> (cdsa_free_track (cdsa_free_track h3 (Some v)) (Some p), None)
                       | Some (f, _) \<Rightarrow>
                           (h3, Some (p, \<lparr>sn_score = score, sn_value = val, sn_value_block = v,
                              sn_level = level, sn_forward = replicate level None,
                              sn_forward_block = f\<rparr>)))"

text \<open>\<open>p->forward[i]\<close>: the outer option is an invalid access, the inner one NULL.\<close>

definition forward_at :: "(block_id \<Rightarrow> skip_node option) \<Rightarrow> block_id \<Rightarrow> nat \<Rightarrow> block_id option option" where
  "forward_at nodes p i =
     (case nodes p of
        None \<Rightarrow> None
      | Some nd \<Rightarrow> if i < length (sn_forward nd) then Some (sn_forward nd ! i) else None)"

definition set_forward :: "(block_id \<Rightarrow> skip_node option) \<Rightarrow> block_id \<Rightarrow> nat \<Rightarrow> block_id option \<Rightarrow>
    (block_id \<Rightarrow> skip_node option)" where
  "set_forward nodes p i q =
     nodes(p := map_option (\<lambda>nd. nd\<lparr>sn_forward := (sn_forward nd)[i := q]\<rparr>) (nodes p))"

section \<open>Lifecycle\<close>

definition cdsa_create_skiplist :: "heap \<Rightarrow> heap \<times> skiplist option" where
  "cdsa_create_skiplist h =
     (let (h1, sl) = cdsa_malloc_track h sizeof_skiplist
      in case sl of
           None \<Rightarrow> (h1, None)
         | Some self \<Rightarrow>
             let (h2, header) = cdsa_create_node h1 SKIPLIST_MAX_LEVEL 0 []
             in case header of
                  None \<Rightarrow> (cdsa_free_track h2 (Some self), None)
                | Some (p, nd) \<Rightarrow>
                    (h2, Some \<lparr>sl_self = self, sl_nodes = [p \<mapsto> nd], sl_header = p, sl_level = 1,
                           sl_size = 0, sl_version = 0\<rparr>))"

definition free_skip_node :: "heap \<Rightarrow> block_id \<Rightarrow> skip_node \<Rightarrow> heap" where
  "free_skip_node h p nd =
     cdsa_free_track (cdsa_free_track (cdsa_free_track h (Some (sn_value_block nd)))
       (Some (sn_forward_block nd))) (Some p)"

partial_function (option) free_skip_nodes ::
  "heap \<Rightarrow> (block_id \<Rightarrow> skip_node option) \<Rightarrow> block_id option \<Rightarrow> heap option" where
  "free_skip_nodes h nodes current =
     (if current = None then Some h
      else let p = the current
           in if forward_at nodes p 0 = None then Some (set_fault True h)
              else free_skip_nodes (free_skip_node h p (the (nodes p))) (nodes(p := None))
                     (the (forward_at nodes p 0)))"

definition cdsa_free_skiplist :: "heap \<Rightarrow> skiplist option \<Rightarrow> heap option" where
  "cdsa_free_skiplist h sl =
     (case sl of
        None \<Rightarrow> Some h
      | Some s \<Rightarrow>
          map_option (\<lambda>h1. cdsa_free_track h1 (Some (sl_self s)))
            (free_skip_nodes h (sl_nodes s) (Some (sl_header s))))"

section \<open>Operations\<close>

definition cdsa_size_skiplist :: "skiplist option \<Rightarrow> size_t" where
  "cdsa_size_skiplist sl = (case sl of None \<Rightarrow> 0 | Some s \<Rightarrow> sl_size s)"

definition level_skiplist :: "skiplist option \<Rightarrow> nat" where
  "level_skiplist sl = (case sl of None \<Rightarrow> 0 | Some s \<Rightarrow> sl_level s)"

text \<open>The test of the search loops: does this node come before the score and value?\<close>

definition node_before :: "double \<Rightarrow> cstring \<Rightarrow> skip_node \<Rightarrow> bool" where
  "node_before score val nd \<longleftrightarrow>
     dbl_lt (sn_score nd) score \<or>
     (dbl_eq (sn_score nd) score \<and> strcmp (sn_value nd) val < 0)"

text \<open>
  The inner loop of a search: move right on level \<open>i\<close> while the next node passes the test.  The
  flag is an invalid access.
\<close>

partial_function (option) advance ::
  "(block_id \<Rightarrow> skip_node option) \<Rightarrow> (skip_node \<Rightarrow> bool) \<Rightarrow> nat \<Rightarrow> block_id \<Rightarrow>
   (bool \<times> block_id) option" where
  "advance nodes test i current =
     (if forward_at nodes current i = None then Some (True, current)
      else let nx = the (forward_at nodes current i)
           in if nx = None then Some (False, current)
              else if nodes (the nx) = None then Some (True, current)
              else if test (the (nodes (the nx))) then advance nodes test i (the nx)
              else Some (False, current))"

text \<open>
  The outer loop, from level \<open>i - 1\<close> down to 0: the flag, the last node reached, and the
  breadcrumbs \<open>update[0 ..< i]\<close>.
\<close>

fun search_down ::
  "(block_id \<Rightarrow> skip_node option) \<Rightarrow> (skip_node \<Rightarrow> bool) \<Rightarrow> nat \<Rightarrow> block_id \<Rightarrow>
   (bool \<times> block_id \<times> block_id list) option" where
  "search_down nodes test 0 current = Some (False, current, [])"
| "search_down nodes test (Suc i) current =
     (case advance nodes test i current of
        None \<Rightarrow> None
      | Some (bad, c) \<Rightarrow>
          (case search_down nodes test i c of
             None \<Rightarrow> None
           | Some (bad', c', update) \<Rightarrow> Some (bad \<or> bad', c', update @ [c])))"

text \<open>
  The loop that splices the new node in on its levels; the flag is an invalid access.
\<close>

definition splice_level :: "block_id \<Rightarrow> block_id list \<Rightarrow> nat \<Rightarrow>
    bool \<times> (block_id \<Rightarrow> skip_node option) \<Rightarrow> bool \<times> (block_id \<Rightarrow> skip_node option)" where
  "splice_level p update i = (\<lambda>(bad, nodes).
     (case (forward_at nodes (update ! i) i, forward_at nodes p i) of
        (Some q, Some _) \<Rightarrow> (bad, set_forward (set_forward nodes p i q) (update ! i) i (Some p))
      | _ \<Rightarrow> (True, nodes)))"

definition splice_node :: "(block_id \<Rightarrow> skip_node option) \<Rightarrow> block_id \<Rightarrow> block_id list \<Rightarrow> nat \<Rightarrow>
    bool \<times> (block_id \<Rightarrow> skip_node option)" where
  "splice_node nodes p update new_level =
     fold (splice_level p update) [0..<new_level] (False, nodes)"

definition insert_skiplist :: "(nat \<Rightarrow> nat) \<Rightarrow> nat \<Rightarrow> heap \<Rightarrow> skiplist option \<Rightarrow> double \<Rightarrow>
    cstring option \<Rightarrow> (nat \<times> heap \<times> skiplist option \<times> cdsa_status) option" where
  "insert_skiplist rand n h sl score val =
     (case (sl, val) of
        (Some s, Some v) \<Rightarrow>
          (case search_down (sl_nodes s) (node_before score v) (sl_level s) (sl_header s) of
             None \<Rightarrow> None
           | Some (bad, _, crumbs) \<Rightarrow>
               let (new_level, n1) = random_level rand n;
                   old_level = sl_level s;
                   update = crumbs @ replicate (new_level - old_level) (sl_header s);
                   s1 = (if new_level > sl_level s then s\<lparr>sl_level := new_level\<rparr> else s);
                   (h1, new_node) = cdsa_create_node (set_fault bad h) new_level score v
               in Some (case new_node of
                    None \<Rightarrow> (n1, h1, Some (s1\<lparr>sl_level := old_level\<rparr>), CDSA_ERR_OOM)
                  | Some (p, nd) \<Rightarrow>
                      let (bad', nodes') =
                            splice_node ((sl_nodes s1)(p \<mapsto> nd)) p update new_level
                      in (n1, set_fault bad' h1,
                          Some (s1\<lparr>sl_nodes := nodes', sl_size := sl_size s1 + 1,
                                   sl_version := sl_version s1 + 1\<rparr>), CDSA_OK)))
      | _ \<Rightarrow> Some (n, h, sl, CDSA_ERR_INVALID))"

text \<open>
  The loop of \<open>remove_skiplist\<close> that rewires the levels: it stops at the first breadcrumb that
  does not lead to the node.
\<close>

fun unlink_levels :: "(block_id \<Rightarrow> skip_node option) \<Rightarrow> block_id \<Rightarrow> nat \<Rightarrow> block_id list \<Rightarrow>
    bool \<times> (block_id \<Rightarrow> skip_node option)" where
  "unlink_levels nodes q i [] = (False, nodes)"
| "unlink_levels nodes q i (u # us) =
     (case forward_at nodes u i of
        None \<Rightarrow> (True, nodes)
      | Some r \<Rightarrow>
          if r \<noteq> Some q then (False, nodes)
          else (case forward_at nodes q i of
                  None \<Rightarrow> (True, nodes)
                | Some r' \<Rightarrow> unlink_levels (set_forward nodes u i r') q (Suc i) us))"

fun lower_level :: "(block_id \<Rightarrow> skip_node option) \<Rightarrow> block_id \<Rightarrow> nat \<Rightarrow> bool \<times> nat" where
  "lower_level nodes header 0 = (False, 0)"
| "lower_level nodes header (Suc l) =
     (if Suc l > 1 then
        (case forward_at nodes header l of
           None \<Rightarrow> (True, Suc l)
         | Some r \<Rightarrow> if r = None then lower_level nodes header l else (False, Suc l))
      else (False, Suc l))"

definition remove_skiplist :: "heap \<Rightarrow> skiplist option \<Rightarrow> double \<Rightarrow> cstring option \<Rightarrow>
    (heap \<times> skiplist option \<times> cdsa_status) option" where
  "remove_skiplist h sl score val =
     (case (sl, val) of
        (Some s, Some v) \<Rightarrow>
          (case search_down (sl_nodes s) (node_before score v) (sl_level s) (sl_header s) of
             None \<Rightarrow> None
           | Some (bad, c, update) \<Rightarrow>
               Some (case forward_at (sl_nodes s) c 0 of
                  None \<Rightarrow> (set_fault True h, sl, CDSA_ERR_NOT_FOUND)
                | Some None \<Rightarrow> (set_fault bad h, sl, CDSA_ERR_NOT_FOUND)
                | Some (Some q) \<Rightarrow>
                    (case sl_nodes s q of
                       None \<Rightarrow> (set_fault True h, sl, CDSA_ERR_NOT_FOUND)
                     | Some nd \<Rightarrow>
                         if dbl_eq (sn_score nd) score \<and> strcmp (sn_value nd) v = 0 then
                           let (bad1, nodes1) = unlink_levels (sl_nodes s) q 0 update;
                               (bad2, level) = lower_level nodes1 (sl_header s) (sl_level s);
                               h1 = free_skip_node (set_fault (bad \<or> bad1 \<or> bad2) h) q nd
                           in (h1, Some (s\<lparr>sl_nodes := nodes1(q := None), sl_level := level,
                                           sl_size := sl_size s - 1,
                                           sl_version := sl_version s + 1\<rparr>), CDSA_OK)
                         else (set_fault bad h, sl, CDSA_ERR_NOT_FOUND))))
      | _ \<Rightarrow> Some (h, sl, CDSA_ERR_INVALID))"

subsection \<open>Range queries\<close>

text \<open>The loop that counts the nodes in range; the flag is an invalid access.\<close>

partial_function (option) count_range ::
  "(block_id \<Rightarrow> skip_node option) \<Rightarrow> double \<Rightarrow> block_id option \<Rightarrow> nat \<Rightarrow> (bool \<times> nat) option" where
  "count_range nodes max_score temp n =
     (if temp = None then Some (False, n)
      else let p = the temp
           in if forward_at nodes p 0 = None then Some (True, n)
              else if dbl_le (sn_score (the (nodes p))) max_score
              then count_range nodes max_score (the (forward_at nodes p 0)) (Suc n)
              else Some (False, n))"

text \<open>
  The loop that copies the values: \<open>results\<close> is the array block with room for \<open>n\<close> pointers, \<open>acc\<close>
  the copies made so far, each a block with its text.  When a copy is refused everything is given
  back and the result is NULL.
\<close>

partial_function (option) fill_range ::
  "heap \<Rightarrow> (block_id \<Rightarrow> skip_node option) \<Rightarrow> double \<Rightarrow> nat \<Rightarrow> block_id \<Rightarrow> block_id option \<Rightarrow>
   (block_id \<times> cstring) list \<Rightarrow> (heap \<times> (block_id \<times> cstring) list option) option" where
  "fill_range h nodes max_score n results current acc =
     (if current = None then Some (h, Some acc)
      else let p = the current
           in if forward_at nodes p 0 = None then Some (set_fault True h, Some acc)
              else if dbl_le (sn_score (the (nodes p))) max_score
              then let val = sn_value (the (nodes p));
                       (h1, dup) = safe_strdup (set_fault (n \<le> length acc) h) val
                   in if dup = None
                      then Some (cdsa_free_track
                             (fold (\<lambda>(d, _) h. cdsa_free_track h (Some d)) acc h1) (Some results), None)
                      else fill_range h1 nodes max_score n results (the (forward_at nodes p 0))
                             (acc @ [(the dup, val)])
              else Some (h, Some acc))"

text \<open>The count handed back, and the array with the copies it points to.\<close>

definition get_range_skiplist :: "heap \<Rightarrow> skiplist option \<Rightarrow> double \<Rightarrow> double \<Rightarrow> bool \<Rightarrow>
    (heap \<times> nat option \<times> (block_id \<times> (block_id \<times> cstring) list) option) option" where
  "get_range_skiplist h sl min_score max_score out_count =
     (case sl of
        None \<Rightarrow> Some (h, None, None)
      | Some s \<Rightarrow>
          if \<not> out_count then Some (h, None, None)
          else (case search_down (sl_nodes s) (\<lambda>nd. dbl_lt (sn_score nd) min_score)
                       (sl_level s) (sl_header s) of
             None \<Rightarrow> None
           | Some (bad, c, _) \<Rightarrow>
               (case forward_at (sl_nodes s) c 0 of
                  None \<Rightarrow> Some (set_fault True h, None, None)
                | Some current \<Rightarrow>
                    (case count_range (sl_nodes s) max_score current 0 of
                       None \<Rightarrow> None
                     | Some (bad', n) \<Rightarrow>
                         if n = 0 then Some (set_fault (bad \<or> bad') h, Some 0, None)
                         else let (h1, results) =
                                    cdsa_malloc_track (set_fault (bad \<or> bad') h) (of_nat n * 8)
                              in (case results of
                                    None \<Rightarrow> Some (h1, Some 0, None)
                                  | Some r \<Rightarrow>
                                      (case fill_range h1 (sl_nodes s) max_score n r current [] of
                                         None \<Rightarrow> None
                                       | Some (h2, None) \<Rightarrow> Some (h2, Some 0, None)
                                       | Some (h2, Some ds) \<Rightarrow> Some (h2, Some n, Some (r, ds))))))))"

subsection \<open>The iterator\<close>

record skiplist_iterator =
  si_self :: block_id
  si_current :: "block_id option"
  si_snapshot :: size_t

definition cdsa_create_skiplist_iterator ::
  "heap \<Rightarrow> skiplist option \<Rightarrow> heap \<times> skiplist_iterator option" where
  "cdsa_create_skiplist_iterator h sl =
     (case sl of
        None \<Rightarrow> (h, None)
      | Some s \<Rightarrow>
          let (h1, iter) = cdsa_malloc_track h sizeof_skiplist_iterator
          in case iter of
               None \<Rightarrow> (h1, None)
             | Some i \<Rightarrow>
                 (case forward_at (sl_nodes s) (sl_header s) 0 of
                    None \<Rightarrow> (set_fault True h1, None)
                  | Some current \<Rightarrow>
                      (h1, Some \<lparr>si_self = i, si_current = current, si_snapshot = sl_version s\<rparr>)))"

definition cdsa_has_next_skiplist :: "skiplist \<Rightarrow> skiplist_iterator option \<Rightarrow> bool" where
  "cdsa_has_next_skiplist s iter =
     (case iter of
        None \<Rightarrow> False
      | Some i \<Rightarrow> if sl_version s \<noteq> si_snapshot i then False else si_current i \<noteq> None)"

text \<open>
  \<open>want_score\<close> and \<open>want_value\<close> say which of the two out-pointers are not NULL; the value is the
  text behind the pointer handed out.
\<close>

definition cdsa_next_skiplist :: "heap \<Rightarrow> skiplist \<Rightarrow> skiplist_iterator option \<Rightarrow> bool \<Rightarrow> bool \<Rightarrow>
    heap \<times> skiplist_iterator option \<times> cdsa_status \<times> double option \<times> cstring option" where
  "cdsa_next_skiplist h s iter want_score want_value =
     (case iter of
        None \<Rightarrow> (h, iter, CDSA_ERR_NOT_FOUND, None, None)
      | Some i \<Rightarrow>
          (case si_current i of
             None \<Rightarrow> (h, iter, CDSA_ERR_NOT_FOUND, None, None)
           | Some p \<Rightarrow>
               if sl_version s \<noteq> si_snapshot i then (h, iter, CDSA_ERR_ITER_INVALIDATED, None, None)
               else (case (sl_nodes s p, forward_at (sl_nodes s) p 0) of
                  (Some nd, Some nx) \<Rightarrow>
                    (h, Some (i\<lparr>si_current := nx\<rparr>), CDSA_OK,
                     if want_score then Some (sn_score nd) else None,
                     if want_value then Some (sn_value nd) else None)
                | _ \<Rightarrow> (set_fault True h, iter, CDSA_OK, None, None))))"

definition cdsa_free_skiplist_iterator :: "heap \<Rightarrow> skiplist_iterator option \<Rightarrow> heap" where
  "cdsa_free_skiplist_iterator h iter = cdsa_free_track h (map_option si_self iter)"

lemma skiplist_null [null_simps]:
  "insert_skiplist rand n h None x v = Some (n, h, None, CDSA_ERR_INVALID)"
  "insert_skiplist rand n h s x None = Some (n, h, s, CDSA_ERR_INVALID)"
  "remove_skiplist h None x v = Some (h, None, CDSA_ERR_INVALID)"
  "remove_skiplist h s x None = Some (h, s, CDSA_ERR_INVALID)"
  "get_range_skiplist h None a b c = Some (h, None, None)"
  "get_range_skiplist h s a b False = Some (h, None, None)"
  "cdsa_free_skiplist h None = Some h" "cdsa_size_skiplist None = 0" "level_skiplist None = 0"
  "cdsa_create_skiplist_iterator h None = (h, None)" "\<not> cdsa_has_next_skiplist sl None"
  "cdsa_next_skiplist h sl None p q = (h, None, CDSA_ERR_NOT_FOUND, None, None)"
  "cdsa_free_skiplist_iterator h None = h"
  by (simp_all add: insert_skiplist_def remove_skiplist_def get_range_skiplist_def
      cdsa_free_skiplist_def cdsa_size_skiplist_def level_skiplist_def
      cdsa_create_skiplist_iterator_def cdsa_has_next_skiplist_def cdsa_next_skiplist_def
      cdsa_free_skiplist_iterator_def split: option.splits)

end
