(* ===== verification/Skip_Levels.thy ===== *)
theory Skip_Levels
  imports SkipList
begin

text \<open>
  The correctness of the skip list: the invariant that ties the levels together, the search, the
  splice and the removal against it, and the list of scores and values the structure stands for.
\<close>

section \<open>Levels\<close>

definition height :: "(block_id \<Rightarrow> skip_node option) \<Rightarrow> block_id \<Rightarrow> nat" where
  "height nodes p = (case nodes p of None \<Rightarrow> 0 | Some nd \<Rightarrow> length (sn_forward nd))"

text \<open>The links of level \<open>i\<close>.\<close>

definition lvl :: "(block_id \<Rightarrow> skip_node option) \<Rightarrow> nat \<Rightarrow> block_id \<Rightarrow> block_id option" where
  "lvl nodes i p = (case forward_at nodes p i of None \<Rightarrow> None | Some q \<Rightarrow> q)"

definition on_level :: "(block_id \<Rightarrow> skip_node option) \<Rightarrow> nat \<Rightarrow> block_id list \<Rightarrow> block_id list" where
  "on_level nodes i ps = filter (\<lambda>p. i < height nodes p) ps"

text \<open>Every level links the nodes that are high enough, in the order of \<open>ps\<close>.\<close>

definition level_chains :: "(block_id \<Rightarrow> skip_node option) \<Rightarrow> block_id \<Rightarrow> block_id list \<Rightarrow> bool" where
  "level_chains nodes header ps \<longleftrightarrow>
     (\<forall>i < SKIPLIST_MAX_LEVEL. chain (lvl nodes i) (Some header) (on_level nodes i (header # ps)))"

text \<open>A node without its links: what rewiring leaves alone.\<close>

definition skeleton :: "(block_id \<Rightarrow> skip_node option) \<Rightarrow>
    block_id \<Rightarrow> (double \<times> cstring \<times> block_id \<times> nat \<times> nat \<times> block_id) option" where
  "skeleton nodes p = map_option (\<lambda>nd. (sn_score nd, sn_value nd, sn_value_block nd, sn_level nd,
     length (sn_forward nd), sn_forward_block nd)) (nodes p)"

lemma forward_at_lvl: "i < height nodes p \<Longrightarrow> forward_at nodes p i = Some (lvl nodes i p)"
  by (auto simp: height_def lvl_def forward_at_def split: option.splits)

lemma height_nodes: "i < height nodes p \<Longrightarrow> \<exists>nd. nodes p = Some nd"
  by (auto simp: height_def split: option.splits)

lemma on_level_simps [simp]:
  "on_level nodes i [] = []"
  "on_level nodes i (p # ps) = (if i < height nodes p then p # on_level nodes i ps else on_level nodes i ps)"
  "on_level nodes i (ps @ qs) = on_level nodes i ps @ on_level nodes i qs"
  "set (on_level nodes i ps) = {p \<in> set ps. i < height nodes p}"
  by (simp_all add: on_level_def)

lemma distinct_on_level: "distinct ps \<Longrightarrow> distinct (on_level nodes i ps)"
  by (simp add: on_level_def)

lemma skeleton_node:
  assumes "skeleton nodes = skeleton nodes'" and "nodes p = Some nd"
  obtains nd' where "nodes' p = Some nd'" and "sn_score nd' = sn_score nd" and "sn_value nd' = sn_value nd"
    and "sn_value_block nd' = sn_value_block nd" and "sn_forward_block nd' = sn_forward_block nd"
    and "sn_level nd' = sn_level nd" and "length (sn_forward nd') = length (sn_forward nd)"
  using fun_cong [OF assms(1), of p] assms(2) by (cases "nodes' p") (auto simp: skeleton_def)

lemma skeleton_dom: "skeleton nodes = skeleton nodes' \<Longrightarrow> dom nodes = dom nodes'"
proof (rule set_eqI)
  fix p assume "skeleton nodes = skeleton nodes'"
  from fun_cong [OF this, of p] show "p \<in> dom nodes \<longleftrightarrow> p \<in> dom nodes'"
    by (cases "nodes p"; cases "nodes' p") (auto simp: skeleton_def)
qed

lemma skeleton_height: "skeleton nodes = skeleton nodes' \<Longrightarrow> height nodes p = height nodes' p"
  by (drule fun_cong [of _ _ p]) (cases "nodes p"; cases "nodes' p"; auto simp: skeleton_def height_def)

lemma skeleton_set_forward [simp]: "skeleton (set_forward nodes p i q) = skeleton nodes"
  by (auto simp: skeleton_def set_forward_def fun_eq_iff option.map_comp comp_def)

lemma height_set_forward [simp]: "height (set_forward nodes p i q) r = height nodes r"
  by (rule skeleton_height) simp

lemma lvl_set_forward:
  "i < height nodes p \<Longrightarrow> lvl (set_forward nodes p i q) j = (if j = i then (lvl nodes j)(p := q) else lvl nodes j)"
  by (auto simp: lvl_def forward_at_def set_forward_def height_def fun_eq_iff split: option.splits)

section \<open>The search\<close>

lemma advance_ok:
  assumes "chain (lvl nodes i) (lvl nodes i cur) (xs @ ys)" and "i < height nodes cur"
    and "\<forall>p \<in> set (xs @ ys). i < height nodes p" and "\<forall>p \<in> set xs. test (the (nodes p))"
    and "\<forall>p \<in> set ys. \<not> test (the (nodes p))"
  shows "advance nodes test i cur = Some (False, last (cur # xs))"
  using assms
proof (induction xs arbitrary: cur)
  case Nil
  show ?case
  proof (cases ys)
    case Nil
    then show ?thesis
      using \<open>chain _ _ ([] @ ys)\<close> Nil.prems(2)
      by (subst advance.simps) (simp add: forward_at_lvl)
  next
    case (Cons y ys')
    then have "i < height nodes y" using Nil.prems(3) by simp
    then obtain nd where "nodes y = Some nd" using height_nodes by blast
    then show ?thesis
      using Nil.prems Cons by (subst advance.simps) (simp add: forward_at_lvl)
  qed
next
  case (Cons x xs)
  have "i < height nodes x" using Cons.prems(3) by simp
  then obtain nd where nd: "nodes x = Some nd" using height_nodes by blast
  have "advance nodes test i x = Some (False, last (x # xs))"
    using Cons.IH [of x] Cons.prems \<open>i < height nodes x\<close> by simp
  then show ?case
    using Cons.prems nd by (subst advance.simps) (simp add: forward_at_lvl)
qed

text \<open>
  With the nodes split into those that pass the test and those that do not, a search from any node
  of the first part ends, on every level, at the last node of the first part on that level.
\<close>

definition crumbs :: "(block_id \<Rightarrow> skip_node option) \<Rightarrow> block_id list \<Rightarrow> nat \<Rightarrow> block_id list" where
  "crumbs nodes as l = map (\<lambda>j. last (on_level nodes j as)) [0..<l]"

lemma advance_level:
  assumes "level_chains nodes header (as @ bs)" and "i < SKIPLIST_MAX_LEVEL"
    and "cur \<in> set (on_level nodes i (header # as))"
    and "\<forall>p \<in> set as. test (the (nodes p))" and "\<forall>p \<in> set bs. \<not> test (the (nodes p))"
  shows "advance nodes test i cur = Some (False, last (on_level nodes i (header # as)))"
proof -
  from assms(3) obtain us xs where s: "on_level nodes i (header # as) = us @ cur # xs"
    by (meson split_list)
  have "chain (lvl nodes i) (Some header) ((us @ [cur]) @ xs @ on_level nodes i bs)"
    using assms(1,2) s unfolding level_chains_def
    by (metis append.assoc append_Cons append_Nil on_level_simps(3))
  then have c: "chain (lvl nodes i) (lvl nodes i cur) (xs @ on_level nodes i bs)"
    using chain_from_last by fastforce
  have "set (tl (on_level nodes i (header # as))) \<subseteq> set as"
    by (cases "on_level nodes i as") (auto simp: on_level_def dest: filter_eq_ConsD)
  then have sub: "set xs \<subseteq> set as" unfolding s by (cases us) auto
  have h: "\<forall>p \<in> set (cur # xs @ on_level nodes i bs). i < height nodes p"
  proof -
    have "\<forall>p \<in> set (on_level nodes i (header # as)). i < height nodes p" by (simp add: on_level_def)
    then show ?thesis unfolding s by auto
  qed
  have "advance nodes test i cur = Some (False, last (cur # xs))"
  proof (rule advance_ok [OF c])
    show "\<forall>p \<in> set xs. test (the (nodes p))" using sub assms(4) by blast
    show "\<forall>p \<in> set (on_level nodes i bs). \<not> test (the (nodes p))" using assms(5) by simp
    show "i < height nodes cur" by (rule bspec [OF h]) simp
    show "\<forall>p \<in> set (xs @ on_level nodes i bs). i < height nodes p"
      by (intro ballI bspec [OF h]) auto
  qed
  then show ?thesis unfolding s by simp
qed

lemma search_down_ok:
  assumes "level_chains nodes header (as @ bs)" and "l \<le> SKIPLIST_MAX_LEVEL"
    and "height nodes header = SKIPLIST_MAX_LEVEL"
    and "l \<noteq> 0 \<longrightarrow> cur \<in> set (on_level nodes (l - 1) (header # as))"
    and "\<forall>p \<in> set as. test (the (nodes p))" and "\<forall>p \<in> set bs. \<not> test (the (nodes p))"
  shows "search_down nodes test l cur = Some (False,
      if l = 0 then cur else last (on_level nodes 0 (header # as)), crumbs nodes (header # as) l)"
  using assms(2,4)
proof (induction l arbitrary: cur)
  case 0
  then show ?case by (simp add: crumbs_def)
next
  case (Suc l)
  have l: "l < SKIPLIST_MAX_LEVEL" using Suc.prems(1) by simp
  let ?c = "last (on_level nodes l (header # as))"
  have a: "advance nodes test l cur = Some (False, ?c)"
    using advance_level [OF assms(1) l _ assms(5,6), of cur] Suc.prems(2) by simp
  have "on_level nodes l (header # as) \<noteq> []" using l assms(3) by simp
  then have "?c \<in> set (on_level nodes l (header # as))" by (rule last_in_set)
  then have "l \<noteq> 0 \<longrightarrow> ?c \<in> set (on_level nodes (l - 1) (header # as))" by auto
  then have "search_down nodes test l ?c = Some (False,
      if l = 0 then ?c else last (on_level nodes 0 (header # as)), crumbs nodes (header # as) l)"
    using Suc.IH Suc.prems(1) by simp
  then show ?case using a by (simp add: crumbs_def)
qed

section \<open>Rewiring\<close>

lemma splice_levels_ok:
  assumes "\<forall>i < k. i < height nodes p \<and> i < height nodes (update ! i)"
  shows "\<exists>nodes'. fold (splice_level p update) [0..<k] (False, nodes) = (False, nodes') \<and>
    skeleton nodes' = skeleton nodes \<and>
    (\<forall>i. lvl nodes' i = (if i < k then (lvl nodes i)(p := lvl nodes i (update ! i), update ! i := Some p)
       else lvl nodes i))"
  using assms
proof (induction k)
  case 0
  then show ?case by simp
next
  case (Suc k)
  then obtain nodes' where n: "fold (splice_level p update) [0..<k] (False, nodes) = (False, nodes')"
    "skeleton nodes' = skeleton nodes"
    "\<And>i. lvl nodes' i = (if i < k then (lvl nodes i)(p := lvl nodes i (update ! i), update ! i := Some p)
       else lvl nodes i)" by auto
  have h: "height nodes' r = height nodes r" for r by (rule skeleton_height [OF n(2)])
  have k: "k < height nodes' p" "k < height nodes' (update ! k)" using Suc.prems by (auto simp: h)
  let ?n1 = "set_forward nodes' p k (lvl nodes' k (update ! k))"
  let ?n2 = "set_forward ?n1 (update ! k) k (Some p)"
  have "fold (splice_level p update) [0..<Suc k] (False, nodes) = (False, ?n2)"
    using k by (simp add: n(1) splice_level_def forward_at_lvl)
  moreover have "lvl ?n2 i = (if i < Suc k then (lvl nodes i)(p := lvl nodes i (update ! i), update ! i := Some p)
       else lvl nodes i)" for i
    using k by (cases "i = k") (auto simp: lvl_set_forward n(3))
  ultimately show ?case using n(2) by auto
qed

text \<open>A fresh node spliced in behind the breadcrumbs of a search.\<close>

lemma splice_node_ok:
  assumes "level_chains nodes header (as @ bs)" and "height nodes header = SKIPLIST_MAX_LEVEL"
    and "distinct (p # header # as @ bs)" and "length (sn_forward nd) = k" and "k \<le> SKIPLIST_MAX_LEVEL"
    and "\<forall>q \<in> set (as @ bs). height nodes q \<le> l"
  defines "update \<equiv> crumbs nodes (header # as) l @ replicate (k - l) header"
  shows "\<exists>nodes'. splice_node (nodes(p \<mapsto> nd)) p update k = (False, nodes') \<and>
    skeleton nodes' = skeleton (nodes(p \<mapsto> nd)) \<and> level_chains nodes' header (as @ p # bs)"
proof -
  let ?n = "nodes(p \<mapsto> nd)"
  have hp: "height ?n p = k" using assms(4) by (simp add: height_def)
  have hq: "height ?n q = height nodes q" if "q \<noteq> p" for q using that by (simp add: height_def)
  have u: "update ! i = last (on_level nodes i (header # as))" if "i < k" for i
  proof (cases "i < l")
    case True
    then show ?thesis by (simp add: update_def crumbs_def nth_append)
  next
    case False
    have "\<not> i < height nodes q" if "q \<in> set as" for q
      using bspec [OF assms(6), of q] that False by simp
    then have "on_level nodes i as = []" by (simp add: on_level_def filter_empty_conv)
    then show ?thesis using False that assms(2,5) by (simp add: update_def crumbs_def nth_append)
  qed
  have ne: "on_level nodes i (header # as) \<noteq> []" if "i < k" for i
    using that assms(2,5) by simp
  have mem: "update ! i \<in> set (header # as) \<and> i < height nodes (update ! i)" if "i < k" for i
    using last_in_set [OF ne [OF that]]
    by (simp only: u [OF that, symmetric] on_level_simps(4) mem_Collect_eq)
  have up: "update ! i \<noteq> p \<and> i < height nodes (update ! i)" if "i < k" for i
    using mem [OF that] assms(3) by auto
  have "\<forall>i < k. i < height ?n p \<and> i < height ?n (update ! i)" using up hp hq by simp
  from splice_levels_ok [OF this] obtain nodes' where
    n: "splice_node ?n p update k = (False, nodes')" "skeleton nodes' = skeleton ?n"
      "\<And>i. lvl nodes' i = (if i < k then (lvl ?n i)(p := lvl ?n i (update ! i), update ! i := Some p)
         else lvl ?n i)"
    unfolding splice_node_def by blast
  have "chain (lvl nodes' i) (Some header) (on_level nodes' i (header # as @ p # bs))"
    if i: "i < SKIPLIST_MAX_LEVEL" for i
  proof -
    let ?us = "on_level nodes i (header # as)" and ?vs = "on_level nodes i bs"
    have h': "height nodes' q = height ?n q" for q by (rule skeleton_height [OF n(2)])
    have keep: "on_level nodes' i qs = on_level nodes i qs" if "p \<notin> set qs" for qs
      unfolding on_level_def
    proof (rule filter_cong [OF refl])
      fix x assume "x \<in> set qs"
      then have "x \<noteq> p" using that by blast
      then show "i < height nodes' x \<longleftrightarrow> i < height nodes x" using h' [of x] hq [of x] by simp
    qed
    have lv: "on_level nodes' i (header # as @ p # bs) = ?us @ (if i < k then p # ?vs else ?vs)"
    proof -
      have "height nodes' p = k" using h' [of p] hp by simp
      then have "on_level nodes' i (p # bs) = (if i < k then p # on_level nodes' i bs else on_level nodes' i bs)"
        by simp
      moreover have "on_level nodes' i ((header # as) @ p # bs) =
          on_level nodes' i (header # as) @ on_level nodes' i (p # bs)"
        by (rule on_level_simps(3))
      moreover have m: "p \<notin> set (header # as)" "p \<notin> set bs" using assms(3) by auto
      ultimately show ?thesis by (simp only: append_Cons keep [OF m(1)] keep [OF m(2)])
    qed
    have "chain (lvl nodes i) (Some header) (?us @ ?vs)"
      using assms(1) i unfolding level_chains_def by (metis append_Cons on_level_simps(3))
    moreover have "p \<notin> set (?us @ ?vs)" using assms(3) by (auto split: if_splits)
    ultimately have c: "chain (lvl ?n i) (Some header) (?us @ ?vs)"
      by (subst chain_cong [of _ _ "lvl nodes i"]) (auto simp: lvl_def forward_at_def)
    have d: "distinct (p # ?us @ ?vs)"
      using distinct_on_level [OF assms(3), of ?n i] assms(3) distinct_on_level [of "header # as @ bs" nodes i]
      by (auto simp: on_level_def)
    show ?thesis
    proof (cases "i < k")
      case True
      from chain_splice [OF c ne [OF True] d] show ?thesis
        using True u [OF True] by (simp only: lv n(3) if_True)
    next
      case False
      then show ?thesis using c by (simp only: lv n(3) if_False)
    qed
  qed
  then show ?thesis using n(1,2) by (auto simp: level_chains_def)
qed

lemma unlink_levels_ok:
  assumes "\<forall>j. i \<le> j \<and> j < l \<longrightarrow> j < height nodes (u j) \<and> (lvl nodes j (u j) = Some q \<longleftrightarrow> j < height nodes q)"
  shows "\<exists>nodes'. unlink_levels nodes q i (map u [i..<l]) = (False, nodes') \<and>
    skeleton nodes' = skeleton nodes \<and>
    (\<forall>j. lvl nodes' j = (if i \<le> j \<and> j < l \<and> j < height nodes q then (lvl nodes j)(u j := lvl nodes j q)
       else lvl nodes j))"
  using assms
proof (induction "l - i" arbitrary: i nodes)
  case 0
  then show ?case by auto
next
  case (Suc n)
  then have il: "i < l" by simp
  then have step: "map u [i..<l] = u i # map u [Suc i..<l]" by (simp add: upt_conv_Cons)
  have ui: "i < height nodes (u i)" and qi: "lvl nodes i (u i) = Some q \<longleftrightarrow> i < height nodes q"
    using Suc.prems il by auto
  show ?case
  proof (cases "i < height nodes q")
    case False
    then have "unlink_levels nodes q i (map u [i..<l]) = (False, nodes)"
      using qi ui by (simp add: step forward_at_lvl)
    then show ?thesis using False by auto
  next
    case True
    let ?n = "set_forward nodes (u i) i (lvl nodes i q)"
    have l: "lvl ?n j = (if j = i then (lvl nodes j)(u i := lvl nodes i q) else lvl nodes j)" for j
      by (rule lvl_set_forward [OF ui])
    have "\<exists>nodes'. unlink_levels ?n q (Suc i) (map u [Suc i..<l]) = (False, nodes') \<and>
      skeleton nodes' = skeleton ?n \<and>
      (\<forall>j. lvl nodes' j = (if Suc i \<le> j \<and> j < l \<and> j < height ?n q then (lvl ?n j)(u j := lvl ?n j q)
         else lvl ?n j))"
      by (rule Suc.hyps(1)) (use Suc.hyps(2) Suc.prems l in auto)
    moreover have "unlink_levels nodes q i (map u [i..<l]) = unlink_levels ?n q (Suc i) (map u [Suc i..<l])"
      using qi ui True by (simp add: step forward_at_lvl)
    moreover have "(if Suc i \<le> j \<and> j < l \<and> j < height ?n q then (lvl ?n j)(u j := lvl ?n j q) else lvl ?n j) =
        (if i \<le> j \<and> j < l \<and> j < height nodes q then (lvl nodes j)(u j := lvl nodes j q) else lvl nodes j)" for j
      using True il by (cases "j = i") (auto simp: l)
    ultimately show ?thesis by simp
  qed
qed

text \<open>The first node of the second part taken out of all its levels.\<close>

lemma unlink_node_ok:
  assumes "level_chains nodes header (as @ q # bs)" and "height nodes header = SKIPLIST_MAX_LEVEL"
    and "distinct (header # as @ q # bs)" and "l \<le> SKIPLIST_MAX_LEVEL"
    and "height nodes q \<le> l"
  shows "\<exists>nodes'. unlink_levels nodes q 0 (crumbs nodes (header # as) l) = (False, nodes') \<and>
    skeleton nodes' = skeleton nodes \<and> level_chains (nodes'(q := None)) header (as @ bs)"
proof -
  let ?us = "\<lambda>j. on_level nodes j (header # as)"
  let ?u = "\<lambda>j. last (?us j)"
  have ne: "?us j \<noteq> []" if "j < SKIPLIST_MAX_LEVEL" for j using that assms(2) by simp
  have ch: "chain (lvl nodes j) (Some header) (?us j @ on_level nodes j (q # bs))"
    if "j < SKIPLIST_MAX_LEVEL" for j
    using that assms(1) unfolding level_chains_def by (metis append_Cons on_level_simps(3))
  have u: "j < height nodes (?u j)" if "j < SKIPLIST_MAX_LEVEL" for j
    using last_in_set [OF ne [OF that]] by (simp only: on_level_simps(4) mem_Collect_eq)
  have q: "lvl nodes j (?u j) = Some q \<longleftrightarrow> j < height nodes q" if "j < SKIPLIST_MAX_LEVEL" for j
  proof -
    note c = chain_from_last [OF ch [OF that] ne [OF that]]
    show ?thesis
    proof (cases "j < height nodes q")
      case False
      have "q \<notin> set (on_level nodes j (q # bs))" using False by (simp only: on_level_simps(4)) simp
      then show ?thesis using chain_start [OF c] False by blast
    qed (use c in simp)
  qed
  have "\<forall>j. 0 \<le> j \<and> j < l \<longrightarrow> j < height nodes (?u j) \<and> (lvl nodes j (?u j) = Some q \<longleftrightarrow> j < height nodes q)"
    using u q assms(4) by auto
  from unlink_levels_ok [OF this] obtain nodes' where
    n': "unlink_levels nodes q 0 (map ?u [0..<l]) = (False, nodes')" "skeleton nodes' = skeleton nodes"
      "\<And>j. lvl nodes' j = (if 0 \<le> j \<and> j < l \<and> j < height nodes q then (lvl nodes j)(?u j := lvl nodes j q)
         else lvl nodes j)"
    by blast
  have "(0 \<le> j \<and> j < l \<and> j < height nodes q) = (j < height nodes q)" for j using assms(5) by auto
  note n = n'(1,2) n'(3) [unfolded this]
  have "chain (lvl (nodes'(q := None)) j) (Some header) (on_level (nodes'(q := None)) j (header # as @ bs))"
    if j: "j < SKIPLIST_MAX_LEVEL" for j
  proof -
    have nq: "q \<notin> set (header # as)" "q \<notin> set bs" using assms(3) by auto
    have keep: "on_level (nodes'(q := None)) j ps = on_level nodes j ps" if "q \<notin> set ps" for ps
      unfolding on_level_def
      by (rule filter_cong) (use that skeleton_height [OF n(2)] in \<open>auto simp: height_def\<close>)
    have lv: "on_level (nodes'(q := None)) j (header # as @ bs) = ?us j @ on_level nodes j bs"
      using keep [of "header # as @ bs"] nq by (metis UnE append_Cons on_level_simps(3) set_append)
    have d: "distinct (?us j @ on_level nodes j (q # bs))"
      using distinct_on_level [OF assms(3), of nodes j] by (metis append_Cons on_level_simps(3))
    have c: "chain (lvl nodes' j) (Some header) (?us j @ on_level nodes j bs)"
    proof (cases "j < height nodes q")
      case True
      then have "on_level nodes j (q # bs) = q # on_level nodes j bs" by simp
      then show ?thesis
        using chain_unlink [of "lvl nodes j" "Some header" "?us j" q "on_level nodes j bs"]
          ch [OF j] ne [OF j] d True by (simp only: n(3) if_True simp_thms)
    next
      case False
      then have "on_level nodes j (q # bs) = on_level nodes j bs" by simp
      then show ?thesis using ch [OF j] False by (simp only: n(3) if_False)
    qed
    have "q \<notin> set (?us j @ on_level nodes j bs)" using nq by (auto split: if_splits)
    then have "chain (lvl (nodes'(q := None)) j) (Some header) (?us j @ on_level nodes j bs)"
      using c by (subst chain_cong [of _ _ "lvl nodes' j"]) (auto simp: lvl_def forward_at_def)
    then show ?thesis by (simp only: lv)
  qed
  then show ?thesis using n(1,2) by (auto simp: level_chains_def crumbs_def)
qed

section \<open>The order of the entries\<close>

text \<open>An entry is a score with a value; \<open>entry_lt\<close> is the test of the search loops.\<close>

type_synonym entry = "double \<times> cstring"

definition entry_lt :: "entry \<Rightarrow> entry \<Rightarrow> bool" where
  "entry_lt a b \<longleftrightarrow> dbl_lt (fst a) (fst b) \<or> (dbl_eq (fst a) (fst b) \<and> strcmp (snd a) (snd b) < 0)"

definition entry_eq :: "entry \<Rightarrow> entry \<Rightarrow> bool" where
  "entry_eq a b \<longleftrightarrow> dbl_eq (fst a) (fst b) \<and> strcmp (snd a) (snd b) = 0"

definition sorted_entries :: "entry list \<Rightarrow> bool" where
  "sorted_entries es \<longleftrightarrow> (\<forall>e \<in> set es. \<not> dbl_nan (fst e)) \<and> sorted_wrt (\<lambda>a b. \<not> entry_lt b a) es"

lemma entry_lt_key:
  assumes "\<not> dbl_nan (fst a)" and "\<not> dbl_nan (fst b)"
  shows "entry_lt a b \<longleftrightarrow> (dbl_key (fst a), snd a) < (dbl_key (fst b), snd b)"
  using assms by (auto simp: entry_lt_def dbl_lt_def dbl_eq_def strcmp_less)

text \<open>Whatever comes before an entry also comes before what follows that entry.\<close>

lemma entry_lt_downward:
  assumes "\<not> dbl_nan (fst a)" and "\<not> dbl_nan (fst b)" and "\<not> entry_lt b a" and "entry_lt b k"
  shows "entry_lt a k"
proof -
  have k: "\<not> dbl_nan (fst k)" using assms(4) by (auto simp: entry_lt_def dbl_lt_def dbl_eq_def)
  have "\<not> (dbl_key (fst b), snd b) < (dbl_key (fst a), snd a)"
    using assms(3) entry_lt_key [OF assms(2,1)] by blast
  then have "(dbl_key (fst a), snd a) \<le> (dbl_key (fst b), snd b)" by (rule leI)
  also have "\<dots> < (dbl_key (fst k), snd k)" using assms(4) entry_lt_key [OF assms(2) k] by blast
  finally show ?thesis using entry_lt_key [OF assms(1) k] by blast
qed

lemma dbl_downward:
  assumes "\<not> dbl_nan (fst a)" and "\<not> dbl_nan (fst b)" and "\<not> entry_lt b a"
  shows "dbl_lt (fst b) x \<Longrightarrow> dbl_lt (fst a) x" and "dbl_le (fst b) x \<Longrightarrow> dbl_le (fst a) x"
  using assms by (auto simp: entry_lt_def dbl_lt_def dbl_le_def dbl_eq_def)

lemma sorted_split:
  assumes "sorted_wrt (\<lambda>a b. \<not> lt b a) es"
    and "\<And>a b. a \<in> set es \<Longrightarrow> b \<in> set es \<Longrightarrow> \<not> lt b a \<Longrightarrow> P b \<Longrightarrow> P a"
  shows "\<forall>b \<in> set (dropWhile P es). \<not> P b"
  using assms
proof (induction es)
  case (Cons e es)
  show ?case
  proof (cases "P e")
    case True
    then show ?thesis using Cons.IH Cons.prems by fastforce
  next
    case False
    then show ?thesis using Cons.prems by fastforce
  qed
qed simp

lemma sorted_entriesD:
  assumes "sorted_entries es"
  shows "\<forall>e \<in> set (dropWhile (\<lambda>e. entry_lt e k) es). \<not> entry_lt e k"
    and "\<forall>e \<in> set (dropWhile (\<lambda>e. dbl_lt (fst e) x) es). \<not> dbl_lt (fst e) x"
    and "\<forall>e \<in> set (dropWhile (\<lambda>e. dbl_le (fst e) x) es). \<not> dbl_le (fst e) x"
proof -
  have s: "sorted_wrt (\<lambda>a b. \<not> entry_lt b a) es" and n: "\<And>e. e \<in> set es \<Longrightarrow> \<not> dbl_nan (fst e)"
    using assms by (auto simp: sorted_entries_def)
  show "\<forall>e \<in> set (dropWhile (\<lambda>e. entry_lt e k) es). \<not> entry_lt e k"
    by (rule sorted_split [OF s], rule entry_lt_downward, rule n, assumption, rule n)
  show "\<forall>e \<in> set (dropWhile (\<lambda>e. dbl_lt (fst e) x) es). \<not> dbl_lt (fst e) x"
    by (rule sorted_split [OF s], rule dbl_downward(1), rule n, assumption, rule n)
  show "\<forall>e \<in> set (dropWhile (\<lambda>e. dbl_le (fst e) x) es). \<not> dbl_le (fst e) x"
    by (rule sorted_split [OF s], rule dbl_downward(2), rule n, assumption, rule n)
qed

lemma entry_lt_asym: "entry_lt a b \<Longrightarrow> \<not> entry_lt b a"
  by (auto simp: entry_lt_def dbl_lt_def dbl_eq_def strcmp_less)

lemma sorted_entries_insert:
  assumes "sorted_entries (as @ bs)" and "\<not> dbl_nan (fst k)"
    and "\<forall>e \<in> set as. entry_lt e k" and "\<forall>e \<in> set bs. \<not> entry_lt e k"
  shows "sorted_entries (as @ k # bs)"
  using assms by (auto simp: sorted_entries_def sorted_wrt_append entry_lt_asym)

lemma sorted_entries_remove:
  "sorted_entries (as @ e # bs) \<Longrightarrow> sorted_entries (as @ bs)"
  by (auto simp: sorted_entries_def sorted_wrt_append)

section \<open>The structure on the heap\<close>

definition entry_of :: "(block_id \<Rightarrow> skip_node option) \<Rightarrow> block_id \<Rightarrow> entry" where
  "entry_of nodes p = (case skeleton nodes p of None \<Rightarrow> (0, []) | Some (s, v, _) \<Rightarrow> (s, v))"

text \<open>The three blocks of a node, in the order they are given back.\<close>

definition blocks_of :: "(block_id \<Rightarrow> skip_node option) \<Rightarrow> block_id \<Rightarrow> (block_id \<times> size_t) list" where
  "blocks_of nodes p =
     (case skeleton nodes p of
        None \<Rightarrow> []
      | Some (s, v, vb, lv, n, fb) \<Rightarrow>
          [(vb, of_nat (length v) + 1), (fb, of_nat n * 8), (p, sizeof_skip_node)])"

definition sl_blocks :: "(block_id \<Rightarrow> skip_node option) \<Rightarrow> block_id list \<Rightarrow> (block_id \<times> size_t) list" where
  "sl_blocks nodes ps = concat (map (blocks_of nodes) ps)"

definition sl_ids :: "skiplist \<Rightarrow> block_id set" where
  "sl_ids s = insert (sl_self s) (\<Union>p \<in> dom (sl_nodes s). fst ` set (blocks_of (sl_nodes s) p))"

definition sl_repr :: "heap \<Rightarrow> skiplist \<Rightarrow> block_id list \<Rightarrow> bool" where
  "sl_repr h s ps \<longleftrightarrow> heap_ok h \<and> dom (sl_nodes s) = set (sl_header s # ps) \<and>
     distinct (sl_header s # ps) \<and>
     level_chains (sl_nodes s) (sl_header s) ps \<and>
     height (sl_nodes s) (sl_header s) = SKIPLIST_MAX_LEVEL \<and>
     (\<forall>p \<in> set ps. 1 \<le> height (sl_nodes s) p \<and> height (sl_nodes s) p \<le> sl_level s) \<and>
     1 \<le> sl_level s \<and> sl_level s \<le> SKIPLIST_MAX_LEVEL \<and>
     (sl_level s = 1 \<or> (\<exists>p \<in> set ps. height (sl_nodes s) p = sl_level s)) \<and>
     owns_all h ((sl_self s, sizeof_skiplist) # sl_blocks (sl_nodes s) (sl_header s # ps)) \<and>
     sl_size s = of_nat (length ps) \<and> sorted_entries (map (entry_of (sl_nodes s)) ps)"

definition sl_rep :: "heap \<Rightarrow> skiplist \<Rightarrow> entry list \<Rightarrow> bool" where
  "sl_rep h s es \<longleftrightarrow> (\<exists>ps. sl_repr h s ps \<and> es = map (entry_of (sl_nodes s)) ps)"

definition sl_frame :: "heap \<Rightarrow> skiplist \<Rightarrow> bool \<times> (block_id \<times> mblock) list" where
  "sl_frame h s = (fault h, others (sl_ids s) h)"

lemma sl_reprD:
  assumes "sl_repr h s ps"
  shows "heap_ok h" and "dom (sl_nodes s) = set (sl_header s # ps)" and "distinct (sl_header s # ps)"
    and "level_chains (sl_nodes s) (sl_header s) ps"
    and "height (sl_nodes s) (sl_header s) = SKIPLIST_MAX_LEVEL"
    and "\<forall>p \<in> set ps. 1 \<le> height (sl_nodes s) p \<and> height (sl_nodes s) p \<le> sl_level s"
    and "1 \<le> sl_level s" and "sl_level s \<le> SKIPLIST_MAX_LEVEL"
    and "owns_all h ((sl_self s, sizeof_skiplist) # sl_blocks (sl_nodes s) (sl_header s # ps))"
    and "sl_size s = of_nat (length ps)" and "sorted_entries (map (entry_of (sl_nodes s)) ps)"
  using assms unfolding sl_repr_def by blast+

lemma sl_blocks_simps [simp]:
  "sl_blocks nodes [] = []" "sl_blocks nodes (p # ps) = blocks_of nodes p @ sl_blocks nodes ps"
  "sl_blocks nodes (ps @ qs) = sl_blocks nodes ps @ sl_blocks nodes qs"
  by (simp_all add: sl_blocks_def)

lemma sl_ids_repr:
  "dom (sl_nodes s) = set qs \<Longrightarrow>
    sl_ids s = fst ` set ((sl_self s, sizeof_skiplist) # sl_blocks (sl_nodes s) qs)"
  by (auto simp: sl_ids_def sl_blocks_def)

lemma entry_of_node: "nodes p = Some nd \<Longrightarrow> entry_of nodes p = (sn_score nd, sn_value nd)"
  by (simp add: entry_of_def skeleton_def)

lemma blocks_of_node:
  "nodes p = Some nd \<Longrightarrow> blocks_of nodes p = [(sn_value_block nd, of_nat (length (sn_value nd)) + 1),
    (sn_forward_block nd, of_nat (length (sn_forward nd)) * 8), (p, sizeof_skip_node)]"
  by (simp add: blocks_of_def skeleton_def)

lemma node_before_entry: "nodes p = Some nd \<Longrightarrow> node_before x v nd \<longleftrightarrow> entry_lt (entry_of nodes p) (x, v)"
  by (simp add: entry_of_node node_before_def entry_lt_def)

text \<open>What depends on the skeleton of a node alone.\<close>

lemma same_skeleton_node:
  assumes "skeleton nodes' p = skeleton nodes p"
  shows "entry_of nodes' p = entry_of nodes p" and "blocks_of nodes' p = blocks_of nodes p"
    and "height nodes' p = height nodes p"
  using assms by (auto simp: entry_of_def blocks_of_def skeleton_def height_def split: option.splits)

lemma same_skeletons:
  assumes "\<And>p. p \<in> set ps \<Longrightarrow> skeleton nodes' p = skeleton nodes p"
  shows "map (entry_of nodes') ps = map (entry_of nodes) ps" and "sl_blocks nodes' ps = sl_blocks nodes ps"
proof -
  show "map (entry_of nodes') ps = map (entry_of nodes) ps"
    using same_skeleton_node(1) [OF assms] by (intro map_cong) auto
  have "map (blocks_of nodes') ps = map (blocks_of nodes) ps"
    using same_skeleton_node(2) [OF assms] by (intro map_cong) auto
  then show "sl_blocks nodes' ps = sl_blocks nodes ps" unfolding sl_blocks_def by (rule arg_cong)
qed

section \<open>Insertion\<close>

lemma random_loop_range:
  "l \<le> SKIPLIST_MAX_LEVEL \<Longrightarrow> l \<le> fst (random_loop rand n l) \<and> fst (random_loop rand n l) \<le> SKIPLIST_MAX_LEVEL"
proof (induction rand n l rule: random_loop.induct)
  case (1 rand n l)
  then show ?case by (subst (1 2) random_loop.simps) auto
qed

lemma random_level_range:
  assumes "random_level rand n = (k, n')"
  shows "1 \<le> k" and "k \<le> SKIPLIST_MAX_LEVEL"
  using random_loop_range [of 1 rand n] assms by (auto simp: random_level_def SKIPLIST_MAX_LEVEL_def)

text \<open>A new node: its three blocks, or none of them.\<close>

lemma create_node_ok:
  assumes "heap_ok h" and "owns_all h bs" and "length v + 9 < size_bound" and "k \<le> SKIPLIST_MAX_LEVEL"
    and "cdsa_create_node h k x v = (h', r)"
  shows "heap_ok h'" and "libc_refuses h' = libc_refuses h" and "fault h' = fault h"
    and "r = None \<Longrightarrow> live h' = live h \<and> \<not> never_refuses h"
    and "r = Some (p, nd) \<Longrightarrow> sn_score nd = x \<and> sn_value nd = v \<and> sn_level nd = k \<and>
      sn_forward nd = replicate k None \<and> owns_all h' (blocks_of [p \<mapsto> nd] p @ bs) \<and>
      (\<forall>ps. others (fst ` set (blocks_of [p \<mapsto> nd] p) \<union> ps) h' = others ps h)"
proof -
  let ?n = "of_nat (length v) + 1 :: size_t" and ?f = "of_nat k * 8 :: size_t"
  have n: "unat ?n + 8 < size_bound"
    using assms(3) by (subst unat_size_t_Suc) simp_all
  have "unat ?f = k * 8"
    using assms(4) by (subst unat_size_t_mult) (simp_all add: SKIPLIST_MAX_LEVEL_def)
  then have f: "unat ?f + 8 < size_bound" using assms(4) by (simp add: SKIPLIST_MAX_LEVEL_def)
  have sz: "unat sizeof_skip_node + 8 < size_bound" by (simp add: sizeof_skip_node_def)
  note create = assms(5) [unfolded cdsa_create_node_def safe_strdup_def cdsa_calloc_track_def]
  have "heap_ok h' \<and> libc_refuses h' = libc_refuses h \<and> fault h' = fault h \<and>
    (r = None \<longrightarrow> live h' = live h \<and> \<not> never_refuses h) \<and>
    (\<forall>p nd. r = Some (p, nd) \<longrightarrow> sn_score nd = x \<and> sn_value nd = v \<and> sn_level nd = k \<and>
      sn_forward nd = replicate k None \<and> owns_all h' (blocks_of [p \<mapsto> nd] p @ bs) \<and>
      (\<forall>ps. others (fst ` set (blocks_of [p \<mapsto> nd] p) \<union> ps) h' = others ps h))"
  proof (cases "snd (cdsa_malloc_track h sizeof_skip_node)")
    case None
    then obtain h1 where m1: "cdsa_malloc_track h sizeof_skip_node = (h1, None)" by (metis prod.collapse)
    then have "\<not> never_refuses h" using never_refuses_malloc by blast
    then show ?thesis
      using create m1 malloc_None [OF m1] later_heap_ok [OF assms(1), of "Suc (next_id h)"] by auto
  next
    case (Some p)
    then obtain h1 where m1: "cdsa_malloc_track h sizeof_skip_node = (h1, Some p)" by (metis prod.collapse)
    note a = malloc_owns_all [OF assms(1) m1]
    note oa = a(2) [OF assms(2)]
    show ?thesis
    proof (cases "snd (cdsa_malloc_track h1 ?n)")
      case None
      then obtain h2 where m2: "cdsa_malloc_track h1 ?n = (h2, None)" by (metis prod.collapse)
      note e = malloc_None [OF m2]
      have "\<not> never_refuses h" using never_refuses_malloc [of h1] m2 a(4) by (auto simp: never_refuses_def)
      moreover have own: "owns_all h2 ((p, sizeof_skip_node) # bs)" using oa by (simp add: e)
      note fr = free_owns_all [OF own]
      have r: "h' = cdsa_free_track h2 (Some p)" "r = None" using create m1 m2 by simp_all
      have "live h' = live h" using fr(2) [of "{}"] a(3) [of "{}"] by (simp add: r(1) e)
      moreover have "heap_ok h2" using later_heap_ok [OF a(1), of "Suc (next_id h1)"] by (simp add: e)
      then have "heap_ok h'" using fr(5) by (simp add: r(1))
      moreover have "fault h' = fault h" "libc_refuses h' = libc_refuses h"
        using fr(3,4) a(4) a(6) [OF sz] by (simp_all add: r(1) e)
      ultimately show ?thesis using r(2) by simp
    next
      case (Some d)
      then obtain h2 where m2: "cdsa_malloc_track h1 ?n = (h2, Some d)" by (metis prod.collapse)
      note b = malloc_owns_all [OF a(1) m2]
      note ob = b(2) [OF oa]
      show ?thesis
      proof (cases "snd (cdsa_malloc_track h2 ?f)")
        case None
        then obtain h3 where m3: "cdsa_malloc_track h2 ?f = (h3, None)" by (metis prod.collapse)
        note e = malloc_None [OF m3]
        have nr: "\<not> never_refuses h"
          using never_refuses_malloc [of h2] m3 a(4) b(4) by (auto simp: never_refuses_def)
        have own: "owns_all h3 ((d, ?n) # (p, sizeof_skip_node) # bs)" using ob by (simp add: e)
        note f1 = free_owns_all [OF own]
        note f2 = free_owns_all [OF f1(1)]
        have r: "h' = cdsa_free_track (cdsa_free_track h3 (Some d)) (Some p)" "r = None"
          using create m1 m2 m3 by simp_all
        have "live h' = live h"
          using f2(2) [of "{}"] f1(2) [of "{p}"] b(3) [of "{p}"] a(3) [of "{}"]
          by (simp add: r(1) e insert_commute)
        moreover have "heap_ok h3" using later_heap_ok [OF b(1), of "Suc (next_id h2)"] by (simp add: e)
        then have "heap_ok h'" using f1(5) f2(5) by (simp add: r(1))
        moreover have "fault h' = fault h" "libc_refuses h' = libc_refuses h"
          using f1(3,4) f2(3,4) a(4) a(6) [OF sz] b(4) b(6) [OF n] by (simp_all add: r(1) e)
        ultimately show ?thesis using nr r(2) by simp
      next
        case (Some f')
        then obtain h3 where m3: "cdsa_malloc_track h2 ?f = (h3, Some f')" by (metis prod.collapse)
        note c = malloc_owns_all [OF b(1) m3]
        note oc = c(2) [OF ob]
        let ?nd = "\<lparr>sn_score = x, sn_value = v, sn_value_block = d, sn_level = k,
            sn_forward = replicate k None, sn_forward_block = f'\<rparr>"
        have r: "h' = h3" "r = Some (p, ?nd)" using create m1 m2 m3 by simp_all
        have bl: "blocks_of [p \<mapsto> ?nd] p = [(d, ?n), (f', ?f), (p, sizeof_skip_node)]"
          by (simp add: blocks_of_node [of _ _ ?nd])
        have "owns_all h3 (blocks_of [p \<mapsto> ?nd] p @ bs)" using oc by (auto simp: bl)
        moreover have "others (fst ` set (blocks_of [p \<mapsto> ?nd] p) \<union> ps) h3 = others ps h" for ps
          using c(3) [of "insert d (insert p ps)"] b(3) [of "insert p ps"] a(3) [of ps]
          by (simp add: bl insert_commute)
        ultimately show ?thesis
          using a(4) a(6) [OF sz] b(4) b(6) [OF n] c(1,4) c(6) [OF f] by (simp add: r)
      qed
    qed
  qed
  then show "heap_ok h'" and "libc_refuses h' = libc_refuses h" and "fault h' = fault h"
    and "r = None \<Longrightarrow> live h' = live h \<and> \<not> never_refuses h"
    and "r = Some (p, nd) \<Longrightarrow> sn_score nd = x \<and> sn_value nd = v \<and> sn_level nd = k \<and>
      sn_forward nd = replicate k None \<and> owns_all h' (blocks_of [p \<mapsto> nd] p @ bs) \<and>
      (\<forall>ps. others (fst ` set (blocks_of [p \<mapsto> nd] p) \<union> ps) h' = others ps h)"
    by simp_all
qed

text \<open>The search of an operation on a represented list, split at the score and value searched.\<close>

lemma search_repr:
  assumes "sl_repr h s ps" and "\<And>p nd. sl_nodes s p = Some nd \<Longrightarrow> test nd = P (entry_of (sl_nodes s) p)"
    and "\<forall>e \<in> set (dropWhile P (map (entry_of (sl_nodes s)) ps)). \<not> P e"
  obtains as bs where "ps = as @ bs"
    and "takeWhile P (map (entry_of (sl_nodes s)) ps) = map (entry_of (sl_nodes s)) as"
    and "dropWhile P (map (entry_of (sl_nodes s)) ps) = map (entry_of (sl_nodes s)) bs"
    and "search_down (sl_nodes s) test (sl_level s) (sl_header s) = Some (False,
      last (sl_header s # as), crumbs (sl_nodes s) (sl_header s # as) (sl_level s))"
    and "forward_at (sl_nodes s) (last (sl_header s # as)) 0 =
      Some (case bs of [] \<Rightarrow> None | b # _ \<Rightarrow> Some b)"
    and "chain (lvl (sl_nodes s) 0) (case bs of [] \<Rightarrow> None | b # _ \<Rightarrow> Some b) bs"
proof -
  note rd = sl_reprD [OF assms(1)]
  let ?n = "sl_nodes s" and ?h = "sl_header s" and ?e = "entry_of (sl_nodes s)"
  define as where "as = takeWhile (P \<circ> ?e) ps"
  define bs where "bs = dropWhile (P \<circ> ?e) ps"
  have ps: "ps = as @ bs" by (simp add: as_def bs_def)
  have t: "takeWhile P (map ?e ps) = map ?e as" "dropWhile P (map ?e ps) = map ?e bs"
    by (simp_all add: as_def bs_def takeWhile_map dropWhile_map)
  have node: "\<exists>nd. ?n p = Some nd" if "p \<in> set ps" for p using rd(2) that by auto
  have at: "\<forall>p \<in> set as. test (the (?n p))"
  proof
    fix p assume p: "p \<in> set as"
    then have "P (?e p)" unfolding as_def by (auto dest: set_takeWhileD)
    moreover obtain nd where "?n p = Some nd" using node [of p] p ps by auto
    ultimately show "test (the (?n p))" using assms(2) by simp
  qed
  have bt: "\<forall>p \<in> set bs. \<not> test (the (?n p))"
  proof
    fix p assume p: "p \<in> set bs"
    then have "\<not> P (?e p)" using assms(3) t(2) by simp
    moreover obtain nd where "?n p = Some nd" using node [of p] p ps by auto
    ultimately show "\<not> test (the (?n p))" using assms(2) by simp
  qed
  have all0: "on_level ?n 0 (?h # qs) = ?h # qs" if "set qs \<subseteq> set ps" for qs
    using that rd(5,6) unfolding on_level_def
    by (intro filter_True) (force simp: SKIPLIST_MAX_LEVEL_def)
  have l0: "on_level ?n 0 (?h # as) = ?h # as" "on_level ?n 0 (?h # ps) = ?h # ps"
    using all0 [of as] all0 [of ps] ps by auto
  have hl: "?h \<in> set (on_level ?n (sl_level s - 1) (?h # as))"
  proof -
    have "sl_level s - 1 < SKIPLIST_MAX_LEVEL" using rd(7,8) by linarith
    then show ?thesis using rd(5) by simp
  qed
  have "search_down ?n test (sl_level s) ?h = Some (False, last (?h # as), crumbs ?n (?h # as) (sl_level s))"
    using search_down_ok [OF rd(4) [unfolded ps] rd(8,5) _ at bt, of ?h] hl rd(7) l0(1) by simp
  moreover have "chain (lvl ?n 0) (Some ?h) (?h # ps)"
  proof -
    have "chain (lvl ?n 0) (Some ?h) (on_level ?n 0 (?h # ps))"
      using rd(4) unfolding level_chains_def by (simp only: SKIPLIST_MAX_LEVEL_def)
    then show ?thesis by (simp only: l0(2))
  qed
  then have "chain (lvl ?n 0) (Some ?h) ((?h # as) @ bs)" by (simp add: ps)
  from chain_from_last [OF this] have c: "chain (lvl ?n 0) (lvl ?n 0 (last (?h # as))) bs" by simp
  have "0 < height ?n (last (?h # as))"
    using rd(5,6) ps by (cases as rule: rev_cases) (auto simp: SKIPLIST_MAX_LEVEL_def)
  then have "forward_at ?n (last (?h # as)) 0 = Some (lvl ?n 0 (last (?h # as)))" by (rule forward_at_lvl)
  moreover have "lvl ?n 0 (last (?h # as)) = (case bs of [] \<Rightarrow> None | b # _ \<Rightarrow> Some b)"
    using c by (cases bs) auto
  ultimately show thesis using that [OF ps t] c by simp
qed

lemma sl_frame_repr:
  assumes "sl_repr h s ps"
  shows "sl_frame h s = (fault h,
    others (fst ` set ((sl_self s, sizeof_skiplist) # sl_blocks (sl_nodes s) (sl_header s # ps))) h)"
  using sl_ids_repr [OF sl_reprD(2) [OF assms]] by (simp add: sl_frame_def)

text \<open>The list after a node has been spliced in represents the list of entries with the new one.\<close>

lemma sl_repr_inserted:
  fixes v :: size_t
  assumes "sl_repr h s (as @ bs)" and "heap_ok h'" and "p \<notin> set (sl_header s # as @ bs)"
    and "skeleton nodes' = skeleton ((sl_nodes s)(p \<mapsto> nd))"
    and "level_chains nodes' (sl_header s) (as @ p # bs)"
    and "length (sn_forward nd) = k" and "1 \<le> k" and "k \<le> SKIPLIST_MAX_LEVEL"
    and "owns_all h' (blocks_of [p \<mapsto> nd] p @
      (sl_self s, sizeof_skiplist) # sl_blocks (sl_nodes s) (sl_header s # as @ bs))"
    and "sorted_entries (map (entry_of (sl_nodes s)) as @ (sn_score nd, sn_value nd) #
      map (entry_of (sl_nodes s)) bs)"
  defines "s' \<equiv> s\<lparr>sl_level := max k (sl_level s), sl_nodes := nodes', sl_size := sl_size s + 1,
      sl_version := v\<rparr>"
  shows "sl_repr h' s' (as @ p # bs)"
    and "map (entry_of nodes') (as @ p # bs) = map (entry_of (sl_nodes s)) as @
      (sn_score nd, sn_value nd) # map (entry_of (sl_nodes s)) bs"
    and "mset ((sl_self s', sizeof_skiplist) # sl_blocks nodes' (sl_header s' # as @ p # bs)) =
      mset (blocks_of [p \<mapsto> nd] p @
        (sl_self s, sizeof_skiplist) # sl_blocks (sl_nodes s) (sl_header s # as @ bs))"
proof -
  note rd = sl_reprD [OF assms(1)]
  let ?n = "sl_nodes s" and ?h = "sl_header s"
  have sk: "skeleton nodes' q = skeleton ?n q" if "q \<noteq> p" for q
    using that by (simp add: assms(4) skeleton_def)
  have skp: "skeleton nodes' p = skeleton [p \<mapsto> nd] p" by (simp add: assms(4) skeleton_def)
  have keep: "map (entry_of nodes') qs = map (entry_of ?n) qs" "sl_blocks nodes' qs = sl_blocks ?n qs"
    if "p \<notin> set qs" for qs
    using same_skeletons [of qs nodes' ?n] sk that by metis+
  have np: "p \<notin> set (?h # as)" "p \<notin> set as" "p \<notin> set bs" "p \<noteq> ?h" using assms(3) by auto
  have ep: "entry_of nodes' p = (sn_score nd, sn_value nd)"
    using same_skeleton_node(1) [OF skp] by (simp add: entry_of_node [of _ _ nd])
  show e: "map (entry_of nodes') (as @ p # bs) = map (entry_of ?n) as @ (sn_score nd, sn_value nd) #
      map (entry_of ?n) bs"
    by (simp add: keep(1) [OF np(2)] keep(1) [OF np(3)] ep del: map_eq_conv)
  have bl: "sl_blocks nodes' (?h # as @ p # bs) =
      sl_blocks ?n (?h # as) @ blocks_of [p \<mapsto> nd] p @ sl_blocks ?n bs"
    using keep(2) [OF np(1)] keep(2) [OF np(3)] same_skeleton_node(2) [OF skp] by simp
  show ms: "mset ((sl_self s', sizeof_skiplist) # sl_blocks nodes' (sl_header s' # as @ p # bs)) =
      mset (blocks_of [p \<mapsto> nd] p @
        (sl_self s, sizeof_skiplist) # sl_blocks ?n (?h # as @ bs))"
    by (simp add: s'_def bl del: sl_blocks_simps(2)) simp
  have own: "owns_all h' ((sl_self s', sizeof_skiplist) # sl_blocks nodes' (sl_header s' # as @ p # bs))"
    using assms(9) owns_all_permute [OF ms] by blast
  have hq: "height nodes' q = height ?n q" if "q \<noteq> p" for q
    by (rule same_skeleton_node(3) [OF sk [OF that]])
  have hp: "height nodes' p = k"
    using same_skeleton_node(3) [OF skp] assms(6) by (simp add: height_def)
  have heights: "1 \<le> height nodes' q \<and> height nodes' q \<le> max k (sl_level s)"
    if "q \<in> set (as @ p # bs)" for q
    using that rd(6) hq [of q] hp assms(7) by (cases "q = p") (auto simp: le_max_iff_disj)
  have top: "max k (sl_level s) = 1 \<or> (\<exists>q \<in> set (as @ p # bs). height nodes' q = max k (sl_level s))"
  proof (cases "sl_level s \<le> k")
    case True
    then show ?thesis using hp by (intro disjI2 bexI [of _ p]) auto
  next
    case False
    then have "sl_level s \<noteq> 1" using assms(7) by simp
    then obtain q where q: "q \<in> set (as @ bs)" "height ?n q = sl_level s"
      using assms(1) unfolding sl_repr_def by blast
    then have "q \<noteq> p" using assms(3) by auto
    then show ?thesis using False q hq [of q] by (intro disjI2 bexI [of _ q]) auto
  qed
  have "dom nodes' = dom (?n(p \<mapsto> nd))" by (rule skeleton_dom [OF assms(4)])
  then have dom: "dom nodes' = set (?h # as @ p # bs)" using rd(2) by auto
  show "sl_repr h' s' (as @ p # bs)"
    unfolding sl_repr_def
  proof (intro conjI)
    have ns: "sl_nodes s' = nodes'" by (simp add: s'_def)
    show "dom (sl_nodes s') = set (sl_header s' # as @ p # bs)" using dom by (simp add: s'_def)
    show "distinct (sl_header s' # as @ p # bs)" using rd(3) assms(3) by (auto simp: s'_def)
    show "height (sl_nodes s') (sl_header s') = SKIPLIST_MAX_LEVEL"
      using rd(5) hq [OF np(4) [symmetric]] by (simp add: s'_def)
    show "\<forall>q \<in> set (as @ p # bs). 1 \<le> height (sl_nodes s') q \<and> height (sl_nodes s') q \<le> sl_level s'"
      using heights by (simp add: s'_def)
    show "sl_level s' = 1 \<or> (\<exists>q \<in> set (as @ p # bs). height (sl_nodes s') q = sl_level s')"
      using top by (simp add: s'_def)
    show "sorted_entries (map (entry_of (sl_nodes s')) (as @ p # bs))"
      using assms(10) by (simp only: e ns)
  qed (use assms(2,5,7,8) rd(8,10) own in \<open>simp_all add: s'_def\<close>)
qed

lemma node_in_blocks:
  "p \<in> set ps \<Longrightarrow> p \<in> dom nodes \<Longrightarrow> p \<in> fst ` set (sl_blocks nodes ps)"
  by (force simp: sl_blocks_def blocks_of_node)

lemma insert_skiplist_ok:
  assumes "sl_repr h s ps" and "\<not> dbl_nan x" and "length v + 9 < size_bound"
  defines "es \<equiv> map (entry_of (sl_nodes s)) ps"
  shows "\<exists>n' h' s' st. insert_skiplist rand n h (Some s) x (Some v) = Some (n', h', Some s', st) \<and>
    sl_frame h' s' = sl_frame h s \<and> libc_refuses h' = libc_refuses h \<and>
    (st = CDSA_OK \<and> sl_version s' = sl_version s + 1 \<and>
       sl_rep h' s' (takeWhile (\<lambda>e. entry_lt e (x, v)) es @ (x, v) # dropWhile (\<lambda>e. entry_lt e (x, v)) es) \<or>
     st = CDSA_ERR_OOM \<and> s' = s \<and> sl_repr h' s ps \<and> \<not> never_refuses h)"
proof -
  note rd = sl_reprD [OF assms(1)]
  let ?P = "\<lambda>e. entry_lt e (x, v)" and ?n = "sl_nodes s" and ?h = "sl_header s"
  have drop: "\<forall>e \<in> set (dropWhile ?P (map (entry_of ?n) ps)). \<not> ?P e"
    by (rule sorted_entriesD(1) [OF rd(11)])
  have test: "node_before x v nd = ?P (entry_of ?n p)" if "?n p = Some nd" for p nd
    using that by (rule node_before_entry)
  obtain as bs where ps: "ps = as @ bs"
    and tw: "takeWhile ?P es = map (entry_of ?n) as" "dropWhile ?P es = map (entry_of ?n) bs"
    and sd: "search_down ?n (node_before x v) (sl_level s) ?h =
      Some (False, last (?h # as), crumbs ?n (?h # as) (sl_level s))"
    unfolding es_def by (rule search_repr [OF assms(1) test drop])
  obtain k n1 where k: "random_level rand n = (k, n1)" by (metis surj_pair)
  note kr = random_level_range [OF k]
  obtain h1 r where c: "cdsa_create_node h k x v = (h1, r)" by (metis surj_pair)
  note cn = create_node_ok [OF rd(1,9) assms(3) kr(2) c]
  show ?thesis
  proof (cases r)
    case None
    have l: "live h1 = live h" "\<not> never_refuses h" using cn(4) [OF None] by simp_all
    have "sl_repr h1 s ps"
      using assms(1) cn(1) unfolding sl_repr_def owns_all_cong [OF l(1)] by blast
    moreover have "(if sl_level s < k then s\<lparr>sl_level := k\<rparr> else s)\<lparr>sl_level := sl_level s\<rparr> = s" by simp
    ultimately show ?thesis
      using sd k c None l cn(2,3)
      by (simp add: insert_skiplist_def sl_frame_def others_def set_fault_def Let_def)
  next
    case (Some pnd)
    then obtain p nd where r: "r = Some (p, nd)" by (metis surj_pair)
    note nd = cn(5) [OF r]
    have own: "owns_all h1 (blocks_of [p \<mapsto> nd] p @
        (sl_self s, sizeof_skiplist) # sl_blocks ?n (?h # as @ bs))" using nd ps by simp
    have "p \<in> fst ` set (blocks_of [p \<mapsto> nd] p)" by (simp add: blocks_of_node [of _ _ nd])
    moreover have "set (?h # as @ bs) \<subseteq> fst ` set (sl_blocks ?n (?h # as @ bs))"
      using node_in_blocks rd(2) ps by blast
    moreover have "fst ` set (blocks_of [p \<mapsto> nd] p) \<inter>
        fst ` set ((sl_self s, sizeof_skiplist) # sl_blocks ?n (?h # as @ bs)) = {}"
      using own unfolding owns_all_append by blast
    moreover have "fst ` set (sl_blocks ?n (?h # as @ bs)) \<subseteq>
        fst ` set ((sl_self s, sizeof_skiplist) # sl_blocks ?n (?h # as @ bs))"
      by (intro image_mono set_subset_Cons)
    ultimately have fresh: "p \<notin> set (?h # as @ bs)" by blast
    have len: "length (sn_forward nd) = k" using nd by simp
    have "distinct (p # ?h # as @ bs)" using fresh rd(3) ps by simp
    moreover have "\<forall>q \<in> set (as @ bs). height ?n q \<le> sl_level s" using rd(6) ps by blast
    ultimately obtain nodes' where
      sp: "splice_node (?n(p \<mapsto> nd)) p (crumbs ?n (?h # as) (sl_level s) @ replicate (k - sl_level s) ?h) k =
          (False, nodes')" "skeleton nodes' = skeleton (?n(p \<mapsto> nd))" "level_chains nodes' ?h (as @ p # bs)"
      using splice_node_ok [OF rd(4) [unfolded ps] rd(5) _ len kr(2)] by blast
    let ?s' = "s\<lparr>sl_level := max k (sl_level s), sl_nodes := nodes', sl_size := sl_size s + 1,
        sl_version := sl_version s + 1\<rparr>"
    have nde: "(sn_score nd, sn_value nd) = (x, v)" using nd by simp
    have "sorted_entries (map (entry_of ?n) as @ (x, v) # map (entry_of ?n) bs)"
    proof (rule sorted_entries_insert)
      show "sorted_entries (map (entry_of ?n) as @ map (entry_of ?n) bs)" using rd(11) ps by simp
      show "\<forall>e \<in> set (map (entry_of ?n) as). ?P e" unfolding tw(1) [symmetric] by (auto dest: set_takeWhileD)
      show "\<forall>e \<in> set (map (entry_of ?n) bs). \<not> ?P e" using drop unfolding tw(2) [symmetric] es_def .
    qed (use assms(2) in simp)
    then have so: "sorted_entries (map (entry_of ?n) as @ (sn_score nd, sn_value nd) # map (entry_of ?n) bs)"
      by (simp only: nde)
    note given = assms(1) [unfolded ps] cn(1) fresh sp(2,3) len kr own so
    note ins = sl_repr_inserted(1) [where v = "sl_version s + 1", OF given]
      sl_repr_inserted(2) [OF given] sl_repr_inserted(3) [where v = "sl_version s + 1", OF given]
    have "insert_skiplist rand n h (Some s) x (Some v) = Some (n1, h1, Some ?s', CDSA_OK)"
      using sd k c r sp(1)
      by (cases "sl_level s < k") (simp_all add: insert_skiplist_def set_fault_def Let_def max_def)
    moreover have "sl_rep h1 ?s' (takeWhile ?P es @ (x, v) # dropWhile ?P es)"
      unfolding sl_rep_def tw using ins(1,2) nde by (intro exI [of _ "as @ p # bs"]) simp
    moreover have "sl_frame h1 ?s' = sl_frame h s"
    proof -
      let ?A = "fst ` set (blocks_of [p \<mapsto> nd] p)"
        and ?B = "fst ` set ((sl_self s, sizeof_skiplist) # sl_blocks ?n (?h # as @ bs))"
      have ns: "sl_nodes ?s' = nodes'" by simp
      have "set ((sl_self ?s', sizeof_skiplist) # sl_blocks nodes' (sl_header ?s' # as @ p # bs)) =
          set (blocks_of [p \<mapsto> nd] p @ (sl_self s, sizeof_skiplist) # sl_blocks ?n (?h # as @ bs))"
        by (rule mset_eq_setD [OF ins(3)])
      then have e: "fst ` set ((sl_self ?s', sizeof_skiplist) # sl_blocks (sl_nodes ?s') (sl_header ?s' # as @ p # bs)) =
          ?A \<union> ?B" by (simp only: ns set_append image_Un)
      have "others (?A \<union> ?B) h1 = others ?B h" using nd by blast
      then show ?thesis
        by (simp only: sl_frame_repr [OF ins(1)] sl_frame_repr [OF assms(1) [unfolded ps]] e cn(3))
    qed
    ultimately show ?thesis using cn(2) by auto
  qed
qed

end
