(* ===== verification/Skip_Refinement.thy ===== *)
theory Skip_Refinement
  imports Skip_Levels
begin

text \<open>
  The skip list against its specification, the list of its entries sorted by score and value:
  removal, release, runs of calls, range queries and the iterator, and the properties of
  \<^verbatim>\<open>src/skiplist.c\<close>.
\<close>

section \<open>Removal\<close>

lemma free_skip_node_ok:
  assumes "nodes q = Some nd" and "owns_all h (blocks_of nodes q @ bs)"
  defines "h' \<equiv> free_skip_node h q nd"
  shows "owns_all h' bs" and "others ps h' = others (fst ` set (blocks_of nodes q) \<union> ps) h"
    and "fault h' = fault h" and "libc_refuses h' = libc_refuses h" and "heap_ok h \<Longrightarrow> heap_ok h'"
proof -
  have own: "owns_all h ((sn_value_block nd, of_nat (length (sn_value nd)) + 1) #
      (sn_forward_block nd, of_nat (length (sn_forward nd)) * 8) # (q, sizeof_skip_node) # bs)"
    using assms(2) by (simp only: blocks_of_node [of nodes, OF assms(1)] append_Cons append_Nil)
  note f1 = free_owns_all [OF own]
  note f2 = free_owns_all [OF f1(1)]
  note f3 = free_owns_all [OF f2(1)]
  show "owns_all h' bs" using f3(1) by (simp add: h'_def free_skip_node_def)
  show "fault h' = fault h" "libc_refuses h' = libc_refuses h"
    using f1(3,4) f2(3,4) f3(3,4) by (simp_all add: h'_def free_skip_node_def)
  show "heap_ok h \<Longrightarrow> heap_ok h'" using f1(5) f2(5) f3(5) by (simp add: h'_def free_skip_node_def)
  show "others ps h' = others (fst ` set (blocks_of nodes q) \<union> ps) h"
    using f1(2) f2(2) f3(2)
    by (simp add: h'_def free_skip_node_def blocks_of_node [of nodes, OF assms(1)] insert_commute)
qed

lemma lower_level_ok:
  assumes "height nodes header = SKIPLIST_MAX_LEVEL" and "l \<le> SKIPLIST_MAX_LEVEL" and "1 \<le> l"
    and "\<And>j. j < SKIPLIST_MAX_LEVEL \<Longrightarrow> lvl nodes j header = None \<longleftrightarrow> (\<forall>p \<in> set ps. ht p \<le> j)"
    and "\<forall>p \<in> set ps. ht p \<le> l"
  shows "\<exists>l'. lower_level nodes header l = (False, l') \<and> 1 \<le> l' \<and> l' \<le> l \<and>
    (\<forall>p \<in> set ps. ht p \<le> l') \<and> (l' = 1 \<or> (\<exists>p \<in> set ps. ht p = l'))"
  using assms(2,3,5)
proof (induction l)
  case (Suc l)
  have fw: "forward_at nodes header l = Some (lvl nodes l header)"
    using assms(1) Suc.prems(1) by (intro forward_at_lvl) simp
  show ?case
  proof (cases "Suc l > 1 \<and> lvl nodes l header = None")
    case True
    then have "\<forall>p \<in> set ps. ht p \<le> l" using assms(4) [of l] Suc.prems(1) by simp
    with Suc.IH Suc.prems(1) True obtain l' where "lower_level nodes header l = (False, l')"
        "1 \<le> l'" "l' \<le> l" "\<forall>p \<in> set ps. ht p \<le> l'" "l' = 1 \<or> (\<exists>p \<in> set ps. ht p = l')"
      by auto
    then show ?thesis using True fw by auto
  next
    case False
    then have "lower_level nodes header (Suc l) = (False, Suc l)" using fw by auto
    moreover have "Suc l = 1 \<or> (\<exists>p \<in> set ps. ht p = Suc l)"
    proof (cases "Suc l = 1")
      case neq: False
      then have "\<not> (\<forall>p \<in> set ps. ht p \<le> l)" using False assms(4) [of l] Suc.prems(1) by simp
      then show ?thesis using Suc.prems(3) by (meson le_antisym not_less_eq_eq)
    qed simp
    ultimately show ?thesis using Suc.prems(3) by auto
  qed
qed simp

lemma level_empty:
  assumes "level_chains nodes header ps" and "j < SKIPLIST_MAX_LEVEL"
    and "height nodes header = SKIPLIST_MAX_LEVEL"
  shows "lvl nodes j header = None \<longleftrightarrow> (\<forall>p \<in> set ps. height nodes p \<le> j)"
proof -
  have "chain (lvl nodes j) (Some header) (header # on_level nodes j ps)"
    using assms unfolding level_chains_def by (metis on_level_simps(2))
  then have c: "chain (lvl nodes j) (lvl nodes j header) (on_level nodes j ps)" by simp
  have "lvl nodes j header = None \<longleftrightarrow> on_level nodes j ps = []"
    using c by (cases "on_level nodes j ps") auto
  then show ?thesis by (auto simp: on_level_def filter_empty_conv not_less)
qed

text \<open>The list after a node has been taken out.\<close>

lemma sl_repr_removed:
  fixes v :: size_t
  assumes "sl_repr h s (as @ q # bs)" and "heap_ok h'"
    and "skeleton nodes' = skeleton (sl_nodes s)"
    and "level_chains (nodes'(q := None)) (sl_header s) (as @ bs)"
    and "lower_level nodes' (sl_header s) (sl_level s) = (False, l)"
    and "owns_all h' ((sl_self s, sizeof_skiplist) # sl_blocks (sl_nodes s) (sl_header s # as @ bs))"
  defines "s' \<equiv> s\<lparr>sl_nodes := nodes'(q := None), sl_level := l, sl_size := sl_size s - 1,
      sl_version := v\<rparr>"
  shows "sl_repr h' s' (as @ bs)"
    and "map (entry_of (nodes'(q := None))) (as @ bs) = map (entry_of (sl_nodes s)) (as @ bs)"
    and "sl_blocks (nodes'(q := None)) (sl_header s # as @ bs) = sl_blocks (sl_nodes s) (sl_header s # as @ bs)"
proof -
  note rd = sl_reprD [OF assms(1)]
  let ?n = "sl_nodes s" and ?h = "sl_header s" and ?n' = "nodes'(q := None)"
  have nq: "q \<notin> set (?h # as @ bs)" "q \<noteq> ?h" using rd(3) by auto
  have sk: "skeleton ?n' p = skeleton ?n p" if "p \<noteq> q" for p
    using that by (simp add: assms(3) [symmetric] skeleton_def)
  show e: "map (entry_of ?n') (as @ bs) = map (entry_of ?n) (as @ bs)"
    by (rule same_skeletons(1), rule sk) (use nq in auto)
  show bl: "sl_blocks ?n' (?h # as @ bs) = sl_blocks ?n (?h # as @ bs)"
    by (rule same_skeletons(2), rule sk) (use nq in auto)
  have ht: "height ?n' p = height ?n p" if "p \<noteq> q" for p
    by (rule same_skeleton_node(3) [OF sk [OF that]])
  have hh: "height nodes' ?h = SKIPLIST_MAX_LEVEL" "height ?n' ?h = SKIPLIST_MAX_LEVEL"
    using rd(5) skeleton_height [OF assms(3)] ht [of ?h] nq(2) by auto
  have lh: "lvl nodes' j ?h = lvl ?n' j ?h" for j using nq(2) by (simp add: lvl_def forward_at_def)
  have hts: "height ?n' p = height ?n p \<and> 1 \<le> height ?n p \<and> height ?n p \<le> sl_level s"
    if "p \<in> set (as @ bs)" for p
    using that nq(1) ht [of p] rd(6) by auto
  have "\<exists>l'. lower_level nodes' ?h (sl_level s) = (False, l') \<and> 1 \<le> l' \<and> l' \<le> sl_level s \<and>
    (\<forall>p \<in> set (as @ bs). height ?n' p \<le> l') \<and> (l' = 1 \<or> (\<exists>p \<in> set (as @ bs). height ?n' p = l'))"
    by (rule lower_level_ok [OF hh(1) rd(8,7)])
      (use level_empty [OF assms(4) _ hh(2)] lh hts in auto)
  then have l: "1 \<le> l" "l \<le> sl_level s" "\<forall>p \<in> set (as @ bs). height ?n' p \<le> l"
      "l = 1 \<or> (\<exists>p \<in> set (as @ bs). height ?n' p = l)"
    using assms(5) by auto
  have "dom nodes' = dom ?n" by (rule skeleton_dom [OF assms(3)])
  then have dom: "dom ?n' = set (?h # as @ bs)" using rd(2) nq by auto
  have ns: "sl_nodes s' = ?n'" "sl_header s' = ?h" "sl_self s' = sl_self s" by (simp_all add: s'_def)
  show "sl_repr h' s' (as @ bs)"
    unfolding sl_repr_def ns
  proof (intro conjI)
    show "distinct (?h # as @ bs)" using rd(3) by auto
    show "\<forall>p \<in> set (as @ bs). 1 \<le> height ?n' p \<and> height ?n' p \<le> sl_level s'"
      using l(3) hts by (simp add: s'_def)
    show "1 \<le> sl_level s'" "sl_level s' \<le> SKIPLIST_MAX_LEVEL" using l(1,2) rd(8) by (simp_all add: s'_def)
    show "sl_level s' = 1 \<or> (\<exists>p \<in> set (as @ bs). height ?n' p = sl_level s')"
      using l(4) by (simp add: s'_def)
    show "owns_all h' ((sl_self s, sizeof_skiplist) # sl_blocks ?n' (?h # as @ bs))"
      using assms(6) by (simp only: bl)
    show "sl_size s' = of_nat (length (as @ bs))" using rd(10) by (simp add: s'_def)
    show "sorted_entries (map (entry_of ?n') (as @ bs))"
      using sorted_entries_remove [of "map (entry_of ?n) as" _ "map (entry_of ?n) bs"] rd(11)
      by (simp only: e) simp
  qed (use assms(2,4) dom hh in simp_all)
qed

text \<open>\<open>remove_skiplist\<close> on a represented list, by what the search finds.\<close>

lemma remove_skiplist_ok:
  fixes x :: double and v :: cstring
  assumes "sl_repr h s ps"
  defines "es \<equiv> map (entry_of (sl_nodes s)) ps"
  defines "rest \<equiv> dropWhile (\<lambda>e. entry_lt e (x, v)) es"
  shows "\<exists>h' s' st. remove_skiplist h (Some s) x (Some v) = Some (h', Some s', st) \<and>
    sl_frame h' s' = sl_frame h s \<and> libc_refuses h' = libc_refuses h \<and>
    (if rest \<noteq> [] \<and> entry_eq (hd rest) (x, v)
     then st = CDSA_OK \<and> sl_version s' = sl_version s + 1 \<and>
       sl_rep h' s' (takeWhile (\<lambda>e. entry_lt e (x, v)) es @ tl rest)
     else st = CDSA_ERR_NOT_FOUND \<and> s' = s \<and> h' = h)"
proof -
  note rd = sl_reprD [OF assms(1)]
  let ?P = "\<lambda>e. entry_lt e (x, v)" and ?n = "sl_nodes s" and ?h = "sl_header s"
  have drop: "\<forall>e \<in> set (dropWhile ?P (map (entry_of ?n) ps)). \<not> ?P e"
    by (rule sorted_entriesD(1) [OF rd(11)])
  have test: "node_before x v nd = ?P (entry_of ?n p)" if "?n p = Some nd" for p nd
    using that by (rule node_before_entry)
  obtain as bs where ps: "ps = as @ bs"
    and tw: "takeWhile ?P es = map (entry_of ?n) as" "rest = map (entry_of ?n) bs"
    and sd: "search_down ?n (node_before x v) (sl_level s) ?h =
      Some (False, last (?h # as), crumbs ?n (?h # as) (sl_level s))"
    and fw: "forward_at ?n (last (?h # as)) 0 = Some (case bs of [] \<Rightarrow> None | b # _ \<Rightarrow> Some b)"
    unfolding rest_def es_def by (rule search_repr [OF assms(1) test drop])
  show ?thesis
  proof (cases bs)
    case Nil
    then show ?thesis
      using sd fw tw(2) by (simp add: remove_skiplist_def set_fault_def)
  next
    case (Cons q bs')
    then obtain nd where nd: "?n q = Some nd" using rd(2) ps by auto
    have hd: "hd rest = (sn_score nd, sn_value nd)" "rest \<noteq> []"
      using tw(2) Cons by (simp_all add: entry_of_node [of ?n, OF nd])
    show ?thesis
    proof (cases "entry_eq (hd rest) (x, v)")
      case False
      then have nf: "(dbl_eq (sn_score nd) x \<and> strcmp (sn_value nd) v = 0) = False"
        using hd(1) by (simp add: entry_eq_def)
      have "remove_skiplist h (Some s) x (Some v) = Some (h, Some s, CDSA_ERR_NOT_FOUND)"
        using sd fw Cons nd by (simp add: remove_skiplist_def set_fault_def nf del: de_Morgan_conj)
      then show ?thesis using False by simp
    next
      case True
      then have found: "dbl_eq (sn_score nd) x" "strcmp (sn_value nd) v = 0"
        using hd by (simp_all add: entry_eq_def)
      have rep: "sl_repr h s (as @ q # bs')" using assms(1) ps Cons by simp
      note rq = sl_reprD [OF rep]
      have "height ?n q \<le> sl_level s" using rq(6) by simp
      from unlink_node_ok [OF rq(4,5,3,8) this] obtain nodes' where
        ul: "unlink_levels ?n q 0 (crumbs ?n (?h # as) (sl_level s)) = (False, nodes')"
          "skeleton nodes' = skeleton ?n" "level_chains (nodes'(q := None)) ?h (as @ bs')" by blast
      have hh: "height nodes' ?h = SKIPLIST_MAX_LEVEL" "height (nodes'(q := None)) ?h = SKIPLIST_MAX_LEVEL"
        using rq(3,5) skeleton_height [OF ul(2), of ?h] by (auto simp: height_def)
      have "lvl nodes' j ?h = lvl (nodes'(q := None)) j ?h" for j
        using rq(3) by (auto simp: lvl_def forward_at_def)
      moreover have "height (nodes'(q := None)) p \<le> sl_level s" if "p \<in> set (as @ bs')" for p
        using that rq(6) skeleton_height [OF ul(2), of p] by (auto simp: height_def)
      ultimately obtain l where l: "lower_level nodes' ?h (sl_level s) = (False, l)"
        using lower_level_ok [OF hh(1) rq(8,7), of "as @ bs'" "height (nodes'(q := None))"]
          level_empty [OF ul(3) _ hh(2)] by auto
      let ?S = "(sl_self s, sizeof_skiplist)"
      have ms: "mset (?S # sl_blocks ?n (?h # as @ q # bs')) =
          mset (blocks_of ?n q @ ?S # sl_blocks ?n (?h # as @ bs'))" by simp
      have own: "owns_all h (blocks_of ?n q @ ?S # sl_blocks ?n (?h # as @ bs'))"
        using rq(9) owns_all_permute [OF ms] by blast
      define h' where "h' = free_skip_node h q nd"
      note fr = free_skip_node_ok [where nodes = ?n, OF nd own, folded h'_def]
      let ?s' = "s\<lparr>sl_nodes := nodes'(q := None), sl_level := l, sl_size := sl_size s - 1,
          sl_version := sl_version s + 1\<rparr>"
      note given = rep fr(5) [OF rd(1)] ul(2,3) l fr(1)
      note rm = sl_repr_removed(1) [where v = "sl_version s + 1", OF given]
        sl_repr_removed(2) [OF given] sl_repr_removed(3) [OF given]
      have "remove_skiplist h (Some s) x (Some v) = Some (h', Some ?s', CDSA_OK)"
        using sd fw Cons nd found ul(1) l
        by (simp add: remove_skiplist_def set_fault_def h'_def Let_def)
      moreover have "takeWhile ?P es @ tl rest = map (entry_of (sl_nodes ?s')) (as @ bs')"
        using rm(2) tw Cons by simp
      then have "sl_rep h' ?s' (takeWhile ?P es @ tl rest)"
        unfolding sl_rep_def using rm(1) by (intro exI [of _ "as @ bs'"]) simp
      moreover have "sl_frame h' ?s' = sl_frame h s"
      proof -
        have ns: "sl_nodes ?s' = nodes'(q := None)" "sl_header ?s' = ?h" "sl_self ?s' = sl_self s" by simp_all
        have "set (?S # sl_blocks ?n (?h # as @ q # bs')) =
            set (blocks_of ?n q @ ?S # sl_blocks ?n (?h # as @ bs'))" by (rule mset_eq_setD [OF ms])
        then have e: "fst ` set (?S # sl_blocks ?n (?h # as @ q # bs')) =
            fst ` set (blocks_of ?n q) \<union> fst ` set (?S # sl_blocks ?n (?h # as @ bs'))"
          by (simp only: set_append image_Un)
        show ?thesis
          by (simp only: sl_frame_repr [OF rm(1)] sl_frame_repr [OF rep] e ns rm(3) fr(2,3))
      qed
      ultimately show ?thesis using True hd(2) fr(4) by auto
    qed
  qed
qed

section \<open>Creation and release\<close>

lemma create_skiplist_ok:
  assumes "cdsa_create_skiplist h = (h', Some s)" and "heap_ok h"
  shows "sl_repr h' s []" and "sl_frame h' s = (fault h, live h)" and "libc_refuses h' = libc_refuses h"
proof -
  obtain h1 self p nd where m: "cdsa_malloc_track h sizeof_skiplist = (h1, Some self)"
    and c: "cdsa_create_node h1 SKIPLIST_MAX_LEVEL 0 [] = (h', Some (p, nd))"
    and s: "s = \<lparr>sl_self = self, sl_nodes = [p \<mapsto> nd], sl_header = p, sl_level = 1, sl_size = 0,
      sl_version = 0\<rparr>"
    using assms(1) by (auto simp: cdsa_create_skiplist_def split: prod.splits option.splits)
  note a = malloc_owns_all [OF assms(2) m]
  have own: "owns_all h1 [(self, sizeof_skiplist)]" using a(2) [of "[]"] by simp
  have len: "length ([] :: cstring) + 9 < size_bound" by simp
  note cn = create_node_ok [OF a(1) own len le_refl c]
  note nd = cn(5) [OF refl]
  have ht: "height [p \<mapsto> nd] p = SKIPLIST_MAX_LEVEL" using nd by (simp add: height_def)
  have lv: "lvl [p \<mapsto> nd] i p = None" for i using nd by (simp add: lvl_def forward_at_def)
  have ms: "mset (blocks_of [p \<mapsto> nd] p @ [(self, sizeof_skiplist)]) =
      mset ((self, sizeof_skiplist) # sl_blocks [p \<mapsto> nd] [p])" by simp
  then have "owns_all h' ((self, sizeof_skiplist) # sl_blocks [p \<mapsto> nd] [p])"
    using nd owns_all_permute [OF ms] by blast
  then show rep: "sl_repr h' s []"
    using cn(1) ht lv
    by (simp add: sl_repr_def s level_chains_def sorted_entries_def SKIPLIST_MAX_LEVEL_def)
  have "fault h' = fault h" using cn(3) a(6) by (simp add: sizeof_skiplist_def)
  moreover have "others (fst ` set (blocks_of [p \<mapsto> nd] p) \<union> {self}) h' = others {self} h1"
    using nd by blast
  then have "others (fst ` set (blocks_of [p \<mapsto> nd] p) \<union> {self}) h' = live h"
    using a(3) [of "{}"] by simp
  moreover have "fst ` set ((sl_self s, sizeof_skiplist) # sl_blocks (sl_nodes s) (sl_header s # [])) =
      fst ` set (blocks_of [p \<mapsto> nd] p) \<union> {self}" by (simp add: s)
  ultimately show "sl_frame h' s = (fault h, live h)"
    by (simp only: sl_frame_repr [OF rep])
  show "libc_refuses h' = libc_refuses h" using cn(2) a(4) by simp
qed

lemma create_skiplist_succeeds:
  "never_refuses h \<Longrightarrow> \<exists>h' s. cdsa_create_skiplist h = (h', Some s)"
  by (simp add: cdsa_create_skiplist_def cdsa_create_node_def safe_strdup_def cdsa_calloc_track_def
      cdsa_malloc_track_def never_refuses_def Let_def)

text \<open>The loop that gives back the nodes, along level 0.\<close>

lemma free_skip_nodes_ok:
  assumes "chain (lvl nodes 0) cur ps" and "\<forall>p \<in> set ps. 0 < height nodes p" and "distinct ps"
    and "heap_ok h" and "owns_all h (sl_blocks nodes ps @ bs)"
  shows "\<exists>h'. free_skip_nodes h nodes cur = Some h' \<and> heap_ok h' \<and> owns_all h' bs \<and>
    fault h' = fault h \<and> libc_refuses h' = libc_refuses h \<and>
    (\<forall>qs. others qs h' = others (fst ` set (sl_blocks nodes ps) \<union> qs) h)"
  using assms
proof (induction ps arbitrary: nodes cur h)
  case Nil
  then show ?case by (subst free_skip_nodes.simps) auto
next
  case (Cons p ps)
  have cur: "cur = Some p" "chain (lvl nodes 0) (lvl nodes 0 p) ps" using Cons.prems(1) by simp_all
  have hp: "0 < height nodes p" and np: "p \<notin> set ps" using Cons.prems(2,3) by simp_all
  then obtain nd where nd: "nodes p = Some nd" using height_nodes by blast
  have own: "owns_all h (blocks_of nodes p @ sl_blocks nodes ps @ bs)" using Cons.prems(5) by simp
  note fr = free_skip_node_ok [where nodes = nodes, OF nd own]
  let ?n = "nodes(p := None)" and ?h = "free_skip_node h p nd"
  have sk: "skeleton ?n q = skeleton nodes q" if "q \<in> set ps" for q
    using that np by (auto simp: skeleton_def)
  have bl: "sl_blocks ?n ps = sl_blocks nodes ps" by (rule same_skeletons(2)) (rule sk)
  have ch: "chain (lvl ?n 0) (lvl nodes 0 p) ps"
    using cur(2) np by (subst chain_cong [of _ _ "lvl nodes 0"]) (auto simp: lvl_def forward_at_def)
  have hq: "\<forall>q \<in> set ps. 0 < height ?n q" using Cons.prems(2) np by (auto simp: height_def)
  have d: "distinct ps" using Cons.prems(3) by simp
  note ih = Cons.IH [OF ch hq d fr(5) [OF Cons.prems(4)], unfolded bl, OF fr(1)]
  obtain h' where h': "free_skip_nodes ?h ?n (lvl nodes 0 p) = Some h'" "heap_ok h'" "owns_all h' bs"
      "fault h' = fault ?h" "libc_refuses h' = libc_refuses ?h"
      "\<And>qs. others qs h' = others (fst ` set (sl_blocks nodes ps) \<union> qs) ?h"
    using ih by blast
  have "free_skip_nodes h nodes cur = free_skip_nodes ?h ?n (lvl nodes 0 p)"
    by (subst free_skip_nodes.simps) (simp add: cur(1) nd forward_at_lvl [OF hp])
  moreover have "others (fst ` set (sl_blocks nodes ps) \<union> qs) ?h =
      others (fst ` set (sl_blocks nodes (p # ps)) \<union> qs) h" for qs
    by (simp only: fr(2) sl_blocks_simps set_append image_Un Un_assoc)
  ultimately show ?case using h' fr(3,4) by simp
qed

lemma level0_chain:
  assumes "sl_repr h s ps"
  shows "chain (lvl (sl_nodes s) 0) (Some (sl_header s)) (sl_header s # ps)"
    and "\<forall>p \<in> set (sl_header s # ps). 0 < height (sl_nodes s) p"
proof -
  note rd = sl_reprD [OF assms]
  show h: "\<forall>p \<in> set (sl_header s # ps). 0 < height (sl_nodes s) p"
    using rd(5,6) by (fastforce simp: SKIPLIST_MAX_LEVEL_def)
  then have "on_level (sl_nodes s) 0 (sl_header s # ps) = sl_header s # ps"
    unfolding on_level_def by (intro filter_True) blast
  moreover have "chain (lvl (sl_nodes s) 0) (Some (sl_header s)) (on_level (sl_nodes s) 0 (sl_header s # ps))"
    using rd(4) unfolding level_chains_def by (simp only: SKIPLIST_MAX_LEVEL_def)
  ultimately show "chain (lvl (sl_nodes s) 0) (Some (sl_header s)) (sl_header s # ps)" by (simp only:)
qed

lemma free_skiplist_ok:
  assumes "sl_repr h s ps"
  shows "\<exists>h'. cdsa_free_skiplist h (Some s) = Some h' \<and> fault h' = fault h \<and> heap_ok h' \<and>
    live h' = snd (sl_frame h s) \<and> libc_refuses h' = libc_refuses h"
proof -
  note rd = sl_reprD [OF assms] and l0 = level0_chain [OF assms]
  let ?S = "(sl_self s, sizeof_skiplist)" and ?B = "sl_blocks (sl_nodes s) (sl_header s # ps)"
  have "owns_all h (?S # ?B) = owns_all h (?B @ [?S])" by (rule owns_all_permute) simp
  then have "owns_all h (?B @ [?S])" using rd(9) by blast
  from free_skip_nodes_ok [OF l0 rd(3,1) this] obtain h1 where
    h1: "free_skip_nodes h (sl_nodes s) (Some (sl_header s)) = Some h1" "heap_ok h1" "owns_all h1 [?S]"
      "fault h1 = fault h" "\<And>qs. others qs h1 = others (fst ` set ?B \<union> qs) h"
      "libc_refuses h1 = libc_refuses h" by blast
  note f = free_owns_all [OF h1(3)]
  have "live (cdsa_free_track h1 (Some (sl_self s))) = others (fst ` set (?S # ?B)) h"
    using f(2) [of "{}"] h1(5) [of "{sl_self s}"] by (simp add: insert_commute del: sl_blocks_simps)
  then show ?thesis
    using h1(1,4,6) f(3-5) h1(2) by (simp add: cdsa_free_skiplist_def sl_frame_repr [OF assms])
qed

section \<open>Runs\<close>

text \<open>The draws made so far go with the structure; the draws themselves are fixed.\<close>

datatype sl_call = SInsert double cstring | SRemove double cstring

fun sl_step :: "(nat \<Rightarrow> nat) \<Rightarrow> heap \<Rightarrow> nat \<times> skiplist \<Rightarrow> sl_call \<Rightarrow>
    (heap \<times> (nat \<times> skiplist) \<times> cdsa_status) option" where
  "sl_step rand h (n, s) (SInsert x v) =
     (case insert_skiplist rand n h (Some s) x (Some v) of
        None \<Rightarrow> None | Some (n', h', r, st) \<Rightarrow> Some (h', (n', the r), st))"
| "sl_step rand h (n, s) (SRemove x v) =
     (case remove_skiplist h (Some s) x (Some v) of
        None \<Rightarrow> None | Some (h', r, st) \<Rightarrow> Some (h', (n, the r), st))"

text \<open>The specification: a list of entries, a new one before the first that it does not follow.\<close>

fun sl_spec :: "entry list \<Rightarrow> sl_call \<Rightarrow> entry list \<times> cdsa_status" where
  "sl_spec es (SInsert x v) =
     (takeWhile (\<lambda>e. entry_lt e (x, v)) es @ (x, v) # dropWhile (\<lambda>e. entry_lt e (x, v)) es, CDSA_OK)"
| "sl_spec es (SRemove x v) =
     (let rest = dropWhile (\<lambda>e. entry_lt e (x, v)) es
      in if rest \<noteq> [] \<and> entry_eq (hd rest) (x, v)
         then (takeWhile (\<lambda>e. entry_lt e (x, v)) es @ tl rest, CDSA_OK)
         else (es, CDSA_ERR_NOT_FOUND))"

fun sl_call_ok :: "bool \<times> (block_id \<times> mblock) list \<Rightarrow> sl_call \<Rightarrow> bool" where
  "sl_call_ok f (SInsert x v) \<longleftrightarrow> \<not> dbl_nan x \<and> length v + 9 < size_bound"
| "sl_call_ok f (SRemove x v) \<longleftrightarrow> True"

interpretation sls: all_or_nothing "\<lambda>h r. sl_rep h (snd r)" "\<lambda>h r. sl_frame h (snd r)" never_refuses
  sl_call_ok "sl_step rand" sl_spec for rand
proof (unfold_locales, goal_cases)
  case (1 h r es c)
  obtain n s where r: "r = (n, s)" by (rule prod.exhaust)
  then obtain ps where ps: "sl_repr h s ps" "es = map (entry_of (sl_nodes s)) ps"
    using 1(1) by (auto simp: sl_rep_def)
  show ?case
  proof (cases c)
    case (SInsert x v)
    then have "\<not> dbl_nan x" "length v + 9 < size_bound" using 1(2) by simp_all
    from insert_skiplist_ok [OF ps(1) this, of rand n, folded ps(2)] obtain n' h' s' st where
      i: "insert_skiplist rand n h (Some s) x (Some v) = Some (n', h', Some s', st)"
        "sl_frame h' s' = sl_frame h s" "libc_refuses h' = libc_refuses h"
        "st = CDSA_OK \<and> sl_rep h' s' (fst (sl_spec es c)) \<or>
         st = CDSA_ERR_OOM \<and> s' = s \<and> sl_repr h' s ps \<and> \<not> never_refuses h"
      unfolding SInsert by auto
    then have "sl_rep h' s' es" if "s' = s" "sl_repr h' s ps" using that ps(2) by (auto simp: sl_rep_def)
    then show ?thesis using i by (auto simp: r SInsert never_refuses_def)
  next
    case (SRemove x v)
    let ?rest = "dropWhile (\<lambda>e. entry_lt e (x, v)) es"
    obtain h' s' st where
      i: "remove_skiplist h (Some s) x (Some v) = Some (h', Some s', st)"
        "sl_frame h' s' = sl_frame h s" "libc_refuses h' = libc_refuses h"
        "if ?rest \<noteq> [] \<and> entry_eq (hd ?rest) (x, v)
         then st = CDSA_OK \<and> sl_version s' = sl_version s + 1 \<and>
           sl_rep h' s' (takeWhile (\<lambda>e. entry_lt e (x, v)) es @ tl ?rest)
         else st = CDSA_ERR_NOT_FOUND \<and> s' = s \<and> h' = h"
      using remove_skiplist_ok [OF ps(1), of x v, folded ps(2)] by blast
    have "sl_rep h' s' (fst (sl_spec es c)) \<and> st = snd (sl_spec es c)"
      using i(4) 1(1) r
      by (cases "?rest \<noteq> [] \<and> entry_eq (hd ?rest) (x, v)")
        (simp_all add: SRemove Let_def del: dropWhile_eq_Nil_conv de_Morgan_conj cong: if_cong)
    note i = i(1-3) this
    then show ?thesis by (auto simp: r SRemove never_refuses_def simp del: sl_spec.simps)
  qed
next
  case (2 es c)
  then show ?case by (cases c) (auto simp: Let_def)
qed

section \<open>Range queries\<close>

text \<open>The copies handed to the caller, each a block and the text it holds.\<close>

abbreviation copy_blocks :: "(block_id \<times> cstring) list \<Rightarrow> (block_id \<times> size_t) list" where
  "copy_blocks ds \<equiv> map (\<lambda>(d, v). (d, of_nat (length v) + 1)) ds"

abbreviation up_to :: "double \<Rightarrow> entry list \<Rightarrow> entry list" where
  "up_to x es \<equiv> takeWhile (\<lambda>e. dbl_le (fst e) x) es"

lemma free_copies:
  assumes "owns_all h (copy_blocks ds @ bs)"
  defines "h' \<equiv> fold (\<lambda>(d, _) h. cdsa_free_track h (Some d)) ds h"
  shows "owns_all h' bs \<and> others ps h' = others (fst ` set (copy_blocks ds) \<union> ps) h \<and>
    fault h' = fault h \<and> libc_refuses h' = libc_refuses h \<and> (heap_ok h \<longrightarrow> heap_ok h')"
  unfolding h'_def using assms(1)
proof (induction ds arbitrary: h)
  case (Cons d ds)
  obtain p v where d: "d = (p, v)" by (rule prod.exhaust)
  have own: "owns_all h ((p, of_nat (length v) + 1) # copy_blocks ds @ bs)"
    using Cons.prems by (simp only: d list.map prod.case append_Cons)
  note f = free_owns_all [OF own]
  from Cons.IH [OF f(1)] f(2-5) show ?case by (simp add: d)
qed simp

lemma in_range_nodes:
  assumes "chain (lvl nodes 0) cur bs" and "\<forall>p \<in> set bs. 0 < height nodes p"
  shows "count_range nodes x cur n =
    Some (False, n + length (up_to x (map (entry_of nodes) bs)))"
  using assms
proof (induction bs arbitrary: cur n)
  case Nil
  then show ?case by (subst count_range.simps) simp
next
  case (Cons p bs)
  have hp: "0 < height nodes p" using Cons.prems(2) by simp
  then obtain nd where nd: "nodes p = Some nd" using height_nodes by blast
  show ?case
    using Cons.IH [of "lvl nodes 0 p" "Suc n"] Cons.prems
    by (subst count_range.simps) (simp add: forward_at_lvl [OF hp] nd entry_of_node [of nodes, OF nd])
qed

lemma fill_range_ok:
  assumes "chain (lvl nodes 0) cur bs" and "\<forall>p \<in> set bs. 0 < height nodes p" and "heap_ok h"
    and "owns_all h (copy_blocks acc @ (r, m) # ks)"
    and "\<forall>p \<in> set bs. length (snd (entry_of nodes p)) + 9 < size_bound"
    and "length acc + length (up_to x (map (entry_of nodes) bs)) = n"
  shows "\<exists>h' res. fill_range h nodes x n r cur acc = Some (h', res) \<and> heap_ok h' \<and>
    fault h' = fault h \<and> libc_refuses h' = libc_refuses h \<and>
    (case res of
       None \<Rightarrow> \<not> never_refuses h \<and> owns_all h' ks \<and>
         (\<forall>ps. others ps h' = others (fst ` set (copy_blocks acc) \<union> insert r ps) h)
     | Some ds \<Rightarrow> map snd ds = map snd acc @ map snd (up_to x (map (entry_of nodes) bs)) \<and>
         owns_all h' (copy_blocks ds @ (r, m) # ks) \<and>
         (\<forall>ps. others (fst ` set (copy_blocks ds) \<union> ps) h' = others (fst ` set (copy_blocks acc) \<union> ps) h))"
  using assms
proof (induction bs arbitrary: cur h acc)
  case Nil
  then show ?case by (subst fill_range.simps) auto
next
  case (Cons p bs)
  have hp: "0 < height nodes p" using Cons.prems(2) by simp
  then obtain nd where nd: "nodes p = Some nd" using height_nodes by blast
  have cur: "cur = Some p" "chain (lvl nodes 0) (lvl nodes 0 p) bs" using Cons.prems(1) by simp_all
  have e: "entry_of nodes p = (sn_score nd, sn_value nd)" by (rule entry_of_node [of nodes, OF nd])
  have fw: "forward_at nodes p 0 = Some (lvl nodes 0 p)" by (rule forward_at_lvl [OF hp])
  show ?case
  proof (cases "dbl_le (sn_score nd) x")
    case False
    have step: "fill_range h nodes x n r cur acc = Some (h, Some acc)"
      using False by (subst fill_range.simps) (simp add: cur(1) fw nd)
    show ?thesis unfolding step using Cons.prems(3,4) False e by simp
  next
    case True
    let ?m = "of_nat (length (sn_value nd)) + 1 :: size_t"
    have len: "length (sn_value nd) + 9 < size_bound" using Cons.prems(5) e by simp
    then have m: "unat ?m + 8 < size_bound" by (subst unat_size_t_Suc) simp_all
    have room: "\<not> n \<le> length acc" using Cons.prems(6) True e by simp
    have step: "fill_range h nodes x n r cur acc =
       (case cdsa_malloc_track h ?m of
          (h1, None) \<Rightarrow> Some (cdsa_free_track (fold (\<lambda>(d, _) h. cdsa_free_track h (Some d)) acc h1) (Some r), None)
        | (h1, Some d) \<Rightarrow> fill_range h1 nodes x n r (lvl nodes 0 p) (acc @ [(d, sn_value nd)]))"
      using True room
      by (subst fill_range.simps)
        (simp add: cur(1) fw nd safe_strdup_def set_fault_def Let_def split: prod.splits option.splits)
    show ?thesis
    proof (cases "snd (cdsa_malloc_track h ?m)")
      case None
      then obtain h1 where m1: "cdsa_malloc_track h ?m = (h1, None)" by (metis prod.collapse)
      note h1 = malloc_None [OF m1]
      have nr: "\<not> never_refuses h" using m1 never_refuses_malloc by blast
      have ok: "heap_ok h1" using later_heap_ok [OF Cons.prems(3), of "Suc (next_id h)"] by (simp add: h1)
      have own: "owns_all h1 (copy_blocks acc @ (r, m) # ks)" using Cons.prems(4) by (simp add: h1)
      let ?h2 = "fold (\<lambda>(d, _) h. cdsa_free_track h (Some d)) acc h1"
      have f: "owns_all ?h2 ((r, m) # ks)" "fault ?h2 = fault h1" "libc_refuses ?h2 = libc_refuses h1"
          "heap_ok ?h2" "\<And>ps. others ps ?h2 = others (fst ` set (copy_blocks acc) \<union> ps) h1"
        using free_copies [OF own] ok by blast+
      note g = free_owns_all [OF f(1)]
      have "others ps (cdsa_free_track ?h2 (Some r)) = others (fst ` set (copy_blocks acc) \<union> insert r ps) h" for ps
        by (simp only: g(2) f(5)) (simp add: h1)
      moreover have "fault (cdsa_free_track ?h2 (Some r)) = fault h"
          "libc_refuses (cdsa_free_track ?h2 (Some r)) = libc_refuses h"
        using g(3,4) f(2,3) by (simp_all add: h1)
      moreover have "fill_range h nodes x n r cur acc = Some (cdsa_free_track ?h2 (Some r), None)"
        by (simp add: step m1)
      ultimately show ?thesis using g(1) g(5) [OF f(4)] nr
        by (intro exI [of _ "cdsa_free_track ?h2 (Some r)"] exI [of _ None] conjI) simp_all
    next
      case (Some d)
      then obtain h1 where m1: "cdsa_malloc_track h ?m = (h1, Some d)" by (metis prod.collapse)
      note a = malloc_owns_all [OF Cons.prems(3) m1]
      let ?acc = "acc @ [(d, sn_value nd)]"
      have own1: "owns_all h1 ((d, ?m) # copy_blocks acc @ (r, m) # ks)" by (rule a(2) [OF Cons.prems(4)])
      have ms: "mset ((d, ?m) # copy_blocks acc @ (r, m) # ks) = mset (copy_blocks ?acc @ (r, m) # ks)"
        by simp
      have own: "owns_all h1 (copy_blocks ?acc @ (r, m) # ks)"
        by (rule owns_all_permute [OF ms, THEN iffD1, OF own1])
      have q: "\<forall>q \<in> set bs. 0 < height nodes q" "\<forall>q \<in> set bs. length (snd (entry_of nodes q)) + 9 < size_bound"
        using Cons.prems(2,5) by simp_all
      have l: "length ?acc + length (up_to x (map (entry_of nodes) bs)) = n"
        using Cons.prems(6) True e by simp
      have s': "fill_range h nodes x n r cur acc = fill_range h1 nodes x n r (lvl nodes 0 p) ?acc"
        by (simp add: step m1)
      have o: "others (fst ` set (copy_blocks ?acc) \<union> ps) h1 = others (fst ` set (copy_blocks acc) \<union> ps) h" for ps
        using a(3) [of "fst ` set (copy_blocks acc) \<union> ps"] by (simp add: insert_commute)
      have nr: "never_refuses h1 = never_refuses h" using a(4) by (simp add: never_refuses_def)
      from Cons.IH [OF cur(2) q(1) a(1) own q(2) l] obtain h' res where
        ih: "fill_range h1 nodes x n r (lvl nodes 0 p) ?acc = Some (h', res)" "heap_ok h'"
          "fault h' = fault h1" "libc_refuses h' = libc_refuses h1"
          "case res of
             None \<Rightarrow> \<not> never_refuses h1 \<and> owns_all h' ks \<and>
               (\<forall>ps. others ps h' = others (fst ` set (copy_blocks ?acc) \<union> insert r ps) h1)
           | Some ds \<Rightarrow> map snd ds = map snd ?acc @ map snd (up_to x (map (entry_of nodes) bs)) \<and>
               owns_all h' (copy_blocks ds @ (r, m) # ks) \<and>
               (\<forall>ps. others (fst ` set (copy_blocks ds) \<union> ps) h' = others (fst ` set (copy_blocks ?acc) \<union> ps) h1)"
        by (elim exE conjE)
      have "case res of
             None \<Rightarrow> \<not> never_refuses h \<and> owns_all h' ks \<and>
               (\<forall>ps. others ps h' = others (fst ` set (copy_blocks acc) \<union> insert r ps) h)
           | Some ds \<Rightarrow> map snd ds = map snd acc @ map snd (up_to x (map (entry_of nodes) (p # bs))) \<and>
               owns_all h' (copy_blocks ds @ (r, m) # ks) \<and>
               (\<forall>ps. others (fst ` set (copy_blocks ds) \<union> ps) h' = others (fst ` set (copy_blocks acc) \<union> ps) h)"
        using ih(5) unfolding o nr using True e by (cases res) simp_all
      then show ?thesis
        using ih(1-4) a(4) a(6) [OF m] s'
        by (intro exI [of _ h'] exI [of _ res] conjI) simp_all
    qed
  qed
qed

lemma takeWhile_filter:
  assumes "\<forall>x \<in> set (dropWhile P xs). \<not> P x"
  shows "takeWhile P xs = filter P xs"
proof -
  have "filter P (takeWhile P xs @ dropWhile P xs) = takeWhile P xs @ []"
    unfolding filter_append
  proof (rule arg_cong2 [of _ _ _ _ "(@)"])
    show "filter P (takeWhile P xs) = takeWhile P xs" by (rule filter_True) (blast dest: set_takeWhileD)
    show "filter P (dropWhile P xs) = []" unfolding filter_empty_conv by (rule assms)
  qed
  then show ?thesis by simp
qed

text \<open>What the two loops of the range query leave of a sorted list.\<close>

lemma range_of_sorted:
  assumes "sorted_entries es" and "\<not> dbl_nan lo"
  shows "up_to hi (dropWhile (\<lambda>e. dbl_lt (fst e) lo) es) =
    filter (\<lambda>e. dbl_le lo (fst e) \<and> dbl_le (fst e) hi) es"
proof -
  let ?L = "\<lambda>e :: entry. dbl_lt (fst e) lo"
  have nan: "\<not> dbl_nan (fst e)" if "e \<in> set es" for e using assms(1) that by (simp add: sorted_entries_def)
  have "filter (\<lambda>e. dbl_le lo (fst e) \<and> dbl_le (fst e) hi) (takeWhile ?L es) = []"
  proof -
    have "\<not> dbl_le lo (fst e)" if "e \<in> set (takeWhile ?L es)" for e
      using set_takeWhileD [OF that] by (simp add: dbl_le_def dbl_lt_def)
    then show ?thesis unfolding filter_empty_conv by blast
  qed
  moreover have "filter (\<lambda>e. dbl_le lo (fst e) \<and> dbl_le (fst e) hi) (dropWhile ?L es) =
      filter (\<lambda>e. dbl_le (fst e) hi) (dropWhile ?L es)"
  proof (rule filter_cong [OF refl])
    fix e assume e: "e \<in> set (dropWhile ?L es)"
    then have "\<not> dbl_lt (fst e) lo" using sorted_entriesD(2) [OF assms(1), of lo] by blast
    moreover have "\<not> dbl_nan (fst e)" by (rule nan [OF set_dropWhileD [OF e]])
    ultimately show "(dbl_le lo (fst e) \<and> dbl_le (fst e) hi) = dbl_le (fst e) hi"
      using assms(2) by (auto simp: dbl_lt_def dbl_le_def)
  qed
  moreover have "up_to hi (dropWhile ?L es) = filter (\<lambda>e. dbl_le (fst e) hi) (dropWhile ?L es)"
  proof -
    have "sorted_entries (takeWhile ?L es @ dropWhile ?L es)" using assms(1) by simp
    then have "sorted_entries (dropWhile ?L es)"
      unfolding sorted_entries_def sorted_wrt_append set_append by blast
    then show ?thesis by (intro takeWhile_filter sorted_entriesD(3))
  qed
  moreover have "filter (\<lambda>e. dbl_le lo (fst e) \<and> dbl_le (fst e) hi) es =
      filter (\<lambda>e. dbl_le lo (fst e) \<and> dbl_le (fst e) hi) (takeWhile ?L es) @
      filter (\<lambda>e. dbl_le lo (fst e) \<and> dbl_le (fst e) hi) (dropWhile ?L es)"
    unfolding filter_append [symmetric] takeWhile_dropWhile_id ..
  ultimately show ?thesis by simp
qed

text \<open>The representation only depends on the blocks of the list.\<close>

lemma sl_repr_cong:
  assumes "sl_repr h s ps" and "heap_ok h'"
    and "owns_all h' ((sl_self s, sizeof_skiplist) # sl_blocks (sl_nodes s) (sl_header s # ps))"
  shows "sl_repr h' s ps"
  using assms unfolding sl_repr_def by blast

section \<open>The iterator\<close>

text \<open>As for the linked list, the loop threads the heap; it asks for both the score and the value.\<close>

definition sl_iter_next :: "heap \<times> skiplist \<Rightarrow> heap \<times> skiplist_iterator \<Rightarrow>
    (heap \<times> skiplist_iterator) \<times> cdsa_status \<times> entry option" where
  "sl_iter_next c hi =
     (case cdsa_next_skiplist (fst hi) (snd c) (Some (snd hi)) True True of
        (h', r, st, x, v) \<Rightarrow> ((h', the r), st,
          (case (x, v) of (Some x', Some v') \<Rightarrow> Some (x', v') | _ \<Rightarrow> None)))"

definition sl_iter_has_next :: "heap \<times> skiplist \<Rightarrow> heap \<times> skiplist_iterator \<Rightarrow>
    (heap \<times> skiplist_iterator) \<times> bool" where
  "sl_iter_has_next c hi = (hi, cdsa_has_next_skiplist (snd c) (Some (snd hi)))"

definition sl_iter_rest :: "heap \<times> skiplist \<Rightarrow> heap \<times> skiplist_iterator \<Rightarrow> entry list" where
  "sl_iter_rest c hi = map (entry_of (sl_nodes (snd c)))
     (walk (lvl (sl_nodes (snd c)) 0) (card (dom (sl_nodes (snd c)))) (si_current (snd hi)))"

definition sl_iter_ok :: "heap \<times> skiplist \<Rightarrow> heap \<times> skiplist_iterator \<Rightarrow> bool" where
  "sl_iter_ok c hi \<longleftrightarrow> fst hi = fst c \<and> (\<exists>as bs. sl_repr (fst c) (snd c) (as @ bs) \<and>
     chain (lvl (sl_nodes (snd c)) 0) (si_current (snd hi)) bs)"

lemma sl_iter_rest_chain:
  assumes "sl_repr h s (as @ bs)" and "chain (lvl (sl_nodes s) 0) (si_current (snd hi)) bs"
  shows "sl_iter_rest (h, s) hi = map (entry_of (sl_nodes s)) bs"
proof -
  note rd = sl_reprD [OF assms(1)]
  have "card (dom (sl_nodes s)) = length (sl_header s # as @ bs)"
    unfolding rd(2) by (rule distinct_card [OF rd(3)])
  then have "length bs \<le> card (dom (sl_nodes s))" by simp
  then show ?thesis using walk_chain [OF assms(2)] by (simp add: sl_iter_rest_def)
qed

lemma sl_iter_okE:
  assumes "sl_iter_ok c hi"
  obtains as bs where "fst hi = fst c" and "sl_repr (fst c) (snd c) (as @ bs)"
    and "chain (lvl (sl_nodes (snd c)) 0) (si_current (snd hi)) bs"
    and "sl_iter_rest c hi = map (entry_of (sl_nodes (snd c))) bs"
  using assms sl_iter_rest_chain unfolding sl_iter_ok_def by (metis prod.collapse)

interpretation sl_iter: fail_fast_iterator "\<lambda>c. sl_version (snd c)" "\<lambda>hi. si_snapshot (snd hi)"
  sl_iter_has_next sl_iter_next sl_iter_ok sl_iter_rest
proof (unfold_locales, goal_cases)
  case (1 c hi)
  then show ?case by (simp add: sl_iter_has_next_def cdsa_has_next_skiplist_def)
next
  case (2 c hi)
  then show ?case
    by (cases "si_current (snd hi)") (simp_all add: sl_iter_next_def cdsa_next_skiplist_def)
next
  case (3 c hi)
  from 3(1) obtain bs where "chain (lvl (sl_nodes (snd c)) 0) (si_current (snd hi)) bs"
      "sl_iter_rest c hi = map (entry_of (sl_nodes (snd c))) bs"
    by (rule sl_iter_okE)
  then show ?case
    using 3 by (cases bs) (auto simp: sl_iter_has_next_def cdsa_has_next_skiplist_def)
next
  case (4 c hi x xs)
  from 4(1) obtain as bs where hi: "fst hi = fst c" "sl_repr (fst c) (snd c) (as @ bs)"
      "chain (lvl (sl_nodes (snd c)) 0) (si_current (snd hi)) bs"
      "sl_iter_rest c hi = map (entry_of (sl_nodes (snd c))) bs"
    by (rule sl_iter_okE)
  with 4(3) obtain p bs' where b: "bs = p # bs'" "x = entry_of (sl_nodes (snd c)) p"
      "xs = map (entry_of (sl_nodes (snd c))) bs'"
    by (auto simp: map_eq_Cons_conv)
  from hi(3) b(1) have cur: "si_current (snd hi) = Some p"
      "chain (lvl (sl_nodes (snd c)) 0) (lvl (sl_nodes (snd c)) 0 p) bs'" by auto
  have hp: "0 < height (sl_nodes (snd c)) p" using level0_chain(2) [OF hi(2)] b(1) by simp
  then obtain nd where nd: "sl_nodes (snd c) p = Some nd" using height_nodes by blast
  let ?hi = "(fst hi, snd hi\<lparr>si_current := lvl (sl_nodes (snd c)) 0 p\<rparr>)"
  have n: "sl_iter_next c hi = (?hi, CDSA_OK, Some x)"
    using 4(2) cur(1) nd b(2)
    by (simp add: sl_iter_next_def cdsa_next_skiplist_def forward_at_lvl [OF hp] entry_of_node)
  have r: "sl_repr (fst c) (snd c) ((as @ [p]) @ bs')" using hi(2) b(1) by simp
  have s: "chain (lvl (sl_nodes (snd c)) 0) (si_current (snd ?hi)) bs'" using cur(2) by simp
  have "sl_iter_ok c ?hi" unfolding sl_iter_ok_def using hi(1) r s by (metis fst_conv)
  moreover have "sl_iter_rest c ?hi = xs"
    using sl_iter_rest_chain [OF r s] b(3) by simp
  ultimately show ?case using n by (intro exI [of _ ?hi]) simp
next
  case (5 c hi)
  from 5(1) obtain bs where "chain (lvl (sl_nodes (snd c)) 0) (si_current (snd hi)) bs"
      "sl_iter_rest c hi = map (entry_of (sl_nodes (snd c))) bs"
    by (rule sl_iter_okE)
  then show ?case using 5(3) by (simp add: sl_iter_next_def cdsa_next_skiplist_def)
qed

lemma example_entries:
  "accept sl_spec [] [SInsert 0x4000000000000000 [98], SInsert 0x3FF0000000000000 [97],
      SInsert 0x4008000000000000 [99]] ss = Some es \<Longrightarrow> CDSA_ERR_OOM \<notin> set ss \<Longrightarrow>
    es = [(0x3FF0000000000000, [97]), (0x4000000000000000, [98]), (0x4008000000000000, [99])]"
  by (auto simp: accept_call entry_lt_def dbl_lt_def dbl_eq_def dbl_nan_def dbl_key_def Let_def)

section \<open>Properties\<close>

text \<open>
  C18: a skip list is a sorted list of scores and values, whatever \<open>rand\<close> draws and whatever libc
  refuses: from its creation on, every run of insertions and removals returns, answers each call as
  the sorted list would or with \<open>CDSA_ERR_OOM\<close> and no change, and touches no link outside a node;
  the entries stay sorted, the level stays between 1 and 16, and releasing the list gives back
  exactly its blocks.  Scores are not NaN.
\<close>

theorem skiplist_is_sorted_list:
  assumes "heap_ok h" and "\<forall>x v. SInsert x v \<in> set cs \<longrightarrow> \<not> dbl_nan x \<and> length v + 9 < 2 ^ 64"
    and "cdsa_create_skiplist h = (h0, Some s0)"
  shows "\<exists>h1 n1 s1 ss es h2. run_partial (sl_step rand) h0 (0, s0) cs = Some (h1, (n1, s1), ss) \<and>
    accept sl_spec [] cs ss = Some es \<and> (never_refuses h \<longrightarrow> CDSA_ERR_OOM \<notin> set ss) \<and>
    fault h1 = fault h \<and> sorted_entries es \<and>
    unat (cdsa_size_skiplist (Some s1)) = length es mod 2 ^ 64 \<and>
    1 \<le> level_skiplist (Some s1) \<and> level_skiplist (Some s1) \<le> SKIPLIST_MAX_LEVEL \<and>
    cdsa_free_skiplist h1 (Some s1) = Some h2 \<and> fault h2 = fault h \<and> live h2 = live h"
proof -
  note c = create_skiplist_ok [OF assms(3,1)]
  have start: "sl_rep h0 s0 []" using c(1) by (auto simp: sl_rep_def)
  have calls: "\<forall>c \<in> set cs. sl_call_ok (sl_frame h0 s0) c"
  proof
    fix c assume "c \<in> set cs"
    then show "sl_call_ok (sl_frame h0 s0) c"
      using assms(2) by (induction c rule: sl_call.induct) auto
  qed
  from sls.run_accepted [of h0 "(0, s0)" "[]" cs rand, unfolded snd_conv, OF start calls]
  obtain h1 r1 ss es where r: "run_partial (sl_step rand) h0 (0, s0) cs = Some (h1, r1, ss)"
      "accept sl_spec [] cs ss = Some es" "sl_rep h1 (snd r1) es"
      "sl_frame h1 (snd r1) = sl_frame h0 s0"
      "never_refuses h0 \<longrightarrow> CDSA_ERR_OOM \<notin> set ss"
    by (elim exE conjE)
  obtain n1 s1 where r1: "r1 = (n1, s1)" by (rule prod.exhaust)
  from r(3) r1 obtain ps where ps: "sl_repr h1 s1 ps" "es = map (entry_of (sl_nodes s1)) ps"
    by (auto simp: sl_rep_def)
  note rd = sl_reprD [OF ps(1)]
  have f: "sl_frame h1 s1 = (fault h, live h)" using r(4) r1 c(2) by simp
  then have "fault h1 = fault h" by (simp add: sl_frame_def)
  moreover from free_skiplist_ok [OF ps(1)] f obtain h2 where
    "cdsa_free_skiplist h1 (Some s1) = Some h2" "live h2 = live h" "fault h2 = fault h1" by auto
  moreover have "unat (cdsa_size_skiplist (Some s1)) = length es mod 2 ^ 64"
    using rd(10) ps(2) by (simp add: cdsa_size_skiplist_def unat_of_nat)
  moreover have "sorted_entries es" using rd(11) ps(2) by simp
  moreover have "1 \<le> level_skiplist (Some s1)" "level_skiplist (Some s1) \<le> SKIPLIST_MAX_LEVEL"
    using rd(7,8) by (simp_all add: level_skiplist_def)
  moreover have "never_refuses h0 = never_refuses h" using c(3) by (simp add: never_refuses_def)
  ultimately show ?thesis using r(1,2,5) r1 by auto
qed

theorem skiplist_is_sorted_list_witness:
  "\<exists>h0 s0 h1 n1 s1 es. cdsa_create_skiplist good_heap = (h0, Some s0) \<and>
     run_partial (sl_step (\<lambda>n. n)) h0 (0, s0) [SInsert 0x4000000000000000 [98],
       SInsert 0x3FF0000000000000 [97], SInsert 0x4008000000000000 [99]] =
       Some (h1, (n1, s1), [CDSA_OK, CDSA_OK, CDSA_OK]) \<and>
     unat (cdsa_size_skiplist (Some s1)) = 3"
proof -
  let ?cs = "[SInsert 0x4000000000000000 [98], SInsert 0x3FF0000000000000 [97],
    SInsert 0x4008000000000000 [99]]"
  obtain h0 s0 where c: "cdsa_create_skiplist good_heap = (h0, Some s0)"
    using create_skiplist_succeeds [of good_heap] by auto
  have calls: "\<forall>x v. SInsert x v \<in> set ?cs \<longrightarrow> \<not> dbl_nan x \<and> length v + 9 < 2 ^ 64"
    by (simp add: dbl_nan_def)
  obtain h1 n1 s1 ss es where r: "run_partial (sl_step (\<lambda>n. n)) h0 (0, s0) ?cs = Some (h1, (n1, s1), ss)"
      "accept sl_spec [] ?cs ss = Some es" "CDSA_ERR_OOM \<notin> set ss"
      "unat (cdsa_size_skiplist (Some s1)) = length es mod 2 ^ 64"
    using skiplist_is_sorted_list [OF _ calls c, of "\<lambda>n. n"] by auto
  have "ss = [CDSA_OK, CDSA_OK, CDSA_OK]" using r(2,3) by (auto simp: accept_call)
  moreover have "length es = 3" using example_entries [OF r(2,3)] by simp
  ultimately show ?thesis using c r by auto
qed

text \<open>What the search and the count leave a range query to do: the array, then the copies.\<close>

lemma range_scan:
  assumes "sl_repr h s ps" and "\<not> dbl_nan lo"
    and "vs = map snd (filter (\<lambda>e. dbl_le lo (fst e) \<and> dbl_le (fst e) hi) (map (entry_of (sl_nodes s)) ps))"
  obtains cur bs where "chain (lvl (sl_nodes s) 0) cur bs" and "set bs \<subseteq> set ps"
    and "map snd (up_to hi (map (entry_of (sl_nodes s)) bs)) = vs"
    and "get_range_skiplist h (Some s) lo hi True =
      (if vs = [] then Some (h, Some 0, None)
       else (case cdsa_malloc_track h (of_nat (length vs) * 8) of
           (h1, None) \<Rightarrow> Some (h1, Some 0, None)
         | (h1, Some r) \<Rightarrow>
             (case fill_range h1 (sl_nodes s) hi (length vs) r cur [] of
                None \<Rightarrow> None
              | Some (h2, None) \<Rightarrow> Some (h2, Some 0, None)
              | Some (h2, Some ds) \<Rightarrow> Some (h2, Some (length vs), Some (r, ds)))))"
proof -
  note rd = sl_reprD [OF assms(1)] and l0 = level0_chain [OF assms(1)]
  let ?n = "sl_nodes s" and ?h = "sl_header s" and ?P = "\<lambda>e :: entry. dbl_lt (fst e) lo"
  have test: "dbl_lt (sn_score nd) lo = ?P (entry_of ?n p)" if "?n p = Some nd" for p nd
    using that by (simp add: entry_of_node)
  obtain as bs where bs: "ps = as @ bs" "dropWhile ?P (map (entry_of ?n) ps) = map (entry_of ?n) bs"
    and sd: "search_down ?n (\<lambda>nd. dbl_lt (sn_score nd) lo) (sl_level s) ?h =
      Some (False, last (?h # as), crumbs ?n (?h # as) (sl_level s))"
    and fw: "forward_at ?n (last (?h # as)) 0 = Some (case bs of [] \<Rightarrow> None | b # _ \<Rightarrow> Some b)"
    and ch: "chain (lvl ?n 0) (case bs of [] \<Rightarrow> None | b # _ \<Rightarrow> Some b) bs"
    by (rule search_repr [OF assms(1) test sorted_entriesD(2) [OF rd(11)]])
  let ?cur = "case bs of [] \<Rightarrow> None | b # _ \<Rightarrow> Some b" and ?xs = "up_to hi (map (entry_of ?n) bs)"
  have hb: "\<forall>p \<in> set bs. 0 < height ?n p" using l0(2) bs(1) by simp
  have xs: "map snd ?xs = vs" using range_of_sorted [OF rd(11) assms(2), of hi] bs(2) assms(3) by simp
  have cnt: "count_range ?n hi ?cur 0 = Some (False, length vs)"
    using in_range_nodes [OF ch hb, of hi 0] by (simp add: xs [symmetric])
  obtain h1 res where "cdsa_malloc_track h (of_nat (length vs) * 8) = (h1, res)" by fastforce
  then have "get_range_skiplist h (Some s) lo hi True =
      (if vs = [] then Some (h, Some 0, None)
       else (case cdsa_malloc_track h (of_nat (length vs) * 8) of
           (h1, None) \<Rightarrow> Some (h1, Some 0, None)
         | (h1, Some r) \<Rightarrow>
             (case fill_range h1 ?n hi (length vs) r ?cur [] of
                None \<Rightarrow> None
              | Some (h2, None) \<Rightarrow> Some (h2, Some 0, None)
              | Some (h2, Some ds) \<Rightarrow> Some (h2, Some (length vs), Some (r, ds)))))"
    using sd fw cnt by (cases res) (simp_all add: get_range_skiplist_def set_fault_def)
  then show thesis using that [OF ch _ xs] bs(1) by simp
qed

text \<open>The copies either all succeed or are all given back.\<close>

lemma range_copies:
  assumes "sl_repr h s ps" and "chain (lvl (sl_nodes s) 0) cur bs" and "set bs \<subseteq> set ps"
    and "map snd (up_to hi (map (entry_of (sl_nodes s)) bs)) = vs"
    and "\<forall>p \<in> set ps. length (snd (entry_of (sl_nodes s) p)) + 9 < size_bound"
    and "cdsa_malloc_track h m = (h1, Some r)" and "unat m + 8 < size_bound"
  obtains h2 res where "fill_range h1 (sl_nodes s) hi (length vs) r cur [] = Some (h2, res)"
    and "sl_repr h2 s ps" and "fault h2 = fault h"
    and "res = None \<Longrightarrow> live h2 = live h \<and> \<not> never_refuses h"
    and "\<And>ds. res = Some ds \<Longrightarrow> map snd ds = vs \<and> owns_all h2 (copy_blocks ds @ [(r, m)]) \<and>
      others (fst ` set (copy_blocks ds) \<union> {r}) h2 = live h"
proof -
  note rd = sl_reprD [OF assms(1)]
  let ?n = "sl_nodes s" and ?xs = "up_to hi (map (entry_of (sl_nodes s)) bs)"
  let ?S = "(sl_self s, sizeof_skiplist) # sl_blocks ?n (sl_header s # ps)"
  note a = malloc_owns_all [OF rd(1) assms(6)]
  have own: "owns_all h1 (copy_blocks [] @ (r, m) # ?S)"
    using a(2) [OF rd(9)] by (simp only: list.map append_Nil)
  have hb: "\<forall>p \<in> set bs. 0 < height ?n p" using level0_chain(2) [OF assms(1)] assms(3) by auto
  have hv: "\<forall>p \<in> set bs. length (snd (entry_of ?n p)) + 9 < size_bound" using assms(3,5) by blast
  have ln: "length [] + length ?xs = length vs"
    using arg_cong [OF assms(4), of length] by (simp only: length_map list.size add_0)
  have nr: "never_refuses h1 = never_refuses h" using a(4) by (simp add: never_refuses_def)
  from fill_range_ok [OF assms(2) hb a(1) own hv ln] obtain h2 res where
    f: "fill_range h1 ?n hi (length vs) r cur [] = Some (h2, res)" "heap_ok h2" "fault h2 = fault h1"
      and o: "case res of
         None \<Rightarrow> \<not> never_refuses h1 \<and> owns_all h2 ?S \<and>
           (\<forall>ps. others ps h2 = others (fst ` set (copy_blocks []) \<union> insert r ps) h1)
       | Some ds \<Rightarrow> map snd ds = map snd ([] :: (block_id \<times> cstring) list) @ map snd ?xs \<and>
           owns_all h2 (copy_blocks ds @ (r, m) # ?S) \<and>
           (\<forall>ps. others (fst ` set (copy_blocks ds) \<union> ps) h2 = others (fst ` set (copy_blocks []) \<union> ps) h1)"
    by (elim exE conjE)
  have fl: "fault h2 = fault h" using f(3) a(6) [OF assms(7)] by simp
  show thesis
  proof (cases res)
    case None
    have "sl_repr h2 s ps" using o None by (intro sl_repr_cong [OF assms(1) f(2)]) simp_all
    moreover have "others {} h2 = others {} h" using o None a(3) [of "{}"] by simp
    ultimately show thesis using that [OF f(1) _ fl] o None nr by simp
  next
    case (Some ds)
    note o' = o [unfolded Some option.case]
    have od: "owns_all h2 (copy_blocks ds @ (r, m) # ?S)" "map snd ds = vs" using o' assms(4) by simp_all
    have "others (fst ` set (copy_blocks ds) \<union> {r}) h2 = others (fst ` set (copy_blocks []) \<union> {r}) h1"
      using o' by blast
    then have ot: "others (fst ` set (copy_blocks ds) \<union> {r}) h2 = live h"
      using a(3) [of "{}"] by (simp only: list.map list.set image_empty Un_empty_left) simp
    have own2: "owns_all h2 (copy_blocks ds @ [(r, m)])" "owns_all h2 ?S"
      using od(1) unfolding owns_all_append owns_all_simps by auto
    show thesis using that [OF f(1) sl_repr_cong [OF assms(1) f(2) own2(2)] fl] od(2) own2(1) ot Some by simp
  qed
qed

text \<open>
  C19: a range query returns copies of exactly the values whose scores lie between the bounds, in
  the order of the list, each in a block of its own that the caller now owns; an empty range
  allocates nothing; when libc refuses the array or any copy, everything is given back and the
  count is 0.  In every case the list is unchanged and no link outside a node is read.  (The count
  is an \<open>int\<close>, so the list has fewer than \<open>2 ^ 31\<close> nodes.)
\<close>

theorem skiplist_range_is_filter:
  assumes "sl_rep h s es" and "\<not> dbl_nan lo" and "length es < 2 ^ 31"
    and "\<forall>e \<in> set es. length (snd e) + 9 < 2 ^ 64"
    and "vs = map snd (filter (\<lambda>e. dbl_le lo (fst e) \<and> dbl_le (fst e) hi) es)"
  shows "\<exists>h' n r. get_range_skiplist h (Some s) lo hi True = Some (h', n, r) \<and>
    sl_rep h' s es \<and> fault h' = fault h \<and>
    (if vs = [] then n = Some 0 \<and> r = None \<and> h' = h
     else (\<exists>p ds. n = Some (length vs) \<and> r = Some (p, ds) \<and> map snd ds = vs \<and>
             owns_all h' (copy_blocks ds @ [(p, of_nat (length vs) * 8)]) \<and>
             others (fst ` set (copy_blocks ds) \<union> {p}) h' = live h) \<or>
          n = Some 0 \<and> r = None \<and> live h' = live h \<and> \<not> never_refuses h)"
proof -
  from assms(1) obtain ps where ps: "sl_repr h s ps" "es = map (entry_of (sl_nodes s)) ps"
    by (auto simp: sl_rep_def)
  note rd = sl_reprD [OF ps(1)]
  let ?m = "of_nat (length vs) * 8 :: size_t"
  obtain cur bs where scan: "chain (lvl (sl_nodes s) 0) cur bs" "set bs \<subseteq> set ps"
    "map snd (up_to hi (map (entry_of (sl_nodes s)) bs)) = vs"
    "get_range_skiplist h (Some s) lo hi True =
      (if vs = [] then Some (h, Some 0, None)
       else (case cdsa_malloc_track h ?m of
           (h1, None) \<Rightarrow> Some (h1, Some 0, None)
         | (h1, Some r) \<Rightarrow>
             (case fill_range h1 (sl_nodes s) hi (length vs) r cur [] of
                None \<Rightarrow> None
              | Some (h2, None) \<Rightarrow> Some (h2, Some 0, None)
              | Some (h2, Some ds) \<Rightarrow> Some (h2, Some (length vs), Some (r, ds)))))"
    by (rule range_scan [OF ps(1) assms(2) assms(5) [unfolded ps(2)]])
  have lv: "length vs < 2 ^ 31"
    unfolding assms(5) length_map by (rule order_le_less_trans [OF length_filter_le assms(3)])
  have "unat ?m = length vs * 8" using lv by (subst unat_size_t_mult) simp_all
  then have m: "unat ?m + 8 < size_bound" using lv by simp
  have hv: "\<forall>p \<in> set ps. length (snd (entry_of (sl_nodes s) p)) + 9 < size_bound" using assms(4) ps(2) by simp
  show ?thesis
  proof (cases "snd (cdsa_malloc_track h ?m)")
    case None
    then obtain h1 where m1: "cdsa_malloc_track h ?m = (h1, None)" by (metis prod.collapse)
    note h1 = malloc_None [OF m1]
    have "\<not> never_refuses h" using m1 never_refuses_malloc by blast
    moreover have "sl_repr h1 s ps"
      using later_heap_ok [OF rd(1), of "Suc (next_id h)"] rd(9)
      by (intro sl_repr_cong [OF ps(1)]) (simp_all only: h1 owns_all_later)
    ultimately show ?thesis using scan(4) m1 assms(1) ps(2) by (auto simp: sl_rep_def h1)
  next
    case (Some r)
    then obtain h1 where m1: "cdsa_malloc_track h ?m = (h1, Some r)" by (metis prod.collapse)
    obtain h2 res where f: "fill_range h1 (sl_nodes s) hi (length vs) r cur [] = Some (h2, res)"
      "sl_repr h2 s ps" "fault h2 = fault h" "res = None \<Longrightarrow> live h2 = live h \<and> \<not> never_refuses h"
      "\<And>ds. res = Some ds \<Longrightarrow> map snd ds = vs \<and> owns_all h2 (copy_blocks ds @ [(r, ?m)]) \<and>
        others (fst ` set (copy_blocks ds) \<union> {r}) h2 = live h"
      by (rule range_copies [OF ps(1) scan(1-3) hv m1 m]) blast
    have rep: "sl_rep h2 s es" using f(2) ps(2) by (auto simp: sl_rep_def)
    show ?thesis using scan(4) m1 f(1,3-) assms(1) rep by (cases res) simp_all
  qed
qed

lemma example_skiplist:
  "\<exists>h s. never_refuses h \<and>
     sl_rep h s [(0x3FF0000000000000, [97]), (0x4000000000000000, [98]), (0x4008000000000000, [99])]"
proof -
  let ?cs = "[SInsert 0x4000000000000000 [98], SInsert 0x3FF0000000000000 [97],
    SInsert 0x4008000000000000 [99]]"
  obtain h0 s0 where c: "cdsa_create_skiplist good_heap = (h0, Some s0)"
    using create_skiplist_succeeds [of good_heap] by auto
  note cr = create_skiplist_ok [OF c]
  have start: "sl_rep h0 s0 []" using cr(1) by (auto simp: sl_rep_def)
  have calls: "\<forall>c \<in> set ?cs. sl_call_ok (sl_frame h0 s0) c" by (simp add: dbl_nan_def)
  have g: "never_refuses h0" using cr(3) by (simp add: never_refuses_def)
  from sls.run_accepted [of h0 "(0, s0)" "[]" ?cs "\<lambda>n. n", unfolded snd_conv, OF start calls]
  obtain h1 r1 ss es where "run_partial (sl_step (\<lambda>n. n)) h0 (0, s0) ?cs = Some (h1, r1, ss)"
      and r: "accept sl_spec [] ?cs ss = Some es" "sl_rep h1 (snd r1) es"
      and "sl_frame h1 (snd r1) = sl_frame h0 s0" "never_refuses h0 \<longrightarrow> CDSA_ERR_OOM \<notin> set ss"
    by (elim exE conjE)
  then have oom: "CDSA_ERR_OOM \<notin> set ss" using g by blast
  let ?h = "h1\<lparr>libc_refuses := \<lambda>_ _. False\<rparr>"
  from r(2) obtain ps where ps: "sl_repr h1 (snd r1) ps" "es = map (entry_of (sl_nodes (snd r1))) ps"
    by (auto simp: sl_rep_def)
  have "heap_ok ?h" using sl_reprD(1) [OF ps(1)] by (simp add: heap_ok_def)
  moreover have "live ?h = live h1" by simp
  ultimately have "sl_repr ?h (snd r1) ps"
    using sl_repr_cong [OF ps(1)] sl_reprD(9) [OF ps(1)] owns_all_cong by blast
  then have "sl_rep ?h (snd r1) es" using ps(2) by (auto simp: sl_rep_def)
  moreover have "never_refuses ?h" by (simp add: never_refuses_def)
  ultimately show ?thesis using example_entries [OF r(1) oom] by blast
qed

theorem skiplist_range_is_filter_witness:
  "\<exists>h s h' p ds. get_range_skiplist h (Some s) 0x3FF8000000000000 0x4008000000000000 True =
     Some (h', Some 2, Some (p, ds)) \<and> map snd ds = [[98], [99]]"
proof -
  let ?es = "[(0x3FF0000000000000, [97]), (0x4000000000000000, [98]), (0x4008000000000000, [99])] :: entry list"
  obtain h s where e: "never_refuses h" "sl_rep h s ?es" using example_skiplist by blast
  have lo: "\<not> dbl_nan 0x3FF8000000000000" by (simp add: dbl_nan_def)
  have len: "length ?es < 2 ^ 31" and vals: "\<forall>e \<in> set ?es. length (snd e) + 9 < 2 ^ 64" by simp_all
  have vs: "[[98], [99]] = map snd (filter (\<lambda>e. dbl_le 0x3FF8000000000000 (fst e) \<and>
      dbl_le (fst e) 0x4008000000000000) ?es)"
    by (simp add: dbl_le_def dbl_nan_def dbl_key_def)
  have n: "length [[98], [99 :: byte]] = 2" by simp
  from skiplist_range_is_filter [OF e(2) lo len vals vs] obtain h' k r where
    g: "get_range_skiplist h (Some s) 0x3FF8000000000000 0x4008000000000000 True = Some (h', k, r)"
      and q: "if [[98], [99 :: byte]] = [] then k = Some 0 \<and> r = None \<and> h' = h
        else (\<exists>p ds. k = Some (length [[98], [99 :: byte]]) \<and> r = Some (p, ds) \<and> map snd ds = [[98], [99]] \<and>
             owns_all h' (copy_blocks ds @ [(p, of_nat (length [[98], [99 :: byte]]) * 8)]) \<and>
             others (fst ` set (copy_blocks ds) \<union> {p}) h' = live h) \<or>
          k = Some 0 \<and> r = None \<and> live h' = live h \<and> \<not> never_refuses h"
    by (elim exE conjE)
  have ne: "\<not> [[98], [99 :: byte]] = []" by simp
  note q' = q [unfolded if_not_P [OF ne] n]
  have "k = Some 2 \<and> (\<exists>p ds. r = Some (p, ds) \<and> map snd ds = [[98], [99]])"
    using q'
  proof (elim disjE exE conjE)
    fix p ds assume "k = Some 2" "r = Some (p, ds)" "map snd ds = [[98], [99]]"
    then show ?thesis by (intro conjI exI)
  next
    assume "\<not> never_refuses h"
    with e(1) show ?thesis by (rule notE [rotated])
  qed
  then show ?thesis using g by (elim conjE exE) (intro exI conjI, simp only:)
qed

text \<open>
  C29: the loop over an iterator ends: every call in it succeeds and they yield the entries in order,
  each once, without reading a link outside a node, after which a further call reports
  \<open>CDSA_ERR_NOT_FOUND\<close>; once an insertion or a removal has changed the list it yields nothing more, and a
  direct call fails without touching the node the iterator is at.
\<close>

theorem skiplist_iterator_yields_entries:
  assumes "sl_rep h s es" and "cdsa_create_skiplist_iterator h (Some s) = (h', Some i)"
  shows "(\<exists>i'. drain sl_iter_has_next sl_iter_next (h', s) (h', i) = Some ((h', i'), yields es) \<and>
      snd (sl_iter_next (h', s) (h', i')) = (CDSA_ERR_NOT_FOUND, None)) \<and>
    (\<forall>h2 s'. sl_version s' = sl_version s + 1 \<longrightarrow>
      \<not> cdsa_has_next_skiplist s' (Some i) \<and>
      cdsa_next_skiplist h2 s' (Some i) True True = (h2, Some i,
        if es = [] then CDSA_ERR_NOT_FOUND else CDSA_ERR_ITER_INVALIDATED, None, None)) \<and>
    (\<forall>rand n x v n2 h2 s2. insert_skiplist rand n h' (Some s) x (Some v) = Some (n2, h2, Some s2, CDSA_OK) \<longrightarrow>
      sl_version s2 = sl_version s + 1) \<and>
    (\<forall>x v h2 s2. remove_skiplist h' (Some s) x (Some v) = Some (h2, Some s2, CDSA_OK) \<longrightarrow>
      sl_version s2 = sl_version s + 1)"
proof -
  obtain ps where ps: "sl_repr h s ps" "es = map (entry_of (sl_nodes s)) ps"
    using assms(1) by (auto simp: sl_rep_def)
  note rd = sl_reprD [OF ps(1)] and l0 = level0_chain [OF ps(1)]
  have hh: "0 < height (sl_nodes s) (sl_header s)" using l0(2) by simp
  from assms(2) obtain p where m: "cdsa_malloc_track h sizeof_skiplist_iterator = (h', Some p)"
    and i: "si_current i = lvl (sl_nodes s) 0 (sl_header s)" "si_snapshot i = sl_version s"
    by (auto simp: cdsa_create_skiplist_iterator_def forward_at_lvl [OF hh] split: prod.splits option.splits)
  note a = malloc_owns_all [OF rd(1) m]
  have "owns_all h' ((sl_self s, sizeof_skiplist) # sl_blocks (sl_nodes s) (sl_header s # ps))"
    using a(2) [OF rd(9)] unfolding owns_all_simps(2) [of _ p] by blast
  then have r: "sl_repr (fst (h', s)) (snd (h', s)) ([] @ ps)"
    using sl_repr_cong [OF ps(1) a(1)] by simp
  have ch: "chain (lvl (sl_nodes (snd (h', s))) 0) (si_current (snd (h', i))) ps"
    using l0(1) i(1) by simp
  have ok: "sl_iter_ok (h', s) (h', i)" unfolding sl_iter_ok_def using r ch by (metis fst_conv)
  have v: "sl_version (snd (h', s)) = si_snapshot (snd (h', i))" using i(2) by simp
  have rest: "sl_iter_rest (h', s) (h', i) = es"
    using sl_iter_rest_chain [of h' s "[]" ps] r ch ps(2) by simp
  from sl_iter.drain_yields [OF ok v] obtain hi where
    d: "drain sl_iter_has_next sl_iter_next (h', s) (h', i) = Some (hi, yields es)"
      "sl_iter_ok (h', s) hi" "snd (sl_iter_next (h', s) hi) = (CDSA_ERR_NOT_FOUND, None)"
    unfolding rest by blast
  have "hi = (h', snd hi)" using d(2) by (simp add: sl_iter_ok_def prod_eq_iff)
  then have "\<exists>i'. drain sl_iter_has_next sl_iter_next (h', s) (h', i) = Some ((h', i'), yields es) \<and>
      snd (sl_iter_next (h', s) (h', i')) = (CDSA_ERR_NOT_FOUND, None)"
    using d(1,3) by metis
  moreover have "si_current i = None \<longleftrightarrow> es = []" using ch ps(2) by (cases ps) auto
  then have "\<not> cdsa_has_next_skiplist s' (Some i) \<and> cdsa_next_skiplist h2 s' (Some i) True True = (h2, Some i,
      if es = [] then CDSA_ERR_NOT_FOUND else CDSA_ERR_ITER_INVALIDATED, None, None)"
    if "sl_version s' = sl_version s + 1" for h2 s'
    using that i(2)
    by (cases "si_current i") (simp_all add: cdsa_next_skiplist_def cdsa_has_next_skiplist_def)
  moreover have "sl_version s2 = sl_version s + 1"
    if "insert_skiplist rand n h' (Some s) x (Some v) = Some (n2, h2, Some s2, CDSA_OK)" for rand n x v n2 h2 s2
    using that by (auto simp: insert_skiplist_def Let_def split: prod.splits option.splits if_splits)
  moreover have "sl_version s2 = sl_version s + 1"
    if "remove_skiplist h' (Some s) x (Some v) = Some (h2, Some s2, CDSA_OK)" for x v h2 s2
    using that by (auto simp: remove_skiplist_def Let_def split: prod.splits option.splits if_splits)
  ultimately show ?thesis by blast
qed

theorem skiplist_iterator_yields_entries_witness:
  "\<exists>h s h' i i'. cdsa_create_skiplist_iterator h (Some s) = (h', Some i) \<and>
     drain sl_iter_has_next sl_iter_next (h', s) (h', i) = Some ((h', i'), yields
       [(0x3FF0000000000000, [97]), (0x4000000000000000, [98]), (0x4008000000000000, [99])])"
proof -
  let ?es = "[(0x3FF0000000000000, [97]), (0x4000000000000000, [98]), (0x4008000000000000, [99])] :: entry list"
  obtain h s where e: "never_refuses h" "sl_rep h s ?es" using example_skiplist by blast
  from e(2) obtain ps where ps: "sl_repr h s ps" by (auto simp: sl_rep_def)
  have hh: "0 < height (sl_nodes s) (sl_header s)" using level0_chain(2) [OF ps] by simp
  obtain h' i where it: "cdsa_create_skiplist_iterator h (Some s) = (h', Some i)"
    using e(1) by (simp add: cdsa_create_skiplist_iterator_def cdsa_malloc_track_def never_refuses_def
        Let_def forward_at_lvl [OF hh])
  show ?thesis using skiplist_iterator_yields_entries [OF e(2) it] it by blast
qed

end
