(* ===== verification/Skip_NaN.thy ===== *)
theory Skip_NaN
  imports Skip_Refinement
begin

text \<open>
  What happens to a skip list when a score that is not a number is inserted: \<open>insert_skiplist\<close> of
  \<^verbatim>\<open>src/skiplist.c\<close> does not refuse it, and the order every other operation relies on is gone.
\<close>

section \<open>A search that does not leave the header\<close>

lemma search_stuck:
  assumes "height nodes header = SKIPLIST_MAX_LEVEL" and "l \<le> SKIPLIST_MAX_LEVEL"
    and "\<forall>j < l. \<forall>q. lvl nodes j header = Some q \<longrightarrow> (\<exists>nd. nodes q = Some nd \<and> \<not> test nd)"
  shows "search_down nodes test l header = Some (False, header, replicate l header)"
  using assms(2,3)
proof (induction l)
  case 0
  then show ?case by simp
next
  case (Suc l)
  have fw: "forward_at nodes header l = Some (lvl nodes l header)"
    using assms(1) Suc.prems(1) by (intro forward_at_lvl) simp
  have "advance nodes test l header = Some (False, header)"
  proof (cases "lvl nodes l header")
    case None
    then show ?thesis using fw by (subst advance.simps) simp
  next
    case (Some q)
    then obtain nd where "nodes q = Some nd" "\<not> test nd" using Suc.prems(2) by blast
    then show ?thesis using fw Some by (subst advance.simps) simp
  qed
  moreover have "search_down nodes test l header = Some (False, header, replicate l header)"
    using Suc.IH Suc.prems by (meson Suc_leD less_SucI)
  ultimately show ?case by (simp add: replicate_append_same)
qed

section \<open>The list with the node in front\<close>

text \<open>
  The search for a score that is not a number never moves, so the node goes in front of all others:
  \<open>ps\<close> are the nodes of the list, \<open>p\<close> is the new one, of height \<open>k\<close>.
\<close>

definition nan_in_front :: "skiplist \<Rightarrow> block_id list \<Rightarrow> block_id \<Rightarrow> nat \<Rightarrow> double \<Rightarrow> cstring \<Rightarrow> skiplist \<Rightarrow> bool" where
  "nan_in_front s ps p k x v s' \<longleftrightarrow> sl_header s' = sl_header s \<and> sl_level s' = max k (sl_level s) \<and>
     sl_size s' = sl_size s + 1 \<and> p \<notin> set (sl_header s # ps) \<and> 1 \<le> k \<and> k \<le> SKIPLIST_MAX_LEVEL \<and>
     height (sl_nodes s') p = k \<and> entry_of (sl_nodes s') p = (x, v) \<and>
     (\<exists>nd. sl_nodes s' p = Some nd) \<and>
     (\<forall>q. q \<noteq> p \<longrightarrow> skeleton (sl_nodes s') q = skeleton (sl_nodes s) q) \<and>
     level_chains (sl_nodes s') (sl_header s) (p # ps)"

lemma insert_nan:
  assumes "sl_repr h s ps" and "dbl_nan x" and "length v + 9 < size_bound"
  shows "\<exists>n' h' s' st. insert_skiplist rand n h (Some s) x (Some v) = Some (n', h', Some s', st) \<and>
    fault h' = fault h \<and>
    (st = CDSA_OK \<and> (\<exists>p. nan_in_front s ps p (fst (random_level rand n)) x v s') \<or>
     st = CDSA_ERR_OOM \<and> \<not> never_refuses h)"
proof -
  note rd = sl_reprD [OF assms(1)]
  let ?P = "\<lambda>e. entry_lt e (x, v)" and ?n = "sl_nodes s" and ?h = "sl_header s"
  have never: "\<not> ?P e" for e using assms(2) by (auto simp: entry_lt_def dbl_lt_def dbl_eq_def)
  then have drop: "\<forall>e \<in> set (dropWhile ?P (map (entry_of ?n) ps)). \<not> ?P e" by blast
  have test: "node_before x v nd = ?P (entry_of ?n p)" if "?n p = Some nd" for p nd
    using that by (rule node_before_entry)
  obtain as bs where "ps = as @ bs" "takeWhile ?P (map (entry_of ?n) ps) = map (entry_of ?n) as"
    and sd: "search_down ?n (node_before x v) (sl_level s) ?h =
      Some (False, last (?h # as), crumbs ?n (?h # as) (sl_level s))"
    by (rule search_repr [OF assms(1) test drop])
  moreover have "takeWhile ?P (map (entry_of ?n) ps) = []"
    using never by (cases ps) simp_all
  ultimately have ps: "as = []" "bs = ps" by simp_all
  obtain k n1 where k: "random_level rand n = (k, n1)" by (metis surj_pair)
  note kr = random_level_range [OF k]
  obtain h1 r where c: "cdsa_create_node h k x v = (h1, r)" by (metis surj_pair)
  note cn = create_node_ok [OF rd(1,9) assms(3) kr(2) c]
  show ?thesis
  proof (cases r)
    case None
    then show ?thesis
      using sd k c cn(3) cn(4) [OF None] by (simp add: insert_skiplist_def set_fault_def Let_def)
  next
    case (Some pnd)
    then obtain p nd where r: "r = Some (p, nd)" by (metis surj_pair)
    note nd = cn(5) [OF r]
    have own: "owns_all h1 (blocks_of [p \<mapsto> nd] p @
        (sl_self s, sizeof_skiplist) # sl_blocks ?n (?h # ps))" using nd by simp
    have "p \<in> fst ` set (blocks_of [p \<mapsto> nd] p)" by (simp add: blocks_of_node [of _ _ nd])
    moreover have "set (?h # ps) \<subseteq> fst ` set (sl_blocks ?n (?h # ps))"
      using node_in_blocks rd(2) by blast
    moreover have "fst ` set (blocks_of [p \<mapsto> nd] p) \<inter>
        fst ` set ((sl_self s, sizeof_skiplist) # sl_blocks ?n (?h # ps)) = {}"
      using own unfolding owns_all_append by blast
    moreover have "fst ` set (sl_blocks ?n (?h # ps)) \<subseteq>
        fst ` set ((sl_self s, sizeof_skiplist) # sl_blocks ?n (?h # ps))"
      by (intro image_mono set_subset_Cons)
    ultimately have fresh: "p \<notin> set (?h # ps)" by blast
    have len: "length (sn_forward nd) = k" using nd by simp
    have dist: "distinct (p # ?h # [] @ ps)" using fresh rd(3) by simp
    have hts: "\<forall>q \<in> set ([] @ ps). height ?n q \<le> sl_level s" using rd(6) by simp
    have lc: "level_chains ?n ?h ([] @ ps)" using rd(4) by simp
    from splice_node_ok [OF lc rd(5) dist len kr(2) hts] obtain nodes' where
      sp: "splice_node (?n(p \<mapsto> nd)) p (crumbs ?n [?h] (sl_level s) @ replicate (k - sl_level s) ?h) k =
          (False, nodes')" "skeleton nodes' = skeleton (?n(p \<mapsto> nd))" "level_chains nodes' ?h (p # ps)"
      by auto
    let ?s' = "s\<lparr>sl_level := max k (sl_level s), sl_nodes := nodes', sl_size := sl_size s + 1,
        sl_version := sl_version s + 1\<rparr>"
    have skp: "skeleton nodes' p = skeleton [p \<mapsto> nd] p" by (simp add: sp(2) skeleton_def)
    have "height nodes' p = k" using same_skeleton_node(3) [OF skp] len by (simp add: height_def)
    moreover have "entry_of nodes' p = (x, v)"
      using same_skeleton_node(1) [OF skp] nd by (simp add: entry_of_node [of _ _ nd])
    moreover have "\<exists>nd'. nodes' p = Some nd'" using skeleton_dom [OF sp(2)] by auto
    moreover have "skeleton nodes' q = skeleton ?n q" if "q \<noteq> p" for q
      using that by (simp add: sp(2) skeleton_def)
    ultimately have "nan_in_front s ps p k x v ?s'"
      using kr fresh sp(3) by (simp add: nan_in_front_def)
    moreover have "insert_skiplist rand n h (Some s) x (Some v) = Some (n1, h1, Some ?s', CDSA_OK)"
      using sd k c r sp(1) ps(1)
      by (cases "sl_level s < k") (simp_all add: insert_skiplist_def set_fault_def Let_def max_def)
    ultimately show ?thesis using cn(3) k by auto
  qed
qed

lemma nan_in_frontD:
  assumes "nan_in_front s ps p k x v s'" and "sl_repr h s ps"
  shows "height (sl_nodes s') (sl_header s') = SKIPLIST_MAX_LEVEL" and "sl_level s' \<le> SKIPLIST_MAX_LEVEL"
    and "lvl (sl_nodes s') 0 (sl_header s') = Some p" and "0 < height (sl_nodes s') p"
    and "chain (lvl (sl_nodes s') 0) (Some (sl_header s')) (sl_header s' # p # ps)"
    and "map (entry_of (sl_nodes s')) (p # ps) = (x, v) # map (entry_of (sl_nodes s)) ps"
    and "\<And>j q. j < sl_level s' \<Longrightarrow> lvl (sl_nodes s') j (sl_header s') = Some q \<Longrightarrow>
      q = p \<or> (k \<le> j \<and> q \<in> set ps \<and> (\<exists>nd. sl_nodes s' q = Some nd))"
proof -
  note rd = sl_reprD [OF assms(2)]
  let ?n = "sl_nodes s'" and ?h = "sl_header s'"
  note f = assms(1) [unfolded nan_in_front_def]
  have hd: "?h = sl_header s" and np: "p \<notin> set (?h # ps)" and k: "1 \<le> k" "k \<le> SKIPLIST_MAX_LEVEL"
    and lc: "level_chains ?n ?h (p # ps)" and hp: "height ?n p = k" using f by auto
  have sk: "skeleton ?n q = skeleton (sl_nodes s) q" if "q \<noteq> p" for q using f that by blast
  have hq: "height ?n q = height (sl_nodes s) q" if "q \<noteq> p" for q
    by (rule same_skeleton_node(3) [OF sk [OF that]])
  show hh: "height ?n ?h = SKIPLIST_MAX_LEVEL" using hq [of ?h] np rd(5) hd by auto
  show "sl_level s' \<le> SKIPLIST_MAX_LEVEL" using f rd(8) by simp
  show "0 < height ?n p" using hp k by simp
  have pos: "\<forall>q \<in> set (?h # p # ps). 0 < height ?n q"
  proof -
    have "0 < height ?n q" if "q \<in> set ps" for q
      using that np rd(6) hq [of q] by fastforce
    then show ?thesis using hh hp k by (simp add: SKIPLIST_MAX_LEVEL_def)
  qed
  then have "on_level ?n 0 (?h # p # ps) = ?h # p # ps"
    unfolding on_level_def by (intro filter_True) blast
  moreover have "chain (lvl ?n 0) (Some ?h) (on_level ?n 0 (?h # p # ps))"
    using lc unfolding level_chains_def by (simp only: SKIPLIST_MAX_LEVEL_def)
  ultimately show c: "chain (lvl ?n 0) (Some ?h) (?h # p # ps)" by (simp only:)
  then show "lvl ?n 0 ?h = Some p" by simp
  show "map (entry_of ?n) (p # ps) = (x, v) # map (entry_of (sl_nodes s)) ps"
  proof -
    have "map (entry_of ?n) ps = map (entry_of (sl_nodes s)) ps"
      by (rule same_skeletons(1), rule sk) (use np in auto)
    then show ?thesis using f by simp
  qed
  show "q = p \<or> (k \<le> j \<and> q \<in> set ps \<and> (\<exists>nd. ?n q = Some nd))"
    if j: "j < sl_level s'" and q: "lvl ?n j ?h = Some q" for j q
  proof -
    have jm: "j < SKIPLIST_MAX_LEVEL" using j k(2) rd(8) f by (metis max.bounded_iff order_less_le_trans)
    then have "chain (lvl ?n j) (Some ?h) (on_level ?n j (?h # p # ps))"
      using lc unfolding level_chains_def by blast
    then have ch: "chain (lvl ?n j) (Some q) (on_level ?n j (p # ps))" using hh jm q by simp
    show ?thesis
    proof (cases "j < k")
      case True
      then show ?thesis using ch hp by simp
    next
      case False
      then have "chain (lvl ?n j) (Some q) (on_level ?n j ps)" using ch hp by simp
      then have "q \<in> set (on_level ?n j ps)" by (cases "on_level ?n j ps") simp_all
      then have "q \<in> set ps" "j < height ?n q" by simp_all
      then show ?thesis using False height_nodes [of j ?n q] by auto
    qed
  qed
qed

lemma search_after_nan:
  assumes "nan_in_front s ps p k x v s'" and "sl_repr h s ps"
    and "\<And>q nd. sl_nodes s' q = Some nd \<Longrightarrow> test nd = P (entry_of (sl_nodes s') q)"
    and "\<not> P (x, v)" and "(\<forall>e \<in> set (map (entry_of (sl_nodes s)) ps). \<not> P e) \<or> sl_level s \<le> k"
  shows "search_down (sl_nodes s') test (sl_level s') (sl_header s') =
    Some (False, sl_header s', replicate (sl_level s') (sl_header s'))"
proof (rule search_stuck)
  note d = nan_in_frontD [OF assms(1,2)] and f = assms(1) [unfolded nan_in_front_def]
  show "height (sl_nodes s') (sl_header s') = SKIPLIST_MAX_LEVEL" by (rule d(1))
  show "sl_level s' \<le> SKIPLIST_MAX_LEVEL" by (rule d(2))
  show "\<forall>j < sl_level s'. \<forall>q. lvl (sl_nodes s') j (sl_header s') = Some q \<longrightarrow>
      (\<exists>nd. sl_nodes s' q = Some nd \<and> \<not> test nd)"
  proof (intro allI impI)
    fix j q assume j: "j < sl_level s'" and q: "lvl (sl_nodes s') j (sl_header s') = Some q"
    from d(7) [OF j q] show "\<exists>nd. sl_nodes s' q = Some nd \<and> \<not> test nd"
    proof (elim disjE conjE)
      assume "q = p"
      then show ?thesis using f assms(3,4) by auto
    next
      assume "k \<le> j" and ps: "q \<in> set ps" and "\<exists>nd. sl_nodes s' q = Some nd"
      then obtain nd where nd: "sl_nodes s' q = Some nd" by blast
      have "sl_level s' = max k (sl_level s)" using f by blast
      with \<open>k \<le> j\<close> j have "\<not> sl_level s \<le> k" by simp
      then have "\<not> P (entry_of (sl_nodes s) q)" using assms(5) ps by auto
      moreover have "q \<noteq> p" using f ps by auto
      then have "entry_of (sl_nodes s') q = entry_of (sl_nodes s) q"
        using f same_skeleton_node(1) by blast
      ultimately show ?thesis using nd assms(3) [OF nd] by auto
    qed
  qed
qed

section \<open>The property\<close>

text \<open>
  C30: \<open>insert_skiplist\<close> accepts a score that is not a number and puts its node in front of the list,
  where it stops every search that has not passed it on a higher level.  After any such insertion all
  entries are still linked, but removing one that no entry comes before, the first of the list for
  instance, reports \<open>CDSA_ERR_NOT_FOUND\<close>, and a range query whose lower bound no score is below finds
  nothing; when the level drawn for the node is at least the level of the list, every removal and every
  range query fails like this.
\<close>

theorem skiplist_nan_hides_entries:
  assumes "sl_rep h s es" and "dbl_nan x" and "length v + 9 < 2 ^ 64"
    and "insert_skiplist rand n h (Some s) x (Some v) = Some (n', h', Some s', CDSA_OK)"
  shows "fault h' = fault h \<and> sl_size s' = sl_size s + 1 \<and>
    (\<exists>qs. chain (lvl (sl_nodes s') 0) (Some (sl_header s')) (sl_header s' # qs) \<and>
       map (entry_of (sl_nodes s')) qs = (x, v) # es) \<and>
    (\<forall>y w. (\<forall>e \<in> set es. \<not> entry_lt e (y, w)) \<or> sl_level s \<le> fst (random_level rand n) \<longrightarrow>
       remove_skiplist h' (Some s') y (Some w) = Some (h', Some s', CDSA_ERR_NOT_FOUND)) \<and>
    (\<forall>lo hi. (\<forall>e \<in> set es. \<not> dbl_lt (fst e) lo) \<or> sl_level s \<le> fst (random_level rand n) \<longrightarrow>
       get_range_skiplist h' (Some s') lo hi True = Some (h', Some 0, None))"
proof -
  obtain ps where ps: "sl_repr h s ps" "es = map (entry_of (sl_nodes s)) ps"
    using assms(1) by (auto simp: sl_rep_def)
  let ?k = "fst (random_level rand n)"
  from insert_nan [OF ps(1) assms(2,3), of rand n] assms(4) obtain p where
    p: "nan_in_front s ps p ?k x v s'" and nf: "fault h' = fault h" by auto
  note d = nan_in_frontD [OF p ps(1)] and f = p [unfolded nan_in_front_def]
  have fw: "forward_at (sl_nodes s') (sl_header s') 0 = Some (Some p)"
    using d(1,3) forward_at_lvl [of 0 "sl_nodes s'" "sl_header s'"] by (simp add: SKIPLIST_MAX_LEVEL_def)
  obtain nd where nd: "sl_nodes s' p = Some nd" using f by blast
  then have sc: "sn_score nd = x" using f entry_of_node [of "sl_nodes s'" p nd] by simp
  have nan: "\<not> dbl_eq x y" "\<not> dbl_le x y" "\<not> dbl_lt x y" for y
    using assms(2) by (simp_all add: dbl_eq_def dbl_le_def dbl_lt_def)
  have fp: "forward_at (sl_nodes s') p 0 \<noteq> None"
    using forward_at_lvl [OF d(4)] by simp
  have rm: "remove_skiplist h' (Some s') y (Some w) = Some (h', Some s', CDSA_ERR_NOT_FOUND)"
    if c: "(\<forall>e \<in> set es. \<not> entry_lt e (y, w)) \<or> sl_level s \<le> ?k" for y w
  proof -
    have "search_down (sl_nodes s') (node_before y w) (sl_level s') (sl_header s') =
        Some (False, sl_header s', replicate (sl_level s') (sl_header s'))"
    proof (rule search_after_nan [OF p ps(1), where P = "\<lambda>e. entry_lt e (y, w)"])
      show "\<not> entry_lt (x, v) (y, w)" using nan by (simp add: entry_lt_def)
      show "node_before y w nd = entry_lt (entry_of (sl_nodes s') q) (y, w)"
        if "sl_nodes s' q = Some nd" for q nd using that by (rule node_before_entry)
    qed (use c ps(2) in simp)
    then show ?thesis using fw nd sc nan(1) by (simp add: remove_skiplist_def set_fault_def)
  qed
  have rg: "get_range_skiplist h' (Some s') lo hi True = Some (h', Some 0, None)"
    if c: "(\<forall>e \<in> set es. \<not> dbl_lt (fst e) lo) \<or> sl_level s \<le> ?k" for lo hi
  proof -
    have "search_down (sl_nodes s') (\<lambda>nd. dbl_lt (sn_score nd) lo) (sl_level s') (sl_header s') =
        Some (False, sl_header s', replicate (sl_level s') (sl_header s'))"
    proof (rule search_after_nan [OF p ps(1), where P = "\<lambda>e. dbl_lt (fst e) lo"])
      show "\<not> dbl_lt (fst (x, v)) lo" using nan by simp
    qed (use c ps(2) in \<open>simp_all add: entry_of_node\<close>)
    moreover have "count_range (sl_nodes s') hi (Some p) 0 = Some (False, 0)"
      using fp nd sc nan(2) by (subst count_range.simps) simp
    ultimately show ?thesis using fw by (simp add: get_range_skiplist_def set_fault_def)
  qed
  have "sl_size s' = sl_size s + 1" using f by blast
  then show ?thesis using nf d(5,6) rm rg ps(2) by metis
qed

theorem skiplist_nan_hides_entries_witness:
  "\<exists>h s n' h' s'. sl_rep h s [(0x3FF0000000000000, [97]), (0x4000000000000000, [98]), (0x4008000000000000, [99])] \<and>
     insert_skiplist (\<lambda>n. n) 0 h (Some s) 0x7FF8000000000000 (Some [120]) = Some (n', h', Some s', CDSA_OK) \<and>
     remove_skiplist h' (Some s') 0x3FF0000000000000 (Some [97]) = Some (h', Some s', CDSA_ERR_NOT_FOUND) \<and>
     get_range_skiplist h' (Some s') 0 0x7FEFFFFFFFFFFFFF True = Some (h', Some 0, None)"
proof -
  let ?es = "[(0x3FF0000000000000, [97]), (0x4000000000000000, [98]), (0x4008000000000000, [99])] :: entry list"
  obtain h s where e: "never_refuses h" "sl_rep h s ?es" using example_skiplist by blast
  from e(2) obtain ps where ps: "sl_repr h s ps" by (auto simp: sl_rep_def)
  have nan: "dbl_nan 0x7FF8000000000000" by (simp add: dbl_nan_def)
  have len: "length [120 :: byte] + 9 < 2 ^ 64" by simp
  from insert_nan [OF ps nan len, of "\<lambda>n. n" 0] e(1) obtain n' h' s' where
    i: "insert_skiplist (\<lambda>n. n) 0 h (Some s) 0x7FF8000000000000 (Some [120]) = Some (n', h', Some s', CDSA_OK)"
    by blast
  note all = skiplist_nan_hides_entries [OF e(2) nan len i]
  have first: "\<forall>e \<in> set ?es. \<not> entry_lt e (0x3FF0000000000000, [97])"
    and low: "\<forall>e \<in> set ?es. \<not> dbl_lt (fst e) 0"
    by (simp_all add: entry_lt_def dbl_lt_def dbl_eq_def dbl_nan_def dbl_key_def)
  have "remove_skiplist h' (Some s') 0x3FF0000000000000 (Some [97]) = Some (h', Some s', CDSA_ERR_NOT_FOUND)"
    using all first by blast
  moreover have "get_range_skiplist h' (Some s') 0 0x7FEFFFFFFFFFFFFF True = Some (h', Some 0, None)"
    using all low by blast
  ultimately show ?thesis using e(2) i by blast
qed

end
