(* ===== verification/Art.thy ===== *)
theory Art
  imports Kpool SkipList
begin

text \<open>
  \<^verbatim>\<open>src/art.c\<close>: the adaptive radix tree from C strings to pointers.  Nodes come in four
  sizes and live, like the leaves, in block pools of 1024 blocks each.

  A node is a value of the datatype \<open>art_node\<close>: the constructor is the type field, the first
  argument the place of the node in its pool, and a pointer to a child is the child itself (no node
  has two parents), so an operation that writes through \<open>void **\<close> returns the changed node.  Where
  the code keeps a pointer to a node beside the tree, in the iterator, it is the pool and the place.
  Lengths and depths (\<open>int\<close>, \<open>uint32_t\<close>) are natural numbers: keys are shorter than \<open>2 ^ 31\<close>.  So
  are the \<open>uint8_t\<close> counts of the three smaller nodes, which stay below 49; the \<open>uint16_t\<close> count of
  the largest is a word.
\<close>

section \<open>State\<close>

type_synonym pointer = size_t
type_synonym slot = size_t

datatype node_type = NODE4 | NODE16 | NODE48 | NODE256 | LEAF_NODE

record node_header =
  prefix_len :: nat
  prefix_bytes :: bytes

datatype art_node =
    ArtLeaf slot cstring block_id "pointer option"
  | Node4 slot node_header nat bytes "art_node option list"
  | Node16 slot node_header nat bytes "art_node option list"
  | Node48 slot node_header bytes "art_node option list" nat
  | Node256 slot node_header "art_node option list" "16 word"

record art_slab =
  slab_self :: block_id
  pool_node4 :: "kpool option"
  pool_node16 :: "kpool option"
  pool_node48 :: "kpool option"
  pool_node256 :: "kpool option"
  pool_leaf :: "kpool option"

record art_tree =
  art_self :: block_id
  art_root :: "art_node option"
  art_size :: size_t
  art_version :: size_t
  slab_manager :: art_slab

definition ART_EMPTY_SLOT :: byte where "ART_EMPTY_SLOT = 255"

definition sizeof_Node4 :: size_t where "sizeof_Node4 = 64"
definition sizeof_Node16 :: size_t where "sizeof_Node16 = 168"
definition sizeof_Node48 :: size_t where "sizeof_Node48 = 672"
definition sizeof_Node256 :: size_t where "sizeof_Node256 = 2080"
definition sizeof_ArtLeaf :: size_t where "sizeof_ArtLeaf = 40"
definition sizeof_art_slab :: size_t where "sizeof_art_slab = 40"
definition sizeof_art_tree :: size_t where "sizeof_art_tree = 32"

text \<open>The type field, the pool place and the header of a node; a leaf's header stays cleared.\<close>

definition empty_header :: node_header where
  "empty_header = \<lparr>prefix_len = 0, prefix_bytes = replicate 10 0\<rparr>"

fun type_of :: "art_node \<Rightarrow> node_type" where
  "type_of (ArtLeaf a k b v) = LEAF_NODE"
| "type_of (Node4 a hr n ks cs) = NODE4"
| "type_of (Node16 a hr n ks cs) = NODE16"
| "type_of (Node48 a hr ix cs n) = NODE48"
| "type_of (Node256 a hr cs n) = NODE256"

fun slot_of :: "art_node \<Rightarrow> slot" where
  "slot_of (ArtLeaf a k b v) = a"
| "slot_of (Node4 a hr n ks cs) = a"
| "slot_of (Node16 a hr n ks cs) = a"
| "slot_of (Node48 a hr ix cs n) = a"
| "slot_of (Node256 a hr cs n) = a"

fun header_of :: "art_node \<Rightarrow> node_header" where
  "header_of (ArtLeaf a k b v) = empty_header"
| "header_of (Node4 a hr n ks cs) = hr"
| "header_of (Node16 a hr n ks cs) = hr"
| "header_of (Node48 a hr ix cs n) = hr"
| "header_of (Node256 a hr cs n) = hr"

fun set_header :: "node_header \<Rightarrow> art_node \<Rightarrow> art_node" where
  "set_header hr (ArtLeaf a k b v) = ArtLeaf a k b v"
| "set_header hr (Node4 a _ n ks cs) = Node4 a hr n ks cs"
| "set_header hr (Node16 a _ n ks cs) = Node16 a hr n ks cs"
| "set_header hr (Node48 a _ ix cs n) = Node48 a hr ix cs n"
| "set_header hr (Node256 a _ cs n) = Node256 a hr cs n"

fun children_of :: "art_node \<Rightarrow> art_node option list" where
  "children_of (ArtLeaf a k b v) = []"
| "children_of (Node4 a hr n ks cs) = cs"
| "children_of (Node16 a hr n ks cs) = cs"
| "children_of (Node48 a hr ix cs n) = cs"
| "children_of (Node256 a hr cs n) = cs"

text \<open>\<open>children[i]\<close>, and \<open>*child_ptr = t\<close> for a pointer to the slot \<open>i\<close>.\<close>

definition child_at :: "art_node option list \<Rightarrow> nat \<Rightarrow> art_node option" where
  "child_at cs i = (if i < length cs then cs ! i else None)"

fun set_child :: "nat \<Rightarrow> art_node option \<Rightarrow> art_node \<Rightarrow> art_node" where
  "set_child i t (ArtLeaf a k b v) = ArtLeaf a k b v"
| "set_child i t (Node4 a hr n ks cs) = Node4 a hr n ks (cs[i := t])"
| "set_child i t (Node16 a hr n ks cs) = Node16 a hr n ks (cs[i := t])"
| "set_child i t (Node48 a hr ix cs n) = Node48 a hr ix (cs[i := t]) n"
| "set_child i t (Node256 a hr cs n) = Node256 a hr (cs[i := t]) n"

text \<open>\<open>key[i]\<close>, the terminating NUL at the end.\<close>

definition key_at :: "cstring \<Rightarrow> nat \<Rightarrow> byte" where
  "key_at key i = (if i < length key then key ! i else 0)"

lemma child_at_size_list [termination_simp]:
  assumes "child_at cs i = Some t"
  shows "size t < Suc (size_list (size_option size) cs)"
proof -
  have "Some t \<in> set cs" using assms by (auto simp: child_at_def split: if_splits) (metis nth_mem)
  then have "size_option size (Some t) \<le> size_list (size_option size) cs"
    by (rule size_list_estimation') simp
  then show ?thesis by simp
qed

lemma child_at_size: "child_at (children_of node) i = Some t \<Longrightarrow> size t < size node"
  by (cases node) (auto dest: child_at_size_list simp: child_at_def [of "[]"])

section \<open>The slab manager\<close>

definition art_slab_destroy :: "heap \<Rightarrow> art_slab option \<Rightarrow> heap" where
  "art_slab_destroy h slab =
     (case slab of
        None \<Rightarrow> h
      | Some s \<Rightarrow>
          let h1 = kpool_destroy h (pool_node4 s);
              h2 = kpool_destroy h1 (pool_node16 s);
              h3 = kpool_destroy h2 (pool_node48 s);
              h4 = kpool_destroy h3 (pool_node256 s);
              h5 = kpool_destroy h4 (pool_leaf s)
          in cdsa_free_track h5 (Some (slab_self s)))"

definition art_slab_create :: "heap \<Rightarrow> size_t \<Rightarrow> heap \<times> art_slab option" where
  "art_slab_create h nodes_per_tier =
     (let (h0, slab) = cdsa_malloc_track h sizeof_art_slab
      in case slab of
           None \<Rightarrow> (h0, None)
         | Some self \<Rightarrow>
             let (h1, p4) = kpool_create h0 sizeof_Node4 nodes_per_tier;
                 (h2, p16) = kpool_create h1 sizeof_Node16 nodes_per_tier;
                 (h3, p48) = kpool_create h2 sizeof_Node48 nodes_per_tier;
                 (h4, p256) = kpool_create h3 sizeof_Node256 nodes_per_tier;
                 (h5, lf) = kpool_create h4 sizeof_ArtLeaf nodes_per_tier;
                 s = \<lparr>slab_self = self, pool_node4 = p4, pool_node16 = p16, pool_node48 = p48,
                      pool_node256 = p256, pool_leaf = lf\<rparr>
             in if p4 = None \<or> p16 = None \<or> p48 = None \<or> p256 = None \<or> lf = None
                then (art_slab_destroy h5 (Some s), None)
                else (h5, Some s))"

section \<open>Node allocators\<close>

definition alloc_node4 :: "art_slab \<Rightarrow> art_slab \<times> art_node option" where
  "alloc_node4 slab =
     (case kpool_alloc (pool_node4 slab) of
        (q, node) \<Rightarrow> (slab\<lparr>pool_node4 := q\<rparr>,
          map_option (\<lambda>a. Node4 a empty_header 0 (replicate 4 0) (replicate 4 None)) node))"

definition alloc_node16 :: "art_slab \<Rightarrow> art_slab \<times> art_node option" where
  "alloc_node16 slab =
     (case kpool_alloc (pool_node16 slab) of
        (q, node) \<Rightarrow> (slab\<lparr>pool_node16 := q\<rparr>,
          map_option (\<lambda>a. Node16 a empty_header 0 (replicate 16 0) (replicate 16 None)) node))"

definition alloc_node48 :: "art_slab \<Rightarrow> art_slab \<times> art_node option" where
  "alloc_node48 slab =
     (case kpool_alloc (pool_node48 slab) of
        (q, node) \<Rightarrow> (slab\<lparr>pool_node48 := q\<rparr>,
          map_option (\<lambda>a. Node48 a empty_header (replicate 256 ART_EMPTY_SLOT) (replicate 48 None) 0) node))"

definition alloc_node256 :: "art_slab \<Rightarrow> art_slab \<times> art_node option" where
  "alloc_node256 slab =
     (case kpool_alloc (pool_node256 slab) of
        (q, node) \<Rightarrow> (slab\<lparr>pool_node256 := q\<rparr>,
          map_option (\<lambda>a. Node256 a empty_header (replicate 256 None) 0) node))"

text \<open>
  When the key cannot be copied the leaf is handed to \<open>CDSA_FREE\<close>, which takes it for a block of
  the tracked heap and looks for the size in front of it: that is a fault, and the leaf stays out of
  its pool.
\<close>

definition alloc_leaf :: "heap \<Rightarrow> art_slab \<Rightarrow> cstring \<Rightarrow> pointer option \<Rightarrow>
    heap \<times> art_slab \<times> art_node option" where
  "alloc_leaf h slab key val =
     (case kpool_alloc (pool_leaf slab) of
        (q, None) \<Rightarrow> (h, slab\<lparr>pool_leaf := q\<rparr>, None)
      | (q, Some a) \<Rightarrow>
          (case safe_strdup h key of
             (h1, None) \<Rightarrow> (set_fault True h1, slab\<lparr>pool_leaf := q\<rparr>, None)
           | (h1, Some b) \<Rightarrow> (h1, slab\<lparr>pool_leaf := q\<rparr>, Some (ArtLeaf a key b val))))"

section \<open>Prefixes\<close>

fun prefix_loop :: "bytes \<Rightarrow> cstring \<Rightarrow> nat \<Rightarrow> nat" where
  "prefix_loop [] key i = 0"
| "prefix_loop (p # ps) key i = (if p \<noteq> key_at key i then 0 else Suc (prefix_loop ps key (Suc i)))"

definition check_prefix :: "node_header \<Rightarrow> cstring \<Rightarrow> nat \<Rightarrow> nat" where
  "check_prefix header key depth =
     prefix_loop (take (min (prefix_len header) 10) (prefix_bytes header)) key depth"

text \<open>Does that comparison read the key behind its terminator?\<close>

fun prefix_past :: "bytes \<Rightarrow> cstring \<Rightarrow> nat \<Rightarrow> bool" where
  "prefix_past [] key i \<longleftrightarrow> False"
| "prefix_past (p # ps) key i \<longleftrightarrow> length key < i \<or> (p = key_at key i \<and> prefix_past ps key (Suc i))"

definition check_prefix_past :: "node_header \<Rightarrow> cstring \<Rightarrow> nat \<Rightarrow> bool" where
  "check_prefix_past header key depth =
     prefix_past (take (min (prefix_len header) 10) (prefix_bytes header)) key depth"

text \<open>The header that holds \<open>n\<close> bytes of \<open>key\<close> from \<open>i\<close> on, of which it stores at most ten.\<close>

definition save_prefix :: "node_header \<Rightarrow> nat \<Rightarrow> cstring \<Rightarrow> nat \<Rightarrow> node_header" where
  "save_prefix hr n key i =
     \<lparr>prefix_len = n,
      prefix_bytes = fold (\<lambda>p bs. bs[p := key_at key (i + p)]) [0..<min n 10] (prefix_bytes hr)\<rparr>"

section \<open>Growing\<close>

definition upgrade_node4_to_node16 :: "art_slab \<Rightarrow> art_node \<Rightarrow> art_slab \<times> art_node option" where
  "upgrade_node4_to_node16 slab node =
     (case (node, alloc_node16 slab) of
        (Node4 a hr n ks cs, slab1, Some (Node16 a' _ _ ks0 cs0)) \<Rightarrow>
          let (ks', cs') = fold (\<lambda>i (ks', cs'). (ks'[i := ks ! i], cs'[i := child_at cs i])) [0..<n] (ks0, cs0)
          in (slab1\<lparr>pool_node4 := kpool_free (pool_node4 slab1) (Some a)\<rparr>, Some (Node16 a' hr n ks' cs'))
      | (_, slab1, _) \<Rightarrow> (slab1, None))"

definition upgrade_node16_to_node48 :: "art_slab \<Rightarrow> art_node \<Rightarrow> art_slab \<times> art_node option" where
  "upgrade_node16_to_node48 slab node =
     (case (node, alloc_node48 slab) of
        (Node16 a hr n ks cs, slab1, Some (Node48 a' _ ix0 cs0 _)) \<Rightarrow>
          let (ix', cs') = fold (\<lambda>i (ix', cs'). (ix'[unat (ks ! i) := of_nat i], cs'[i := child_at cs i]))
                [0..<n] (ix0, cs0)
          in (slab1\<lparr>pool_node16 := kpool_free (pool_node16 slab1) (Some a)\<rparr>, Some (Node48 a' hr ix' cs' n))
      | (_, slab1, _) \<Rightarrow> (slab1, None))"

definition upgrade_node48_to_node256 :: "art_slab \<Rightarrow> art_node \<Rightarrow> art_slab \<times> art_node option" where
  "upgrade_node48_to_node256 slab node =
     (case (node, alloc_node256 slab) of
        (Node48 a hr ix cs n, slab1, Some (Node256 a' _ cs0 _)) \<Rightarrow>
          let cs' = fold (\<lambda>i cs'. if ix ! i \<noteq> ART_EMPTY_SLOT then cs'[i := child_at cs (unat (ix ! i))] else cs')
                [0..<256] cs0
          in (slab1\<lparr>pool_node48 := kpool_free (pool_node48 slab1) (Some a)\<rparr>, Some (Node256 a' hr cs' (of_nat n)))
      | (_, slab1, _) \<Rightarrow> (slab1, None))"

section \<open>Finding a child\<close>

text \<open>A pointer to a slot of \<open>children\<close> is the index of the slot.\<close>

definition find_key :: "nat \<Rightarrow> bytes \<Rightarrow> byte \<Rightarrow> nat option" where
  "find_key n ks c = find (\<lambda>i. ks ! i = c) [0..<n]"

definition find_child_node4 :: "nat \<Rightarrow> bytes \<Rightarrow> byte \<Rightarrow> nat option" where
  "find_child_node4 n ks c = find_key n ks c"

definition find_child_node16 :: "nat \<Rightarrow> bytes \<Rightarrow> byte \<Rightarrow> nat option" where
  "find_child_node16 n ks c = find_key n ks c"

definition find_child_node48 :: "bytes \<Rightarrow> byte \<Rightarrow> nat option" where
  "find_child_node48 ix c = (if ix ! unat c = ART_EMPTY_SLOT then None else Some (unat (ix ! unat c)))"

definition find_child_node256 :: "byte \<Rightarrow> nat option" where
  "find_child_node256 c = Some (unat c)"

fun find_child :: "art_node \<Rightarrow> byte \<Rightarrow> nat option" where
  "find_child (ArtLeaf a k b v) c = None"
| "find_child (Node4 a hr n ks cs) c = find_child_node4 n ks c"
| "find_child (Node16 a hr n ks cs) c = find_child_node16 n ks c"
| "find_child (Node48 a hr ix cs n) c = find_child_node48 ix c"
| "find_child (Node256 a hr cs n) c = find_child_node256 c"

text \<open>The child behind it, NULL when there is no slot.\<close>

definition next_child :: "art_node \<Rightarrow> byte \<Rightarrow> art_node option" where
  "next_child node c = (case find_child node c of None \<Rightarrow> None | Some i \<Rightarrow> child_at (children_of node) i)"

lemma next_child_size [termination_simp]: "next_child node c = Some t \<Longrightarrow> size t < size node"
  by (auto simp: next_child_def split: option.splits intro: child_at_size)

section \<open>Visiting the children\<close>

text \<open>
  The loops over all children: by index in the two small nodes, by byte in the two large ones.
  Each step has the byte of the edge and the pointer found there.
\<close>

fun edges :: "art_node \<Rightarrow> (byte \<times> art_node option) list" where
  "edges (ArtLeaf a k b v) = []"
| "edges (Node4 a hr n ks cs) = map (\<lambda>i. (ks ! i, child_at cs i)) [0..<n]"
| "edges (Node16 a hr n ks cs) = map (\<lambda>i. (ks ! i, child_at cs i)) [0..<n]"
| "edges (Node48 a hr ix cs n) =
     map (\<lambda>i. (of_nat i, child_at cs (unat (ix ! i)))) (filter (\<lambda>i. ix ! i \<noteq> ART_EMPTY_SLOT) [0..<256])"
| "edges (Node256 a hr cs n) =
     map (\<lambda>i. (of_nat i, child_at cs i)) (filter (\<lambda>i. child_at cs i \<noteq> None) [0..<256])"

lemma edges_size [termination_simp]: "(c, Some t) \<in> set (edges node) \<Longrightarrow> size t < size node"
proof -
  assume "(c, Some t) \<in> set (edges node)"
  then obtain i where "child_at (children_of node) i = Some t" by (cases node) auto
  then show "size t < size node" by (rule child_at_size)
qed

text \<open>\<open>kpool_free\<close> into the pool of the node's type.\<close>

definition release_node :: "art_slab \<Rightarrow> art_node \<Rightarrow> art_slab" where
  "release_node slab node =
     (case type_of node of
        NODE4 \<Rightarrow> slab\<lparr>pool_node4 := kpool_free (pool_node4 slab) (Some (slot_of node))\<rparr>
      | NODE16 \<Rightarrow> slab\<lparr>pool_node16 := kpool_free (pool_node16 slab) (Some (slot_of node))\<rparr>
      | NODE48 \<Rightarrow> slab\<lparr>pool_node48 := kpool_free (pool_node48 slab) (Some (slot_of node))\<rparr>
      | NODE256 \<Rightarrow> slab\<lparr>pool_node256 := kpool_free (pool_node256 slab) (Some (slot_of node))\<rparr>
      | LEAF_NODE \<Rightarrow> slab\<lparr>pool_leaf := kpool_free (pool_leaf slab) (Some (slot_of node))\<rparr>)"

fun cdsa_free_node :: "art_node \<Rightarrow> heap \<times> art_slab \<Rightarrow> heap \<times> art_slab" where
  "cdsa_free_node node st =
     (case node of
        ArtLeaf a k b v \<Rightarrow> (cdsa_free_track (fst st) (Some b), release_node (snd st) node)
      | _ \<Rightarrow>
          let (h1, slab1) = fold (\<lambda>e st. case snd e of None \<Rightarrow> st | Some t \<Rightarrow> cdsa_free_node t st) (edges node) st
          in (h1, release_node slab1 node))"

section \<open>Printing\<close>

text \<open>
  What is printed, piece by piece: the guide lines of the levels above, the branch and the byte of
  the edge, then the leaf or the node with its prefix.
\<close>

datatype print_item =
    Guide bool
  | Branch bool
  | EdgeChar byte
  | LeafText cstring "pointer option"
  | NodeText node_type
  | PrefixText bytes bool
  | NewLine

fun child_count :: "art_node \<Rightarrow> nat" where
  "child_count (ArtLeaf a k b v) = 0"
| "child_count (Node4 a hr n ks cs) = n"
| "child_count (Node16 a hr n ks cs) = n"
| "child_count (Node48 a hr ix cs n) = n"
| "child_count (Node256 a hr cs n) = unat n"

definition print_margin :: "bool list \<Rightarrow> nat \<Rightarrow> byte \<Rightarrow> print_item list" where
  "print_margin is_last level edge_char =
     map (\<lambda>i. Guide (is_last ! i)) [0..<level - 1] @
     (if level > 0 then [Branch (is_last ! (level - 1)), EdgeChar edge_char] else [])"

definition print_prefix :: "node_header \<Rightarrow> print_item list" where
  "print_prefix hr =
     (if prefix_len hr > 0
      then [PrefixText (take (min (prefix_len hr) 10) (prefix_bytes hr)) (prefix_len hr > 10)] else [])"

text \<open>
  Beside the output the function returns the array \<open>is_last\<close>, which all levels share, and whether
  it was written outside its 256 entries.
\<close>

fun print_node_visual :: "art_node \<Rightarrow> byte \<Rightarrow> nat \<Rightarrow> bool list \<Rightarrow> print_item list \<times> bool list \<times> bool" where
  "print_node_visual node edge_char level is_last =
     (case node of
        ArtLeaf a k b v \<Rightarrow> (print_margin is_last level edge_char @ [LeafText k v, NewLine], is_last, False)
      | _ \<Rightarrow>
          let start = print_margin is_last level edge_char @ NodeText (type_of node) #
                print_prefix (header_of node) @ [NewLine]
          in snd (fold (\<lambda>e (child_no, out, is_last, bad).
               let is_last1 = is_last[level := (int child_no = int (child_count node) - 1)];
                   (out2, is_last2, bad2) =
                     (case snd e of None \<Rightarrow> ([], is_last1, False)
                      | Some t \<Rightarrow> print_node_visual t (fst e) (Suc level) is_last1)
               in (Suc child_no, out @ out2, is_last2, bad \<or> bad2 \<or> length is_last \<le> level))
             (edges node) (0, start, is_last, False)))"

section \<open>Shrinking\<close>

text \<open>
  The two downgrades out of the large nodes pack the children that are left one after the other;
  the flag is a write behind the new node's arrays.
\<close>

definition downgrade_node256_to_node48 :: "art_slab \<Rightarrow> art_node \<Rightarrow> bool \<times> art_slab \<times> art_node option" where
  "downgrade_node256_to_node48 slab node =
     (case (node, alloc_node48 slab) of
        (Node256 a hr cs n, slab1, Some (Node48 a' _ ix0 cs0 _)) \<Rightarrow>
          let (bad, ix', cs', _) = fold (\<lambda>i (bad, ix', cs', current_idx :: byte).
                if child_at cs i \<noteq> None
                then (bad \<or> 48 \<le> unat current_idx, ix'[i := current_idx],
                      cs'[unat current_idx := child_at cs i], current_idx + 1)
                else (bad, ix', cs', current_idx)) [0..<256] (False, ix0, cs0, 0)
          in (bad, slab1\<lparr>pool_node256 := kpool_free (pool_node256 slab1) (Some a)\<rparr>,
              Some (Node48 a' hr ix' cs' (unat (ucast n :: byte))))
      | (_, slab1, _) \<Rightarrow> (False, slab1, None))"

definition downgrade_node48_to_node16 :: "art_slab \<Rightarrow> art_node \<Rightarrow> bool \<times> art_slab \<times> art_node option" where
  "downgrade_node48_to_node16 slab node =
     (case (node, alloc_node16 slab) of
        (Node48 a hr ix cs n, slab1, Some (Node16 a' _ _ ks0 cs0)) \<Rightarrow>
          let (bad, ks', cs', _) = fold (\<lambda>i (bad, ks', cs', current_idx :: byte).
                if ix ! i \<noteq> ART_EMPTY_SLOT
                then (bad \<or> 16 \<le> unat current_idx, ks'[unat current_idx := of_nat i],
                      cs'[unat current_idx := child_at cs (unat (ix ! i))], current_idx + 1)
                else (bad, ks', cs', current_idx)) [0..<256] (False, ks0, cs0, 0)
          in (bad, slab1\<lparr>pool_node48 := kpool_free (pool_node48 slab1) (Some a)\<rparr>,
              Some (Node16 a' hr n ks' cs'))
      | (_, slab1, _) \<Rightarrow> (False, slab1, None))"

definition downgrade_node16_to_node4 :: "art_slab \<Rightarrow> art_node \<Rightarrow> art_slab \<times> art_node option" where
  "downgrade_node16_to_node4 slab node =
     (case (node, alloc_node4 slab) of
        (Node16 a hr n ks cs, slab1, Some (Node4 a' _ _ ks0 cs0)) \<Rightarrow>
          let (ks', cs') = fold (\<lambda>i (ks', cs'). (ks'[i := ks ! i], cs'[i := child_at cs i])) [0..<n] (ks0, cs0)
          in (slab1\<lparr>pool_node16 := kpool_free (pool_node16 slab1) (Some a)\<rparr>, Some (Node4 a' hr n ks' cs'))
      | (_, slab1, _) \<Rightarrow> (slab1, None))"

section \<open>Removing a child\<close>

text \<open>The loop that closes the gap at \<open>pos\<close>.\<close>

definition shift_out :: "nat \<Rightarrow> nat \<Rightarrow> bytes \<times> art_node option list \<Rightarrow> bytes \<times> art_node option list" where
  "shift_out pos n kcs =
     fold (\<lambda>i (ks, cs). (ks[i := ks ! Suc i], cs[i := child_at cs (Suc i)])) [pos..<n - 1] kcs"

fun remove_child_node4 :: "art_node \<Rightarrow> byte \<Rightarrow> art_node" where
  "remove_child_node4 (Node4 a hr n ks cs) c =
     (case find_key n ks c of
        None \<Rightarrow> Node4 a hr n ks cs
      | Some pos \<Rightarrow> let (ks', cs') = shift_out pos n (ks, cs) in Node4 a hr (n - 1) ks' cs')"
| "remove_child_node4 node c = node"

fun remove_child_node16 :: "art_node \<Rightarrow> byte \<Rightarrow> art_node" where
  "remove_child_node16 (Node16 a hr n ks cs) c =
     (case find_key n ks c of
        None \<Rightarrow> Node16 a hr n ks cs
      | Some pos \<Rightarrow> let (ks', cs') = shift_out pos n (ks, cs) in Node16 a hr (n - 1) ks' cs')"
| "remove_child_node16 node c = node"

fun remove_child_node48 :: "art_node \<Rightarrow> byte \<Rightarrow> art_node" where
  "remove_child_node48 (Node48 a hr ix cs n) c =
     (if ix ! unat c = ART_EMPTY_SLOT then Node48 a hr ix cs n
      else Node48 a hr (ix[unat c := ART_EMPTY_SLOT]) (cs[unat (ix ! unat c) := None]) (n - 1))"
| "remove_child_node48 node c = node"

fun remove_child_node256 :: "art_node \<Rightarrow> byte \<Rightarrow> art_node" where
  "remove_child_node256 (Node256 a hr cs n) c =
     (if child_at cs (unat c) \<noteq> None then Node256 a hr (cs[unat c := None]) (n - 1) else Node256 a hr cs n)"
| "remove_child_node256 node c = node"

definition remove_child :: "art_node \<Rightarrow> byte \<Rightarrow> art_node" where
  "remove_child node c =
     (case type_of node of
        NODE4 \<Rightarrow> remove_child_node4 node c
      | NODE16 \<Rightarrow> remove_child_node16 node c
      | NODE48 \<Rightarrow> remove_child_node48 node c
      | NODE256 \<Rightarrow> remove_child_node256 node c
      | LEAF_NODE \<Rightarrow> node)"

section \<open>Deletion\<close>

text \<open>
  The prefix of a node that has swallowed its parent: the parent's bytes, the byte of the edge, the
  node's own bytes, of which the first ten are stored.
\<close>

definition merge_prefix :: "node_header \<Rightarrow> byte \<Rightarrow> node_header \<Rightarrow> node_header" where
  "merge_prefix hr c child_hr =
     (let new_len = prefix_len hr + 1 + prefix_len child_hr;
          limit = min new_len 10;
          new1 = take (min (prefix_len hr) limit) (prefix_bytes hr);
          new2 = (if length new1 < limit then new1 @ [c] else new1);
          new3 = new2 @ take (min (prefix_len child_hr) (limit - length new2)) (prefix_bytes child_hr)
      in \<lparr>prefix_len = new_len, prefix_bytes = new3 @ drop limit (prefix_bytes child_hr)\<rparr>)"

text \<open>
  What \<open>recursive_delete\<close> does with a node that has just lost a child: try a smaller node, give an
  empty one back, replace one with a single child by that child.  The flag is an invalid access.
\<close>

definition shrink_node :: "art_slab \<Rightarrow> art_node \<Rightarrow> bool \<times> art_slab \<times> art_node option" where
  "shrink_node slab node =
     (case node of
        Node256 a hr cs n \<Rightarrow>
          if n = 48 then (case downgrade_node256_to_node48 slab node of (bad, slab1, smaller) \<Rightarrow>
            (bad, slab1, case smaller of None \<Rightarrow> Some node | Some _ \<Rightarrow> smaller))
          else (False, slab, Some node)
      | Node48 a hr ix cs n \<Rightarrow>
          if n = 16 then (case downgrade_node48_to_node16 slab node of (bad, slab1, smaller) \<Rightarrow>
            (bad, slab1, case smaller of None \<Rightarrow> Some node | Some _ \<Rightarrow> smaller))
          else (False, slab, Some node)
      | Node16 a hr n ks cs \<Rightarrow>
          if n = 4 then (case downgrade_node16_to_node4 slab node of (slab1, smaller) \<Rightarrow>
            (False, slab1, case smaller of None \<Rightarrow> Some node | Some _ \<Rightarrow> smaller))
          else (False, slab, Some node)
      | Node4 a hr n ks cs \<Rightarrow>
          if n = 0 then (False, release_node slab node, None)
          else if n = 1 then
            (case child_at cs 0 of
               None \<Rightarrow> (True, release_node slab node, None)
             | Some survivor \<Rightarrow>
                 (False, release_node slab node,
                  Some (if type_of survivor \<noteq> LEAF_NODE
                        then set_header (merge_prefix hr (ks ! 0) (header_of survivor)) survivor
                        else survivor)))
          else (False, slab, Some node)
      | ArtLeaf a k b v \<Rightarrow> (False, slab, Some node))"

text \<open>
  The node that takes the place of \<open>node\<close> in its parent, the flag \<open>*deleted\<close>, and the heap, the
  pools and the size of the tree.  Reading the key behind its terminator is a fault.
\<close>

type_synonym art_state = "heap \<times> art_slab \<times> size_t"

function recursive_delete :: "art_node \<Rightarrow> cstring \<Rightarrow> nat \<Rightarrow> art_state \<Rightarrow> art_node option \<times> bool \<times> art_state" where
  "recursive_delete node key depth st =
     (case node of
        ArtLeaf a k b v \<Rightarrow>
          if strcmp k key = 0
          then (None, True, (cdsa_free_track (fst st) (Some b), release_node (fst (snd st)) node, snd (snd st) - 1))
          else (Some node, False, st)
      | _ \<Rightarrow>
          let hr = header_of node;
              st0 = (set_fault (check_prefix_past hr key depth) (fst st), snd st) in
          if prefix_len hr > 0 \<and> check_prefix hr key depth \<noteq> min (prefix_len hr) 10 then (Some node, False, st0)
          else if prefix_len hr > 0 \<and> depth + prefix_len hr > length key then (None, False, st0)
          else
            let depth1 = depth + prefix_len hr;
                c = key_at key depth1;
                st1 = (set_fault (length key < depth1) (fst st0), snd st0)
            in (case next_child node c of
                  None \<Rightarrow> (Some node, False, st1)
                | Some child \<Rightarrow>
                    let (new_child, deleted, (h2, slab2, sz2)) = recursive_delete child key (depth1 + 1) st1;
                        node1 = set_child (the (find_child node c)) new_child node
                    in if deleted \<and> new_child = None
                       then let (bad, slab3, node2) = shrink_node slab2 (remove_child node1 c)
                            in (node2, deleted, (set_fault bad h2, slab3, sz2))
                       else (Some node1, deleted, (h2, slab2, sz2))))"
  by pat_completeness auto

termination
  by (relation "measure (\<lambda>(node, key, depth, st). size node)")
    (auto simp del: art_node.size dest: next_child_size)

declare recursive_delete.simps [simp del]

section \<open>The first leaf below a node\<close>

text \<open>
  One round of the loop of \<open>find_minimum_leaf\<close>: the pointer \<open>node\<close> moves on to, or nothing when
  the node has no child and the pointer stays where it is.
\<close>

fun minimum_step :: "art_node \<Rightarrow> art_node option option" where
  "minimum_step (ArtLeaf a k b v) = None"
| "minimum_step (Node4 a hr n ks cs) = Some (child_at cs 0)"
| "minimum_step (Node16 a hr n ks cs) = Some (child_at cs 0)"
| "minimum_step (Node48 a hr ix cs n) =
     map_option (\<lambda>i. child_at cs (unat (ix ! i))) (find (\<lambda>i. ix ! i \<noteq> ART_EMPTY_SLOT) [0..<256])"
| "minimum_step (Node256 a hr cs n) =
     map_option (\<lambda>i. child_at cs i) (find (\<lambda>i. child_at cs i \<noteq> None) [0..<256])"

text \<open>The key of the leaf; the inner option is a NULL pointer that was followed.\<close>

partial_function (option) find_minimum_leaf :: "art_node \<Rightarrow> cstring option option" where
  "find_minimum_leaf node =
     (if type_of node = LEAF_NODE then Some (Some (case node of ArtLeaf a k b v \<Rightarrow> k))
      else let nx = minimum_step node
           in if nx = None then find_minimum_leaf node
              else if the nx = None then Some None
              else find_minimum_leaf (the (the nx)))"

section \<open>Lifecycle\<close>

text \<open>\<open>version\<close> is not initialised: it is what libc left in the block, little endian.\<close>

definition word_of_bytes :: "bytes \<Rightarrow> size_t" where
  "word_of_bytes bs = of_nat (foldr (\<lambda>b n. unat b + 256 * n) bs 0)"

definition cdsa_create_art :: "heap \<Rightarrow> heap \<times> art_tree option" where
  "cdsa_create_art h =
     (let (h1, tree) = cdsa_malloc_track h sizeof_art_tree
      in case tree of
           None \<Rightarrow> (h1, None)
         | Some self \<Rightarrow>
             let (h2, slab) = art_slab_create h1 1024
             in case slab of
                  None \<Rightarrow> (cdsa_free_track h2 (Some self), None)
                | Some s \<Rightarrow>
                    (h2, Some \<lparr>art_self = self, art_root = None, art_size = 0,
                           art_version = word_of_bytes (bslice (fresh_bytes h1 self 32) 16 8),
                           slab_manager = s\<rparr>))"

definition cdsa_free_art :: "heap \<Rightarrow> art_tree option \<Rightarrow> heap" where
  "cdsa_free_art h tree =
     (case tree of
        None \<Rightarrow> h
      | Some t \<Rightarrow>
          let (h1, s1) = (case art_root t of None \<Rightarrow> (h, slab_manager t)
                          | Some node \<Rightarrow> cdsa_free_node node (h, slab_manager t))
          in cdsa_free_track (art_slab_destroy h1 (Some s1)) (Some (art_self t)))"

definition cdsa_size_art :: "art_tree option \<Rightarrow> size_t" where
  "cdsa_size_art tree = (case tree of None \<Rightarrow> 0 | Some t \<Rightarrow> art_size t)"

text \<open>The number of keys and the tree, between two rules; the flag is a write behind \<open>is_last\<close>.\<close>

definition print_art :: "art_tree option \<Rightarrow> (size_t \<times> print_item list \<times> bool) option" where
  "print_art tree =
     map_option (\<lambda>t. case art_root t of
         None \<Rightarrow> (art_size t, [], False)
       | Some node \<Rightarrow>
           (case print_node_visual node 0 0 (replicate 256 False) of (out, _, bad) \<Rightarrow> (art_size t, out, bad)))
       tree"

definition cdsa_delete_art :: "heap \<Rightarrow> art_tree option \<Rightarrow> cstring option \<Rightarrow> heap \<times> art_tree option \<times> cdsa_status" where
  "cdsa_delete_art h tree key =
     (case (tree, key) of
        (Some t, Some k) \<Rightarrow>
          (case art_root t of
             None \<Rightarrow> (h, tree, CDSA_ERR_NOT_FOUND)
           | Some node \<Rightarrow>
               (case recursive_delete node k 0 (h, slab_manager t, art_size t) of
                  (root, deleted, (h1, slab1, sz1)) \<Rightarrow>
                    (h1, Some (t\<lparr>art_root := root, slab_manager := slab1, art_size := sz1\<rparr>),
                     if deleted then CDSA_OK else CDSA_ERR_NOT_FOUND)))
      | _ \<Rightarrow> (h, tree, CDSA_ERR_INVALID))"

section \<open>Insertion\<close>

fun common_length :: "cstring \<Rightarrow> cstring \<Rightarrow> nat" where
  "common_length (a # as) (b # bs) = (if a = b then Suc (common_length as bs) else 0)"
| "common_length as bs = 0"

text \<open>\<open>(uint32_t)(i - depth)\<close>, which wraps when the key left the path before \<open>depth\<close>.\<close>

definition shared_length :: "nat \<Rightarrow> nat \<Rightarrow> nat" where
  "shared_length i depth = (if depth \<le> i then i - depth else 2 ^ 32 - (depth - i))"

text \<open>The branch for a leaf: a new value for the same key, or a new \<open>Node4\<close> above both leaves.\<close>

definition insert_at_leaf :: "art_node \<Rightarrow> cstring \<Rightarrow> pointer option \<Rightarrow> nat \<Rightarrow> art_state \<Rightarrow>
    art_node \<times> art_state \<times> cdsa_status" where
  "insert_at_leaf leaf key val depth st =
     (case leaf of
        ArtLeaf a k b v \<Rightarrow>
          let i = common_length k key; (h, slab, sz) = st in
          if i = length k \<and> i = length key then (ArtLeaf a k b val, st, CDSA_OK)
          else (case alloc_node4 slab of
             (slab1, Some (Node4 a4 hr0 _ ks0 cs0)) \<Rightarrow>
               let hr = save_prefix hr0 (shared_length i depth) key depth
               in (case alloc_leaf h slab1 key val of
                     (h1, slab2, None) \<Rightarrow>
                       (leaf, (h1, slab2\<lparr>pool_node4 := kpool_free (pool_node4 slab2) (Some a4)\<rparr>, sz), CDSA_ERR_OOM)
                   | (h1, slab2, Some new_leaf) \<Rightarrow>
                       (Node4 a4 hr 2 (ks0[0 := key_at k i, 1 := key_at key i])
                          (cs0[0 := Some leaf, 1 := Some new_leaf]),
                        (h1, slab2, sz + 1), CDSA_OK))
           | (slab1, _) \<Rightarrow> (leaf, (h, slab1, sz), CDSA_ERR_OOM))
      | _ \<Rightarrow> (leaf, st, CDSA_ERR_INVALID))"

text \<open>The loop that compares a prefix beyond its ten stored bytes with a leaf's key.\<close>

function extend_match :: "nat \<Rightarrow> cstring \<Rightarrow> cstring \<Rightarrow> nat \<Rightarrow> nat \<Rightarrow> nat" where
  "extend_match len key lk depth m =
     (if m < len \<and> key_at key (depth + m) \<noteq> 0 \<and> key_at key (depth + m) = key_at lk (depth + m)
      then extend_match len key lk depth (Suc m) else m)"
  by pat_completeness auto

termination
  by (relation "measure (\<lambda>(len, key, lk, depth, m). len - m)") auto

declare extend_match.simps [simp del]

text \<open>
  How much of the node's prefix the key matches; the flag is a read of the key behind its terminator
  or a NULL pointer that was followed.
\<close>

definition match_prefix :: "art_node \<Rightarrow> cstring \<Rightarrow> nat \<Rightarrow> (bool \<times> nat) option" where
  "match_prefix node key depth =
     (let hr = header_of node; m = check_prefix hr key depth; past = check_prefix_past hr key depth in
      if m = min (prefix_len hr) 10 \<and> prefix_len hr > 10
      then map_option (\<lambda>r. case r of None \<Rightarrow> (True, m)
             | Some lk \<Rightarrow> (past, extend_match (prefix_len hr) key lk depth m)) (find_minimum_leaf node)
      else Some (past, m))"

text \<open>The branch for a prefix that the key leaves: a new \<open>Node4\<close> where they part.\<close>

definition split_prefix :: "art_node \<Rightarrow> cstring \<Rightarrow> pointer option \<Rightarrow> nat \<Rightarrow> nat \<Rightarrow> art_state \<Rightarrow>
    (art_node \<times> art_state \<times> cdsa_status) option" where
  "split_prefix node key val depth m st =
     (let (h, slab, sz) = st in
      case alloc_node4 slab of
        (slab1, Some (Node4 a4 hr0 _ ks0 cs0)) \<Rightarrow>
          (case alloc_leaf h slab1 key val of
             (h1, slab2, None) \<Rightarrow>
               Some (node, (h1, slab2\<lparr>pool_node4 := kpool_free (pool_node4 slab2) (Some a4)\<rparr>, sz), CDSA_ERR_OOM)
           | (h1, slab2, Some new_leaf) \<Rightarrow>
               (case find_minimum_leaf node of
                  None \<Rightarrow> None
                | Some None \<Rightarrow> Some (node, (set_fault True h1, slab2, sz), CDSA_ERR_INVALID)
                | Some (Some lk) \<Rightarrow>
                    let old_char = key_at lk (depth + m);
                        hr = header_of node;
                        node1 = set_header (save_prefix hr (prefix_len hr - (m + 1)) lk (depth + m + 1)) node
                    in Some (Node4 a4 (save_prefix hr0 m key depth) 2
                               (ks0[0 := old_char, 1 := key_at key (m + depth)])
                               (cs0[0 := Some node1, 1 := Some new_leaf]),
                             (h1, slab2, sz + 1), CDSA_OK)))
      | (slab1, _) \<Rightarrow> Some (node, (h, slab1, sz), CDSA_ERR_OOM))"

text \<open>Storing a new child in a node that has room for it.\<close>

fun append_child :: "art_node \<Rightarrow> byte \<Rightarrow> art_node \<Rightarrow> art_node" where
  "append_child (Node4 a hr n ks cs) c t = Node4 a hr (n + 1) (ks[n := c]) (cs[n := Some t])"
| "append_child (Node16 a hr n ks cs) c t = Node16 a hr (n + 1) (ks[n := c]) (cs[n := Some t])"
| "append_child (Node48 a hr ix cs n) c t = Node48 a hr (ix[unat c := of_nat n]) (cs[n := Some t]) (n + 1)"
| "append_child (Node256 a hr cs n) c t = Node256 a hr (cs[unat c := Some t]) (n + 1)"
| "append_child (ArtLeaf a k b v) c t = ArtLeaf a k b v"

definition place_leaf :: "art_node \<Rightarrow> (art_node \<Rightarrow> art_node) \<Rightarrow> cstring \<Rightarrow> pointer option \<Rightarrow> art_state \<Rightarrow>
    art_node \<times> art_state \<times> cdsa_status" where
  "place_leaf node place key val st =
     (case st of (h, slab, sz) \<Rightarrow>
        (case alloc_leaf h slab key val of
           (h1, slab1, None) \<Rightarrow> (node, (h1, slab1, sz), CDSA_ERR_OOM)
         | (h1, slab1, Some leaf) \<Rightarrow> (place leaf, (h1, slab1, sz + 1), CDSA_OK)))"

text \<open>The branch for a full node: the next larger node takes over, then the leaf is stored.\<close>

definition grow_and_place :: "(art_slab \<Rightarrow> art_node \<Rightarrow> art_slab \<times> art_node option) \<Rightarrow> art_node \<Rightarrow> byte \<Rightarrow>
    cstring \<Rightarrow> pointer option \<Rightarrow> art_state \<Rightarrow> art_node \<times> art_state \<times> cdsa_status" where
  "grow_and_place upgrade node c key val st =
     (case st of (h, slab, sz) \<Rightarrow>
        (case upgrade slab node of
           (slab1, None) \<Rightarrow> (node, (h, slab1, sz), CDSA_ERR_OOM)
         | (slab1, Some big) \<Rightarrow> place_leaf big (append_child big c) key val (h, slab1, sz)))"

text \<open>The branches for a byte the node has no child for.\<close>

definition add_child :: "art_node \<Rightarrow> byte \<Rightarrow> cstring \<Rightarrow> pointer option \<Rightarrow> art_state \<Rightarrow>
    art_node \<times> art_state \<times> cdsa_status" where
  "add_child node c key val st =
     (case node of
        Node4 a hr n ks cs \<Rightarrow>
          if n < 4 then place_leaf node (append_child node c) key val st
          else grow_and_place upgrade_node4_to_node16 node c key val st
      | Node16 a hr n ks cs \<Rightarrow>
          if n < 16 then place_leaf node (append_child node c) key val st
          else grow_and_place upgrade_node16_to_node48 node c key val st
      | Node48 a hr ix cs n \<Rightarrow>
          if n < 48 then
            let free_idx = (case find (\<lambda>i. child_at cs i = None) [0..<48] of None \<Rightarrow> 48 | Some i \<Rightarrow> i)
            in (case place_leaf node
                  (\<lambda>t. Node48 a hr (ix[unat c := of_nat free_idx]) (cs[free_idx := Some t]) (n + 1)) key val st of
                  (node1, (h1, slab1, sz1), status) \<Rightarrow>
                    (node1, (set_fault (status = CDSA_OK \<and> free_idx = 48) h1, slab1, sz1), status))
          else grow_and_place upgrade_node48_to_node256 node c key val st
      | Node256 a hr cs n \<Rightarrow> place_leaf node (append_child node c) key val st
      | ArtLeaf a k b v \<Rightarrow> (node, st, CDSA_ERR_INVALID))"

text \<open>
  The loop over \<open>current_ptr\<close>: the new content of \<open>*current_ptr\<close>, the heap, the pools and the
  size, and the status.
\<close>

function insert_node :: "art_node option \<Rightarrow> cstring \<Rightarrow> pointer option \<Rightarrow> nat \<Rightarrow> art_state \<Rightarrow>
    (art_node option \<times> art_state \<times> cdsa_status) option" where
  "insert_node cur key val depth st =
     (case cur of
        None \<Rightarrow> Some (None, st, CDSA_ERR_INVALID)
      | Some node \<Rightarrow>
          if type_of node = LEAF_NODE
          then Some (apfst Some (insert_at_leaf node key val depth st))
          else
            let hr = header_of node in
            (case (if prefix_len hr > 0 then match_prefix node key depth else Some (False, 0)) of
               None \<Rightarrow> None
             | Some (bad, m) \<Rightarrow>
                 let st0 = (set_fault bad (fst st), snd st) in
                 if m < prefix_len hr
                 then map_option (apfst Some) (split_prefix node key val depth m st0)
                 else if prefix_len hr > 0 \<and> depth + prefix_len hr > length key
                 then Some (Some node, st0, CDSA_ERR_INVALID)
                 else
                   let depth1 = depth + prefix_len hr;
                       c = key_at key depth1;
                       st1 = (set_fault (length key < depth1) (fst st0), snd st0)
                   in (case find_child node c of
                         None \<Rightarrow> Some (apfst Some (add_child node c key val st1))
                       | Some i \<Rightarrow>
                           if type_of node = NODE256 \<and> child_at (children_of node) i = None
                           then Some (apfst Some (add_child node c key val st1))
                           else (case insert_node (child_at (children_of node) i) key val (depth1 + 1) st1 of
                                   None \<Rightarrow> None
                                 | Some (t, st2, status) \<Rightarrow> Some (Some (set_child i t node), st2, status)))))"
  by pat_completeness auto

termination
  by (relation "measure (\<lambda>(cur, key, val, depth, st). case cur of None \<Rightarrow> 0 | Some n \<Rightarrow> Suc (size n))")
    (auto simp del: art_node.size dest!: child_at_size split: option.splits)

declare insert_node.simps [simp del]

definition insert_art_internal :: "heap \<Rightarrow> art_tree option \<Rightarrow> cstring option \<Rightarrow> pointer option \<Rightarrow>
    (heap \<times> art_tree option \<times> cdsa_status) option" where
  "insert_art_internal h tree key val =
     (case (tree, key) of
        (Some t, Some k) \<Rightarrow>
          (case art_root t of
             None \<Rightarrow>
               Some (case alloc_leaf h (slab_manager t) k val of
                  (h1, slab1, None) \<Rightarrow> (h1, Some (t\<lparr>slab_manager := slab1\<rparr>), CDSA_ERR_OOM)
                | (h1, slab1, Some leaf) \<Rightarrow>
                    (h1, Some (t\<lparr>art_root := Some leaf, slab_manager := slab1, art_size := art_size t + 1\<rparr>), CDSA_OK))
           | Some node \<Rightarrow>
               map_option (\<lambda>(root, (h1, slab1, sz1), status).
                   (h1, Some (t\<lparr>art_root := root, slab_manager := slab1, art_size := sz1\<rparr>), status))
                 (insert_node (Some node) k val 0 (h, slab_manager t, art_size t)))
      | _ \<Rightarrow> Some (h, tree, CDSA_ERR_INVALID))"

definition cdsa_insert_art :: "heap \<Rightarrow> art_tree option \<Rightarrow> cstring option \<Rightarrow> pointer option \<Rightarrow>
    (heap \<times> art_tree option \<times> cdsa_status) option" where
  "cdsa_insert_art h tree key val =
     map_option (\<lambda>(h1, tree1, status).
         (h1, if status = CDSA_OK then map_option (\<lambda>t. t\<lparr>art_version := art_version t + 1\<rparr>) tree1 else tree1,
          status))
       (insert_art_internal h tree key val)"

section \<open>Search\<close>

text \<open>The value; the flag is a read of the key behind its terminator.\<close>

function search_node :: "art_node \<Rightarrow> cstring \<Rightarrow> nat \<Rightarrow> bool \<times> pointer option" where
  "search_node node key depth =
     (case node of
        ArtLeaf a k b v \<Rightarrow> (False, if strcmp k key = 0 then v else None)
      | _ \<Rightarrow>
          let hr = header_of node; past = check_prefix_past hr key depth in
          if prefix_len hr > 0 \<and> check_prefix hr key depth \<noteq> min (prefix_len hr) 10 then (past, None)
          else if prefix_len hr > 0 \<and> depth + prefix_len hr > length key then (past, None)
          else
            let depth1 = depth + prefix_len hr; c = key_at key depth1
            in (case next_child node c of
                  None \<Rightarrow> (past \<or> length key < depth1, None)
                | Some child \<Rightarrow>
                    (case search_node child key (depth1 + 1) of
                       (bad, v) \<Rightarrow> (past \<or> length key < depth1 \<or> bad, v))))"
  by pat_completeness auto

termination
  by (relation "measure (\<lambda>(node, key, depth). size node)")
    (auto simp del: art_node.size dest: next_child_size)

declare search_node.simps [simp del]

definition cdsa_search_art :: "heap \<Rightarrow> art_tree option \<Rightarrow> cstring option \<Rightarrow> heap \<times> pointer option" where
  "cdsa_search_art h tree key =
     (case (tree, key) of
        (Some t, Some k) \<Rightarrow>
          (case art_root t of
             None \<Rightarrow> (h, None)
           | Some node \<Rightarrow> (case search_node node k 0 of (bad, v) \<Rightarrow> (set_fault bad h, v)))
      | _ \<Rightarrow> (h, None))"

section \<open>The iterator\<close>

text \<open>
  A pointer to a node is its type, which tells the pool, and its place there; it leads to the node
  of the tree that is there now.  The stack holds at most 512 frames, its head is the top.
\<close>

type_synonym node_pointer = "node_type \<times> slot"

record art_iterator =
  ai_self :: block_id
  ai_stack :: "(node_pointer \<times> nat) list"
  ai_snapshot :: size_t
  ai_next_value :: "pointer option"

definition ART_MAX_DEPTH :: nat where "ART_MAX_DEPTH = 512"
definition sizeof_art_iterator :: size_t where "sizeof_art_iterator = 8224"

definition pointer_to :: "art_node \<Rightarrow> node_pointer" where
  "pointer_to node = (type_of node, slot_of node)"

fun nodes_of :: "art_node \<Rightarrow> art_node list" where
  "nodes_of node = node # concat (map (\<lambda>e. case snd e of None \<Rightarrow> [] | Some t \<Rightarrow> nodes_of t) (edges node))"

definition node_at :: "art_node option \<Rightarrow> node_pointer \<Rightarrow> art_node option" where
  "node_at root p = (case root of None \<Rightarrow> None | Some node \<Rightarrow> find (\<lambda>t. pointer_to t = p) (nodes_of node))"

text \<open>The next child from index \<open>idx\<close> on, and the index the frame moves to.\<close>

fun next_unvisited :: "art_node \<Rightarrow> nat \<Rightarrow> art_node option \<times> nat" where
  "next_unvisited (ArtLeaf a k b v) idx = (None, idx)"
| "next_unvisited (Node4 a hr n ks cs) idx = (if idx < n then (child_at cs idx, Suc idx) else (None, idx))"
| "next_unvisited (Node16 a hr n ks cs) idx = (if idx < n then (child_at cs idx, Suc idx) else (None, idx))"
| "next_unvisited (Node48 a hr ix cs n) idx =
     (case find (\<lambda>i. ix ! i \<noteq> ART_EMPTY_SLOT) [idx..<256] of
        None \<Rightarrow> (None, 256) | Some i \<Rightarrow> (child_at cs (unat (ix ! i)), Suc i))"
| "next_unvisited (Node256 a hr cs n) idx =
     (case find (\<lambda>i. child_at cs i \<noteq> None) [idx..<256] of
        None \<Rightarrow> (None, 256) | Some i \<Rightarrow> (child_at cs i, Suc i))"

text \<open>
  The loop that drives the walk to the next leaf: the stack and the value it has found.  The flag is
  an invalid access: a frame whose node is no longer in the tree, or a push onto a full stack.
\<close>

partial_function (option) advance_art_iterator :: "art_node option \<Rightarrow> (node_pointer \<times> nat) list \<Rightarrow>
    (bool \<times> (node_pointer \<times> nat) list \<times> pointer option) option" where
  "advance_art_iterator root stack =
     (if stack = [] then Some (False, [], None)
      else let frame = hd stack; node = node_at root (fst frame)
           in if node = None then Some (True, stack, None)
              else if type_of (the node) = LEAF_NODE
              then Some (False, tl stack, case the node of ArtLeaf a k b v \<Rightarrow> v)
              else let nx = next_unvisited (the node) (snd frame)
                   in if fst nx = None then advance_art_iterator root (tl stack)
                      else if ART_MAX_DEPTH \<le> length stack then Some (True, stack, None)
                      else advance_art_iterator root
                             ((pointer_to (the (fst nx)), 0) # (fst frame, snd nx) # tl stack))"

definition cdsa_create_art_iterator :: "heap \<Rightarrow> art_tree option \<Rightarrow> (heap \<times> art_iterator option) option" where
  "cdsa_create_art_iterator h tree =
     (case tree of
        None \<Rightarrow> Some (h, None)
      | Some t \<Rightarrow>
          (case cdsa_malloc_track h sizeof_art_iterator of
             (h1, None) \<Rightarrow> Some (h1, None)
           | (h1, Some self) \<Rightarrow>
               (case art_root t of
                  None \<Rightarrow> Some (h1, Some \<lparr>ai_self = self, ai_stack = [], ai_snapshot = art_version t,
                                        ai_next_value = None\<rparr>)
                | Some node \<Rightarrow>
                    map_option (\<lambda>(bad, stack, v).
                        (set_fault bad h1, Some \<lparr>ai_self = self, ai_stack = stack,
                           ai_snapshot = art_version t, ai_next_value = v\<rparr>))
                      (advance_art_iterator (art_root t) [(pointer_to node, 0)]))))"

definition cdsa_has_next_art :: "art_tree \<Rightarrow> art_iterator option \<Rightarrow> bool" where
  "cdsa_has_next_art t iter =
     (case iter of
        None \<Rightarrow> False
      | Some i \<Rightarrow> if art_version t \<noteq> ai_snapshot i then False else ai_next_value i \<noteq> None)"

text \<open>\<open>want\<close> says that \<open>out_value\<close> is not NULL.\<close>

definition cdsa_next_art :: "heap \<Rightarrow> art_tree \<Rightarrow> art_iterator option \<Rightarrow> bool \<Rightarrow>
    (heap \<times> art_iterator option \<times> cdsa_status \<times> pointer option) option" where
  "cdsa_next_art h t iter want =
     (case iter of
        None \<Rightarrow> Some (h, iter, CDSA_ERR_INVALID, None)
      | Some i \<Rightarrow>
          if \<not> want then Some (h, iter, CDSA_ERR_INVALID, None)
          else if art_version t \<noteq> ai_snapshot i then Some (h, iter, CDSA_ERR_ITER_INVALIDATED, None)
          else if ai_next_value i = None then Some (h, iter, CDSA_ERR_NOT_FOUND, None)
          else map_option (\<lambda>(bad, stack, v).
                 (set_fault bad h, Some (i\<lparr>ai_stack := stack, ai_next_value := v\<rparr>), CDSA_OK, ai_next_value i))
               (advance_art_iterator (art_root t) (ai_stack i)))"

definition cdsa_free_art_iterator :: "heap \<Rightarrow> art_iterator option \<Rightarrow> heap" where
  "cdsa_free_art_iterator h iter = cdsa_free_track h (map_option ai_self iter)"

lemma art_null [null_simps]:
  "insert_art_internal h None k v = Some (h, None, CDSA_ERR_INVALID)"
  "insert_art_internal h t None v = Some (h, t, CDSA_ERR_INVALID)"
  "cdsa_insert_art h None k v = Some (h, None, CDSA_ERR_INVALID)"
  "cdsa_insert_art h t None v = Some (h, t, CDSA_ERR_INVALID)"
  "cdsa_delete_art h None k = (h, None, CDSA_ERR_INVALID)"
  "cdsa_delete_art h t None = (h, t, CDSA_ERR_INVALID)"
  "cdsa_search_art h None k = (h, None)" "cdsa_search_art h t None = (h, None)"
  "cdsa_free_art h None = h" "cdsa_size_art None = 0" "print_art None = None"
  "cdsa_create_art_iterator h None = Some (h, None)" "\<not> cdsa_has_next_art tr None"
  "cdsa_next_art h tr None w = Some (h, None, CDSA_ERR_INVALID, None)"
  "cdsa_free_art_iterator h None = h" "art_slab_destroy h None = h"
  by (simp_all add: insert_art_internal_def cdsa_insert_art_def cdsa_delete_art_def cdsa_search_art_def
      cdsa_free_art_def cdsa_size_art_def print_art_def cdsa_create_art_iterator_def cdsa_has_next_art_def
      cdsa_next_art_def cdsa_free_art_iterator_def art_slab_destroy_def split: option.splits)

end
