(* ===== verification/Art_Nodes.thy ===== *)
theory Art_Nodes
  imports Art
begin

text \<open>
  The four node layouts as maps from bytes to children: what finding, storing, replacing and
  removing a child do to that map, and that growing and shrinking leave it alone.
\<close>

lemma child_at_update:
  "child_at (cs[i := t]) j = (if j = i \<and> i < length cs then t else child_at cs j)"
  by (auto simp: child_at_def nth_list_update)

section \<open>Rows: the two small nodes\<close>

lemma find_key_Some:
  "find_key n ks c = Some i \<longleftrightarrow> i < n \<and> ks ! i = c \<and> (\<forall>j < i. ks ! j \<noteq> c)"
  by (auto simp: find_key_def find_Some_iff)

lemma find_key_None: "find_key n ks c = None \<longleftrightarrow> (\<forall>i < n. ks ! i \<noteq> c)"
  by (auto simp: find_key_def find_None_iff)

text \<open>\<open>n\<close> keys with their children; \<open>row_ok m\<close>: in arrays of \<open>m\<close> entries.\<close>

definition row_child :: "nat \<Rightarrow> bytes \<Rightarrow> art_node option list \<Rightarrow> byte \<Rightarrow> art_node option" where
  "row_child n ks cs c = (case find_key n ks c of None \<Rightarrow> None | Some i \<Rightarrow> child_at cs i)"

definition row_ok :: "nat \<Rightarrow> nat \<Rightarrow> bytes \<Rightarrow> art_node option list \<Rightarrow> bool" where
  "row_ok m n ks cs \<longleftrightarrow> length ks = m \<and> length cs = m \<and> n \<le> m \<and>
     (\<forall>i < n. \<forall>j < n. ks ! i = ks ! j \<longrightarrow> i = j) \<and> (\<forall>i < n. cs ! i \<noteq> None)"

lemma row_inj: "row_ok m n ks cs \<Longrightarrow> i < n \<Longrightarrow> j < n \<Longrightarrow> ks ! i = ks ! j \<Longrightarrow> i = j"
  by (auto simp: row_ok_def)

lemma row_some: "row_ok m n ks cs \<Longrightarrow> i < n \<Longrightarrow> \<exists>t. cs ! i = Some t"
  by (auto simp: row_ok_def)

lemma row_find:
  assumes "row_ok m n ks cs" and "i < n"
  shows "find_key n ks (ks ! i) = Some i"
proof -
  have "ks ! j \<noteq> ks ! i" if "j < i" for j using row_inj [OF assms(1), of j i] assms(2) that by auto
  then show ?thesis using assms(2) by (simp add: find_key_Some)
qed

lemma find_key_unique:
  "find_key n ks c = Some i \<Longrightarrow> find_key n ks d = Some j \<Longrightarrow> j = i \<longleftrightarrow> d = c"
  by (metis find_key_Some option.inject)

lemma row_child_nth:
  assumes "row_ok m n ks cs" and "i < n"
  shows "row_child n ks cs (ks ! i) = cs ! i"
  using assms row_find [OF assms] by (simp add: row_child_def child_at_def row_ok_def)

lemma row_child_iff:
  assumes "row_ok m n ks cs"
  shows "row_child n ks cs c = Some t \<longleftrightarrow> (\<exists>i < n. ks ! i = c \<and> cs ! i = Some t)"
proof
  assume "row_child n ks cs c = Some t"
  then obtain i where i: "find_key n ks c = Some i" "child_at cs i = Some t"
    by (auto simp: row_child_def split: option.splits)
  then show "\<exists>i < n. ks ! i = c \<and> cs ! i = Some t"
    by (auto simp: find_key_Some child_at_def split: if_splits)
next
  assume "\<exists>i < n. ks ! i = c \<and> cs ! i = Some t"
  then show "row_child n ks cs c = Some t" using row_child_nth [OF assms] by auto
qed

lemma row_child_None:
  assumes "row_ok m n ks cs"
  shows "row_child n ks cs c = None \<longleftrightarrow> find_key n ks c = None"
proof (cases "find_key n ks c")
  case (Some i)
  then have "i < n" "ks ! i = c" by (simp_all add: find_key_Some)
  then show ?thesis using row_child_nth [OF assms] row_some [OF assms] Some by fastforce
qed (simp add: row_child_def)

lemma row_dom:
  assumes "row_ok m n ks cs"
  shows "dom (row_child n ks cs) = (!) ks ` {..<n}"
proof (rule set_eqI)
  fix c
  show "c \<in> dom (row_child n ks cs) \<longleftrightarrow> c \<in> (!) ks ` {..<n}"
    using row_child_iff [OF assms, of c] row_some [OF assms] by (fastforce simp: dom_def)
qed

lemma row_count:
  assumes "row_ok m n ks cs"
  shows "card (dom (row_child n ks cs)) = n"
proof -
  have "inj_on ((!) ks) {..<n}" using assms by (auto simp: inj_on_def row_ok_def)
  then show ?thesis by (simp add: row_dom [OF assms] card_image)
qed

lemma row_update:
  assumes "row_ok m n ks cs" and "find_key n ks c = Some i"
  shows "row_child n ks (cs[i := t]) = (row_child n ks cs)(c := t)"
    and "t \<noteq> None \<Longrightarrow> row_ok m n ks (cs[i := t])"
proof -
  show "row_child n ks (cs[i := t]) = (row_child n ks cs)(c := t)"
  proof
    fix d
    show "row_child n ks (cs[i := t]) d = ((row_child n ks cs)(c := t)) d"
    proof (cases "find_key n ks d")
      case (Some j)
      then have "j = i \<longleftrightarrow> d = c" by (rule find_key_unique [OF assms(2)])
      moreover have "i < length cs" using assms by (simp add: row_ok_def find_key_Some)
      ultimately show ?thesis using Some by (auto simp: row_child_def child_at_def nth_list_update)
    qed (use assms(2) in \<open>auto simp: row_child_def\<close>)
  qed
  show "t \<noteq> None \<Longrightarrow> row_ok m n ks (cs[i := t])"
    unfolding row_ok_def
    using row_inj [OF assms(1)] row_some [OF assms(1)] assms
    by (auto simp: row_ok_def nth_list_update find_key_Some split: if_splits)
qed

lemma row_append:
  assumes "row_ok m n ks cs" and "find_key n ks c = None" and "n < m"
  shows "row_ok m (n + 1) (ks[n := c]) (cs[n := Some t])"
    and "row_child (n + 1) (ks[n := c]) (cs[n := Some t]) = (row_child n ks cs)(c \<mapsto> t)"
proof -
  show ok: "row_ok m (n + 1) (ks[n := c]) (cs[n := Some t])"
    using assms by (auto simp: row_ok_def find_key_None nth_list_update less_Suc_eq)
  show "row_child (n + 1) (ks[n := c]) (cs[n := Some t]) = (row_child n ks cs)(c \<mapsto> t)"
  proof
    fix d
    have "row_child (n + 1) (ks[n := c]) (cs[n := Some t]) d = Some u \<longleftrightarrow>
        ((row_child n ks cs)(c \<mapsto> t)) d = Some u" for u
    proof -
      have "row_child (n + 1) (ks[n := c]) (cs[n := Some t]) d = Some u \<longleftrightarrow>
          (\<exists>i < n. ks ! i = d \<and> cs ! i = Some u) \<or> c = d \<and> t = u"
        unfolding row_child_iff [OF ok]
        using assms(1,3) by (auto simp: row_ok_def nth_list_update less_Suc_eq)
      then show ?thesis
        using assms(2) row_child_iff [OF assms(1), of d u] by (auto simp: find_key_None)
    qed
    then show "row_child (n + 1) (ks[n := c]) (cs[n := Some t]) d = ((row_child n ks cs)(c \<mapsto> t)) d"
      by (metis not_None_eq)
  qed
qed

text \<open>The loop that closes a gap.\<close>

lemma shift_loop_nth:
  "fold (\<lambda>i (ks, cs). (ks[i := ks ! Suc i], cs[i := child_at cs (Suc i)])) [pos..<e] (ks, cs) = (ks', cs') \<Longrightarrow>
    e < length ks \<Longrightarrow> length cs = length ks \<Longrightarrow>
    length ks' = length ks \<and> length cs' = length cs \<and>
    (\<forall>j < length ks. ks' ! j = (if pos \<le> j \<and> j < e then ks ! Suc j else ks ! j)) \<and>
    (\<forall>j < length ks. cs' ! j = (if pos \<le> j \<and> j < e then cs ! Suc j else cs ! j))"
proof (induction e arbitrary: ks' cs')
  case 0
  then show ?case by simp
next
  case (Suc e)
  show ?case
  proof (cases "pos \<le> e")
    case True
    obtain ks1 cs1 where f: "fold (\<lambda>i (ks, cs). (ks[i := ks ! Suc i], cs[i := child_at cs (Suc i)])) [pos..<e] (ks, cs) =
        (ks1, cs1)" by fastforce
    have ks': "ks' = ks1[e := ks1 ! Suc e]" "cs' = cs1[e := child_at cs1 (Suc e)]"
      using Suc.prems(1) True f by simp_all
    have ih: "length ks1 = length ks" "length cs1 = length cs"
        "\<And>j. j < length ks \<Longrightarrow> ks1 ! j = (if pos \<le> j \<and> j < e then ks ! Suc j else ks ! j)"
        "\<And>j. j < length ks \<Longrightarrow> cs1 ! j = (if pos \<le> j \<and> j < e then cs ! Suc j else cs ! j)"
      using Suc.IH [OF f] Suc.prems(2,3) by auto
    show ?thesis
      using ih(1,2) ih(3) [of "Suc e"] ih(4) [of "Suc e"] ih(3,4) Suc.prems(2,3) True
      by (auto simp: ks' nth_list_update child_at_def less_Suc_eq)
  next
    case False
    then show ?thesis using Suc.prems by auto
  qed
qed

lemma row_remove:
  assumes "row_ok m n ks cs" and "find_key n ks c = Some pos" and "shift_out pos n (ks, cs[pos := t]) = (ks', cs')"
  shows "row_ok m (n - 1) ks' cs'" and "row_child (n - 1) ks' cs' = (row_child n ks cs)(c := None)"
proof -
  have p: "pos < n" "ks ! pos = c" and r: "length ks = m" "length cs = m" "n \<le> m"
      "\<And>i j. i < n \<Longrightarrow> j < n \<Longrightarrow> ks ! i = ks ! j \<Longrightarrow> i = j" "\<And>i. i < n \<Longrightarrow> cs ! i \<noteq> None"
    using assms(1,2) by (auto simp: row_ok_def find_key_Some)
  from shift_loop_nth [OF assms(3) [unfolded shift_out_def]] p r
  have s: "length ks' = m" "length cs' = m"
      "\<And>j. j < n - 1 \<Longrightarrow> ks' ! j = ks ! (if j < pos then j else Suc j)"
      "\<And>j. j < n - 1 \<Longrightarrow> cs' ! j = cs ! (if j < pos then j else Suc j)"
    by (auto simp: nth_list_update)
  show ok: "row_ok m (n - 1) ks' cs'"
    unfolding row_ok_def
  proof (intro conjI allI impI)
    fix i j assume ij: "i < n - 1" "j < n - 1" "ks' ! i = ks' ! j"
    let ?f = "\<lambda>i. if i < pos then i else Suc i"
    have "?f i < n" "?f j < n" using ij(1,2) by auto
    moreover have "ks ! ?f i = ks ! ?f j" using ij s(3) by metis
    ultimately have "?f i = ?f j" by (rule r(4))
    then show "i = j" by (auto split: if_splits)
  next
    fix i assume "i < n - 1"
    then show "cs' ! i \<noteq> None" using s(4) r(5) by auto
  qed (use s r in auto)
  show "row_child (n - 1) ks' cs' = (row_child n ks cs)(c := None)"
  proof
    fix d
    have "row_child (n - 1) ks' cs' d = Some u \<longleftrightarrow> ((row_child n ks cs)(c := None)) d = Some u" for u
    proof -
      have "(\<exists>i < n - 1. ks' ! i = d \<and> cs' ! i = Some u) \<longleftrightarrow>
          (\<exists>i < n. i \<noteq> pos \<and> ks ! i = d \<and> cs ! i = Some u)"
      proof
        assume "\<exists>i < n - 1. ks' ! i = d \<and> cs' ! i = Some u"
        then obtain i where "i < n - 1" "ks' ! i = d" "cs' ! i = Some u" by blast
        then show "\<exists>i < n. i \<noteq> pos \<and> ks ! i = d \<and> cs ! i = Some u"
          using s(3,4) [of i] by (intro exI [of _ "if i < pos then i else Suc i"]) auto
      next
        assume "\<exists>i < n. i \<noteq> pos \<and> ks ! i = d \<and> cs ! i = Some u"
        then obtain i where i: "i < n" "i \<noteq> pos" "ks ! i = d" "cs ! i = Some u" by blast
        let ?j = "if i < pos then i else i - 1"
        have "?j < n - 1" using i p by auto
        then show "\<exists>i < n - 1. ks' ! i = d \<and> cs' ! i = Some u"
          using s(3,4) [of ?j] i by (intro exI [of _ ?j]) (auto split: if_splits)
      qed
      also have "\<dots> \<longleftrightarrow> d \<noteq> c \<and> (\<exists>i < n. ks ! i = d \<and> cs ! i = Some u)"
        using p r(4) by auto
      finally show ?thesis
        unfolding row_child_iff [OF ok] fun_upd_apply using row_child_iff [OF assms(1)] by auto
    qed
    then show "row_child (n - 1) ks' cs' d = ((row_child n ks cs)(c := None)) d" by (metis not_None_eq)
  qed
qed

text \<open>The loop that copies a row into a new node.\<close>

lemma copy_loop_nth:
  "fold (\<lambda>i (ks', cs'). (ks'[i := ks ! i], cs'[i := child_at cs i])) [0..<n] (ks0, cs0) = (ks', cs') \<Longrightarrow>
    n \<le> length ks0 \<Longrightarrow> n \<le> length cs0 \<Longrightarrow>
    length ks' = length ks0 \<and> length cs' = length cs0 \<and>
    (\<forall>i < n. ks' ! i = ks ! i \<and> cs' ! i = child_at cs i)"
proof (induction n arbitrary: ks' cs')
  case (Suc n)
  obtain ks1 cs1 where f: "fold (\<lambda>i (ks', cs'). (ks'[i := ks ! i], cs'[i := child_at cs i])) [0..<n] (ks0, cs0) =
      (ks1, cs1)" by fastforce
  have "ks' = ks1[n := ks ! n]" "cs' = cs1[n := child_at cs n]" using Suc.prems(1) f by simp_all
  then show ?case using Suc.IH [OF f] Suc.prems(2,3) by (auto simp: nth_list_update less_Suc_eq)
qed simp

lemma row_copy:
  assumes "row_ok m n ks cs" and "n \<le> m'" and "length ks0 = m'" and "length cs0 = m'"
    and "fold (\<lambda>i (ks', cs'). (ks'[i := ks ! i], cs'[i := child_at cs i])) [0..<n] (ks0, cs0) = (ks', cs')"
  shows "row_ok m' n ks' cs'" and "row_child n ks' cs' = row_child n ks cs"
proof -
  from copy_loop_nth [OF assms(5)] assms
  have s: "length ks' = m'" "length cs' = m'" "\<And>i. i < n \<Longrightarrow> ks' ! i = ks ! i"
      "\<And>i. i < n \<Longrightarrow> cs' ! i = cs ! i"
    by (auto simp: child_at_def row_ok_def)
  show ok: "row_ok m' n ks' cs'" using s assms(1,2) by (auto simp: row_ok_def)
  show "row_child n ks' cs' = row_child n ks cs"
  proof
    fix d
    have "row_child n ks' cs' d = Some u \<longleftrightarrow> row_child n ks cs d = Some u" for u
      unfolding row_child_iff [OF ok] row_child_iff [OF assms(1)] using s by auto
    then show "row_child n ks' cs' d = row_child n ks cs d" by (metis not_None_eq)
  qed
qed

section \<open>The index and the dense array: the two large nodes\<close>

lemma unat_byte_less [simp]: "unat (c :: byte) < 256"
  using unsigned_less [of c] by simp

lemma unat_of_nat_byte [simp]: "i < 256 \<Longrightarrow> unat (of_nat i :: byte) = i"
  by (simp add: unat_of_nat)

lemma unat_byte_inject [simp]: "unat (c :: byte) = unat d \<longleftrightarrow> c = d"
  by (simp add: word_unat_eq_iff)

lemma of_nat_byte_inject: "i < 256 \<Longrightarrow> j < 256 \<Longrightarrow> (of_nat i :: byte) = of_nat j \<longleftrightarrow> i = j"
  by (metis unat_of_nat_byte)

lemma all_bytes: "(\<forall>i < 256. P i) \<longleftrightarrow> (\<forall>c :: byte. P (unat c))"
  by (metis unat_byte_less unat_of_nat_byte)

lemma not_empty_slot: "i < 48 \<Longrightarrow> (of_nat i :: byte) \<noteq> ART_EMPTY_SLOT"
proof
  assume "i < 48" and "(of_nat i :: byte) = ART_EMPTY_SLOT"
  then have "unat (of_nat i :: byte) = 255" by (simp add: ART_EMPTY_SLOT_def)
  then show False using \<open>i < 48\<close> by simp
qed

definition index_child :: "bytes \<Rightarrow> art_node option list \<Rightarrow> byte \<Rightarrow> art_node option" where
  "index_child ix cs c = (if ix ! unat c = ART_EMPTY_SLOT then None else child_at cs (unat (ix ! unat c)))"

definition index_ok :: "bytes \<Rightarrow> art_node option list \<Rightarrow> bool" where
  "index_ok ix cs \<longleftrightarrow> length ix = 256 \<and> length cs = 48 \<and>
     (\<forall>c :: byte. ix ! unat c \<noteq> ART_EMPTY_SLOT \<longrightarrow> unat (ix ! unat c) < 48 \<and> cs ! unat (ix ! unat c) \<noteq> None) \<and>
     (\<forall>(c :: byte) d :: byte. ix ! unat c \<noteq> ART_EMPTY_SLOT \<longrightarrow> ix ! unat c = ix ! unat d \<longrightarrow> c = d) \<and>
     (\<forall>j < 48. cs ! j \<noteq> None \<longrightarrow> (\<exists>c :: byte. ix ! unat c = of_nat j))"

lemma index_okD:
  fixes c d :: byte
  assumes "index_ok ix cs"
  shows "length ix = 256" and "length cs = 48"
    and "ix ! unat c \<noteq> ART_EMPTY_SLOT \<Longrightarrow> unat (ix ! unat c) < 48"
    and "ix ! unat c \<noteq> ART_EMPTY_SLOT \<Longrightarrow> \<exists>t. cs ! unat (ix ! unat c) = Some t"
    and "ix ! unat c \<noteq> ART_EMPTY_SLOT \<Longrightarrow> ix ! unat c = ix ! unat d \<Longrightarrow> c = d"
    and "j < 48 \<Longrightarrow> cs ! j \<noteq> None \<Longrightarrow> \<exists>c :: byte. ix ! unat c = of_nat j"
  using assms unfolding index_ok_def by blast+

lemma index_child_Some:
  assumes "index_ok ix cs"
  shows "index_child ix cs c = Some t \<longleftrightarrow> ix ! unat c \<noteq> ART_EMPTY_SLOT \<and> cs ! unat (ix ! unat c) = Some t"
  using index_okD(2,3) [OF assms] by (auto simp: index_child_def child_at_def)

lemma index_child_None:
  assumes "index_ok ix cs"
  shows "index_child ix cs c = None \<longleftrightarrow> ix ! unat c = ART_EMPTY_SLOT"
  using index_child_Some [OF assms, of c] index_okD(4) [OF assms, of c] by (cases "index_child ix cs c") auto

lemma index_dom:
  assumes "index_ok ix cs"
  shows "dom (index_child ix cs) = {c. ix ! unat c \<noteq> ART_EMPTY_SLOT}"
  using index_child_None [OF assms] by (auto simp: dom_def)

lemma index_inj:
  assumes "index_ok ix cs"
  shows "inj_on (\<lambda>c :: byte. unat (ix ! unat c)) (dom (index_child ix cs))"
  unfolding inj_on_def index_dom [OF assms]
  using index_okD(5) [OF assms] by (metis (mono_tags, lifting) mem_Collect_eq word_unat_eq_iff)

lemma index_count:
  assumes "index_ok ix cs"
  shows "card (dom (index_child ix cs)) \<le> 48"
    and "card (dom (index_child ix cs)) < 48 \<Longrightarrow> \<exists>j < 48. cs ! j = None"
proof -
  let ?f = "\<lambda>c :: byte. unat (ix ! unat c)" and ?D = "dom (index_child ix cs)"
  have im: "?f ` ?D \<subseteq> {..<48}" using index_okD(3) [OF assms] by (auto simp: index_dom [OF assms])
  have c: "card (?f ` ?D) = card ?D" by (rule card_image [OF index_inj [OF assms]])
  then show "card ?D \<le> 48" using card_mono [OF _ im] by simp
  show "\<exists>j < 48. cs ! j = None" if "card ?D < 48"
  proof (rule ccontr)
    assume "\<not> (\<exists>j < 48. cs ! j = None)"
    then have some: "cs ! j \<noteq> None" if "j < 48" for j using that by auto
    have "\<exists>d :: byte. ix ! unat d = of_nat j" if "j < 48" for j
      by (rule index_okD(6) [OF assms that some [OF that]])
    then have "{..<48} \<subseteq> ?f ` ?D"
    proof (intro subsetI)
      fix j :: nat assume "j \<in> {..<48}"
      then have j: "j < 48" by simp
      then obtain d :: byte where d: "ix ! unat d = of_nat j"
        using \<open>\<And>j. j < 48 \<Longrightarrow> \<exists>d :: byte. ix ! unat d = of_nat j\<close> by blast
      then have "d \<in> ?D" using not_empty_slot [OF j] by (simp add: index_dom [OF assms])
      moreover have "j = ?f d" using d j by simp
      ultimately show "j \<in> ?f ` ?D" by (rule rev_image_eqI)
    qed
    then have "48 \<le> card (?f ` ?D)" using card_mono [of "?f ` ?D" "{..<48}"] by simp
    then show False using that c by simp
  qed
qed

lemma index_update:
  fixes c :: byte
  assumes "index_ok ix cs" and "ix ! unat c \<noteq> ART_EMPTY_SLOT"
  shows "index_child ix (cs[unat (ix ! unat c) := t]) = (index_child ix cs)(c := t)"
    and "t \<noteq> None \<Longrightarrow> index_ok ix (cs[unat (ix ! unat c) := t])"
proof -
  note d = index_okD [OF assms(1)]
  have l: "unat (ix ! unat c) < length cs" using d(2,3) assms(2) by simp
  show "index_child ix (cs[unat (ix ! unat c) := t]) = (index_child ix cs)(c := t)"
  proof
    fix e
    show "index_child ix (cs[unat (ix ! unat c) := t]) e = ((index_child ix cs)(c := t)) e"
    proof (cases "e = c")
      case False
      then have "ix ! unat e \<noteq> ix ! unat c" if "ix ! unat e \<noteq> ART_EMPTY_SLOT"
        using d(5) [OF that, of c] by blast
      then show ?thesis using False by (simp add: index_child_def child_at_update)
    qed (use l assms(2) in \<open>simp add: index_child_def child_at_update\<close>)
  qed
  show "index_ok ix (cs[unat (ix ! unat c) := t])" if t: "t \<noteq> None"
    unfolding index_ok_def
  proof (intro conjI allI impI)
    fix e :: byte assume e: "ix ! unat e \<noteq> ART_EMPTY_SLOT"
    show "unat (ix ! unat e) < 48" by (rule d(3) [OF e])
    show "cs[unat (ix ! unat c) := t] ! unat (ix ! unat e) \<noteq> None"
      using d(4) [OF e] t l by (cases "unat (ix ! unat e) = unat (ix ! unat c)") auto
  next
    fix j assume j: "j < (48 :: nat)" "cs[unat (ix ! unat c) := t] ! j \<noteq> None"
    show "\<exists>c :: byte. ix ! unat c = of_nat j"
    proof (cases "j = unat (ix ! unat c)")
      case True
      then show ?thesis by (intro exI [of _ c]) simp
    next
      case False
      then show ?thesis using d(6) [OF j(1)] j(2) by simp
    qed
  qed (use d(1,2) d(5) in auto)
qed

lemma index_insert:
  fixes c :: byte
  assumes "index_ok ix cs" and "ix ! unat c = ART_EMPTY_SLOT" and "j < 48" and "cs ! j = None"
  shows "index_ok (ix[unat c := of_nat j]) (cs[j := Some t])"
    and "index_child (ix[unat c := of_nat j]) (cs[j := Some t]) = (index_child ix cs)(c \<mapsto> t)"
proof -
  note d = index_okD [OF assms(1)]
  have ne: "(of_nat j :: byte) \<noteq> ART_EMPTY_SLOT" by (rule not_empty_slot [OF assms(3)])
  have uj: "unat (of_nat j :: byte) = j" using assms(3) by simp
  have nj: "unat (ix ! unat e) \<noteq> j" if "ix ! unat e \<noteq> ART_EMPTY_SLOT" for e :: byte
    using d(4) [OF that] assms(4) by auto
  have ix: "ix[unat c := of_nat j] ! unat e = (if e = c then of_nat j else ix ! unat e)" for e :: byte
    using d(1) by (auto simp: nth_list_update)
  show "index_ok (ix[unat c := of_nat j]) (cs[j := Some t])"
    unfolding index_ok_def ix
  proof (intro conjI allI impI)
    fix e :: byte assume e: "(if e = c then of_nat j else ix ! unat e) \<noteq> ART_EMPTY_SLOT"
    show "unat (if e = c then of_nat j else ix ! unat e) < 48" using e d(3) [of e] uj assms(3) by auto
    show "cs[j := Some t] ! unat (if e = c then of_nat j else ix ! unat e) \<noteq> None"
      using e d(4) [of e] nj [of e] uj assms(3) d(2) by (cases "e = c") auto
  next
    fix e f :: byte
    assume e: "(if e = c then of_nat j else ix ! unat e) \<noteq> ART_EMPTY_SLOT"
      and eq: "(if e = c then of_nat j else ix ! unat e) = (if f = c then of_nat j else ix ! unat f)"
    show "e = f"
      using e eq nj [of e] nj [of f] uj ne d(5) [of e f] by (auto split: if_splits)
  next
    fix k assume k: "k < (48 :: nat)" "cs[j := Some t] ! k \<noteq> None"
    show "\<exists>e :: byte. (if e = c then of_nat j else ix ! unat e) = of_nat k"
    proof (cases "k = j")
      case True
      then show ?thesis by (intro exI [of _ c]) simp
    next
      case False
      then obtain e :: byte where "ix ! unat e = of_nat k" using d(6) [OF k(1)] k(2) by auto
      moreover have "e \<noteq> c" using calculation assms(2) not_empty_slot [OF k(1)] by auto
      ultimately show ?thesis by (intro exI [of _ e]) simp
    qed
  qed (use d(1,2) in auto)
  show "index_child (ix[unat c := of_nat j]) (cs[j := Some t]) = (index_child ix cs)(c \<mapsto> t)"
  proof
    fix e
    show "index_child (ix[unat c := of_nat j]) (cs[j := Some t]) e = ((index_child ix cs)(c \<mapsto> t)) e"
      using ne uj nj [of e] d(2) assms(3) by (cases "e = c") (auto simp: index_child_def ix child_at_update)
  qed
qed

lemma index_remove:
  fixes c :: byte
  assumes "index_ok ix cs" and "ix ! unat c \<noteq> ART_EMPTY_SLOT"
  defines "ix' \<equiv> ix[unat c := ART_EMPTY_SLOT]" and "cs' \<equiv> cs[unat (ix ! unat c) := None]"
  shows "index_ok ix' cs'" and "index_child ix' cs' = (index_child ix cs)(c := None)"
proof -
  note d = index_okD [OF assms(1)]
  have ix: "ix' ! unat e = (if e = c then ART_EMPTY_SLOT else ix ! unat e)" for e :: byte
    using d(1) by (auto simp: ix'_def nth_list_update)
  have l: "unat (ix ! unat c) < length cs" using d(2,3) assms(2) by simp
  have nj: "unat (ix ! unat e) \<noteq> unat (ix ! unat c)" if "ix ! unat e \<noteq> ART_EMPTY_SLOT" "e \<noteq> c" for e :: byte
    using d(5) [OF that(1), of c] that(2) by auto
  show "index_ok ix' cs'"
    unfolding index_ok_def ix
  proof (intro conjI allI impI)
    fix e :: byte assume e: "(if e = c then ART_EMPTY_SLOT else ix ! unat e) \<noteq> ART_EMPTY_SLOT"
    then have ec: "e \<noteq> c" "ix ! unat e \<noteq> ART_EMPTY_SLOT" by (auto split: if_splits)
    show "unat (if e = c then ART_EMPTY_SLOT else ix ! unat e) < 48" using ec d(3) [of e] by simp
    show "cs' ! unat (if e = c then ART_EMPTY_SLOT else ix ! unat e) \<noteq> None"
      using ec d(4) [of e] nj [of e] by (simp add: cs'_def)
  next
    fix e f :: byte
    assume "(if e = c then ART_EMPTY_SLOT else ix ! unat e) \<noteq> ART_EMPTY_SLOT"
      and "(if e = c then ART_EMPTY_SLOT else ix ! unat e) = (if f = c then ART_EMPTY_SLOT else ix ! unat f)"
    then show "e = f" using d(5) [of e f] by (auto split: if_splits)
  next
    fix k assume k: "k < (48 :: nat)" "cs' ! k \<noteq> None"
    then have kc: "k \<noteq> unat (ix ! unat c)" using l by (auto simp: cs'_def)
    then obtain e :: byte where e: "ix ! unat e = of_nat k"
      using d(6) [OF k(1)] k(2) by (auto simp: cs'_def)
    then have "e \<noteq> c" using kc k(1) by auto
    then show "\<exists>e :: byte. (if e = c then ART_EMPTY_SLOT else ix ! unat e) = of_nat k"
      using e by (intro exI [of _ e]) simp
  qed (use d(1,2) in \<open>simp_all add: ix'_def cs'_def\<close>)
  show "index_child ix' cs' = (index_child ix cs)(c := None)"
  proof
    fix e
    show "index_child ix' cs' e = ((index_child ix cs)(c := None)) e"
      using nj [of e] by (cases "e = c") (auto simp: index_child_def ix child_at_update cs'_def)
  qed
qed

definition dense_child :: "art_node option list \<Rightarrow> byte \<Rightarrow> art_node option" where
  "dense_child cs c = child_at cs (unat c)"

lemma dense_update: "length cs = 256 \<Longrightarrow> dense_child (cs[unat c := t]) = (dense_child cs)(c := t)"
  by (auto simp: dense_child_def child_at_def fun_eq_iff nth_list_update)

section \<open>Nodes\<close>

text \<open>The arrays and the count of a node fit its children.\<close>

fun node_ok :: "art_node \<Rightarrow> bool" where
  "node_ok (ArtLeaf a k b v) \<longleftrightarrow> True"
| "node_ok (Node4 a hr n ks cs) \<longleftrightarrow> row_ok 4 n ks cs"
| "node_ok (Node16 a hr n ks cs) \<longleftrightarrow> row_ok 16 n ks cs"
| "node_ok (Node48 a hr ix cs n) \<longleftrightarrow> index_ok ix cs \<and> n = card (dom (index_child ix cs))"
| "node_ok (Node256 a hr cs n) \<longleftrightarrow> length cs = 256 \<and> unat n = card (dom (dense_child cs))"

lemma next_child_simps [simp]:
  "next_child (ArtLeaf a k b v) = (\<lambda>c. None)"
  "next_child (Node4 a hr n ks cs) = row_child n ks cs"
  "next_child (Node16 a hr n ks cs) = row_child n ks cs"
  "next_child (Node48 a hr ix cs n) = index_child ix cs"
  "next_child (Node256 a hr cs n16) = dense_child cs"
  by (auto simp: fun_eq_iff next_child_def row_child_def index_child_def dense_child_def
      find_child_node4_def find_child_node16_def find_child_node48_def find_child_node256_def split: option.splits)

text \<open>All children are in the tree below the node; the count is their number.\<close>

lemma node_count: "node_ok node \<Longrightarrow> child_count node = card (dom (next_child node))"
  by (cases node) (simp_all add: row_count)

lemma find_child_None:
  "node_ok node \<Longrightarrow> find_child node c = None \<Longrightarrow> next_child node c = None"
  by (simp add: next_child_def)

lemma find_child_Some:
  assumes "node_ok node" and "find_child node c = Some i" and "next_child node c = None"
  shows "type_of node = NODE256"
  using assms
proof (cases node)
  case (Node4 a hr n ks cs)
  then show ?thesis using assms row_child_None [of 4 n ks cs c] by (simp add: find_child_node4_def)
next
  case (Node16 a hr n ks cs)
  then show ?thesis using assms row_child_None [of 16 n ks cs c] by (simp add: find_child_node16_def)
next
  case (Node48 a hr ix cs n)
  then show ?thesis using assms index_child_None [of ix cs c] by (auto simp: find_child_node48_def split: if_splits)
qed simp_all

lemma find_child_at:
  "find_child node c = Some i \<Longrightarrow> child_at (children_of node) i = next_child node c"
  by (simp add: next_child_def)

lemma set_child_keeps [simp]:
  "type_of (set_child i t node) = type_of node" "slot_of (set_child i t node) = slot_of node"
  "header_of (set_child i t node) = header_of node" "child_count (set_child i t node) = child_count node"
  by (cases node; simp)+

text \<open>A child replaced by another.\<close>

lemma set_child_ok:
  assumes "node_ok node" and "find_child node c = Some i" and "next_child node c = Some u"
  shows "node_ok (set_child i (Some t) node)" and "next_child (set_child i (Some t) node) = (next_child node)(c \<mapsto> t)"
proof -
  have "node_ok (set_child i (Some t) node) \<and> next_child (set_child i (Some t) node) = (next_child node)(c \<mapsto> t)"
  proof (cases node)
    case (Node4 a hr n ks cs)
    then show ?thesis using assms row_update [of 4 n ks cs c i "Some t"] by (simp add: find_child_node4_def)
  next
    case (Node16 a hr n ks cs)
    then show ?thesis using assms row_update [of 16 n ks cs c i "Some t"] by (simp add: find_child_node16_def)
  next
    case (Node48 a hr ix cs n)
    then have i: "ix ! unat c \<noteq> ART_EMPTY_SLOT" "i = unat (ix ! unat c)"
      using assms(2) by (auto simp: find_child_node48_def split: if_splits)
    note u = index_update [of ix cs c "Some t", OF _ i(1), folded i(2)]
    have "insert c (dom (index_child ix cs)) = dom (index_child ix cs)"
      using assms(3) Node48 by (auto simp: insert_absorb)
    then show ?thesis using Node48 assms(1) u by simp
  next
    case (Node256 a hr cs n)
    then have "i = unat c" using assms(2) by (simp add: find_child_node256_def)
    moreover have "insert c (dom (dense_child cs)) = dom (dense_child cs)"
      using assms(3) Node256 by (auto simp: insert_absorb)
    ultimately show ?thesis using Node256 assms(1) dense_update [of cs c "Some t"] by simp
  qed (use assms(2) in simp)
  then show "node_ok (set_child i (Some t) node)" and "next_child (set_child i (Some t) node) = (next_child node)(c \<mapsto> t)"
    by blast+
qed

text \<open>
  A child removed: the slot is cleared and then \<open>remove_child\<close> is called.  For the largest node it
  finds the slot already empty and leaves the count as it was.
\<close>

lemma remove_child_ok:
  assumes "node_ok node" and "find_child node c = Some i" and "next_child node c = Some u"
    and "type_of node \<noteq> NODE256"
  defines "node' \<equiv> remove_child (set_child i None node) c"
  shows "node_ok node'" and "next_child node' = (next_child node)(c := None)"
    and "type_of node' = type_of node" and "slot_of node' = slot_of node" and "header_of node' = header_of node"
proof -
  have card: "card (dom ((next_child node)(c := None))) = child_count node - 1"
    using node_count [OF assms(1)] assms(3) by (simp add: domI)
  have "node_ok node' \<and> next_child node' = (next_child node)(c := None) \<and>
    type_of node' = type_of node \<and> slot_of node' = slot_of node \<and> header_of node' = header_of node"
  proof (cases node)
    case (Node4 a hr n ks cs)
    obtain ks' cs' where s: "shift_out i n (ks, cs[i := None]) = (ks', cs')" by fastforce
    have f: "find_key n ks c = Some i" using assms(2) Node4 by (simp add: find_child_node4_def)
    then have "node' = Node4 a hr (n - 1) ks' cs'"
      using Node4 s by (simp add: node'_def remove_child_def)
    then show ?thesis using row_remove [OF _ f s] assms(1) Node4 by simp
  next
    case (Node16 a hr n ks cs)
    obtain ks' cs' where s: "shift_out i n (ks, cs[i := None]) = (ks', cs')" by fastforce
    have f: "find_key n ks c = Some i" using assms(2) Node16 by (simp add: find_child_node16_def)
    then have "node' = Node16 a hr (n - 1) ks' cs'"
      using Node16 s by (simp add: node'_def remove_child_def)
    then show ?thesis using row_remove [OF _ f s] assms(1) Node16 by simp
  next
    case (Node48 a hr ix cs n)
    then have i: "ix ! unat c \<noteq> ART_EMPTY_SLOT" "i = unat (ix ! unat c)"
      using assms(2) by (auto simp: find_child_node48_def split: if_splits)
    then have "node' = Node48 a hr (ix[unat c := ART_EMPTY_SLOT]) (cs[unat (ix ! unat c) := None]) (n - 1)"
      using Node48 by (simp add: node'_def remove_child_def)
    then show ?thesis using index_remove [OF _ i(1), of cs] assms(1) Node48 card by simp
  next
    case (Node256 a hr cs n)
    then show ?thesis using assms(4) by simp
  next
    case (ArtLeaf a k b v)
    then show ?thesis using assms(2) by simp
  qed
  then show "node_ok node'" and "next_child node' = (next_child node)(c := None)"
    and "type_of node' = type_of node" and "slot_of node' = slot_of node" and "header_of node' = header_of node"
    by blast+
qed

text \<open>A child stored for a byte that has none.\<close>

lemma append_child_keeps [simp]:
  "type_of (append_child node c t) = type_of node" "slot_of (append_child node c t) = slot_of node"
  "header_of (append_child node c t) = header_of node"
  by (cases node; simp)+

fun node_capacity :: "art_node \<Rightarrow> nat" where
  "node_capacity (ArtLeaf a k b v) = 0"
| "node_capacity (Node4 a hr n ks cs) = 4"
| "node_capacity (Node16 a hr n ks cs) = 16"
| "node_capacity (Node48 a hr ix cs n) = 48"
| "node_capacity (Node256 a hr cs n) = 256"

lemma card_byte: "card (UNIV :: byte set) = 256"
  by (simp add: card_word)

lemma node_count_le: "node_ok node \<Longrightarrow> child_count node \<le> node_capacity node"
proof (cases node)
  case (Node256 a hr cs n)
  assume "node_ok node"
  then have "unat n = card (dom (dense_child cs))" using Node256 by simp
  also have "\<dots> \<le> card (UNIV :: byte set)" by (rule card_mono) auto
  finally show ?thesis using Node256 by (simp add: card_byte)
qed (auto simp: row_ok_def index_count)

lemma append_child_ok:
  assumes "node_ok node" and "next_child node c = None" and "child_count node < node_capacity node"
    and "\<And>a hr ix cs n. node = Node48 a hr ix cs n \<Longrightarrow> cs ! n = None"
  shows "node_ok (append_child node c t)" and "next_child (append_child node c t) = (next_child node)(c \<mapsto> t)"
proof -
  have card: "card (dom ((next_child node)(c \<mapsto> t))) = child_count node + 1"
    using node_count [OF assms(1)] assms(2) by (simp add: domIff card_insert_disjoint)
  have "node_ok (append_child node c t) \<and> next_child (append_child node c t) = (next_child node)(c \<mapsto> t)"
  proof (cases node)
    case (Node4 a hr n ks cs)
    then show ?thesis using assms row_append [of 4 n ks cs c t] row_child_None [of 4 n ks cs c] by simp
  next
    case (Node16 a hr n ks cs)
    then show ?thesis using assms row_append [of 16 n ks cs c t] row_child_None [of 16 n ks cs c] by simp
  next
    case (Node48 a hr ix cs n)
    then have "index_ok ix cs" "n < 48" "cs ! n = None" "ix ! unat c = ART_EMPTY_SLOT"
      using assms index_child_None [of ix cs c] by auto
    from index_insert [OF this(1,4,2,3), of t] show ?thesis using Node48 card by simp
  next
    case (Node256 a hr cs n)
    then have l: "length cs = 256" "unat n = card (dom (dense_child cs))" "unat n < 256" using assms by auto
    have "unat (n + 1) = unat n + 1" using l(3) by (subst unat_word_ariths) simp
    then show ?thesis using Node256 l card dense_update [of cs c "Some t"] by simp
  next
    case (ArtLeaf a k b v)
    then show ?thesis using assms(3) by simp
  qed
  then show "node_ok (append_child node c t)" and "next_child (append_child node c t) = (next_child node)(c \<mapsto> t)"
    by blast+
qed

text \<open>The branch that looks for a free slot of a \<open>Node48\<close> first.\<close>

lemma store48_ok:
  assumes "node_ok (Node48 a hr ix cs n)" and "index_child ix cs c = None" and "n < 48"
  shows "\<exists>j. find (\<lambda>i. child_at cs i = None) [0..<48] = Some j \<and>
    node_ok (Node48 a hr (ix[unat c := of_nat j]) (cs[j := Some t]) (n + 1)) \<and>
    index_child (ix[unat c := of_nat j]) (cs[j := Some t]) = (index_child ix cs)(c \<mapsto> t)"
proof -
  have ok: "index_ok ix cs" and n: "n = card (dom (index_child ix cs))" using assms(1) by simp_all
  have l: "length cs = 48" by (rule index_okD(2) [OF ok])
  obtain k where k: "k < 48" "cs ! k = None" using index_count(2) [OF ok] assms(3) n by auto
  have "find (\<lambda>i. child_at cs i = None) [0..<48] \<noteq> None"
    using k l by (auto simp: find_None_iff child_at_def intro!: bexI [of _ k])
  then obtain j where j: "find (\<lambda>i. child_at cs i = None) [0..<48] = Some j" by blast
  then have jn: "j < 48" "cs ! j = None" using l by (auto simp: find_Some_iff child_at_def)
  have "ix ! unat c = ART_EMPTY_SLOT" using assms(2) index_child_None [OF ok] by simp
  from index_insert [OF ok this jn, of t] have
    "index_ok (ix[unat c := of_nat j]) (cs[j := Some t])"
    "index_child (ix[unat c := of_nat j]) (cs[j := Some t]) = (index_child ix cs)(c \<mapsto> t)" .
  moreover have "card (dom ((index_child ix cs)(c \<mapsto> t))) = n + 1"
    using assms(2) n by (simp add: domIff card_insert_disjoint)
  ultimately show ?thesis using j by simp
qed

end
