(* ===== verification/Art_Morph.thy ===== *)
theory Art_Morph
  imports Art_Nodes
begin

text \<open>
  The adaptive part of the tree: growing a full node into the next larger one and shrinking a sparse
  one give a node with the same children.
\<close>

section \<open>The copy loops\<close>

lemma find_append: "find P (xs @ ys) = (case find P xs of None \<Rightarrow> find P ys | Some x \<Rightarrow> Some x)"
  by (induction xs) auto

lemma find_key_Suc:
  "find_key (Suc n) ks c = (case find_key n ks c of None \<Rightarrow> if ks ! n = c then Some n else None | Some i \<Rightarrow> Some i)"
  by (simp add: find_key_def find_append split: option.splits)

lemma row_ok_prefix: "row_ok m (Suc n) ks cs \<Longrightarrow> row_ok m n ks cs"
  by (simp add: row_ok_def)

text \<open>A row into an index: \<open>upgrade_node16_to_node48\<close>.\<close>

lemma index_loop:
  assumes "fold (\<lambda>i (ix', cs'). (ix'[unat (ks ! i) := of_nat i], cs'[i := child_at cs i])) [0..<n] (ix0, cs0) = (ix', cs')"
    and "row_ok m n ks cs" and "n \<le> 48" and "ix0 = replicate 256 ART_EMPTY_SLOT" and "cs0 = replicate 48 None"
  shows "length ix' = 256 \<and> length cs' = 48 \<and>
    (\<forall>c :: byte. ix' ! unat c = (case find_key n ks c of None \<Rightarrow> ART_EMPTY_SLOT | Some i \<Rightarrow> of_nat i)) \<and>
    (\<forall>j < 48. cs' ! j = (if j < n then cs ! j else None))"
  using assms
proof (induction n arbitrary: ix' cs')
  case 0
  then show ?case by (auto simp: find_key_def)
next
  case (Suc n)
  obtain ix1 cs1 where f: "fold (\<lambda>i (ix', cs'). (ix'[unat (ks ! i) := of_nat i], cs'[i := child_at cs i])) [0..<n]
      (ix0, cs0) = (ix1, cs1)" by fastforce
  have e: "ix' = ix1[unat (ks ! n) := of_nat n]" "cs' = cs1[n := child_at cs n]" using Suc.prems(1) f by simp_all
  have ih: "length ix1 = 256" "length cs1 = 48"
      "\<And>c :: byte. ix1 ! unat c = (case find_key n ks c of None \<Rightarrow> ART_EMPTY_SLOT | Some i \<Rightarrow> of_nat i)"
      "\<And>j. j < 48 \<Longrightarrow> cs1 ! j = (if j < n then cs ! j else None)"
    using Suc.IH [OF f row_ok_prefix [OF Suc.prems(2)] _ Suc.prems(4,5)] Suc.prems(3) by auto
  have new: "find_key n ks (ks ! n) = None"
    unfolding find_key_None using row_inj [OF Suc.prems(2), of _ n] by (metis lessI less_SucI less_irrefl)
  have "ix' ! unat c = (case find_key (Suc n) ks c of None \<Rightarrow> ART_EMPTY_SLOT | Some i \<Rightarrow> of_nat i)" for c :: byte
    using new ih(1) ih(3) [of c] by (cases "ks ! n = c") (simp_all add: e find_key_Suc split: option.splits)
  moreover have "child_at cs n = cs ! n" using Suc.prems(2) by (simp add: child_at_def row_ok_def)
  then have "cs' ! j = (if j < Suc n then cs ! j else None)" if "j < 48" for j
    using ih(2) ih(4) [OF that] Suc.prems(3) by (auto simp: e nth_list_update less_Suc_eq)
  ultimately show ?case using ih(1,2) e by simp
qed

lemma row_to_index:
  assumes "fold (\<lambda>i (ix', cs'). (ix'[unat (ks ! i) := of_nat i], cs'[i := child_at cs i])) [0..<n] (ix0, cs0) = (ix', cs')"
    and "row_ok m n ks cs" and "n \<le> 48" and "ix0 = replicate 256 ART_EMPTY_SLOT" and "cs0 = replicate 48 None"
  shows "index_ok ix' cs'" and "index_child ix' cs' = row_child n ks cs" and "n < 48 \<Longrightarrow> cs' ! n = None"
proof -
  have l: "length ix' = 256" "length cs' = 48"
    and ix: "\<And>c :: byte. ix' ! unat c = (case find_key n ks c of None \<Rightarrow> ART_EMPTY_SLOT | Some i \<Rightarrow> of_nat i)"
    and cs: "\<And>j. j < 48 \<Longrightarrow> cs' ! j = (if j < n then cs ! j else None)"
    using index_loop [OF assms] by auto
  have at: "find_key n ks c = Some i \<Longrightarrow> i < n \<and> i < 48 \<and> ks ! i = c" for c i
    using assms(3) by (auto simp: find_key_Some)
  have used: "ix' ! unat c \<noteq> ART_EMPTY_SLOT \<longleftrightarrow> find_key n ks c \<noteq> None" for c
    using ix [of c] at [of c] not_empty_slot by (auto split: option.splits)
  have pos: "unat (ix' ! unat c) = i" if "find_key n ks c = Some i" for c i
    using ix [of c] that at [OF that] by simp
  show "index_ok ix' cs'"
    unfolding index_ok_def
  proof (intro conjI allI impI)
    fix c :: byte assume "ix' ! unat c \<noteq> ART_EMPTY_SLOT"
    then obtain i where i: "find_key n ks c = Some i" using used by auto
    show "unat (ix' ! unat c) < 48" using pos [OF i] at [OF i] by simp
    show "cs' ! unat (ix' ! unat c) \<noteq> None"
      using pos [OF i] at [OF i] cs [of i] row_some [OF assms(2), of i] by auto
  next
    fix c d :: byte assume c: "ix' ! unat c \<noteq> ART_EMPTY_SLOT" and eq: "ix' ! unat c = ix' ! unat d"
    then obtain i j where ij: "find_key n ks c = Some i" "find_key n ks d = Some j" using used by (metis not_Some_eq)
    then have "i = j" using pos [OF ij(1)] pos [OF ij(2)] eq by simp
    then show "c = d" using at [OF ij(1)] at [OF ij(2)] by simp
  next
    fix j assume j: "j < (48 :: nat)" "cs' ! j \<noteq> None"
    then have "j < n" using cs [OF j(1)] by (auto split: if_splits)
    then have "find_key n ks (ks ! j) = Some j" by (rule row_find [OF assms(2)])
    then show "\<exists>c :: byte. ix' ! unat c = of_nat j" using ix [of "ks ! j"] by (intro exI [of _ "ks ! j"]) simp
  qed (use l in auto)
  show "index_child ix' cs' = row_child n ks cs"
  proof
    fix c
    show "index_child ix' cs' c = row_child n ks cs c"
    proof (cases "find_key n ks c")
      case None
      then show ?thesis using used [of c] by (simp add: index_child_def row_child_def)
    next
      case (Some i)
      then have "index_child ix' cs' c = cs ! i"
        using used [of c] pos [OF Some] at [OF Some] cs [of i] l by (simp add: index_child_def child_at_def)
      moreover have "row_child n ks cs c = cs ! i"
        using Some at [OF Some] row_child_nth [OF assms(2), of i] by simp
      ultimately show ?thesis by simp
    qed
  qed
  show "cs' ! n = None" if "n < 48" using cs [OF that] by simp
qed

text \<open>An index into a dense array: \<open>upgrade_node48_to_node256\<close>.\<close>

lemma store_loop:
  "j < length xs \<Longrightarrow> fold (\<lambda>i xs. if P i then xs[i := f i] else xs) [0..<m] xs ! j = (if j < m \<and> P j then f j else xs ! j) \<and>
    length (fold (\<lambda>i xs. if P i then xs[i := f i] else xs) [0..<m] xs) = length xs"
  by (induction m) (auto simp: nth_list_update less_Suc_eq)

lemma index_to_dense:
  assumes "cs' = fold (\<lambda>i cs'. if ix ! i \<noteq> ART_EMPTY_SLOT then cs'[i := child_at cs (unat (ix ! i))] else cs')
      [0..<256] (replicate 256 None)"
  shows "length cs' = 256" and "dense_child cs' = index_child ix cs"
proof -
  note s = store_loop [where P = "\<lambda>i. ix ! i \<noteq> ART_EMPTY_SLOT" and m = 256
      and f = "\<lambda>i. child_at cs (unat (ix ! i))" and xs = "replicate 256 None", folded assms]
  show l: "length cs' = 256" using s [of 0] by simp
  show "dense_child cs' = index_child ix cs"
    using s l by (simp add: dense_child_def index_child_def child_at_def fun_eq_iff)
qed

section \<open>The packing loops\<close>

text \<open>The bytes with a child, in order.\<close>

definition used_bytes :: "(nat \<Rightarrow> bool) \<Rightarrow> nat list" where
  "used_bytes P = filter P [0..<256]"

lemma used_bytes_count:
  assumes "\<And>c :: byte. P (unat c) \<longleftrightarrow> f c \<noteq> None"
  shows "length (used_bytes P) = card (dom f)"
proof -
  have "set (used_bytes P) = unat ` dom f"
  proof (rule set_eqI)
    fix i
    show "i \<in> set (used_bytes P) \<longleftrightarrow> i \<in> unat ` dom f"
    proof
      assume "i \<in> set (used_bytes P)"
      then have i: "i < 256" "P i" by (auto simp: used_bytes_def)
      then have "(of_nat i :: byte) \<in> dom f" using assms [of "of_nat i"] by (simp add: domIff)
      moreover have "i = unat (of_nat i :: byte)" using i by simp
      ultimately show "i \<in> unat ` dom f" by (rule rev_image_eqI)
    next
      assume "i \<in> unat ` dom f"
      then show "i \<in> set (used_bytes P)" using assms by (auto simp: used_bytes_def domIff)
    qed
  qed
  moreover have "length (used_bytes P) = card (set (used_bytes P))"
    unfolding used_bytes_def by (rule distinct_card [symmetric]) simp
  moreover have "inj_on unat (dom f)" by (simp add: inj_on_def)
  ultimately show ?thesis by (simp add: card_image)
qed

lemma used_bytes_nth:
  assumes "k < length (used_bytes P)"
  shows "used_bytes P ! k < 256" and "P (used_bytes P ! k)"
proof -
  have "used_bytes P ! k \<in> set (used_bytes P)" using assms by simp
  then show "used_bytes P ! k < 256" and "P (used_bytes P ! k)" by (auto simp: used_bytes_def)
qed

lemma used_bytes_pos:
  assumes "i < 256" and "P i"
  obtains k where "k < length (used_bytes P)" and "used_bytes P ! k = i"
  using assms by (metis (mono_tags, lifting) in_set_conv_nth mem_Collect_eq set_filter set_upt used_bytes_def
      atLeastLessThan_iff le0)

lemma used_bytes_inj:
  "k < length (used_bytes P) \<Longrightarrow> j < length (used_bytes P) \<Longrightarrow> used_bytes P ! k = used_bytes P ! j \<Longrightarrow> k = j"
  by (simp add: used_bytes_def nth_eq_iff_index_eq)

text \<open>\<open>downgrade_node48_to_node16\<close>.\<close>

lemma pack_row_loop:
  assumes "fold (\<lambda>i (bad, ks', cs', cur :: byte). if P i
        then (bad \<or> 16 \<le> unat cur, ks'[unat cur := of_nat i], cs'[unat cur := g i], cur + 1)
        else (bad, ks', cs', cur)) [0..<m] (False, ks0, cs0, 0) = (bad, ks', cs', cur)"
    and "length (filter P [0..<m]) \<le> 16" and "length ks0 = 16" and "length cs0 = 16"
  shows "\<not> bad \<and> length ks' = 16 \<and> length cs' = 16 \<and> cur = of_nat (length (filter P [0..<m])) \<and>
    (\<forall>k < length (filter P [0..<m]). ks' ! k = of_nat (filter P [0..<m] ! k) \<and> cs' ! k = g (filter P [0..<m] ! k))"
  using assms(1,2)
proof (induction m arbitrary: bad ks' cs' cur)
  case 0
  then show ?case using assms(3,4) by simp
next
  case (Suc m)
  let ?f = "\<lambda>i (bad, ks', cs', cur :: byte). if P i
        then (bad \<or> 16 \<le> unat cur, ks'[unat cur := of_nat i], cs'[unat cur := g i], cur + 1)
        else (bad, ks', cs', cur)"
  obtain bad1 ks1 cs1 cur1 where f: "fold ?f [0..<m] (False, ks0, cs0, 0) = (bad1, ks1, cs1, cur1)"
    by (rule prod_cases4)
  have len: "length (filter P [0..<m]) \<le> 16" using Suc.prems(2) by (auto split: if_splits)
  note ih = Suc.IH [OF f len]
  show ?case
  proof (cases "P m")
    case True
    let ?n = "length (filter P [0..<m])"
    have n: "?n < 16" using Suc.prems(2) True by simp
    have cur1: "unat cur1 = ?n" using ih n by simp
    have "?f m (bad1, ks1, cs1, cur1) = (bad, ks', cs', cur)"
      using Suc.prems(1) by (simp only: upt_Suc le0 if_True fold_append comp_apply fold_Cons fold_Nil id_apply f)
    then have "bad = (bad1 \<or> 16 \<le> ?n)" "ks' = ks1[?n := of_nat m]" "cs' = cs1[?n := g m]" "cur = cur1 + 1"
      unfolding prod.case if_P [OF True] cur1 prod.inject by blast+
    moreover have "length (filter P [0..<Suc m]) = Suc ?n" "filter P [0..<Suc m] = filter P [0..<m] @ [m]"
      using True by simp_all
    moreover have "ks' ! k = of_nat ((filter P [0..<m] @ [m]) ! k) \<and> cs' ! k = g ((filter P [0..<m] @ [m]) ! k)"
      if "k < Suc ?n" for k
    proof (cases "k = ?n")
      case True
      then show ?thesis using calculation(2,3) ih n by simp
    next
      case False
      then show ?thesis using calculation(2,3) ih that by (simp add: nth_append)
    qed
    ultimately show ?thesis using ih n cur1 by simp
  next
    case False
    then show ?thesis using Suc.prems(1) f ih by simp
  qed
qed

lemma index_to_row:
  assumes "fold (\<lambda>i (bad, ks', cs', cur :: byte). if ix ! i \<noteq> ART_EMPTY_SLOT
        then (bad \<or> 16 \<le> unat cur, ks'[unat cur := of_nat i], cs'[unat cur := child_at cs (unat (ix ! i))], cur + 1)
        else (bad, ks', cs', cur)) [0..<256] (False, ks0, cs0, 0) = (bad, ks', cs', cur)"
    and "index_ok ix cs" and "n = card (dom (index_child ix cs))" and "n \<le> 16"
    and "length ks0 = 16" and "length cs0 = 16"
  shows "\<not> bad" and "row_ok 16 n ks' cs'" and "row_child n ks' cs' = index_child ix cs"
proof -
  let ?P = "\<lambda>i. ix ! i \<noteq> ART_EMPTY_SLOT"
  let ?B = "used_bytes ?P"
  have n: "length ?B = n"
    using used_bytes_count [of ?P "index_child ix cs"] index_child_None [OF assms(2)] assms(3) by simp
  have loop: "\<not> bad" "length ks' = 16" "length cs' = 16"
      "\<And>k. k < n \<Longrightarrow> ks' ! k = of_nat (?B ! k) \<and> cs' ! k = child_at cs (unat (ix ! (?B ! k)))"
    using pack_row_loop [OF assms(1)] assms(4-6) n by (auto simp: used_bytes_def)
  show "\<not> bad" by (rule loop(1))
  have key: "unat (ks' ! k) = ?B ! k" if "k < n" for k
    using loop(4) [OF that] used_bytes_nth(1) [of k ?P] that n by simp
  have child: "cs' ! k = index_child ix cs (ks' ! k)" "index_child ix cs (ks' ! k) \<noteq> None" if "k < n" for k
  proof -
    have P: "ix ! unat (ks' ! k) \<noteq> ART_EMPTY_SLOT" using used_bytes_nth(2) [of k ?P] that n key by simp
    then show "cs' ! k = index_child ix cs (ks' ! k)"
      using loop(4) [OF that] key [OF that] by (simp add: index_child_def)
    show "index_child ix cs (ks' ! k) \<noteq> None" using P index_child_None [OF assms(2)] by simp
  qed
  show row: "row_ok 16 n ks' cs'"
    unfolding row_ok_def
  proof (intro conjI allI impI)
    fix i j assume "i < n" "j < n" "ks' ! i = ks' ! j"
    then show "i = j" using key [of i] key [of j] used_bytes_inj [of i ?P j] n by simp
  qed (use loop assms(4) child in auto)
  show "row_child n ks' cs' = index_child ix cs"
  proof
    fix c
    have "row_child n ks' cs' c = Some t \<longleftrightarrow> index_child ix cs c = Some t" for t
    proof
      assume "row_child n ks' cs' c = Some t"
      then show "index_child ix cs c = Some t"
        unfolding row_child_iff [OF row] using child(1) by auto
    next
      assume t: "index_child ix cs c = Some t"
      then have "ix ! unat c \<noteq> ART_EMPTY_SLOT" using index_child_None [OF assms(2), of c] by auto
      then obtain k where k: "k < n" "?B ! k = unat c" using used_bytes_pos [of "unat c" ?P] n by auto
      then have "ks' ! k = c" using key [OF k(1)] by simp
      then show "row_child n ks' cs' c = Some t"
        unfolding row_child_iff [OF row] using k(1) child(1) [OF k(1)] t by auto
    qed
    then show "row_child n ks' cs' c = index_child ix cs c" by (metis not_None_eq)
  qed
qed

text \<open>\<open>downgrade_node256_to_node48\<close>.\<close>

lemma pack_index_loop:
  assumes "fold (\<lambda>i (bad, ix', cs', cur :: byte). if P i
        then (bad \<or> 48 \<le> unat cur, ix'[i := cur], cs'[unat cur := g i], cur + 1)
        else (bad, ix', cs', cur)) [0..<m] (False, ix0, cs0, 0) = (bad, ix', cs', cur)"
    and "m \<le> 256" and "length (filter P [0..<m]) \<le> 48"
    and "ix0 = replicate 256 ART_EMPTY_SLOT" and "cs0 = replicate 48 None"
  shows "\<not> bad \<and> length ix' = 256 \<and> length cs' = 48 \<and> cur = of_nat (length (filter P [0..<m])) \<and>
    (\<forall>i < 256. i \<notin> set (filter P [0..<m]) \<longrightarrow> ix' ! i = ART_EMPTY_SLOT) \<and>
    (\<forall>k < length (filter P [0..<m]). ix' ! (filter P [0..<m] ! k) = of_nat k \<and> cs' ! k = g (filter P [0..<m] ! k)) \<and>
    (\<forall>k < 48. length (filter P [0..<m]) \<le> k \<longrightarrow> cs' ! k = None)"
  using assms(1-3)
proof (induction m arbitrary: bad ix' cs' cur)
  case 0
  then have "ix' = replicate 256 ART_EMPTY_SLOT" "cs' = replicate 48 None" "cur = 0" "\<not> bad"
    using assms(4,5) by simp_all
  then show ?case by simp
next
  case (Suc m)
  let ?f = "\<lambda>i (bad, ix', cs', cur :: byte). if P i
        then (bad \<or> 48 \<le> unat cur, ix'[i := cur], cs'[unat cur := g i], cur + 1)
        else (bad, ix', cs', cur)"
  obtain bad1 ix1 cs1 cur1 where f: "fold ?f [0..<m] (False, ix0, cs0, 0) = (bad1, ix1, cs1, cur1)"
    by (rule prod_cases4)
  have len: "length (filter P [0..<m]) \<le> 48" using Suc.prems(3) by (auto split: if_splits)
  have m: "m \<le> 256" "m < 256" using Suc.prems(2) by simp_all
  note ih = Suc.IH [OF f m(1) len]
  show ?case
  proof (cases "P m")
    case True
    let ?B = "filter P [0..<m]" and ?n = "length (filter P [0..<m])"
    have n: "?n < 48" using Suc.prems(3) True by simp
    have cur1: "unat cur1 = ?n" "cur1 = of_nat ?n" using ih n by simp_all
    have "?f m (bad1, ix1, cs1, cur1) = (bad, ix', cs', cur)"
      using Suc.prems(1) by (simp only: upt_Suc le0 if_True fold_append comp_apply fold_Cons fold_Nil id_apply f)
    then have new: "bad = (bad1 \<or> 48 \<le> ?n)" "ix' = ix1[m := cur1]" "cs' = cs1[?n := g m]" "cur = cur1 + 1"
      unfolding prod.case if_P [OF True] cur1(1) prod.inject by blast+
    have B: "length (filter P [0..<Suc m]) = Suc ?n" "filter P [0..<Suc m] = ?B @ [m]"
      using True by simp_all
    have lens: "length ix1 = 256" "length cs1 = 48" using ih by simp_all
    have below: "?B ! k < m" if "k < ?n" for k
      using that nth_mem [of k ?B] by auto
    have "ix' ! ((?B @ [m]) ! k) = of_nat k \<and> cs' ! k = g ((?B @ [m]) ! k)" if "k < Suc ?n" for k
    proof (cases "k = ?n")
      case True
      then show ?thesis using new(2,3) lens m(2) n cur1(2) by simp
    next
      case False
      then have k: "k < ?n" using that by simp
      then show ?thesis using new(2,3) ih below [OF k] by (simp add: nth_append)
    qed
    moreover have "ix' ! i = ART_EMPTY_SLOT" if "i < 256" "i \<notin> set (?B @ [m])" for i
      using new(2) ih that by simp
    moreover have "cs' ! k = None" if "k < 48" "Suc ?n \<le> k" for k
      using new(3) ih that by simp
    ultimately show ?thesis unfolding B using new lens ih n cur1(2) by simp
  next
    case False
    then show ?thesis using Suc.prems(1) f ih by simp
  qed
qed

lemma dense_to_index:
  assumes "fold (\<lambda>i (bad, ix', cs', cur :: byte). if child_at cs i \<noteq> None
        then (bad \<or> 48 \<le> unat cur, ix'[i := cur], cs'[unat cur := child_at cs i], cur + 1)
        else (bad, ix', cs', cur)) [0..<256] (False, ix0, cs0, 0) = (bad, ix', cs', cur)"
    and "n = card (dom (dense_child cs))" and "n \<le> 48"
    and "ix0 = replicate 256 ART_EMPTY_SLOT" and "cs0 = replicate 48 None"
  shows "\<not> bad" and "index_ok ix' cs'" and "index_child ix' cs' = dense_child cs"
proof -
  let ?P = "\<lambda>i. child_at cs i \<noteq> None"
  let ?B = "used_bytes ?P"
  have n: "length ?B = n" using used_bytes_count [of ?P "dense_child cs"] assms(2) by (simp add: dense_child_def)
  have loop: "\<not> bad" "length ix' = 256" "length cs' = 48"
      "\<And>i. i < 256 \<Longrightarrow> i \<notin> set ?B \<Longrightarrow> ix' ! i = ART_EMPTY_SLOT"
      "\<And>k. k < n \<Longrightarrow> ix' ! (?B ! k) = of_nat k \<and> cs' ! k = child_at cs (?B ! k)"
      "\<And>k. k < 48 \<Longrightarrow> n \<le> k \<Longrightarrow> cs' ! k = None"
    using pack_index_loop [OF assms(1) le_refl _ assms(4,5)] assms(3) n by (auto simp: used_bytes_def)
  show "\<not> bad" by (rule loop(1))
  have used: "\<exists>k < n. ?B ! k = unat c \<and> ix' ! unat c = of_nat k \<and> cs' ! k = dense_child cs c"
    if "dense_child cs c \<noteq> None" for c
  proof -
    have "?P (unat c)" using that by (simp add: dense_child_def)
    then obtain k where k: "k < n" "?B ! k = unat c" using used_bytes_pos [of "unat c" ?P] n by auto
    then show ?thesis using loop(5) [OF k(1)] by (auto simp: dense_child_def)
  qed
  have unused: "ix' ! unat c = ART_EMPTY_SLOT" if "dense_child cs c = None" for c
    using that by (intro loop(4)) (auto simp: used_bytes_def dense_child_def)
  have iff: "ix' ! unat c \<noteq> ART_EMPTY_SLOT \<longleftrightarrow> dense_child cs c \<noteq> None" for c
  proof
    assume "dense_child cs c \<noteq> None"
    from used [OF this] obtain k where "k < n" "ix' ! unat c = of_nat k" by blast
    then show "ix' ! unat c \<noteq> ART_EMPTY_SLOT" using not_empty_slot [of k] assms(3) by simp
  qed (use unused in auto)
  have pos: "unat (of_nat k :: byte) = k" if "k < n" for k using that assms(3) by simp
  show "index_ok ix' cs'"
    unfolding index_ok_def
  proof (intro conjI allI impI)
    fix c :: byte assume "ix' ! unat c \<noteq> ART_EMPTY_SLOT"
    then have d: "dense_child cs c \<noteq> None" using iff by blast
    from used [OF d] obtain k where k: "k < n" "ix' ! unat c = of_nat k" "cs' ! k = dense_child cs c" by blast
    show "unat (ix' ! unat c) < 48" using k pos assms(3) by simp
    show "cs' ! unat (ix' ! unat c) \<noteq> None" using k pos d by simp
  next
    fix c d :: byte assume c: "ix' ! unat c \<noteq> ART_EMPTY_SLOT" and eq: "ix' ! unat c = ix' ! unat d"
    from c have dc: "dense_child cs c \<noteq> None" "dense_child cs d \<noteq> None" using iff eq by metis+
    from used [OF dc(1)] used [OF dc(2)] obtain k j where
      k: "k < n" "?B ! k = unat c" "ix' ! unat c = of_nat k"
      and j: "j < n" "?B ! j = unat d" "ix' ! unat d = of_nat j" by blast
    have "k = j" using pos [OF k(1)] pos [OF j(1)] k(3) j(3) eq by metis
    then have "unat c = unat d" using k(2) j(2) by metis
    then show "c = d" by simp
  next
    fix j assume j: "j < (48 :: nat)" "cs' ! j \<noteq> None"
    then have jn: "j < n" using loop(6) [OF j(1)] by (metis not_le)
    then have "?B ! j < 256" using used_bytes_nth(1) [of j ?P] n by simp
    then have "ix' ! unat (of_nat (?B ! j) :: byte) = of_nat j" using loop(5) [OF jn] by simp
    then show "\<exists>c :: byte. ix' ! unat c = of_nat j" by blast
  qed (use loop in auto)
  show "index_child ix' cs' = dense_child cs"
  proof
    fix c
    show "index_child ix' cs' c = dense_child cs c"
    proof (cases "dense_child cs c")
      case None
      then show ?thesis using unused by (simp add: index_child_def)
    next
      case (Some t)
      then have d: "dense_child cs c \<noteq> None" by simp
      from used [OF d] obtain k where k: "k < n" "ix' ! unat c = of_nat k" "cs' ! k = dense_child cs c" by blast
      moreover have "ix' ! unat c \<noteq> ART_EMPTY_SLOT" using iff d by blast
      moreover have "k < length cs'" using k(1) assms(3) loop(3) by simp
      ultimately show ?thesis using pos [OF k(1)] by (simp add: index_child_def child_at_def)
    qed
  qed
qed

section \<open>Growing and shrinking\<close>

fun pool_of :: "node_type \<Rightarrow> art_slab \<Rightarrow> kpool option" where
  "pool_of NODE4 = pool_node4"
| "pool_of NODE16 = pool_node16"
| "pool_of NODE48 = pool_node48"
| "pool_of NODE256 = pool_node256"
| "pool_of LEAF_NODE = pool_leaf"

fun set_pool :: "node_type \<Rightarrow> kpool option \<Rightarrow> art_slab \<Rightarrow> art_slab" where
  "set_pool NODE4 q s = s\<lparr>pool_node4 := q\<rparr>"
| "set_pool NODE16 q s = s\<lparr>pool_node16 := q\<rparr>"
| "set_pool NODE48 q s = s\<lparr>pool_node48 := q\<rparr>"
| "set_pool NODE256 q s = s\<lparr>pool_node256 := q\<rparr>"
| "set_pool LEAF_NODE q s = s\<lparr>pool_leaf := q\<rparr>"

lemma release_node_pool:
  "release_node slab node =
    set_pool (type_of node) (kpool_free (pool_of (type_of node) slab) (Some (slot_of node))) slab"
  by (cases "type_of node") (simp_all add: release_node_def)

text \<open>
  \<open>replaces\<close>: the node takes the place of the old one, with its children and its prefix, in a block
  of its own pool; the old one has gone back to its pool.
\<close>

definition same_children :: "art_node \<Rightarrow> art_node \<Rightarrow> bool" where
  "same_children node node' \<longleftrightarrow>
     node_ok node' \<and> header_of node' = header_of node \<and> next_child node' = next_child node"

definition replaces :: "art_slab \<Rightarrow> art_node \<Rightarrow> art_slab \<Rightarrow> art_node \<Rightarrow> bool" where
  "replaces slab node slab' node' \<longleftrightarrow> same_children node node' \<and>
     (\<exists>q. kpool_alloc (pool_of (type_of node') slab) = (q, Some (slot_of node')) \<and>
       slab' = release_node (set_pool (type_of node') q slab) node)"

definition no_block :: "node_type \<Rightarrow> art_slab \<Rightarrow> art_slab \<Rightarrow> bool" where
  "no_block T slab slab' \<longleftrightarrow> (\<exists>q. kpool_alloc (pool_of T slab) = (q, None) \<and> slab' = set_pool T q slab)"

lemmas morph_defs = upgrade_node4_to_node16_def upgrade_node16_to_node48_def upgrade_node48_to_node256_def
  downgrade_node256_to_node48_def downgrade_node48_to_node16_def downgrade_node16_to_node4_def
  alloc_node4_def alloc_node16_def alloc_node48_def alloc_node256_def

lemma upgrade4_ok:
  assumes "node_ok (Node4 a hr n ks cs)" and "upgrade_node4_to_node16 slab (Node4 a hr n ks cs) = (slab', r)"
  shows "case r of None \<Rightarrow> no_block NODE16 slab slab'
    | Some big \<Rightarrow> type_of big = NODE16 \<and> child_count big = n \<and> replaces slab (Node4 a hr n ks cs) slab' big"
proof (cases "kpool_alloc (pool_node16 slab)")
  case (Pair q p)
  show ?thesis
  proof (cases p)
    case None
    then show ?thesis using assms(2) Pair by (auto simp: morph_defs no_block_def)
  next
    case (Some a')
    obtain ks' cs' where f: "fold (\<lambda>i (ks', cs'). (ks'[i := ks ! i], cs'[i := child_at cs i])) [0..<n]
        (replicate 16 0, replicate 16 None) = (ks', cs')" by fastforce
    have row: "row_ok 4 n ks cs" "n \<le> 16" using assms(1) by (auto simp: row_ok_def)
    note c = row_copy [OF row _ _ f]
    have "slab' = release_node (slab\<lparr>pool_node16 := q\<rparr>) (Node4 a hr n ks cs) \<and> r = Some (Node16 a' hr n ks' cs')"
      using assms(2) Pair Some f by (auto simp: morph_defs release_node_def)
    then show ?thesis using Pair Some c by (simp add: replaces_def same_children_def)
  qed
qed

lemma upgrade16_ok:
  assumes "node_ok (Node16 a hr n ks cs)" and "upgrade_node16_to_node48 slab (Node16 a hr n ks cs) = (slab', r)"
  shows "case r of None \<Rightarrow> no_block NODE48 slab slab'
    | Some big \<Rightarrow> type_of big = NODE48 \<and> child_count big = n \<and> replaces slab (Node16 a hr n ks cs) slab' big \<and>
        child_at (children_of big) n = None"
proof (cases "kpool_alloc (pool_node48 slab)")
  case (Pair q p)
  show ?thesis
  proof (cases p)
    case None
    then show ?thesis using assms(2) Pair by (auto simp: morph_defs no_block_def)
  next
    case (Some a')
    obtain ix' cs' where f: "fold (\<lambda>i (ix', cs'). (ix'[unat (ks ! i) := of_nat i], cs'[i := child_at cs i])) [0..<n]
        (replicate 256 ART_EMPTY_SLOT, replicate 48 None) = (ix', cs')" by fastforce
    have row: "row_ok 16 n ks cs" "n \<le> 48" "n < 48" using assms(1) by (auto simp: row_ok_def)
    note c = row_to_index [OF f row(1,2) refl refl]
    have "slab' = release_node (slab\<lparr>pool_node48 := q\<rparr>) (Node16 a hr n ks cs) \<and> r = Some (Node48 a' hr ix' cs' n)"
      using assms(2) Pair Some f by (auto simp: morph_defs release_node_def)
    then show ?thesis
      using Pair Some c(1,2) c(3) [OF row(3)] row_count [OF row(1)]
      by (simp add: replaces_def same_children_def child_at_def)
  qed
qed

lemma upgrade48_ok:
  assumes "node_ok (Node48 a hr ix cs n)" and "upgrade_node48_to_node256 slab (Node48 a hr ix cs n) = (slab', r)"
  shows "case r of None \<Rightarrow> no_block NODE256 slab slab'
    | Some big \<Rightarrow> type_of big = NODE256 \<and> child_count big = n \<and> replaces slab (Node48 a hr ix cs n) slab' big"
proof (cases "kpool_alloc (pool_node256 slab)")
  case (Pair q p)
  show ?thesis
  proof (cases p)
    case None
    then show ?thesis using assms(2) Pair by (auto simp: morph_defs no_block_def)
  next
    case (Some a')
    let ?cs = "fold (\<lambda>i cs'. if ix ! i \<noteq> ART_EMPTY_SLOT then cs'[i := child_at cs (unat (ix ! i))] else cs')
        [0..<256] (replicate 256 None)"
    have n: "n \<le> 48" using node_count_le [OF assms(1)] by simp
    then have "unat (of_nat n :: 16 word) = n" by (simp add: unat_of_nat)
    moreover have "slab' = release_node (slab\<lparr>pool_node48 := pool_node48 slab, pool_node256 := q\<rparr>) (Node48 a hr ix cs n) \<and>
        r = Some (Node256 a' hr ?cs (of_nat n))"
      using assms(2) Pair Some by (auto simp: morph_defs release_node_def Let_def)
    ultimately show ?thesis
      using Pair Some index_to_dense [OF refl, of ix cs] assms(1) by (simp add: replaces_def same_children_def)
  qed
qed

lemma downgrade16_ok:
  assumes "node_ok (Node16 a hr n ks cs)" and "n \<le> 4"
    and "downgrade_node16_to_node4 slab (Node16 a hr n ks cs) = (slab', r)"
  shows "case r of None \<Rightarrow> no_block NODE4 slab slab'
    | Some small \<Rightarrow> type_of small = NODE4 \<and> child_count small = n \<and> replaces slab (Node16 a hr n ks cs) slab' small"
proof (cases "kpool_alloc (pool_node4 slab)")
  case (Pair q p)
  show ?thesis
  proof (cases p)
    case None
    then show ?thesis using assms(3) Pair by (auto simp: morph_defs no_block_def)
  next
    case (Some a')
    obtain ks' cs' where f: "fold (\<lambda>i (ks', cs'). (ks'[i := ks ! i], cs'[i := child_at cs i])) [0..<n]
        (replicate 4 0, replicate 4 None) = (ks', cs')" by fastforce
    have row: "row_ok 16 n ks cs" using assms(1) by simp
    note c = row_copy [OF row assms(2) _ _ f]
    have "slab' = release_node (slab\<lparr>pool_node4 := q\<rparr>) (Node16 a hr n ks cs) \<and> r = Some (Node4 a' hr n ks' cs')"
      using assms(3) Pair Some f by (auto simp: morph_defs release_node_def)
    then show ?thesis using Pair Some c by (simp add: replaces_def same_children_def)
  qed
qed

lemma downgrade48_ok:
  assumes "node_ok (Node48 a hr ix cs n)" and "n \<le> 16"
    and "downgrade_node48_to_node16 slab (Node48 a hr ix cs n) = (bad, slab', r)"
  shows "\<not> bad \<and> (case r of None \<Rightarrow> no_block NODE16 slab slab'
    | Some small \<Rightarrow> type_of small = NODE16 \<and> child_count small = n \<and> replaces slab (Node48 a hr ix cs n) slab' small)"
proof (cases "kpool_alloc (pool_node16 slab)")
  case (Pair q p)
  show ?thesis
  proof (cases p)
    case None
    then show ?thesis using assms(3) Pair by (auto simp: morph_defs no_block_def)
  next
    case (Some a')
    let ?f = "\<lambda>i (bad, ks', cs', cur :: byte). if ix ! i \<noteq> ART_EMPTY_SLOT
        then (bad \<or> 16 \<le> unat cur, ks'[unat cur := of_nat i :: byte], cs'[unat cur := child_at cs (unat (ix ! i))], cur + 1)
        else (bad, ks', cs', cur)"
    obtain bad1 ks' cs' cur where f: "fold ?f [0..<256] (False, replicate 16 0, replicate 16 None, 0) =
        (bad1, ks', cs', cur)" by (rule prod_cases4)
    have ix: "index_ok ix cs" "n = card (dom (index_child ix cs))" using assms(1) by simp_all
    note c = index_to_row [OF f ix assms(2)]
    have "bad = bad1 \<and> slab' = release_node (slab\<lparr>pool_node16 := q\<rparr>) (Node48 a hr ix cs n) \<and> r = Some (Node16 a' hr n ks' cs')"
      using assms(3) Pair Some f by (simp add: morph_defs release_node_def)
    then show ?thesis using Pair Some c by (simp add: replaces_def same_children_def)
  qed
qed

lemma downgrade256_ok:
  assumes "node_ok (Node256 a hr cs n)" and "unat n \<le> 48"
    and "downgrade_node256_to_node48 slab (Node256 a hr cs n) = (bad, slab', r)"
  shows "\<not> bad \<and> (case r of None \<Rightarrow> no_block NODE48 slab slab'
    | Some small \<Rightarrow> type_of small = NODE48 \<and> child_count small = unat n \<and> replaces slab (Node256 a hr cs n) slab' small)"
proof (cases "kpool_alloc (pool_node48 slab)")
  case (Pair q p)
  show ?thesis
  proof (cases p)
    case None
    then show ?thesis using assms(3) Pair by (auto simp: morph_defs no_block_def)
  next
    case (Some a')
    let ?f = "\<lambda>i (bad, ix', cs', cur :: byte). if child_at cs i \<noteq> None
        then (bad \<or> 48 \<le> unat cur, ix'[i := cur], cs'[unat cur := child_at cs i], cur + 1)
        else (bad, ix', cs', cur)"
    obtain bad1 ix' cs' cur where f: "fold ?f [0..<256] (False, replicate 256 ART_EMPTY_SLOT, replicate 48 None, 0) =
        (bad1, ix', cs', cur)" by (rule prod_cases4)
    have cs: "unat n = card (dom (dense_child cs))" using assms(1) by simp
    note c = dense_to_index [OF f cs assms(2) refl refl]
    have "unat (ucast n :: byte) = unat n" using assms(2) by (simp add: unsigned_ucast_eq take_bit_nat_eq_self)
    moreover have "bad = bad1 \<and> slab' = release_node (slab\<lparr>pool_node48 := q\<rparr>) (Node256 a hr cs n) \<and>
        r = Some (Node48 a' hr ix' cs' (unat (ucast n :: byte)))"
      using assms(3) Pair Some f by (simp add: morph_defs release_node_def)
    ultimately show ?thesis using Pair Some c cs by (simp add: replaces_def same_children_def)
  qed
qed

section \<open>Properties\<close>

text \<open>The step up from each size, and the step down from each size.\<close>

definition grow_node :: "art_slab \<Rightarrow> art_node \<Rightarrow> art_slab \<times> art_node option" where
  "grow_node slab node =
     (case type_of node of
        NODE4 \<Rightarrow> upgrade_node4_to_node16 slab node
      | NODE16 \<Rightarrow> upgrade_node16_to_node48 slab node
      | NODE48 \<Rightarrow> upgrade_node48_to_node256 slab node
      | _ \<Rightarrow> (slab, None))"

definition step_down :: "art_slab \<Rightarrow> art_node \<Rightarrow> bool \<times> art_slab \<times> art_node option" where
  "step_down slab node =
     (case type_of node of
        NODE16 \<Rightarrow> (False, downgrade_node16_to_node4 slab node)
      | NODE48 \<Rightarrow> downgrade_node48_to_node16 slab node
      | NODE256 \<Rightarrow> downgrade_node256_to_node48 slab node
      | _ \<Rightarrow> (False, slab, None))"

fun next_size :: "node_type \<Rightarrow> node_type" where
  "next_size NODE4 = NODE16"
| "next_size NODE16 = NODE48"
| "next_size NODE48 = NODE256"
| "next_size T = T"

lemma grow_node_ok:
  assumes "node_ok node" and "type_of node \<in> {NODE4, NODE16, NODE48}" and "grow_node slab node = (slab', r)"
  shows "case r of None \<Rightarrow> no_block (next_size (type_of node)) slab slab'
    | Some big \<Rightarrow> type_of big = next_size (type_of node) \<and> child_count big = child_count node \<and>
        replaces slab node slab' big"
proof (cases node)
  case (Node4 a hr n ks cs)
  then show ?thesis using upgrade4_ok [of a hr n ks cs slab slab' r] assms by (cases r) (simp_all add: grow_node_def)
next
  case (Node16 a hr n ks cs)
  then show ?thesis
    using upgrade16_ok [of a hr n ks cs slab slab' r] assms by (auto simp: grow_node_def split: option.splits)
next
  case (Node48 a hr ix cs n)
  then show ?thesis using upgrade48_ok [of a hr ix cs n slab slab' r] assms by (cases r) (simp_all add: grow_node_def)
qed (use assms in simp_all)

fun capacity_of :: "node_type \<Rightarrow> nat" where
  "capacity_of NODE4 = 4"
| "capacity_of NODE16 = 16"
| "capacity_of NODE48 = 48"
| "capacity_of NODE256 = 256"
| "capacity_of LEAF_NODE = 0"

lemma node_capacity_type: "node_capacity node = capacity_of (type_of node)"
  by (cases node) simp_all

lemma step_down_ok:
  assumes "node_ok node" and "type_of node = next_size T" and "T \<in> {NODE4, NODE16, NODE48}"
    and "child_count node \<le> capacity_of T" and "step_down slab node = (bad, slab', r)"
  shows "\<not> bad \<and> (case r of None \<Rightarrow> no_block T slab slab'
    | Some small \<Rightarrow> type_of small = T \<and> child_count small = child_count node \<and> replaces slab node slab' small)"
proof (cases node)
  case (Node16 a hr n ks cs)
  then show ?thesis
    using downgrade16_ok [of a hr n ks cs slab slab' r] assms by (cases T; cases r) (simp_all add: step_down_def)
next
  case (Node48 a hr ix cs n)
  then show ?thesis
    using downgrade48_ok [of a hr ix cs n slab bad slab' r] assms by (cases T; cases r) (simp_all add: step_down_def)
next
  case (Node256 a hr cs n)
  then show ?thesis
    using downgrade256_ok [of a hr cs n slab bad slab' r] assms by (cases T; cases r) (simp_all add: step_down_def)
qed (use assms in \<open>cases T; simp\<close>)+

text \<open>The block given back last is the block handed out next.\<close>

lemma kpool_free_alloc: "q \<noteq> None \<Longrightarrow> \<exists>q'. kpool_alloc (kpool_free q (Some a)) = (q', Some a)"
  by (auto simp: kpool_free_def kpool_alloc_def)

lemma kpool_alloc_Some: "kpool_alloc q = (q', r) \<Longrightarrow> q \<noteq> None \<Longrightarrow> q' \<noteq> None"
  by (auto simp: kpool_alloc_def split: option.splits)

text \<open>
  C33: the three larger layouts hold the same node: when a full node is replaced by the next
  larger one, every byte leads to the same child, prefix and number of children stay, the arrays and
  the count of the new node are consistent, and its block comes from its pool while the old block goes
  back to its own.  Nothing is lost when the pool is empty: the old node stays.
\<close>

theorem art_grow_keeps_children:
  assumes "node_ok node" and "type_of node \<in> {NODE4, NODE16, NODE48}" and "grow_node slab node = (slab', r)"
  shows "case r of
      None \<Rightarrow> \<exists>q. kpool_alloc (pool_of (next_size (type_of node)) slab) = (q, None) \<and>
        slab' = set_pool (next_size (type_of node)) q slab
    | Some big \<Rightarrow> type_of big = next_size (type_of node) \<and> node_ok big \<and>
        (\<forall>c. next_child big c = next_child node c) \<and> header_of big = header_of node \<and>
        child_count big = child_count node \<and>
        (\<exists>q. kpool_alloc (pool_of (type_of big) slab) = (q, Some (slot_of big)) \<and>
          slab' = release_node (set_pool (type_of big) q slab) node)"
  using grow_node_ok [OF assms]
  by (auto simp: no_block_def replaces_def same_children_def split: option.splits)

text \<open>A slab of pools with two blocks each, and a node with four leaves.\<close>

definition example_pool :: "kpool option" where
  "example_pool = Some \<lparr>kp_self = 0, block_size = 8, kp_capacity = 2, memory_block = 1, slab_len = 16,
     next_of = (\<lambda>_. None)(0 := Some 8), free_list = Some 0\<rparr>"

definition example_slab :: art_slab where
  "example_slab = \<lparr>slab_self = 2, pool_node4 = example_pool, pool_node16 = example_pool,
     pool_node48 = example_pool, pool_node256 = example_pool, pool_leaf = example_pool\<rparr>"

definition example_node4 :: art_node where
  "example_node4 = Node4 0 empty_header 2 [97, 98, 0, 0]
     [Some (ArtLeaf 0 [97] 3 None), Some (ArtLeaf 8 [98] 4 None), None, None]"

lemma example_node4_ok: "node_ok example_node4" "type_of example_node4 \<in> {NODE4, NODE16, NODE48}"
  by (auto simp: example_node4_def row_ok_def numeral_2_eq_2 less_Suc_eq)

lemma example_grows:
  "grow_node example_slab example_node4 = (fst (grow_node example_slab example_node4),
     Some (the (snd (grow_node example_slab example_node4))))"
  by (auto simp: grow_node_def example_node4_def example_slab_def example_pool_def
      upgrade_node4_to_node16_def alloc_node16_def kpool_alloc_def split: prod.splits)

lemma example_children:
  "next_child example_node4 97 = Some (ArtLeaf 0 [97] 3 None)"
  "next_child example_node4 98 = Some (ArtLeaf 8 [98] 4 None)" "child_count example_node4 = 2"
  "type_of example_node4 = NODE4" "slot_of example_node4 = 0"
  by (simp_all add: example_node4_def row_child_def find_key_def child_at_def upt_conv_Cons)

theorem art_grow_keeps_children_witness:
  "\<exists>slab' big. grow_node example_slab example_node4 = (slab', Some big) \<and> type_of big = NODE16 \<and>
     next_child big 97 = Some (ArtLeaf 0 [97] 3 None) \<and> child_count big = 2"
proof -
  let ?big = "the (snd (grow_node example_slab example_node4))"
  from art_grow_keeps_children [OF example_node4_ok example_grows, unfolded option.case example_children next_size.simps]
  have "type_of ?big = NODE16" "\<forall>c. next_child ?big c = next_child example_node4 c" "child_count ?big = 2"
    by blast+
  then have "type_of ?big = NODE16 \<and> next_child ?big 97 = Some (ArtLeaf 0 [97] 3 None) \<and> child_count ?big = 2"
    using example_children(1) by simp
  then show ?thesis using example_grows by blast
qed

text \<open>
  C34: shrinking undoes growing: the node that has grown and is stepped down again is, in its
  old block, the node it was: the same type, prefix and number of children, and every byte leads to
  the same child.  No array is written outside its bounds.
\<close>

theorem art_shrink_undoes_growth:
  assumes "node_ok node" and "type_of node \<in> {NODE4, NODE16, NODE48}" and "pool_of (type_of node) slab \<noteq> None"
    and "grow_node slab node = (slab1, Some big)"
  shows "\<exists>slab2 small. step_down slab1 big = (False, slab2, Some small) \<and> type_of small = type_of node \<and>
    slot_of small = slot_of node \<and> header_of small = header_of node \<and> child_count small = child_count node \<and>
    (\<forall>c. next_child small c = next_child node c)"
proof -
  let ?T = "type_of node"
  have g: "type_of big = next_size ?T" "child_count big = child_count node" "replaces slab node slab1 big"
    using grow_node_ok [OF assms(1,2,4)] by simp_all
  have sc: "node_ok big" "header_of big = header_of node" "next_child big = next_child node"
    using g(3) by (simp_all add: replaces_def same_children_def)
  obtain bad slab2 r where d: "step_down slab1 big = (bad, slab2, r)" by (rule prod_cases3)
  have "child_count big \<le> capacity_of ?T"
    using g(2) node_count_le [OF assms(1)] by (simp add: node_capacity_type)
  note s = step_down_ok [OF sc(1) g(1) assms(2) this d]
  obtain q where q: "kpool_alloc (pool_of (type_of big) slab) = (q, Some (slot_of big))"
    "slab1 = release_node (set_pool (type_of big) q slab) node"
    using g(3) by (auto simp: replaces_def)
  have "pool_of ?T slab1 = kpool_free (pool_of ?T slab) (Some (slot_of node))"
    using assms(2) g(1) q(2) by (cases ?T) (auto simp: release_node_pool)
  then obtain q' where q': "kpool_alloc (pool_of ?T slab1) = (q', Some (slot_of node))"
    using kpool_free_alloc [OF assms(3)] by metis
  then obtain small where small: "r = Some small" using s by (cases r) (auto simp: no_block_def)
  then have t: "type_of small = ?T" "child_count small = child_count big" "replaces slab1 big slab2 small" "\<not> bad"
    using s by simp_all
  then have "slot_of small = slot_of node" using q' by (auto simp: replaces_def)
  moreover have "header_of small = header_of node" "next_child small = next_child node"
    using t(3) sc by (simp_all add: replaces_def same_children_def)
  ultimately show ?thesis using d small t g(2) by auto
qed

theorem art_shrink_undoes_growth_witness:
  "\<exists>slab1 big slab2 small. grow_node example_slab example_node4 = (slab1, Some big) \<and>
     step_down slab1 big = (False, slab2, Some small) \<and> type_of small = NODE4 \<and> slot_of small = 0 \<and>
     next_child small 98 = Some (ArtLeaf 8 [98] 4 None)"
proof -
  have "pool_of (type_of example_node4) example_slab \<noteq> None"
    by (simp add: example_node4_def example_slab_def example_pool_def)
  from art_shrink_undoes_growth [OF example_node4_ok this example_grows] show ?thesis
    using example_grows by (metis example_children(2,4,5))
qed

end
