(* ===== verification/Art_Tree.thy ===== *)
theory Art_Tree
  imports Art_Morph "HOL-Library.Sublist"
begin

text \<open>
  Well-formed trees, the entries they hold, and the search: a lookup finds exactly the entries, with
  prefixes of any length, although it compares only their first ten bytes.
\<close>

section \<open>Keys and prefixes\<close>

text \<open>Keys are C strings; the terminator makes no key a prefix of another.\<close>

definition valid_key :: "cstring \<Rightarrow> bool" where
  "valid_key k \<longleftrightarrow> 0 \<notin> set k"

lemma key_at_nth: "i \<le> length key \<Longrightarrow> key_at key i = (key @ [0]) ! i"
  by (simp add: key_at_def nth_append)

lemma key_at_zero: "valid_key key \<Longrightarrow> key_at key i = 0 \<longleftrightarrow> length key \<le> i"
  by (auto simp: key_at_def valid_key_def) (metis nth_mem)

lemma prefix_nth: "prefix xs ys \<Longrightarrow> i < length xs \<Longrightarrow> ys ! i = xs ! i"
  by (auto simp: prefix_def nth_append)

lemma prefix_nthI:
  assumes "length xs \<le> length ys" and "\<And>i. i < length xs \<Longrightarrow> xs ! i = ys ! i"
  shows "prefix xs ys"
proof -
  have "xs = take (length xs) ys" by (rule nth_equalityI) (use assms in auto)
  then show ?thesis by (metis take_is_prefix)
qed

lemma prefix_key_at:
  assumes "prefix xs (key @ [0])" and "i < length xs"
  shows "xs ! i = key_at key i"
proof -
  have "length xs \<le> length key + 1" using prefix_length_le [OF assms(1)] by simp
  then show ?thesis using prefix_nth [OF assms] key_at_nth [of i key] assms(2) by simp
qed

text \<open>Inside a terminated key only the last byte is NUL.\<close>

lemma prefix_strict:
  assumes "prefix (xs @ [c]) (key @ [0])" and "valid_key key"
  shows "0 \<notin> set xs" and "length xs \<le> length key"
proof -
  from assms(1) have "prefix xs key" by (auto simp: prefix_def append_eq_append_conv2 Cons_eq_append_conv)
  then show "0 \<notin> set xs" "length xs \<le> length key"
    using assms(2) set_mono_prefix prefix_length_le by (auto simp: valid_key_def)
qed

text \<open>A header holds a prefix: its length and its first ten bytes.\<close>

definition header_holds :: "node_header \<Rightarrow> bytes \<Rightarrow> bool" where
  "header_holds hr pre \<longleftrightarrow> prefix_len hr = length pre \<and> length (prefix_bytes hr) = 10 \<and>
     (\<forall>i < min (length pre) 10. prefix_bytes hr ! i = pre ! i)"

lemma prefix_loop_le: "prefix_loop ps key i \<le> length ps"
  by (induction ps arbitrary: i) auto

lemma prefix_loop_match: "j < prefix_loop ps key i \<Longrightarrow> ps ! j = key_at key (i + j)"
proof (induction ps arbitrary: i j)
  case (Cons p ps)
  then show ?case by (cases j) (auto split: if_splits)
qed simp

lemma prefix_loop_stop:
  "prefix_loop ps key i < length ps \<Longrightarrow> ps ! prefix_loop ps key i \<noteq> key_at key (i + prefix_loop ps key i)"
proof (induction ps arbitrary: i)
  case (Cons p ps)
  then show ?case using Cons.IH [of "Suc i"] by (auto split: if_splits)
qed simp

lemma check_prefix_ok:
  fixes key :: cstring and depth :: nat
  assumes "header_holds hr pre"
  defines "m \<equiv> check_prefix hr key depth"
  shows "m \<le> min (length pre) 10" and "j < m \<Longrightarrow> pre ! j = key_at key (depth + j)"
    and "m < min (length pre) 10 \<Longrightarrow> pre ! m \<noteq> key_at key (depth + m)"
proof -
  let ?ps = "take (min (prefix_len hr) 10) (prefix_bytes hr)"
  have l: "length ?ps = min (length pre) 10" and e: "\<And>i. i < min (length pre) 10 \<Longrightarrow> ?ps ! i = pre ! i"
    using assms(1) by (auto simp: header_holds_def)
  have m: "m = prefix_loop ?ps key depth" by (simp add: m_def check_prefix_def)
  show le: "m \<le> min (length pre) 10" using prefix_loop_le [of ?ps key depth] unfolding l m .
  show "pre ! j = key_at key (depth + j)" if "j < m"
    using prefix_loop_match [of j ?ps key depth] e [of j] that le m by simp
  show "pre ! m \<noteq> key_at key (depth + m)" if "m < min (length pre) 10"
    using prefix_loop_stop [of ?ps key depth, folded m] e [OF that] that unfolding l by metis
qed

text \<open>A prefix without a terminator stops the comparison at the latest at that of the key.\<close>

lemma prefix_past_inside: "0 \<notin> set ps \<Longrightarrow> i \<le> length key \<Longrightarrow> \<not> prefix_past ps key i"
proof (induction ps arbitrary: i)
  case (Cons p ps)
  show ?case
  proof (cases "i = length key")
    case True
    then have "p \<noteq> key_at key i" using Cons.prems(1) by (auto simp: key_at_def)
    then show ?thesis using True by simp
  next
    case False
    then show ?thesis using Cons by auto
  qed
qed simp

lemma prefix_past_short: "i + length ps \<le> Suc (length key) \<Longrightarrow> \<not> prefix_past ps key i"
  by (induction ps arbitrary: i) auto

lemma check_prefix_inside:
  assumes "header_holds hr pre" and "0 \<notin> set pre" and "depth \<le> length key"
  shows "\<not> check_prefix_past hr key depth"
proof -
  let ?ps = "take (min (prefix_len hr) 10) (prefix_bytes hr)"
  have "?ps = take 10 pre"
    using assms(1) by (intro nth_equalityI) (auto simp: header_holds_def)
  then have "0 \<notin> set ?ps" using assms(2) set_take_subset [of 10 pre] by auto
  then show ?thesis using prefix_past_inside [OF _ assms(3)] by (simp add: check_prefix_past_def)
qed

lemma save_prefix_length [simp]: "length (fold (\<lambda>p bs. bs[p := f p]) [0..<n] bs) = length bs"
  by (induction n) auto

lemma save_prefix_nth:
  "i < length bs \<Longrightarrow> fold (\<lambda>p bs. bs[p := f p]) [0..<n] bs ! i = (if i < n then f i else bs ! i)"
  by (induction n) (auto simp: nth_list_update less_Suc_eq)

lemma save_prefix_ok:
  assumes "length (prefix_bytes hr) = 10" and "length pre = n" and "\<And>j. j < n \<Longrightarrow> pre ! j = key_at key (i + j)"
  shows "header_holds (save_prefix hr n key i) pre"
  using assms save_prefix_nth [of _ "prefix_bytes hr" "\<lambda>p. key_at key (i + p)" "min n 10"]
  by (auto simp: header_holds_def save_prefix_def)

lemma empty_header_length [simp]: "length (prefix_bytes empty_header) = 10"
  by (simp add: empty_header_def)

section \<open>Well-formed trees\<close>

text \<open>
  The least number of children of a node that deletions have not thinned out further than the code
  intends.
\<close>

fun least_count :: "node_type \<Rightarrow> nat" where
  "least_count NODE4 = 2"
| "least_count NODE16 = 5"
| "least_count NODE48 = 17"
| "least_count NODE256 = 49"
| "least_count LEAF_NODE = 0"

lemma least_count_two: "T \<noteq> LEAF_NODE \<Longrightarrow> 2 \<le> least_count T"
  by (cases T) auto

text \<open>\<open>art_wf path node\<close>: the bytes on the way from the root to the node are \<open>path\<close>.\<close>

inductive art_wf :: "bytes \<Rightarrow> art_node \<Rightarrow> bool" where
  leaf: "valid_key k \<Longrightarrow> prefix path (k @ [0]) \<Longrightarrow> art_wf path (ArtLeaf a k b v)"
| inner: "type_of node \<noteq> LEAF_NODE \<Longrightarrow> node_ok node \<Longrightarrow> least_count (type_of node) \<le> child_count node \<Longrightarrow>
    header_holds (header_of node) pre \<Longrightarrow> 0 \<notin> set pre \<Longrightarrow>
    (\<And>c t. next_child node c = Some t \<Longrightarrow> art_wf (path @ pre @ [c]) t) \<Longrightarrow> art_wf path node"

text \<open>\<open>art_entry node k v\<close>: below the node a leaf maps \<open>k\<close> to \<open>v\<close>.\<close>

inductive art_entry :: "art_node \<Rightarrow> cstring \<Rightarrow> pointer option \<Rightarrow> bool" where
  leaf: "art_entry (ArtLeaf a k b v) k v"
| below: "next_child node c = Some t \<Longrightarrow> art_entry t k v \<Longrightarrow> art_entry node k v"

inductive_cases art_wf_innerE: "art_wf path node"

lemma entry_leaf [simp]: "art_entry (ArtLeaf a k b v) k' v' \<longleftrightarrow> k' = k \<and> v' = v"
  by (auto elim: art_entry.cases intro: art_entry.leaf)

lemma entry_inner:
  "type_of node \<noteq> LEAF_NODE \<Longrightarrow> art_entry node k v \<longleftrightarrow> (\<exists>c t. next_child node c = Some t \<and> art_entry t k v)"
proof
  assume "type_of node \<noteq> LEAF_NODE" and "art_entry node k v"
  from this(2,1) show "\<exists>c t. next_child node c = Some t \<and> art_entry t k v" by cases auto
qed (blast intro: art_entry.below)

lemma wf_leaf [simp]: "art_wf path (ArtLeaf a k b v) \<longleftrightarrow> valid_key k \<and> prefix path (k @ [0])"
  by (auto elim: art_wf.cases intro: art_wf.leaf)

lemma wf_innerE:
  assumes "art_wf path node" and "type_of node \<noteq> LEAF_NODE"
  obtains pre where "node_ok node" and "least_count (type_of node) \<le> child_count node"
    and "header_holds (header_of node) pre" and "0 \<notin> set pre"
    and "\<forall>c t. next_child node c = Some t \<longrightarrow> art_wf (path @ pre @ [c]) t"
  using assms by (cases rule: art_wf.cases) auto

lemma entry_prefix:
  assumes "art_entry node k v" and "art_wf path node"
  shows "valid_key k \<and> prefix path (k @ [0])"
  using assms
proof (induction arbitrary: path rule: art_entry.induct)
  case (below node c t k v)
  have "type_of node \<noteq> LEAF_NODE" using below.hyps(1) by (cases node) auto
  with below.prems obtain pre where "art_wf (path @ pre @ [c]) t"
    using below.hyps(1) by (metis wf_innerE)
  then have "prefix (path @ pre @ [c]) (k @ [0])" "valid_key k" using below.IH by blast+
  then show ?case using append_prefixD by blast
qed simp

text \<open>A tree is never empty.\<close>

lemma wf_has_child:
  assumes "art_wf path node" and "type_of node \<noteq> LEAF_NODE"
  obtains c t where "next_child node c = Some t"
proof -
  from wf_innerE [OF assms] have "node_ok node" "least_count (type_of node) \<le> child_count node" by blast+
  then have "2 \<le> card (dom (next_child node))"
    using node_count least_count_two [OF assms(2)] by (metis le_trans)
  then have "dom (next_child node) \<noteq> {}" by auto
  then show thesis using that by blast
qed

lemma wf_has_entry:
  assumes "art_wf path node"
  shows "\<exists>k v. art_entry node k v"
  using assms
proof (induction rule: art_wf.induct)
  case (inner node pre path)
  then have wf: "art_wf path node" by (auto intro: art_wf.inner)
  obtain c t where "next_child node c = Some t" by (rule wf_has_child [OF wf inner.hyps(1)])
  then show ?case using inner.IH art_entry.below by blast
qed auto

text \<open>
  The bytes above an inner node contain no NUL, and every key below it goes through its path and
  prefix.
\<close>

lemma inner_path:
  assumes "art_wf path node" and "type_of node \<noteq> LEAF_NODE" and "header_holds (header_of node) pre"
    and "\<forall>c t. next_child node c = Some t \<longrightarrow> art_wf (path @ pre @ [c]) t" and "art_entry node k v"
  shows "prefix (path @ pre) k" and "length path + length pre \<le> length k" and "0 \<notin> set (path @ pre)"
    and "next_child node (key_at k (length path + length pre)) = Some t \<Longrightarrow> art_entry t k v"
    and "\<exists>t. next_child node (key_at k (length path + length pre)) = Some t"
proof -
  from assms(2,5) obtain c u where u: "next_child node c = Some u" "art_entry u k v"
    by (auto simp: entry_inner)
  note p = entry_prefix [OF u(2) assms(4) [rule_format, OF u(1)]]
  have pc: "prefix ((path @ pre) @ [c]) (k @ [0])" using p by simp
  note s = prefix_strict [OF pc, OF conjunct1 [OF p]]
  show "length path + length pre \<le> length k" and "0 \<notin> set (path @ pre)" using s by simp_all
  have "((path @ pre) @ [c]) ! (length path + length pre) = key_at k (length path + length pre)"
    by (rule prefix_key_at [OF pc]) simp
  then have c: "c = key_at k (length path + length pre)" by (simp add: nth_append)
  show "prefix (path @ pre) k" using pc by (auto simp: prefix_def append_eq_append_conv2 Cons_eq_append_conv)
  show "art_entry t k v" if "next_child node (key_at k (length path + length pre)) = Some t"
    using that u c by simp
  show "\<exists>t. next_child node (key_at k (length path + length pre)) = Some t" using u(1) c by auto
qed

section \<open>Search\<close>

lemma search_leaf [simp]: "search_node (ArtLeaf a k b v) key d = (False, if k = key then v else None)"
  by (subst search_node.simps) (simp add: strcmp_eq)

lemma search_inner:
  "type_of node \<noteq> LEAF_NODE \<Longrightarrow> \<not> check_prefix_past (header_of node) key depth \<Longrightarrow> search_node node key depth =
     (let hr = header_of node in
      if prefix_len hr > 0 \<and> check_prefix hr key depth \<noteq> min (prefix_len hr) 10 then (False, None)
      else if prefix_len hr > 0 \<and> depth + prefix_len hr > length key then (False, None)
      else
        let depth1 = depth + prefix_len hr; c = key_at key depth1
        in (case next_child node c of
              None \<Rightarrow> (length key < depth1, None)
            | Some child \<Rightarrow>
                (case search_node child key (depth1 + 1) of (bad, v) \<Rightarrow> (length key < depth1 \<or> bad, v))))"
  by (subst search_node.simps) (cases node; simp add: Let_def cong: option.case_cong)

text \<open>A key that goes through the prefix passes the comparison of the stored bytes.\<close>

lemma check_prefix_full:
  assumes "header_holds hr pre" and "\<And>j. j < length pre \<Longrightarrow> pre ! j = key_at key (depth + j)"
  shows "check_prefix hr key depth = min (length pre) 10"
  using check_prefix_ok [OF assms(1), where key = key and depth = depth] assms(2) by (metis le_neq_implies_less min.cobounded1 order_less_le_trans)

lemma child_is_leaf:
  assumes "art_wf (xs @ [0]) t"
  shows "type_of t = LEAF_NODE"
proof (rule ccontr)
  assume n: "type_of t \<noteq> LEAF_NODE"
  obtain k v where e: "art_entry t k v" using wf_has_entry [OF assms] by blast
  from wf_innerE [OF assms n] obtain pre where "header_holds (header_of t) pre"
    "\<forall>c u. next_child t c = Some u \<longrightarrow> art_wf ((xs @ [0]) @ pre @ [c]) u" by blast
  from inner_path(3) [OF assms n this e] show False by simp
qed

lemma search_node_ok:
  assumes "art_wf path node" and "valid_key key" and "type_of node = LEAF_NODE \<or> length path \<le> length key"
  shows "\<exists>r. search_node node key (length path) = (False, r) \<and> (\<forall>v. art_entry node key v \<longrightarrow> r = v) \<and>
    ((\<forall>v. \<not> art_entry node key v) \<longrightarrow> r = None)"
  using assms(1,3)
proof (induction rule: art_wf.induct)
  case (inner node pre path)
  let ?d = "length path + length pre" and ?c = "key_at key (length path + length pre)"
  have wf: "art_wf path node" by (rule art_wf.inner) (use inner.hyps in auto)
  have kids: "\<forall>c t. next_child node c = Some t \<longrightarrow> art_wf (path @ pre @ [c]) t" using inner.hyps(6) by blast
  note ip = inner_path [OF wf inner.hyps(1,4) kids]
  have len: "prefix_len (header_of node) = length pre" using inner.hyps(4) by (simp add: header_holds_def)
  have inside: "\<not> check_prefix_past (header_of node) key (length path)"
    using check_prefix_inside [OF inner.hyps(4,5)] inner.prems inner.hyps(1) by blast
  have in_prefix: "pre ! j = key_at key (length path + j)" if "art_entry node key v" and "j < length pre" for j v
    using prefix_nth [OF ip(1) [OF that(1)], of "length path + j"] ip(2) [OF that(1)] that(2)
    by (simp add: nth_append key_at_def)
  show ?case
  proof (cases "length pre > 0 \<and> (check_prefix (header_of node) key (length path) \<noteq> min (length pre) 10 \<or>
      ?d > length key)")
    case True
    then have s: "search_node node key (length path) = (False, None)"
      using inner.hyps(1) by (auto simp: search_inner [OF _ inside] len Let_def)
    have "\<not> art_entry node key v" for v
    proof
      assume e: "art_entry node key v"
      show False using True check_prefix_full [OF inner.hyps(4) in_prefix [OF e]] ip(2) [OF e] by simp
    qed
    then show ?thesis using s by blast
  next
    case False
    then have le: "?d \<le> length key" using inner.prems inner.hyps(1) by auto
    show ?thesis
    proof (cases "next_child node ?c")
      case None
      then have "search_node node key (length path) = (False, None)"
        using False inner.hyps(1) le by (auto simp: search_inner [OF _ inside] len Let_def)
      moreover have "\<not> art_entry node key v" for v using ip(5) None by fastforce
      ultimately show ?thesis by blast
    next
      case (Some t)
      have "type_of t = LEAF_NODE \<or> length (path @ pre @ [?c]) \<le> length key"
      proof (cases "?c = 0")
        case True
        then show ?thesis using child_is_leaf [of "path @ pre" t] inner.hyps(6) [OF Some] by simp
      next
        case False
        then show ?thesis using key_at_zero [OF assms(2), of ?d] le by simp
      qed
      from inner.IH [OF Some this] obtain r where r: "search_node t key (Suc ?d) = (False, r)"
        "\<And>v. art_entry t key v \<Longrightarrow> r = v" "(\<forall>v. \<not> art_entry t key v) \<Longrightarrow> r = None" by auto
      have "search_node node key (length path) = (False, r)"
        using False inner.hyps(1) le Some r(1) by (auto simp: search_inner [OF _ inside] len Let_def)
      moreover have "art_entry node key v \<longleftrightarrow> art_entry t key v" for v
        using ip(4) Some art_entry.below by blast
      ultimately show ?thesis using r(2,3) by blast
    qed
  qed
qed auto

text \<open>A key has one value.\<close>

lemma entry_unique:
  assumes "art_wf path node" and "art_entry node k v" and "art_entry node k w"
  shows "v = w"
proof -
  have p: "valid_key k" "prefix path (k @ [0])" using entry_prefix [OF assms(2,1)] by blast+
  have "type_of node = LEAF_NODE \<or> length path \<le> length k"
  proof (rule disjCI)
    assume n: "\<not> length path \<le> length k"
    show "type_of node = LEAF_NODE"
    proof (rule ccontr)
      assume l: "type_of node \<noteq> LEAF_NODE"
      from wf_innerE [OF assms(1) l] obtain pre where "header_holds (header_of node) pre"
        "\<forall>c u. next_child node c = Some u \<longrightarrow> art_wf (path @ pre @ [c]) u" by blast
      from inner_path(2) [OF assms(1) l this assms(2)] n show False by simp
    qed
  qed
  from search_node_ok [OF assms(1) p(1) this] show ?thesis using assms(2,3) by metis
qed

section \<open>The first leaf\<close>

lemma minimum_step_ok:
  assumes "node_ok node" and "2 \<le> child_count node" and "type_of node \<noteq> LEAF_NODE"
  obtains c t where "minimum_step node = Some (Some t)" and "next_child node c = Some t"
proof -
  have dom: "dom (next_child node) \<noteq> {}" using node_count [OF assms(1)] assms(2) by auto
  have "\<exists>c t. minimum_step node = Some (Some t) \<and> next_child node c = Some t"
  proof (cases node)
    case (Node4 a hr n ks cs)
    then have row: "row_ok 4 n ks cs" and n: "0 < n" using assms(1,2) by simp_all
    obtain t where "cs ! 0 = Some t" using row_some [OF row n] by blast
    then show ?thesis
      using Node4 row_child_nth [OF row n] row n by (auto simp: child_at_def row_ok_def intro!: exI [of _ "ks ! 0"])
  next
    case (Node16 a hr n ks cs)
    then have row: "row_ok 16 n ks cs" and n: "0 < n" using assms(1,2) by simp_all
    obtain t where "cs ! 0 = Some t" using row_some [OF row n] by blast
    then show ?thesis
      using Node16 row_child_nth [OF row n] row n by (auto simp: child_at_def row_ok_def intro!: exI [of _ "ks ! 0"])
  next
    case (Node48 a hr ix cs n)
    then have ix: "index_ok ix cs" using assms(1) by simp
    obtain c where c: "index_child ix cs c \<noteq> None" using dom Node48 by (auto simp: dom_def)
    then have "ix ! unat c \<noteq> ART_EMPTY_SLOT" by (simp add: index_child_def split: if_splits)
    then have "find (\<lambda>i. ix ! i \<noteq> ART_EMPTY_SLOT) [0..<256] \<noteq> None"
      by (auto simp: find_None_iff intro!: exI [of _ "unat c"])
    then obtain i where i: "find (\<lambda>i. ix ! i \<noteq> ART_EMPTY_SLOT) [0..<256] = Some i" by blast
    then have u: "i < 256" "ix ! i \<noteq> ART_EMPTY_SLOT" by (auto simp: find_Some_iff)
    then have b: "unat (of_nat i :: byte) = i" by simp
    have "length cs = 48" "unat (ix ! i) < 48" "\<exists>t. cs ! unat (ix ! i) = Some t"
      using index_okD(2) [OF ix] index_okD(3,4) [OF ix, where c = "of_nat i", unfolded b] u(2) by simp_all
    then obtain t where "child_at cs (unat (ix ! i)) = Some t" by (auto simp: child_at_def)
    then show ?thesis using Node48 i u b by (auto simp: index_child_def intro!: exI [of _ "of_nat i :: byte"])
  next
    case (Node256 a hr cs n)
    obtain c where c: "dense_child cs c \<noteq> None" using dom Node256 by (auto simp: dom_def)
    then have "find (\<lambda>i. child_at cs i \<noteq> None) [0..<256] \<noteq> None"
      by (auto simp: find_None_iff dense_child_def intro!: exI [of _ "unat c"])
    then obtain i where i: "find (\<lambda>i. child_at cs i \<noteq> None) [0..<256] = Some i" by blast
    then have u: "i < 256" "child_at cs i \<noteq> None" by (auto simp: find_Some_iff)
    then have "dense_child cs (of_nat i) = child_at cs i" by (simp add: dense_child_def)
    then show ?thesis using Node256 i u(2) by (auto intro!: exI [of _ "of_nat i :: byte"])
  qed (use assms(3) in simp)
  then show thesis using that by blast
qed

text \<open>\<open>find_minimum_leaf\<close> comes to an end, with the key of an entry.\<close>

lemma find_minimum_leaf_ok:
  assumes "art_wf path node"
  shows "\<exists>k v. find_minimum_leaf node = Some (Some k) \<and> art_entry node k v"
  using assms
proof (induction rule: art_wf.induct)
  case (leaf k path a b v)
  then show ?case by (subst find_minimum_leaf.simps) simp
next
  case (inner node pre path)
  have "2 \<le> child_count node" using inner.hyps(3) least_count_two [OF inner.hyps(1)] by simp
  from minimum_step_ok [OF inner.hyps(2) this inner.hyps(1)] obtain c t where
    t: "minimum_step node = Some (Some t)" "next_child node c = Some t" .
  obtain k v where "find_minimum_leaf t = Some (Some k)" "art_entry t k v" using inner.IH [OF t(2)] by blast
  then show ?case
    using inner.hyps(1) t by (subst find_minimum_leaf.simps) (auto simp: Let_def intro: art_entry.below)
qed

end
