(* ===== verification/Art_Env.thy ===== *)
theory Art_Env
  imports Art_Tree "HOL-Library.Multiset"
begin

text \<open>
  What a tree holds: a block of the right pool for each node, and a heap block for the key of each
  leaf.  \<open>env_ok\<close> says that the pools have handed out exactly the blocks of a given multiset and
  that the heap holds exactly its keys, beside the blocks of the tree itself; so no two nodes share a
  block.  Allocating and releasing keep that.
\<close>

section \<open>The blocks of a tree\<close>

datatype thing = Place node_type slot | KeyBlock block_id size_t

definition own_things :: "art_node \<Rightarrow> thing multiset" where
  "own_things node = add_mset (Place (type_of node) (slot_of node))
     (case node of ArtLeaf a k b v \<Rightarrow> {#KeyBlock b (of_nat (length k) + 1)#} | _ \<Rightarrow> {#})"

function things :: "art_node \<Rightarrow> thing multiset" where
  "things node = own_things node +
     (\<Sum>c\<in>UNIV. case next_child node c of None \<Rightarrow> {#} | Some t \<Rightarrow> things t)"
  by pat_completeness auto

termination
  by (relation "measure size") (auto dest: next_child_size)

declare things.simps [simp del]

definition kid_things :: "(byte \<Rightarrow> art_node option) \<Rightarrow> thing multiset" where
  "kid_things m = (\<Sum>c\<in>UNIV. case m c of None \<Rightarrow> {#} | Some t \<Rightarrow> things t)"

definition opt_things :: "art_node option \<Rightarrow> thing multiset" where
  "opt_things t = (case t of None \<Rightarrow> {#} | Some u \<Rightarrow> things u)"

lemma opt_things_simps [simp]: "opt_things None = {#}" "opt_things (Some t) = things t"
  by (simp_all add: opt_things_def)

lemma kid_things_empty [simp]: "kid_things (\<lambda>_. None) = {#}"
  by (simp add: kid_things_def)

lemma things_leaf [simp]:
  "things (ArtLeaf a k b v) = {#Place LEAF_NODE a, KeyBlock b (of_nat (length k) + 1)#}"
  by (subst things.simps) (simp add: own_things_def)

lemma things_inner:
  "type_of node \<noteq> LEAF_NODE \<Longrightarrow>
    things node = add_mset (Place (type_of node) (slot_of node)) (kid_things (next_child node))"
  by (subst things.simps) (cases node; simp add: own_things_def kid_things_def)

lemma things_cong:
  assumes "type_of node \<noteq> LEAF_NODE" and "type_of node' = type_of node" and "slot_of node' = slot_of node"
    and "next_child node' = next_child node"
  shows "things node' = things node"
  using assms by (simp add: things_inner)

text \<open>One child exchanged for another.\<close>

lemma kid_things_upd: "kid_things (m(c := x)) + opt_things (m c) = kid_things m + opt_things x"
proof -
  have s: "kid_things f = opt_things (f c) + (\<Sum>d\<in>UNIV - {c}. opt_things (f d))" for f
    unfolding kid_things_def opt_things_def by (rule sum.remove) simp_all
  have "(\<Sum>d\<in>UNIV - {c}. opt_things ((m(c := x)) d)) = (\<Sum>d\<in>UNIV - {c}. opt_things (m d))"
    by (rule sum.cong) auto
  then show ?thesis using s [of "m(c := x)"] s [of m] by simp
qed

lemma kid_things_new: "m c = None \<Longrightarrow> kid_things (m(c \<mapsto> t)) = kid_things m + things t"
  using kid_things_upd [of m c "Some t"] by simp

lemma kid_things_set: "m c = Some t \<Longrightarrow> kid_things (m(c := x)) + things t = kid_things m + opt_things x"
  using kid_things_upd [of m c x] by simp

lemma kid_things_in: "m c = Some t \<Longrightarrow> \<exists>M. kid_things m = things t + M"
  using kid_things_upd [of m c None] by (metis add.commute add.right_neutral opt_things_simps)

section \<open>Counting\<close>

fun place_in :: "node_type \<Rightarrow> thing \<Rightarrow> slot multiset" where
  "place_in T (Place U a) = (if U = T then {#a#} else {#})"
| "place_in T (KeyBlock b n) = {#}"

fun key_block_in :: "thing \<Rightarrow> (block_id \<times> size_t) multiset" where
  "key_block_in (Place U a) = {#}"
| "key_block_in (KeyBlock b n) = {#(b, n)#}"

definition slots_of :: "node_type \<Rightarrow> thing multiset \<Rightarrow> slot multiset" where
  "slots_of T M = \<Sum>\<^sub># (image_mset (place_in T) M)"

definition key_blocks :: "thing multiset \<Rightarrow> (block_id \<times> size_t) multiset" where
  "key_blocks M = \<Sum>\<^sub># (image_mset key_block_in M)"

lemma slots_of_simps [simp]:
  "slots_of T {#} = {#}" "slots_of T (add_mset x M) = place_in T x + slots_of T M"
  "slots_of T (M + N) = slots_of T M + slots_of T N"
  by (simp_all add: slots_of_def)

lemma key_blocks_simps [simp]:
  "key_blocks {#} = {#}" "key_blocks (add_mset x M) = key_block_in x + key_blocks M"
  "key_blocks (M + N) = key_blocks M + key_blocks N"
  by (simp_all add: key_blocks_def)

definition leaf_count :: "thing multiset \<Rightarrow> nat" where
  "leaf_count M = size (slots_of LEAF_NODE M)"

definition inner_count :: "thing multiset \<Rightarrow> nat" where
  "inner_count M = size (slots_of NODE4 M) + size (slots_of NODE16 M) + size (slots_of NODE48 M) +
     size (slots_of NODE256 M)"

lemma leaf_count_simps [simp]:
  "leaf_count {#} = 0" "leaf_count (add_mset (KeyBlock b n) M) = leaf_count M"
  "leaf_count (add_mset (Place T a) M) = (if T = LEAF_NODE then Suc (leaf_count M) else leaf_count M)"
  "leaf_count (M + N) = leaf_count M + leaf_count N"
  by (simp_all add: leaf_count_def)

lemma inner_count_simps [simp]:
  "inner_count {#} = 0" "inner_count (add_mset (KeyBlock b n) M) = inner_count M"
  "inner_count (add_mset (Place T a) M) = (if T = LEAF_NODE then inner_count M else Suc (inner_count M))"
  "inner_count (M + N) = inner_count M + inner_count N"
  by (cases T; simp add: inner_count_def)+

lemma slots_le_inner: "T \<noteq> LEAF_NODE \<Longrightarrow> size (slots_of T M) \<le> inner_count M"
  by (cases T) (simp_all add: inner_count_def)

lemma leaf_count_sum: "finite A \<Longrightarrow> leaf_count (\<Sum>x\<in>A. f x) = (\<Sum>x\<in>A. leaf_count (f x))"
  by (induction A rule: finite_induct) simp_all

lemma inner_count_sum: "finite A \<Longrightarrow> inner_count (\<Sum>x\<in>A. f x) = (\<Sum>x\<in>A. inner_count (f x))"
  by (induction A rule: finite_induct) simp_all

text \<open>Every inner node has two children or more, so there are fewer inner nodes than leaves.\<close>

lemma wf_counts:
  assumes "art_wf path node"
  shows "inner_count (things node) < leaf_count (things node)"
  using assms
proof (induction rule: art_wf.induct)
  case (inner node pre path)
  let ?m = "next_child node"
  have sums: "leaf_count (kid_things ?m) = (\<Sum>c\<in>UNIV. leaf_count (opt_things (?m c)))"
    "inner_count (kid_things ?m) = (\<Sum>c\<in>UNIV. inner_count (opt_things (?m c)))"
    by (simp_all add: kid_things_def opt_things_def leaf_count_sum inner_count_sum)
  have "inner_count (opt_things (?m c)) + (if ?m c = None then 0 else 1) \<le> leaf_count (opt_things (?m c))" for c
    using inner.IH [of c] by (cases "?m c") (simp_all add: Suc_le_eq)
  then have "(\<Sum>c\<in>UNIV. inner_count (opt_things (?m c)) + (if ?m c = None then 0 else 1)) \<le>
      (\<Sum>c\<in>UNIV. leaf_count (opt_things (?m c)))"
    by (intro sum_mono)
  moreover have "(\<Sum>c\<in>UNIV. if ?m c = None then 0 else 1) = card (dom ?m)"
    by (simp add: sum.If_cases dom_def Collect_neg_eq [symmetric])
  moreover have "2 \<le> card (dom ?m)"
    using node_count [OF inner.hyps(2)] inner.hyps(3) least_count_two [OF inner.hyps(1)] by simp
  ultimately show ?case
    using inner.hyps(1) by (simp add: things_inner sums sum.distrib)
qed simp

section \<open>The pools and the heap\<close>

fun tier_block :: "node_type \<Rightarrow> size_t" where
  "tier_block NODE4 = kpool_block_size sizeof_Node4"
| "tier_block NODE16 = kpool_block_size sizeof_Node16"
| "tier_block NODE48 = kpool_block_size sizeof_Node48"
| "tier_block NODE256 = kpool_block_size sizeof_Node256"
| "tier_block LEAF_NODE = kpool_block_size sizeof_ArtLeaf"

lemma pool_of_set_pool [simp]: "pool_of T (set_pool U q s) = (if T = U then q else pool_of T s)"
  by (cases T; cases U; simp)

lemma slab_self_set_pool [simp]: "slab_self (set_pool T q s) = slab_self s"
  by (cases T) simp_all

lemma slab_self_release [simp]: "slab_self (release_node s node) = slab_self s"
  by (simp add: release_node_pool)

text \<open>What the operations leave alone: the blocks of the tree, those of others, and the pools.\<close>

record art_frame =
  base_blocks :: "(block_id \<times> size_t) list"
  other_blocks :: "(block_id \<times> mblock) list"
  pool_ids :: "node_type \<Rightarrow> (block_id \<times> block_id) option"
  slab_block :: block_id

definition pool_id :: "kpool option \<Rightarrow> (block_id \<times> block_id) option" where
  "pool_id q = map_option (\<lambda>p. (kp_self p, memory_block p)) q"

definition tier_ok :: "art_frame \<Rightarrow> thing multiset \<Rightarrow> art_slab \<Rightarrow> node_type \<Rightarrow> bool" where
  "tier_ok C M slab T \<longleftrightarrow> pool_id (pool_of T slab) = pool_ids C T \<and>
     (\<exists>out. mset out = slots_of T M \<and> pool_inv 1024 (tier_block T) (pool_of T slab, out))"

definition heap_holds :: "art_frame \<Rightarrow> thing multiset \<Rightarrow> heap \<Rightarrow> bool" where
  "heap_holds C M h \<longleftrightarrow> heap_ok h \<and> never_refuses h \<and> \<not> fault h \<and>
     (\<exists>ks. mset ks = key_blocks M \<and> owns_all h (ks @ base_blocks C) \<and>
        others (fst ` set (ks @ base_blocks C)) h = other_blocks C)"

definition env_ok :: "art_frame \<Rightarrow> thing multiset \<Rightarrow> heap \<times> art_slab \<Rightarrow> bool" where
  "env_ok C M st \<longleftrightarrow> heap_holds C M (fst st) \<and> slab_self (snd st) = slab_block C \<and>
     (\<forall>T. tier_ok C M (snd st) T)"

lemma pool_inv_permute: "mset out = mset out' \<Longrightarrow> pool_inv cap bs (q, out) = pool_inv cap bs (q, out')"
  unfolding pool_inv_def prod.case set_append distinct_append
  by (metis mset_eq_imp_distinct_iff set_mset_mset)

lemma pool_id_alloc: "kpool_alloc q = (q', r) \<Longrightarrow> pool_id q' = pool_id q"
  by (auto simp: pool_id_def kpool_alloc_def split: option.splits)

lemma pool_id_free: "pool_id (kpool_free q b) = pool_id q"
  by (auto simp: pool_id_def kpool_free_def split: option.splits)

text \<open>A block taken from a pool.\<close>

lemma env_alloc:
  assumes "env_ok C M (h, slab)" and "kpool_alloc (pool_of T slab) = (q, Some a)"
  shows "env_ok C (add_mset (Place T a) M) (h, set_pool T q slab)"
proof -
  have "tier_ok C (add_mset (Place T a) M) (set_pool T q slab) U" for U
  proof (cases "U = T")
    case True
    from assms(1) obtain out where o: "mset out = slots_of T M" "pool_inv 1024 (tier_block T) (pool_of T slab, out)"
      and i: "pool_id (pool_of T slab) = pool_ids C T"
      by (auto simp: env_ok_def tier_ok_def)
    from pool_step_inv [OF pool_step.take [OF assms(2)] o(2)]
    show ?thesis using True o(1) i pool_id_alloc [OF assms(2)] by (auto simp: tier_ok_def intro!: exI [of _ "a # out"])
  qed (use assms(1) in \<open>auto simp: env_ok_def tier_ok_def\<close>)
  then show ?thesis using assms(1) by (simp add: env_ok_def heap_holds_def)
qed

text \<open>A pool runs dry only when all its 1024 blocks are out.\<close>

lemma env_alloc_none:
  assumes "env_ok C M (h, slab)" and "kpool_alloc (pool_of T slab) = (q, None)"
  shows "size (slots_of T M) = 1024"
proof -
  from assms(1) obtain out where o: "mset out = slots_of T M" "pool_inv 1024 (tier_block T) (pool_of T slab, out)"
    by (auto simp: env_ok_def tier_ok_def)
  from o(2) obtain p fs where p: "pool_of T slab = Some p" "kp_repr p fs"
    by (auto simp: pool_inv_def pool_repr_def split: option.splits)
  then have "fs = []"
    using slab.alloc_none(1) [of "pool_of T slab" fs q] assms(2) by (simp add: pool_repr_def)
  then have "length out = 1024" using pool_inv_counts [of 1024 _ p out fs] o(2) p by simp
  then show ?thesis using o(1) by (metis size_mset)
qed

lemma env_alloc_some:
  assumes "env_ok C M (h, slab)" and "size (slots_of T M) < 1024"
  obtains q a where "kpool_alloc (pool_of T slab) = (q, Some a)"
  using env_alloc_none [OF assms(1)] assms(2) by (metis less_irrefl option.exhaust prod.exhaust)

lemma env_leaf_bound:
  assumes "env_ok C M st"
  shows "size (slots_of T M) \<le> 1024"
proof -
  from assms obtain out where o: "mset out = slots_of T M" "pool_inv 1024 (tier_block T) (pool_of T (snd st), out)"
    by (auto simp: env_ok_def tier_ok_def)
  from o(2) obtain p fs where p: "pool_of T (snd st) = Some p" "kp_repr p fs"
    by (auto simp: pool_inv_def pool_repr_def split: option.splits)
  have "length fs + length out = 1024" using pool_inv_counts [of 1024 _ p out fs] o(2) p by simp
  then show ?thesis using o(1) by (metis le_add2 size_mset)
qed

text \<open>A block given back.\<close>

lemma env_release:
  assumes "env_ok C (add_mset (Place (type_of node) (slot_of node)) M) (h, slab)"
  shows "env_ok C M (h, release_node slab node)"
proof -
  let ?T = "type_of node" and ?a = "slot_of node"
  have "tier_ok C M (release_node slab node) U" for U
  proof (cases "U = ?T")
    case True
    have "tier_ok C (add_mset (Place ?T ?a) M) slab ?T" using assms by (simp add: env_ok_def)
    then obtain out where o: "mset out = add_mset ?a (slots_of ?T M)"
        "pool_inv 1024 (tier_block ?T) (pool_of ?T slab, out)"
      and i: "pool_id (pool_of ?T slab) = pool_ids C ?T"
      by (auto simp: tier_ok_def)
    have "?a \<in> set out" using o(1) by (metis set_mset_mset union_single_eq_member)
    from pool_step_inv [OF pool_step.give [OF this] o(2)]
    show ?thesis
      using True o(1) i by (auto simp: tier_ok_def release_node_pool pool_id_free intro!: exI [of _ "remove1 ?a out"])
  next
    case False
    have "tier_ok C (add_mset (Place ?T ?a) M) slab U" using assms by (simp add: env_ok_def)
    then show ?thesis using False by (simp add: tier_ok_def release_node_pool)
  qed
  then show ?thesis using assms by (simp add: env_ok_def heap_holds_def)
qed

text \<open>The copy of a key.\<close>

lemma env_strdup:
  assumes "env_ok C M (h, slab)" and "length key + 9 < size_bound"
  obtains h1 b where "safe_strdup h key = (h1, Some b)"
    and "env_ok C (add_mset (KeyBlock b (of_nat (length key) + 1)) M) (h1, slab)"
proof -
  let ?n = "of_nat (length key) + 1 :: size_t"
  from assms(1) have hp: "heap_ok h" "never_refuses h" "\<not> fault h" by (simp_all add: env_ok_def heap_holds_def)
  from assms(1) obtain ks where ks: "mset ks = key_blocks M" "owns_all h (ks @ base_blocks C)"
    "others (fst ` set (ks @ base_blocks C)) h = other_blocks C"
    by (auto simp: env_ok_def heap_holds_def)
  obtain h1 b where m: "cdsa_malloc_track h ?n = (h1, Some b)"
    using never_refuses_malloc [OF hp(2)] by (metis option.exhaust prod.exhaust)
  note a = malloc_owns_all [OF hp(1) m]
  have "unat ?n + 8 < size_bound" using assms(2) by (simp add: unat_size_t_add unat_of_nat)
  then have "\<not> fault h1" using a(6) hp(3) by simp
  moreover have "never_refuses h1" using a(4) hp(2) by (simp add: never_refuses_def)
  moreover have "owns_all h1 (((b, ?n) # ks) @ base_blocks C)" using a(2) [OF ks(2)] by simp
  moreover have "others (fst ` set (((b, ?n) # ks) @ base_blocks C)) h1 = other_blocks C"
    using a(3) [of "fst ` set (ks @ base_blocks C)"] ks(3) by simp
  ultimately have "heap_holds C (add_mset (KeyBlock b ?n) M) h1"
    using a(1) ks(1) unfolding heap_holds_def
    by (intro conjI exI [of _ "(b, ?n) # ks"]) simp_all
  then have "env_ok C (add_mset (KeyBlock b ?n) M) (h1, slab)"
    using assms(1) by (simp add: env_ok_def tier_ok_def)
  then show thesis using that m by (simp add: safe_strdup_def)
qed

lemma env_free:
  assumes "env_ok C (add_mset (KeyBlock b n) M) (h, slab)"
  shows "env_ok C M (cdsa_free_track h (Some b), slab)"
proof -
  from assms have hp: "heap_ok h" "never_refuses h" "\<not> fault h" by (simp_all add: env_ok_def heap_holds_def)
  from assms obtain ks where ks: "mset ks = add_mset (b, n) (key_blocks M)" "owns_all h (ks @ base_blocks C)"
    "others (fst ` set (ks @ base_blocks C)) h = other_blocks C"
    by (auto simp: env_ok_def heap_holds_def)
  have "(b, n) \<in> set ks" using ks(1) by (metis set_mset_mset union_single_eq_member)
  then have p: "mset (ks @ base_blocks C) = mset ((b, n) # remove1 (b, n) ks @ base_blocks C)" by simp
  note own = owns_all_permute [OF p, THEN iffD1, OF ks(2)]
  note f = free_owns_all [OF own]
  have "set (ks @ base_blocks C) = set ((b, n) # remove1 (b, n) ks @ base_blocks C)"
    using p by (metis set_mset_mset)
  then have s: "fst ` set (ks @ base_blocks C) = insert b (fst ` set (remove1 (b, n) ks @ base_blocks C))" by simp
  have "heap_holds C M (cdsa_free_track h (Some b))"
    unfolding heap_holds_def
    using f(1,3,4) f(5) [OF hp(1)] hp ks(1) f(2) [of "fst ` set (remove1 (b, n) ks @ base_blocks C)"] ks(3) s
    by (intro conjI exI [of _ "remove1 (b, n) ks"]) (simp_all add: never_refuses_def)
  then show ?thesis using assms by (simp add: env_ok_def tier_ok_def)
qed

text \<open>A node replaced by a larger or smaller one.\<close>

lemma env_replaces:
  assumes "env_ok C (add_mset (Place (type_of node) (slot_of node)) M) (h, slab)" and "replaces slab node slab' node'"
  shows "env_ok C (add_mset (Place (type_of node') (slot_of node')) M) (h, slab')"
proof -
  from assms(2) obtain q where q: "kpool_alloc (pool_of (type_of node') slab) = (q, Some (slot_of node'))"
    "slab' = release_node (set_pool (type_of node') q slab) node"
    by (auto simp: replaces_def)
  have "env_ok C (add_mset (Place (type_of node) (slot_of node)) (add_mset (Place (type_of node') (slot_of node')) M))
      (h, set_pool (type_of node') q slab)"
    using env_alloc [OF assms(1) q(1)] by (simp add: add_mset_commute)
  from env_release [OF this] show ?thesis by (simp add: q(2))
qed

end
