(* ===== verification/Art_Insert.thy ===== *)
theory Art_Insert
  imports Art_Env
begin

text \<open>
  Insertion: on a well-formed tree, with a block left in each pool, it stores the value under the
  key, changes no other entry, and leaves a well-formed tree that holds exactly its blocks.
\<close>

section \<open>Entries and blocks when one child changes\<close>

definition opt_entry :: "art_node option \<Rightarrow> cstring \<Rightarrow> pointer option \<Rightarrow> bool" where
  "opt_entry x k v \<longleftrightarrow> (case x of None \<Rightarrow> False | Some t \<Rightarrow> art_entry t k v)"

lemma opt_entry_simps [simp]: "\<not> opt_entry None k v" "opt_entry (Some t) k v \<longleftrightarrow> art_entry t k v"
  by (simp_all add: opt_entry_def)

lemma entry_opt: "type_of node \<noteq> LEAF_NODE \<Longrightarrow> art_entry node k v \<longleftrightarrow> (\<exists>c. opt_entry (next_child node c) k v)"
  by (auto simp: entry_inner opt_entry_def split: option.splits)

text \<open>The children of an inner node, each below the byte of its edge.\<close>

definition kids_wf :: "bytes \<Rightarrow> (byte \<Rightarrow> art_node option) \<Rightarrow> bool" where
  "kids_wf path m \<longleftrightarrow> (\<forall>c t. m c = Some t \<longrightarrow> art_wf (path @ [c]) t)"

lemma kids_wf_upd: "kids_wf path m \<Longrightarrow> (\<And>t. x = Some t \<Longrightarrow> art_wf (path @ [c]) t) \<Longrightarrow> kids_wf path (m(c := x))"
  by (simp add: kids_wf_def)

lemma wf_inner_iff:
  assumes "type_of node \<noteq> LEAF_NODE"
  shows "art_wf path node \<longleftrightarrow> node_ok node \<and> least_count (type_of node) \<le> child_count node \<and>
    (\<exists>pre. header_holds (header_of node) pre \<and> 0 \<notin> set pre \<and> kids_wf (path @ pre) (next_child node))"
proof
  assume "art_wf path node"
  from wf_innerE [OF this assms] show "node_ok node \<and> least_count (type_of node) \<le> child_count node \<and>
      (\<exists>pre. header_holds (header_of node) pre \<and> 0 \<notin> set pre \<and> kids_wf (path @ pre) (next_child node))"
    by (metis append.assoc kids_wf_def)
next
  assume r: "node_ok node \<and> least_count (type_of node) \<le> child_count node \<and>
    (\<exists>pre. header_holds (header_of node) pre \<and> 0 \<notin> set pre \<and> kids_wf (path @ pre) (next_child node))"
  then obtain pre where p: "header_holds (header_of node) pre" "0 \<notin> set pre" "kids_wf (path @ pre) (next_child node)"
    by blast
  have "art_wf (path @ pre @ [c]) t" if "next_child node c = Some t" for c t
    using p(3) that by (simp add: kids_wf_def)
  then show "art_wf path node" using r p(1,2) by (intro art_wf.inner [OF assms]) blast+
qed

lemma kids_entry_prefix:
  assumes "kids_wf path m" and "opt_entry (m c) k v"
  shows "prefix (path @ [c]) (k @ [0])" and "valid_key k"
  using assms entry_prefix by (fastforce simp: kids_wf_def opt_entry_def split: option.splits)+

lemma prefix_last: "prefix (xs @ [c]) zs \<Longrightarrow> zs ! length xs = c"
  using prefix_nth [of "xs @ [c]" zs "length xs"] by simp

lemma other_child:
  "kids_wf path m \<Longrightarrow> prefix (path @ [c]) (key @ [0]) \<Longrightarrow> d \<noteq> c \<Longrightarrow> \<not> opt_entry (m d) key v"
  using kids_entry_prefix(1) [of path m d key v] prefix_last [of path c "key @ [0]"]
    prefix_last [of path d "key @ [0]"] by auto

lemma entries_change:
  assumes "type_of node \<noteq> LEAF_NODE" and "kids_wf path (next_child node)" and "prefix (path @ [c]) (key @ [0])"
    and "type_of node' \<noteq> LEAF_NODE" and "next_child node' = (next_child node)(c := x)"
    and "\<And>k v. opt_entry x k v \<longleftrightarrow> (if k = key then P v else opt_entry (next_child node c) k v)"
  shows "art_entry node' k v \<longleftrightarrow> (if k = key then P v else art_entry node k v)"
proof -
  have "art_entry node' k v \<longleftrightarrow> opt_entry x k v \<or> (\<exists>d. d \<noteq> c \<and> opt_entry (next_child node d) k v)"
    unfolding entry_opt [OF assms(4)] assms(5) by auto
  moreover have "\<not> (\<exists>d. d \<noteq> c \<and> opt_entry (next_child node d) key v)"
    using other_child [OF assms(2,3)] by blast
  ultimately show ?thesis
    unfolding assms(6) entry_opt [OF assms(1)] by (cases "k = key") auto
qed

lemma entry_through:
  assumes "type_of node \<noteq> LEAF_NODE" and "kids_wf path (next_child node)" and "prefix (path @ [c]) (key @ [0])"
  shows "art_entry node key v \<longleftrightarrow> opt_entry (next_child node c) key v"
  unfolding entry_opt [OF assms(1)] using other_child [OF assms(2,3)] by metis

lemma things_child:
  assumes "next_child node c = Some t"
  obtains M where "things node = things t + M"
    and "\<And>node' u. type_of node' = type_of node \<Longrightarrow> slot_of node' = slot_of node \<Longrightarrow>
      next_child node' = (next_child node)(c \<mapsto> u) \<Longrightarrow> things node' = things u + M"
    and "kid_things ((next_child node)(c := None)) + {#Place (type_of node) (slot_of node)#} = M"
proof -
  have n: "type_of node \<noteq> LEAF_NODE" using assms by (cases node) auto
  let ?K = "kid_things ((next_child node)(c := None))" and ?p = "Place (type_of node) (slot_of node)"
  have k: "kid_things (next_child node) = ?K + things t"
    using kid_things_set [where m = "next_child node" and c = c and t = t and x = None] assms by simp
  have "things node = things t + add_mset ?p ?K" by (simp add: things_inner [OF n] k)
  moreover have "things node' = things u + add_mset ?p ?K"
    if "type_of node' = type_of node" "slot_of node' = slot_of node"
      "next_child node' = (next_child node)(c \<mapsto> u)" for node' u
    using that n kid_things_set [where m = "next_child node" and c = c and t = t and x = "Some u"] assms
    by (simp add: things_inner k add.commute add.left_commute)
  ultimately show thesis using that [of "add_mset ?p ?K"] by simp
qed

section \<open>New nodes\<close>

lemma env_leaf:
  assumes "env_ok C M (h, slab)" and "size (slots_of LEAF_NODE M) < 1024" and "length key + 9 < size_bound"
  obtains h1 slab1 a b where "alloc_leaf h slab key val = (h1, slab1, Some (ArtLeaf a key b val))"
    and "env_ok C (things (ArtLeaf a key b val) + M) (h1, slab1)"
proof -
  obtain q a where q: "kpool_alloc (pool_of LEAF_NODE slab) = (q, Some a)"
    by (rule env_alloc_some [OF assms(1,2)])
  obtain h1 b where d: "safe_strdup h key = (h1, Some b)"
    "env_ok C (add_mset (KeyBlock b (of_nat (length key) + 1)) (add_mset (Place LEAF_NODE a) M))
      (h1, set_pool LEAF_NODE q slab)"
    by (rule env_strdup [OF env_alloc [OF assms(1) q] assms(3)])
  have "alloc_leaf h slab key val = (h1, set_pool LEAF_NODE q slab, Some (ArtLeaf a key b val))"
    using q d(1) by (simp add: alloc_leaf_def)
  moreover have "env_ok C (things (ArtLeaf a key b val) + M) (h1, set_pool LEAF_NODE q slab)"
    using d(2) by (simp add: add_mset_commute)
  ultimately show thesis using that by blast
qed

lemma env_node4:
  assumes "env_ok C M (h, slab)" and "size (slots_of NODE4 M) < 1024"
  obtains slab1 a where
    "alloc_node4 slab = (slab1, Some (Node4 a empty_header 0 (replicate 4 0) (replicate 4 None)))"
    and "env_ok C (add_mset (Place NODE4 a) M) (h, slab1)"
proof -
  obtain q a where q: "kpool_alloc (pool_of NODE4 slab) = (q, Some a)"
    by (rule env_alloc_some [OF assms])
  then have "alloc_node4 slab = (set_pool NODE4 q slab, Some (Node4 a empty_header 0 (replicate 4 0) (replicate 4 None)))"
    by (simp add: alloc_node4_def)
  then show thesis using that env_alloc [OF assms(1) q] by blast
qed

text \<open>The new node above two children.\<close>

definition pair_node :: "slot \<Rightarrow> node_header \<Rightarrow> byte \<Rightarrow> art_node \<Rightarrow> byte \<Rightarrow> art_node \<Rightarrow> art_node" where
  "pair_node a hr c t d u =
     Node4 a hr 2 ((replicate 4 0)[0 := c, 1 := d]) ((replicate 4 None)[0 := Some t, 1 := Some u])"

lemma pair_node_keeps [simp]:
  "type_of (pair_node a hr c t d u) = NODE4" "slot_of (pair_node a hr c t d u) = a"
  "header_of (pair_node a hr c t d u) = hr" "child_count (pair_node a hr c t d u) = 2"
  by (simp_all add: pair_node_def)

lemma pair_node_ok:
  assumes "c \<noteq> d"
  shows "node_ok (pair_node a hr c t d u)" and "next_child (pair_node a hr c t d u) = [c \<mapsto> t, d \<mapsto> u]"
proof -
  let ?n0 = "Node4 a hr 0 (replicate 4 0) (replicate 4 None)"
  have n0: "node_ok ?n0" "next_child ?n0 = (\<lambda>_. None)"
    by (auto simp: row_ok_def row_child_def find_key_def fun_eq_iff)
  let ?n1 = "append_child ?n0 c t"
  have n1: "node_ok ?n1" "next_child ?n1 = [c \<mapsto> t]"
    using append_child_ok [OF n0(1), of c t] by (simp_all only: n0(2)) simp_all
  have "pair_node a hr c t d u = append_child ?n1 d u" by (simp add: pair_node_def)
  moreover have "node_ok (append_child ?n1 d u)" "next_child (append_child ?n1 d u) = [c \<mapsto> t, d \<mapsto> u]"
    using append_child_ok [OF n1(1), of d u] assms by (simp_all only: n1(2)) simp_all
  ultimately show "node_ok (pair_node a hr c t d u)" and "next_child (pair_node a hr c t d u) = [c \<mapsto> t, d \<mapsto> u]"
    by simp_all
qed

lemma pair_node_wf:
  assumes "c \<noteq> d" and "header_holds hr pre" and "0 \<notin> set pre"
    and "art_wf (path @ pre @ [c]) t" and "art_wf (path @ pre @ [d]) u"
  shows "art_wf path (pair_node a hr c t d u)"
    and "art_entry (pair_node a hr c t d u) k v \<longleftrightarrow> art_entry t k v \<or> art_entry u k v"
    and "things (pair_node a hr c t d u) = add_mset (Place NODE4 a) (things t + things u)"
proof -
  note p = pair_node_ok [OF assms(1), of a hr t u]
  have "kids_wf (path @ pre) [c \<mapsto> t, d \<mapsto> u]" using assms(4,5) by (auto simp: kids_wf_def)
  then show "art_wf path (pair_node a hr c t d u)"
    using p assms(2,3) by (subst wf_inner_iff) auto
  show "art_entry (pair_node a hr c t d u) k v \<longleftrightarrow> art_entry t k v \<or> art_entry u k v"
    using assms(1) by (auto simp: entry_opt p(2) split: if_splits)
  have "kid_things [c \<mapsto> t, d \<mapsto> u] = things t + things u"
    using assms(1) kid_things_new [of "[c \<mapsto> t]" d u] kid_things_new [of "\<lambda>_. None" c t] by simp
  then show "things (pair_node a hr c t d u) = add_mset (Place NODE4 a) (things t + things u)"
    by (simp add: things_inner p(2))
qed

section \<open>A leaf below an inner node\<close>

lemma child_count_new:
  assumes "node_ok node" and "node_ok node'" and "next_child node' = (next_child node)(c \<mapsto> t)" and "next_child node c = None"
  shows "child_count node' = child_count node + 1"
  using node_count [OF assms(1)] node_count [OF assms(2)] assms(3,4) by (simp add: domIff card_insert_disjoint)

text \<open>\<open>append_child\<close> stores into \<open>children[count]\<close>, which has to be free in a \<open>Node48\<close>.\<close>

definition next_slot_free :: "art_node \<Rightarrow> bool" where
  "next_slot_free node \<longleftrightarrow> (\<forall>a hr ix cs n. node = Node48 a hr ix cs n \<longrightarrow> cs ! n = None)"

lemma append_free_ok:
  assumes "node_ok node" and "next_child node c = None" and "child_count node < node_capacity node"
    and "next_slot_free node"
  shows "node_ok (append_child node c t)" and "next_child (append_child node c t) = (next_child node)(c \<mapsto> t)"
  using append_child_ok [OF assms(1-3), of t] assms(4) by (simp_all add: next_slot_free_def)

lemma place_leaf_ok:
  assumes "type_of base \<noteq> LEAF_NODE" and "next_child base c = None"
    and "env_ok C (things base + F) (h, slab)" and "size (slots_of LEAF_NODE (things base + F)) < 1024"
    and "length key + 9 < size_bound"
    and "\<And>t. type_of (place t) = type_of base \<and> slot_of (place t) = slot_of base \<and>
      next_child (place t) = (next_child base)(c \<mapsto> t)"
  obtains h1 slab1 a b where
    "place_leaf node place key val (h, slab, sz) = (place (ArtLeaf a key b val), (h1, slab1, sz + 1), CDSA_OK)"
    and "env_ok C (things (place (ArtLeaf a key b val)) + F) (h1, slab1)"
proof -
  obtain h1 slab1 a b where l: "alloc_leaf h slab key val = (h1, slab1, Some (ArtLeaf a key b val))"
    "env_ok C (things (ArtLeaf a key b val) + (things base + F)) (h1, slab1)"
    by (rule env_leaf [OF assms(3-5)])
  let ?t = "ArtLeaf a key b val"
  have "things (place ?t) = things ?t + things base"
    using assms(1) assms(6) [of ?t] kid_things_new [of "next_child base" c ?t, OF assms(2)]
    by (simp add: things_inner add.commute)
  then have "env_ok C (things (place ?t) + F) (h1, slab1)" using l(2) by (simp only: add.assoc)
  then show thesis using that l(1) by (simp add: place_leaf_def)
qed

text \<open>The node with one more child, perhaps in a larger layout.\<close>

definition child_added :: "art_node \<Rightarrow> byte \<Rightarrow> art_node \<Rightarrow> art_node \<Rightarrow> bool" where
  "child_added node c t node' \<longleftrightarrow> type_of node' \<noteq> LEAF_NODE \<and> node_ok node' \<and>
     least_count (type_of node') \<le> child_count node' \<and> header_of node' = header_of node \<and>
     next_child node' = (next_child node)(c \<mapsto> t)"

lemma append_added:
  assumes "type_of node \<noteq> LEAF_NODE" and "node_ok node" and "next_child node c = None"
    and "child_count node < node_capacity node" and "least_count (type_of node) \<le> child_count node + 1"
    and "next_slot_free node"
  shows "child_added node c t (append_child node c t)"
  using append_free_ok [OF assms(2-4,6), of t]
    child_count_new [where node = node and node' = "append_child node c t" and c = c and t = t, OF assms(2) _ _ assms(3)]
    assms(1,5)
  by (simp add: child_added_def)

lemma added_same: "same_children node big \<Longrightarrow> child_added big c t node' \<Longrightarrow> child_added node c t node'"
  by (simp add: child_added_def same_children_def)

lemma append_ok:
  assumes "type_of node \<noteq> LEAF_NODE" and "node_ok node" and "next_child node c = None"
    and "child_count node < node_capacity node" and "least_count (type_of node) \<le> child_count node + 1"
    and "next_slot_free node"
    and "env_ok C (things node + F) (h, slab)" and "size (slots_of LEAF_NODE (things node + F)) < 1024"
    and "length key + 9 < size_bound"
  shows "\<exists>node' h' slab' a b.
    place_leaf orig (append_child node c) key val (h, slab, sz) = (node', (h', slab', sz + 1), CDSA_OK) \<and>
    child_added node c (ArtLeaf a key b val) node' \<and> env_ok C (things node' + F) (h', slab')"
proof -
  note a = append_free_ok [OF assms(2-4,6)]
  obtain h1 slab1 a b where p: "place_leaf orig (append_child node c) key val (h, slab, sz) =
      (append_child node c (ArtLeaf a key b val), (h1, slab1, sz + 1), CDSA_OK)"
    "env_ok C (things (append_child node c (ArtLeaf a key b val)) + F) (h1, slab1)"
    by (rule place_leaf_ok [OF assms(1,3,7-9), where place = "append_child node c"]) (simp_all add: a(2))
  show ?thesis using p append_added [OF assms(1-6)] by blast
qed

lemma grow_ok:
  assumes "type_of node \<noteq> LEAF_NODE" and "node_ok node" and "next_child node c = None"
    and "upgrade slab node = (slab1, r)"
    and "case r of None \<Rightarrow> no_block T slab slab1
      | Some big \<Rightarrow> type_of big = T \<and> child_count big = child_count node \<and> replaces slab node slab1 big \<and>
          child_count big < node_capacity big \<and> least_count T \<le> child_count big + 1 \<and>
          next_slot_free big"
    and "T \<noteq> LEAF_NODE"
    and "env_ok C (things node + F) (h, slab)" and "\<And>T. size (slots_of T (things node + F)) < 1024"
    and "length key + 9 < size_bound"
  shows "\<exists>node' h' slab' a b.
    grow_and_place upgrade node c key val (h, slab, sz) = (node', (h', slab', sz + 1), CDSA_OK) \<and>
    child_added node c (ArtLeaf a key b val) node' \<and> env_ok C (things node' + F) (h', slab')"
proof (cases r)
  case None
  then have "no_block T slab slab1" using assms(5) by simp
  then have "size (slots_of T (things node + F)) = 1024"
    using env_alloc_none [OF assms(7)] by (auto simp: no_block_def)
  then show ?thesis using assms(8) [of T] by simp
next
  case (Some big)
  have b: "type_of big = T" "child_count big = child_count node" "replaces slab node slab1 big"
    "child_count big < node_capacity big" "least_count T \<le> child_count big + 1"
    and b48: "next_slot_free big"
    using assms(5) Some by simp_all
  have sc: "same_children node big" using b(3) by (simp add: replaces_def)
  have kids: "next_child big = next_child node" and okb: "node_ok big" using sc by (simp_all add: same_children_def)
  have ti: "things node = add_mset (Place (type_of node) (slot_of node)) (kid_things (next_child node))"
    "things big = add_mset (Place (type_of big) (slot_of big)) (kid_things (next_child node))"
    using things_inner [OF assms(1)] things_inner [of big] b(1) assms(6) kids by simp_all
  have env: "env_ok C (things big + F) (h, slab1)"
    using env_replaces [OF assms(7) [unfolded ti union_mset_add_mset_left] b(3)]
    by (simp only: ti union_mset_add_mset_left)
  have room: "size (slots_of LEAF_NODE (things big + F)) < 1024"
    using assms(8) [of LEAF_NODE] assms(1,6) b(1) by (simp add: ti)
  have nb: "type_of big \<noteq> LEAF_NODE" using b(1) assms(6) by simp
  from append_ok [OF nb okb _ b(4) _ b48 env room assms(9), of c big val sz]
  obtain node' h' slab' a b where r: "place_leaf big (append_child big c) key val (h, slab1, sz) =
      (node', (h', slab', sz + 1), CDSA_OK)" "child_added big c (ArtLeaf a key b val) node'"
    "env_ok C (things node' + F) (h', slab')"
    using kids assms(3) b(1,5) by auto
  have "grow_and_place upgrade node c key val (h, slab, sz) = (node', (h', slab', sz + 1), CDSA_OK)"
    using assms(4) Some r(1) by (simp add: grow_and_place_def)
  then show ?thesis using r(3) added_same [OF sc r(2)] by blast
qed

lemma count_room:
  assumes "node_ok node" and "next_child node c = None"
  shows "child_count node < 256"
proof -
  have "dom (next_child node) \<subseteq> UNIV - {c}" using assms(2) by auto
  then have "card (dom (next_child node)) \<le> card (UNIV - {c})" by (rule card_mono [rotated]) simp
  then show ?thesis using node_count [OF assms(1)] by (simp add: card_byte)
qed

lemma add_child_ok:
  assumes "type_of node \<noteq> LEAF_NODE" and "node_ok node" and "least_count (type_of node) \<le> child_count node"
    and "next_child node c = None"
    and "env_ok C (things node + F) (h, slab)" and "\<And>T. size (slots_of T (things node + F)) < 1024"
    and "length key + 9 < size_bound"
  shows "\<exists>node' h' slab' a b.
    add_child node c key val (h, slab, sz) = (node', (h', slab', sz + 1), CDSA_OK) \<and>
    child_added node c (ArtLeaf a key b val) node' \<and> env_ok C (things node' + F) (h', slab')"
proof -
  have app: "\<exists>node' h' slab' a b.
      place_leaf node (append_child node c) key val (h, slab, sz) = (node', (h', slab', sz + 1), CDSA_OK) \<and>
      child_added node c (ArtLeaf a key b val) node' \<and> env_ok C (things node' + F) (h', slab')"
    if "child_count node < node_capacity node" and "type_of node \<noteq> NODE48"
    by (rule append_ok) (use assms that in \<open>auto simp: next_slot_free_def\<close>)
  note grow = grow_ok [OF assms(1,2,4) _ _ _ assms(5-7)]
  show ?thesis
  proof (cases node)
    case (ArtLeaf a k b v)
    then show ?thesis using assms(1) by simp
  next
    case (Node4 a hr n ks cs)
    show ?thesis
    proof (cases "n < 4")
      case True
      then show ?thesis using app Node4 by (simp add: add_child_def)
    next
      case False
      then have n: "n = 4" using node_count_le [OF assms(2)] Node4 by simp
      obtain slab1 r where u: "upgrade_node4_to_node16 slab node = (slab1, r)" by fastforce
      have "case r of None \<Rightarrow> no_block NODE16 slab slab1
        | Some big \<Rightarrow> type_of big = NODE16 \<and> child_count big = child_count node \<and> replaces slab node slab1 big \<and>
            child_count big < node_capacity big \<and> least_count NODE16 \<le> child_count big + 1 \<and>
            next_slot_free big"
      proof (cases r)
        case (Some big)
        then have "type_of big = NODE16 \<and> child_count big = n \<and> replaces slab node slab1 big"
          using upgrade4_ok [OF assms(2) [unfolded Node4] u [unfolded Node4]] Node4 by simp
        then show ?thesis using Some Node4 n by (cases big) (simp_all add: next_slot_free_def)
      qed (use upgrade4_ok [OF assms(2) [unfolded Node4] u [unfolded Node4]] in simp)
      from grow [where upgrade = upgrade_node4_to_node16 and T = NODE16, OF u this] have "\<exists>node' h' slab' a b.
          grow_and_place upgrade_node4_to_node16 node c key val (h, slab, sz) = (node', (h', slab', sz + 1), CDSA_OK) \<and>
          child_added node c (ArtLeaf a key b val) node' \<and> env_ok C (things node' + F) (h', slab')" by simp
      moreover have "add_child node c key val (h, slab, sz) =
          grow_and_place upgrade_node4_to_node16 node c key val (h, slab, sz)"
        using Node4 False by (simp add: add_child_def)
      ultimately show ?thesis by simp
    qed
  next
    case (Node16 a hr n ks cs)
    show ?thesis
    proof (cases "n < 16")
      case True
      then show ?thesis using app Node16 by (simp add: add_child_def)
    next
      case False
      then have n: "n = 16" using node_count_le [OF assms(2)] Node16 by simp
      obtain slab1 r where u: "upgrade_node16_to_node48 slab node = (slab1, r)" by fastforce
      have "case r of None \<Rightarrow> no_block NODE48 slab slab1
        | Some big \<Rightarrow> type_of big = NODE48 \<and> child_count big = child_count node \<and> replaces slab node slab1 big \<and>
            child_count big < node_capacity big \<and> least_count NODE48 \<le> child_count big + 1 \<and>
            next_slot_free big"
      proof (cases r)
        case (Some big)
        then have b: "type_of big = NODE48" "child_count big = n" "replaces slab node slab1 big"
            "child_at (children_of big) n = None"
          using upgrade16_ok [OF assms(2) [unfolded Node16] u [unfolded Node16]] Node16 by simp_all
        then have "node_ok big" by (simp add: replaces_def same_children_def)
        then show ?thesis using b Some Node16 n by (cases big) (auto simp: child_at_def next_slot_free_def dest: index_okD(2))
      qed (use upgrade16_ok [OF assms(2) [unfolded Node16] u [unfolded Node16]] in simp)
      from grow [where upgrade = upgrade_node16_to_node48 and T = NODE48, OF u this] have "\<exists>node' h' slab' a b.
          grow_and_place upgrade_node16_to_node48 node c key val (h, slab, sz) = (node', (h', slab', sz + 1), CDSA_OK) \<and>
          child_added node c (ArtLeaf a key b val) node' \<and> env_ok C (things node' + F) (h', slab')" by simp
      moreover have "add_child node c key val (h, slab, sz) =
          grow_and_place upgrade_node16_to_node48 node c key val (h, slab, sz)"
        using Node16 False by (simp add: add_child_def)
      ultimately show ?thesis by simp
    qed
  next
    case (Node48 a hr ix cs n)
    show ?thesis
    proof (cases "n < 48")
      case True
      have c: "index_child ix cs c = None" using assms(4) Node48 by simp
      note st = store48_ok [OF assms(2) [unfolded Node48] c True]
      then obtain j where j: "find (\<lambda>i. child_at cs i = None) [0..<48] = Some j" by blast
      let ?place = "\<lambda>t. Node48 a hr (ix[unat c := of_nat j]) (cs[j := Some t]) (n + 1)"
      have p: "node_ok (?place t)" "next_child (?place t) = (next_child node)(c \<mapsto> t)" for t
        using st [of t] j Node48 by simp_all
      obtain h1 slab1 a1 b1 where l: "place_leaf node ?place key val (h, slab, sz) =
          (?place (ArtLeaf a1 key b1 val), (h1, slab1, sz + 1), CDSA_OK)"
        "env_ok C (things (?place (ArtLeaf a1 key b1 val)) + F) (h1, slab1)"
        by (rule place_leaf_ok [OF assms(1,4,5,6,7), where place = ?place]) (use p Node48 in simp_all)
      have "j < 48" using j by (auto simp: find_Some_iff)
      then have "add_child node c key val (h, slab, sz) =
          (?place (ArtLeaf a1 key b1 val), (h1, slab1, sz + 1), CDSA_OK)"
        using l(1) j True Node48 by (simp add: add_child_def set_fault_def)
      moreover have "child_added node c (ArtLeaf a1 key b1 val) (?place (ArtLeaf a1 key b1 val))"
        unfolding child_added_def by (intro conjI p) (use assms(3) Node48 in simp_all)
      ultimately show ?thesis using l(2) by blast
    next
      case False
      then have n: "n = 48" using node_count_le [OF assms(2)] Node48 by simp
      obtain slab1 r where u: "upgrade_node48_to_node256 slab node = (slab1, r)" by fastforce
      have "case r of None \<Rightarrow> no_block NODE256 slab slab1
        | Some big \<Rightarrow> type_of big = NODE256 \<and> child_count big = child_count node \<and> replaces slab node slab1 big \<and>
            child_count big < node_capacity big \<and> least_count NODE256 \<le> child_count big + 1 \<and>
            next_slot_free big"
      proof (cases r)
        case (Some big)
        then have "type_of big = NODE256 \<and> child_count big = n \<and> replaces slab node slab1 big"
          using upgrade48_ok [OF assms(2) [unfolded Node48] u [unfolded Node48]] Node48 by simp
        then show ?thesis using Some Node48 n by (cases big) (simp_all add: next_slot_free_def)
      qed (use upgrade48_ok [OF assms(2) [unfolded Node48] u [unfolded Node48]] in simp)
      from grow [where upgrade = upgrade_node48_to_node256 and T = NODE256, OF u this] have "\<exists>node' h' slab' a b.
          grow_and_place upgrade_node48_to_node256 node c key val (h, slab, sz) = (node', (h', slab', sz + 1), CDSA_OK) \<and>
          child_added node c (ArtLeaf a key b val) node' \<and> env_ok C (things node' + F) (h', slab')" by simp
      moreover have "add_child node c key val (h, slab, sz) =
          grow_and_place upgrade_node48_to_node256 node c key val (h, slab, sz)"
        using Node48 False by (simp add: add_child_def)
      ultimately show ?thesis by simp
    qed
  next
    case (Node256 a hr cs n)
    then show ?thesis using app count_room [OF assms(2,4)] by (simp add: add_child_def)
  qed
qed

section \<open>The outcome of an insertion\<close>

definition insert_ready :: "art_frame \<Rightarrow> thing multiset \<Rightarrow> art_node \<Rightarrow> cstring \<Rightarrow> heap \<times> art_slab \<Rightarrow> bool" where
  "insert_ready C F node key st \<longleftrightarrow> env_ok C (things node + F) st \<and> valid_key key \<and> length key + 9 < size_bound \<and>
     ((\<exists>v. art_entry node key v) \<or> (\<forall>T. size (slots_of T (things node + F)) < 1024))"

definition inserted :: "art_frame \<Rightarrow> thing multiset \<Rightarrow> bytes \<Rightarrow> art_node \<Rightarrow> cstring \<Rightarrow> pointer option \<Rightarrow> size_t \<Rightarrow>
    art_node \<times> art_state \<times> cdsa_status \<Rightarrow> bool" where
  "inserted C F path node key val sz r \<longleftrightarrow> (case r of (node', (h', slab', sz'), status) \<Rightarrow>
     status = CDSA_OK \<and> art_wf path node' \<and> env_ok C (things node' + F) (h', slab') \<and>
     (\<forall>k v. art_entry node' k v \<longleftrightarrow> (if k = key then v = val else art_entry node k v)) \<and>
     (if \<exists>v. art_entry node key v then sz' = sz \<and> leaf_count (things node') = leaf_count (things node)
      else sz' = sz + 1 \<and> leaf_count (things node') = Suc (leaf_count (things node))))"

text \<open>Where a key leaves a path.\<close>

lemma key_prefix:
  assumes "prefix xs (key @ [0])" and "0 \<notin> set xs"
  shows "length xs \<le> length key" and "prefix (xs @ [key_at key (length xs)]) (key @ [0])" and "prefix xs key"
proof -
  have l: "length xs \<le> length key + 1" using prefix_length_le [OF assms(1)] by simp
  have "length xs \<noteq> length key + 1"
  proof
    assume "length xs = length key + 1"
    then have "xs = key @ [0]" using assms(1) by (metis length_append_singleton Suc_eq_plus1 append_eq_conv_conj prefixE take_all order_refl)
    then show False using assms(2) by simp
  qed
  then show le: "length xs \<le> length key" using l by simp
  have b: "xs ! i = key_at key i" if "i < length xs" for i using prefix_key_at [OF assms(1) that] .
  show "prefix xs key" by (rule prefix_nthI [OF le]) (use b le in \<open>simp add: key_at_def\<close>)
  show "prefix (xs @ [key_at key (length xs)]) (key @ [0])"
    by (rule prefix_nthI) (use b le key_at_nth [of _ key] in \<open>auto simp: nth_append less_Suc_eq\<close>)
qed

lemma prefix_extend:
  assumes "prefix xs (key @ [0])" and "0 \<notin> set xs" and "valid_key key"
    and "0 \<notin> set ys" and "\<And>j. j < length ys \<Longrightarrow> ys ! j = key_at key (length xs + j)"
  shows "prefix (xs @ ys) (key @ [0])"
  using assms(4,5)
proof (induction ys rule: rev_induct)
  case (snoc y ys)
  have "prefix (xs @ ys) (key @ [0])"
  proof (rule snoc.IH)
    show "ys ! j = key_at key (length xs + j)" if "j < length ys" for j
      using snoc.prems(2) [of j] that by (simp add: nth_append)
  qed (use snoc.prems(1) in simp)
  moreover have "0 \<notin> set (xs @ ys)" using assms(2) snoc.prems(1) by simp
  moreover have "y = key_at key (length (xs @ ys))" using snoc.prems(2) [of "length ys"] by simp
  ultimately show ?case using key_prefix(2) [of "xs @ ys" key] by simp
qed (use assms(1) in simp)

section \<open>At a leaf\<close>

lemma common_length_le: "common_length a b \<le> length a" "common_length a b \<le> length b"
  by (induction a b rule: common_length.induct) auto

lemma common_length_nth: "i < common_length a b \<Longrightarrow> a ! i = b ! i"
proof (induction a b arbitrary: i rule: common_length.induct)
  case (1 a as b bs)
  then show ?case by (cases i) (auto split: if_splits)
qed auto

lemma common_length_stop:
  "common_length a b < length a \<Longrightarrow> common_length a b < length b \<Longrightarrow> a ! common_length a b \<noteq> b ! common_length a b"
  by (induction a b rule: common_length.induct) (auto split: if_splits)

lemma common_length_prefix: "prefix p a \<Longrightarrow> prefix p b \<Longrightarrow> length p \<le> common_length a b"
  by (induction a b arbitrary: p rule: common_length.induct) (auto simp: prefix_Cons)

lemma common_length_same: "common_length a a = length a"
  by (induction a) auto

lemma common_length_differ:
  assumes "a \<noteq> b" and "valid_key a" and "valid_key b"
  shows "key_at a (common_length a b) \<noteq> key_at b (common_length a b)"
    and "\<not> (common_length a b = length a \<and> common_length a b = length b)"
proof -
  let ?i = "common_length a b"
  show n: "\<not> (?i = length a \<and> ?i = length b)"
    using assms(1) common_length_nth [of _ a b] nth_equalityI [of a b] by auto
  show "key_at a ?i \<noteq> key_at b ?i"
  proof (cases "?i < length a \<and> ?i < length b")
    case True
    then show ?thesis using common_length_stop by (simp add: key_at_def)
  next
    case False
    then show ?thesis
      using n common_length_le [of a b] key_at_zero [OF assms(2), of ?i] key_at_zero [OF assms(3), of ?i]
      by (metis le_neq_implies_less not_le)
  qed
qed

lemma insert_at_leaf_ok:
  assumes "art_wf path (ArtLeaf a k b v)" and "prefix path (key @ [0])"
    and "insert_ready C F (ArtLeaf a k b v) key (h, slab)"
  shows "inserted C F path (ArtLeaf a k b v) key val sz
    (insert_at_leaf (ArtLeaf a k b v) key val (length path) (h, slab, sz))"
proof (cases "k = key")
  case True
  then have "insert_at_leaf (ArtLeaf a k b v) key val (length path) (h, slab, sz) =
      (ArtLeaf a k b val, (h, slab, sz), CDSA_OK)"
    by (simp add: insert_at_leaf_def common_length_same)
  then show ?thesis using True assms by (simp add: inserted_def insert_ready_def)
next
  case False
  let ?leaf = "ArtLeaf a k b v" and ?i = "common_length k key"
  have ready: "env_ok C (things ?leaf + F) (h, slab)" "valid_key key" "length key + 9 < size_bound"
    and room: "\<And>T. size (slots_of T (things ?leaf + F)) < 1024"
    using assms(3) False by (auto simp: insert_ready_def)
  have k: "valid_key k" "prefix path (k @ [0])" using assms(1) by simp_all
  note d = common_length_differ [OF False k(1) ready(2)]
  have p0: "0 \<notin> set path"
  proof
    assume z: "0 \<in> set path"
    have "path = x @ [0]" if "prefix path (x @ [0])" "valid_key x" for x
      using that z by (auto simp: prefix_def valid_key_def append_eq_append_conv2 Cons_eq_append_conv)
    then have "k @ [0] = key @ [0]" using k assms(2) ready(2) by metis
    then show False using False by simp
  qed
  note pk = key_prefix [OF k(2) p0] and pkey = key_prefix [OF assms(2) p0]
  have le: "length path \<le> ?i" by (rule common_length_prefix [OF pk(3) pkey(3)])
  let ?pre = "drop (length path) (take ?i key)"
  have same: "take ?i key = take ?i k"
    by (rule nth_equalityI) (use common_length_nth [of _ k key] common_length_le [of k key] in auto)
  have path: "take (length path) key = path" "take (length path) k = path"
    using pkey(3) pk(3) by (auto simp: prefix_def)
  have "take (length path) (take ?i key) = path" using le path(1) by (simp add: min_absorb1)
  then have whole: "path @ ?pre = take ?i key" by (metis append_take_drop_id)
  then have whole2: "path @ ?pre = take ?i k" by (simp only: same)
  have ilen: "length (take ?i key) = ?i" using common_length_le(2) [of k key] by simp
  have pp: "prefix (path @ ?pre) (key @ [0])" unfolding whole by (rule prefix_prefix [OF take_is_prefix])
  have pp2: "prefix (path @ ?pre) (k @ [0])" unfolding whole2 by (rule prefix_prefix [OF take_is_prefix])
  have z: "0 \<notin> set (path @ ?pre)" unfolding whole using ready(2) set_take_subset by (fastforce simp: valid_key_def)
  have len: "length (path @ ?pre) = ?i" unfolding whole by (rule ilen)
  note ek = key_prefix(2) [OF pp2 z, unfolded len] and ekey = key_prefix(2) [OF pp z, unfolded len]
  obtain slab1 a4 where n4: "alloc_node4 slab = (slab1, Some (Node4 a4 empty_header 0 (replicate 4 0) (replicate 4 None)))"
    "env_ok C (add_mset (Place NODE4 a4) (things ?leaf + F)) (h, slab1)"
    by (rule env_node4 [OF ready(1) room])
  have "size (slots_of LEAF_NODE (add_mset (Place NODE4 a4) (things ?leaf + F))) < 1024" using room [of LEAF_NODE] by simp
  then obtain h1 slab2 a1 b1 where lf: "alloc_leaf h slab1 key val = (h1, slab2, Some (ArtLeaf a1 key b1 val))"
    "env_ok C (things (ArtLeaf a1 key b1 val) + add_mset (Place NODE4 a4) (things ?leaf + F)) (h1, slab2)"
    by (rule env_leaf [OF n4(2) _ ready(3)])
  let ?new = "ArtLeaf a1 key b1 val"
  let ?hr = "save_prefix empty_header (?i - length path) key (length path)"
  have hh: "header_holds ?hr ?pre"
  proof (rule save_prefix_ok)
    fix j assume "j < ?i - length path"
    then show "?pre ! j = key_at key (length path + j)"
      using common_length_le(2) [of k key] le by (auto simp: key_at_def)
  qed (use ilen in simp_all)
  let ?node = "pair_node a4 ?hr (key_at k ?i) ?leaf (key_at key ?i) ?new"
  have "insert_at_leaf ?leaf key val (length path) (h, slab, sz) = (?node, (h1, slab2, sz + 1), CDSA_OK)"
    using d(2) n4(1) lf(1) le by (simp add: insert_at_leaf_def pair_node_def shared_length_def Let_def)
  moreover have wl: "art_wf (path @ ?pre @ [key_at k ?i]) ?leaf" "art_wf (path @ ?pre @ [key_at key ?i]) ?new"
    using ek ekey k(1) ready(2) by simp_all
  moreover have "0 \<notin> set ?pre" using z by simp
  note w = pair_node_wf [OF d(1) hh this wl]
  have "env_ok C (things ?node + F) (h1, slab2)" using lf(2) by (simp add: w(3) add_mset_commute add.commute)
  ultimately show ?thesis
    unfolding inserted_def using w(1) False by (simp add: w(2,3))
qed

section \<open>At an inner node\<close>

text \<open>How far the key goes along the prefix: past the ten stored bytes the first leaf is consulted.\<close>

definition matches :: "bytes \<Rightarrow> cstring \<Rightarrow> nat \<Rightarrow> nat \<Rightarrow> bool" where
  "matches pre key depth m \<longleftrightarrow> m \<le> length pre \<and> (\<forall>j < m. pre ! j = key_at key (depth + j)) \<and>
     (m < length pre \<longrightarrow> pre ! m \<noteq> key_at key (depth + m))"

lemma extend_match_ok:
  assumes "m \<le> length pre" and "\<And>j. j < length pre \<Longrightarrow> pre ! j = key_at lk (depth + j)" and "0 \<notin> set pre"
    and "\<forall>j < m. pre ! j = key_at key (depth + j)"
  shows "matches pre key depth (extend_match (length pre) key lk depth m)"
  using assms(1,4)
proof (induction "length pre - m" arbitrary: m)
  case 0
  then show ?case by (subst extend_match.simps) (simp add: matches_def)
next
  case (Suc n)
  then have m: "m < length pre" by simp
  then have nz: "pre ! m \<noteq> 0" using assms(3) nth_mem by metis
  show ?case
  proof (cases "key_at key (depth + m) \<noteq> 0 \<and> key_at key (depth + m) = key_at lk (depth + m)")
    case True
    then have "\<forall>j < Suc m. pre ! j = key_at key (depth + j)"
      using Suc.prems(2) assms(2) [OF m] by (auto simp: less_Suc_eq)
    moreover have "extend_match (length pre) key lk depth m = extend_match (length pre) key lk depth (Suc m)"
      using True m by (subst extend_match.simps) auto
    ultimately show ?thesis using Suc.hyps(1) [of "Suc m"] Suc.hyps(2) m by simp
  next
    case False
    then have "extend_match (length pre) key lk depth m = m" by (subst extend_match.simps) auto
    moreover have "pre ! m \<noteq> key_at key (depth + m)" using False assms(2) [OF m] nz by auto
    ultimately show ?thesis using Suc.prems m by (simp add: matches_def)
  qed
qed

lemma entry_bytes:
  assumes "kids_wf (path @ pre) (next_child node)" and "type_of node \<noteq> LEAF_NODE" and "art_entry node k v"
  shows "prefix (path @ pre) (k @ [0])" and "j < length pre \<Longrightarrow> pre ! j = key_at k (length path + j)"
proof -
  from assms(2,3) obtain c where "opt_entry (next_child node c) k v" by (auto simp: entry_opt)
  then have "prefix ((path @ pre) @ [c]) (k @ [0])" using kids_entry_prefix [OF assms(1)] by blast
  then show p: "prefix (path @ pre) (k @ [0])" using append_prefixD by blast
  show "pre ! j = key_at k (length path + j)" if "j < length pre"
    using prefix_key_at [OF p, of "length path + j"] that by (simp add: nth_append)
qed

lemma match_prefix_ok:
  assumes "art_wf path node" and "type_of node \<noteq> LEAF_NODE" and "header_holds (header_of node) pre"
    and "0 \<notin> set pre" and "kids_wf (path @ pre) (next_child node)" and "length path \<le> length key"
  shows "\<exists>m. match_prefix node key (length path) = Some (False, m) \<and> matches pre key (length path) m"
proof -
  let ?hr = "header_of node" and ?m = "check_prefix (header_of node) key (length path)"
  have len: "prefix_len ?hr = length pre" using assms(3) by (simp add: header_holds_def)
  have inside: "\<not> check_prefix_past ?hr key (length path)" by (rule check_prefix_inside [OF assms(3,4,6)])
  note c = check_prefix_ok [OF assms(3), where key = key and depth = "length path"]
  show ?thesis
  proof (cases "?m = min (length pre) 10 \<and> length pre > 10")
    case True
    obtain k v where k: "find_minimum_leaf node = Some (Some k)" "art_entry node k v"
      using find_minimum_leaf_ok [OF assms(1)] by blast
    have "matches pre key (length path) (extend_match (length pre) key k (length path) ?m)"
      by (rule extend_match_ok) (use c True assms(4) entry_bytes(2) [OF assms(5,2) k(2)] in auto)
    then show ?thesis using True k(1) inside by (simp add: match_prefix_def len Let_def)
  next
    case False
    have "matches pre key (length path) ?m"
      unfolding matches_def
    proof (intro conjI allI impI)
      show "?m \<le> length pre" using c(1) by simp
      show "pre ! j = key_at key (length path + j)" if "j < ?m" for j by (rule c(2) [OF that])
      assume "?m < length pre"
      then have "?m < min (length pre) 10" using False c(1) by auto
      then show "pre ! ?m \<noteq> key_at key (length path + ?m)" by (rule c(3))
    qed
    moreover have "match_prefix node key (length path) = Some (False, ?m)"
      unfolding match_prefix_def Let_def len if_not_P [OF False] using inside by simp
    ultimately show ?thesis by blast
  qed
qed

lemma no_entry_off_path:
  assumes "kids_wf (path @ pre) (next_child node)" and "type_of node \<noteq> LEAF_NODE"
    and "matches pre key (length path) m" and "m < length pre"
  shows "\<not> art_entry node key v"
  using entry_bytes(2) [OF assms(1,2)] assms(3,4) by (auto simp: matches_def)

lemma set_header_keeps [simp]:
  "type_of (set_header hr node) = type_of node" "slot_of (set_header hr node) = slot_of node"
  "child_count (set_header hr node) = child_count node" "node_ok (set_header hr node) = node_ok node"
  "next_child (set_header hr node) = next_child node"
  by (cases node; simp)+

lemma header_of_set_header [simp]: "type_of node \<noteq> LEAF_NODE \<Longrightarrow> header_of (set_header hr node) = hr"
  by (cases node) simp_all

lemma things_set_header [simp]: "things (set_header hr node) = things node"
proof (cases "type_of node = LEAF_NODE")
  case True
  then show ?thesis by (cases node) simp_all
next
  case False
  then show ?thesis using things_inner [OF False] things_inner [of "set_header hr node"] by simp
qed

lemma entry_set_header [simp]: "art_entry (set_header hr node) k v = art_entry node k v"
proof (cases "type_of node = LEAF_NODE")
  case True
  then show ?thesis by (cases node) simp_all
next
  case False
  then show ?thesis using entry_opt [OF False] entry_opt [of "set_header hr node"] by simp
qed

lemma split_prefix_ok:
  assumes "art_wf path node" and "type_of node \<noteq> LEAF_NODE" and "header_holds (header_of node) pre"
    and "0 \<notin> set pre" and "kids_wf (path @ pre) (next_child node)"
    and "prefix path (key @ [0])" and "0 \<notin> set path" and "insert_ready C F node key (h, slab)"
    and "matches pre key (length path) m" and "m < length pre"
  shows "\<exists>r. split_prefix node key val (length path) m (h, slab, sz) = Some r \<and> inserted C F path node key val sz r"
proof -
  let ?d = "length path"
  have none: "\<not> art_entry node key v" for v by (rule no_entry_off_path [OF assms(5,2,9,10)])
  have ready: "env_ok C (things node + F) (h, slab)" "valid_key key" "length key + 9 < size_bound"
    and room: "\<And>T. size (slots_of T (things node + F)) < 1024"
    using assms(8) none by (auto simp: insert_ready_def)
  obtain slab1 a4 where n4: "alloc_node4 slab = (slab1, Some (Node4 a4 empty_header 0 (replicate 4 0) (replicate 4 None)))"
    "env_ok C (add_mset (Place NODE4 a4) (things node + F)) (h, slab1)"
    by (rule env_node4 [OF ready(1) room])
  have "size (slots_of LEAF_NODE (add_mset (Place NODE4 a4) (things node + F))) < 1024" using room [of LEAF_NODE] by simp
  then obtain h1 slab2 a1 b1 where lf: "alloc_leaf h slab1 key val = (h1, slab2, Some (ArtLeaf a1 key b1 val))"
    "env_ok C (things (ArtLeaf a1 key b1 val) + add_mset (Place NODE4 a4) (things node + F)) (h1, slab2)"
    by (rule env_leaf [OF n4(2) _ ready(3)])
  let ?new = "ArtLeaf a1 key b1 val"
  obtain lk v where lk: "find_minimum_leaf node = Some (Some lk)" "art_entry node lk v"
    using find_minimum_leaf_ok [OF assms(1)] by blast
  note eb = entry_bytes(2) [OF assms(5,2) lk(2)]
  let ?c = "key_at lk (?d + m)" and ?e = "key_at key (?d + m)" and ?pre = "take m pre"
  have c: "?c = pre ! m" using eb [OF assms(10)] by simp
  then have ce: "?c \<noteq> ?e" using assms(9,10) by (simp add: matches_def)
  let ?hr = "save_prefix empty_header m key ?d"
  have mb: "pre ! j = key_at key (?d + j)" if "j < m" for j using assms(9) that by (simp add: matches_def)
  have hh: "header_holds ?hr ?pre" by (rule save_prefix_ok) (use mb assms(10) in simp_all)
  have zp: "0 \<notin> set ?pre" using assms(4) set_take_subset by fastforce
  have pk: "prefix (path @ ?pre) (key @ [0])"
    by (rule prefix_extend [OF assms(6,7) ready(2) zp]) (use mb in simp)
  have z: "0 \<notin> set (path @ ?pre)" using zp assms(7) by simp
  have ln: "length (path @ ?pre) = ?d + m" using assms(10) by simp
  have wn: "art_wf (path @ ?pre @ [?e]) ?new"
    using key_prefix(2) [OF pk z, unfolded ln] ready(2) by simp
  let ?hr1 = "save_prefix (header_of node) (prefix_len (header_of node) - (m + 1)) lk (?d + m + 1)"
  let ?node1 = "set_header ?hr1 node"
  have h1: "header_holds ?hr1 (drop (m + 1) pre)"
  proof (rule save_prefix_ok)
    show "length (prefix_bytes (header_of node)) = 10" using assms(3) by (simp add: header_holds_def)
    show "length (drop (m + 1) pre) = prefix_len (header_of node) - (m + 1)"
      using assms(3) by (simp add: header_holds_def)
    fix j assume "j < prefix_len (header_of node) - (m + 1)"
    then show "drop (m + 1) pre ! j = key_at lk (?d + m + 1 + j)"
      using eb [of "m + 1 + j"] assms(3,10) by (simp add: header_holds_def add.assoc)
  qed
  have "path @ pre = (path @ ?pre @ [?c]) @ drop (m + 1) pre"
    using id_take_nth_drop [OF assms(10)] by (simp add: c)
  then have "kids_wf ((path @ ?pre @ [?c]) @ drop (m + 1) pre) (next_child ?node1)" using assms(5) by simp
  moreover have "0 \<notin> set (drop (m + 1) pre)" using assms(4) set_drop_subset by fastforce
  moreover have "node_ok node" "least_count (type_of node) \<le> child_count node"
    using assms(1) wf_inner_iff [OF assms(2)] by blast+
  ultimately have w1: "art_wf (path @ ?pre @ [?c]) ?node1"
    using h1 assms(2) by (subst wf_inner_iff) auto
  note w = pair_node_wf [OF ce hh zp w1 wn]
  let ?r = "(pair_node a4 ?hr ?c ?node1 ?e ?new, (h1, slab2, sz + 1), CDSA_OK)"
  have "split_prefix node key val ?d m (h, slab, sz) = Some ?r"
    using n4(1) lf(1) lk(1) by (simp add: split_prefix_def pair_node_def Let_def add.commute)
  moreover have "things (pair_node a4 ?hr ?c ?node1 ?e ?new) + F =
      things ?new + add_mset (Place NODE4 a4) (things node + F)"
    unfolding w(3) by simp
  then have "env_ok C (things (pair_node a4 ?hr ?c ?node1 ?e ?new) + F) (h1, slab2)" using lf(2) by (simp only:)
  then have "inserted C F path node key val sz ?r"
    unfolding inserted_def prod.case w(2,3) using w(1) none by simp
  ultimately show ?thesis by blast
qed

section \<open>The whole walk\<close>

lemma inserted_below:
  assumes "type_of node \<noteq> LEAF_NODE" and "kids_wf xs (next_child node)" and "prefix (xs @ [c]) (key @ [0])"
    and "next_child node c = Some t" and "find_child node c = Some i" and "node_ok node"
    and "least_count (type_of node) \<le> child_count node"
    and "header_holds (header_of node) pre" and "0 \<notin> set pre" and "xs = path @ pre"
    and "things node = things t + M"
    and "\<And>node' u. type_of node' = type_of node \<Longrightarrow> slot_of node' = slot_of node \<Longrightarrow>
      next_child node' = (next_child node)(c \<mapsto> u) \<Longrightarrow> things node' = things u + M"
    and "inserted C (M + F) (xs @ [c]) t key val sz (t', st, status)"
  shows "inserted C F path node key val sz (set_child i (Some t') node, st, status)"
proof -
  obtain h' slab' sz' where st: "st = (h', slab', sz')" by (rule prod_cases3)
  have r: "status = CDSA_OK" "art_wf (xs @ [c]) t'" "env_ok C (things t' + (M + F)) (h', slab')"
      "\<And>k v. art_entry t' k v \<longleftrightarrow> (if k = key then v = val else art_entry t k v)"
      "if \<exists>v. art_entry t key v then sz' = sz \<and> leaf_count (things t') = leaf_count (things t)
       else sz' = sz + 1 \<and> leaf_count (things t') = Suc (leaf_count (things t))"
    using assms(13) unfolding inserted_def st prod.case by blast+
  let ?node = "set_child i (Some t') node"
  have c: "node_ok ?node" "next_child ?node = (next_child node)(c \<mapsto> t')"
    using set_child_ok [OF assms(6,5,4)] by blast+
  have "kids_wf xs ((next_child node)(c \<mapsto> t'))" by (rule kids_wf_upd [OF assms(2)]) (use r(2) in simp)
  then have w: "art_wf path ?node" using assms(1,7-10) c by (subst wf_inner_iff) auto
  have e: "art_entry ?node k v \<longleftrightarrow> (if k = key then v = val else art_entry node k v)" for k v
    by (rule entries_change [OF assms(1-3) _ c(2)]) (use assms(1,4) r(4) in simp_all)
  have th: "things ?node = things t' + M" by (rule assms(12)) (use c in simp_all)
  have "env_ok C (things ?node + F) (h', slab')" using r(3) by (simp only: th add.assoc)
  moreover have "(\<exists>v. art_entry node key v) \<longleftrightarrow> (\<exists>v. art_entry t key v)"
    using entry_through [OF assms(1-3)] assms(4) by simp
  ultimately show ?thesis
    unfolding inserted_def st prod.case using r(1,5) w e by (simp add: th assms(11))
qed

lemma insert_node_ok:
  assumes "art_wf path node" and "prefix path (key @ [0])" and "insert_ready C F node key (h, slab)"
  shows "\<exists>node' st status. insert_node (Some node) key val (length path) (h, slab, sz) = Some (Some node', st, status) \<and>
    inserted C F path node key val sz (node', st, status)"
  using assms
proof (induction node arbitrary: path F rule: measure_induct_rule [of size])
  case (less node)
  show ?case
  proof (cases "type_of node = LEAF_NODE")
    case True
    then obtain a k b v where n: "node = ArtLeaf a k b v" by (cases node) auto
    obtain node' st status where r: "insert_at_leaf node key val (length path) (h, slab, sz) = (node', st, status)"
      by (rule prod_cases3)
    have "insert_node (Some node) key val (length path) (h, slab, sz) = Some (Some node', st, status)"
      using n r by (subst insert_node.simps) simp
    moreover have "inserted C F path node key val sz (node', st, status)"
      using insert_at_leaf_ok [OF less.prems(1) [unfolded n] less.prems(2) less.prems(3) [unfolded n], of val sz]
      by (simp only: n [symmetric] r)
    ultimately show ?thesis by blast
  next
    case False
    from less.prems(1) obtain pre where w: "node_ok node" "least_count (type_of node) \<le> child_count node"
      "header_holds (header_of node) pre" "0 \<notin> set pre" "kids_wf (path @ pre) (next_child node)"
      unfolding wf_inner_iff [OF False] by blast
    have p0: "0 \<notin> set path"
    proof -
      obtain k v where e: "art_entry node k v" using wf_has_entry [OF less.prems(1)] by blast
      then obtain c where "opt_entry (next_child node c) k v" by (auto simp: entry_opt [OF False])
      from kids_entry_prefix [OF w(5) this] show ?thesis using prefix_strict(1) [of "path @ pre" c k] by simp
    qed
    have len: "prefix_len (header_of node) = length pre" using w(3) by (simp add: header_holds_def)
    obtain m where m: "match_prefix node key (length path) = Some (False, m)" "matches pre key (length path) m"
      using match_prefix_ok [OF less.prems(1) False w(3-5) prefix_length_le [OF key_prefix(3) [OF less.prems(2) p0]]]
      by blast
    have mm: "(if prefix_len (header_of node) > 0 then match_prefix node key (length path) else Some (False, 0)) =
        Some (False, m)"
      using m by (auto simp: len matches_def)
    have env: "env_ok C (things node + F) (h, slab)" and vk: "valid_key key" "length key + 9 < size_bound"
      using less.prems(3) by (simp_all add: insert_ready_def)
    have nf: "set_fault False h = h" by (simp add: set_fault_def)
    show ?thesis
    proof (cases "m < length pre")
      case True
      obtain r where r: "split_prefix node key val (length path) m (h, slab, sz) = Some r" "inserted C F path node key val sz r"
        using split_prefix_ok [OF less.prems(1) False w(3-5) less.prems(2) p0 less.prems(3) m(2) True] by blast
      obtain node' st status where "r = (node', st, status)" by (rule prod_cases3)
      moreover have "insert_node (Some node) key val (length path) (h, slab, sz) = map_option (apfst Some) (Some r)"
        using False mm r(1) True nf by (subst insert_node.simps) (simp add: Let_def len)
      ultimately show ?thesis using r(2) by auto
    next
      case m_full: False
      then have mb: "pre ! j = key_at key (length path + j)" if "j < length pre" for j
        using m(2) that by (simp add: matches_def)
      have pk: "prefix (path @ pre) (key @ [0])"
        by (rule prefix_extend [OF less.prems(2) p0 vk(1) w(4)]) (rule mb)
      have z: "0 \<notin> set (path @ pre)" using p0 w(4) by simp
      note kp = key_prefix [OF pk z]
      let ?d = "length path + length pre" and ?c = "key_at key (length path + length pre)"
      have le: "?d \<le> length key" using kp(1) by simp
      have pc: "prefix ((path @ pre) @ [?c]) (key @ [0])" using kp(2) by simp
      have walk: "insert_node (Some node) key val (length path) (h, slab, sz) =
        (case find_child node ?c of
           None \<Rightarrow> Some (apfst Some (add_child node ?c key val (h, slab, sz)))
         | Some i \<Rightarrow>
             if type_of node = NODE256 \<and> next_child node ?c = None
             then Some (apfst Some (add_child node ?c key val (h, slab, sz)))
             else (case insert_node (next_child node ?c) key val (Suc ?d) (h, slab, sz) of
                     None \<Rightarrow> None
                   | Some (t, st2, status) \<Rightarrow> Some (Some (set_child i t node), st2, status)))"
      proof -
        have nl: "set_fault (length key < ?d) h = h" using le by (simp add: set_fault_def)
        show ?thesis
        proof (cases "find_child node ?c")
          case None
          then show ?thesis using False mm m_full nf nl le by (subst insert_node.simps) (simp add: Let_def len)
        next
          case (Some i)
          note ci = find_child_at [OF Some]
          show ?thesis using Some False mm m_full nf nl le by (subst insert_node.simps) (simp add: Let_def len ci)
        qed
      qed
      show ?thesis
      proof (cases "next_child node ?c")
        case None
        have noe: "\<not> art_entry node key v" for v
          using entry_through [OF False w(5) pc] None by simp
        then have room: "\<And>T. size (slots_of T (things node + F)) < 1024"
          using less.prems(3) by (auto simp: insert_ready_def)
        from add_child_ok [OF False w(1,2) None env room vk(2), of val sz] obtain node' h' slab' a b where
          r: "add_child node ?c key val (h, slab, sz) = (node', (h', slab', sz + 1), CDSA_OK)"
            "child_added node ?c (ArtLeaf a key b val) node'" "env_ok C (things node' + F) (h', slab')" by blast
        note ca = r(2) [unfolded child_added_def]
        have "find_child node ?c = None \<or> type_of node = NODE256" using find_child_Some [OF w(1) _ None] by (cases "find_child node ?c") simp_all
        then have "insert_node (Some node) key val (length path) (h, slab, sz) = Some (Some node', (h', slab', sz + 1), CDSA_OK)"
          unfolding walk using None r(1) by (auto split: option.split)
        moreover have "inserted C F path node key val sz (node', (h', slab', sz + 1), CDSA_OK)"
        proof -
          have pa: "prefix ((path @ pre) @ [?c]) (key @ [0])" by (rule pc)
          have e: "art_entry node' k v \<longleftrightarrow> (if k = key then v = val else art_entry node k v)" for k v
            by (rule entries_change [OF False w(5) pa, where x = "Some (ArtLeaf a key b val)"]) (use ca None in auto)
          have "kids_wf (path @ pre) (next_child node')"
            using kids_wf_upd [OF w(5), where x = "Some (ArtLeaf a key b val)" and c = ?c] pa vk(1) ca by simp
          then have w': "art_wf path node'" using ca w(3,4) by (subst wf_inner_iff) auto
          have "kid_things (next_child node') = kid_things (next_child node) + things (ArtLeaf a key b val)"
            using kid_things_new [of "next_child node" ?c "ArtLeaf a key b val", OF None] ca by simp
          then have "leaf_count (things node') = Suc (leaf_count (things node))"
            using things_inner [OF False] things_inner [of node'] ca False by simp
          then show ?thesis unfolding inserted_def prod.case using w' r(3) e noe by simp
        qed
        ultimately show ?thesis by blast
      next
        case (Some t)
        then have i: "\<exists>i. find_child node ?c = Some i" by (auto simp: next_child_def split: option.splits)
        then obtain i where i: "find_child node ?c = Some i" by blast
        obtain M where M: "things node = things t + M"
          "\<And>node' u. type_of node' = type_of node \<Longrightarrow> slot_of node' = slot_of node \<Longrightarrow>
            next_child node' = (next_child node)(?c \<mapsto> u) \<Longrightarrow> things node' = things u + M"
          by (rule things_child [OF Some]) blast
        have wt: "art_wf ((path @ pre) @ [?c]) t" using w(5) Some by (simp add: kids_wf_def)
        have "art_entry node key v \<longleftrightarrow> art_entry t key v" for v
          using entry_through [OF False w(5) pc] Some by simp
        then have "insert_ready C (M + F) t key (h, slab)"
          using less.prems(3) by (simp only: insert_ready_def M(1) add.assoc)
        from less.IH [OF next_child_size [OF Some] wt pc this] obtain t' st status where
          r: "insert_node (Some t) key val (length ((path @ pre) @ [?c])) (h, slab, sz) = Some (Some t', st, status)"
            "inserted C (M + F) ((path @ pre) @ [?c]) t key val sz (t', st, status)" by blast
        have "insert_node (Some node) key val (length path) (h, slab, sz) = Some (Some (set_child i (Some t') node), st, status)"
          unfolding walk using i Some r(1) by simp
        moreover have "inserted C F path node key val sz (set_child i (Some t') node, st, status)"
          by (rule inserted_below [OF False w(5) pc Some i w(1-4) refl M r(2)])
        ultimately show ?thesis by blast
      qed
    qed
  qed
qed

end
