(* ===== verification/Art_Delete.thy ===== *)
theory Art_Delete
  imports Art_Insert
begin

text \<open>
  Deletion: a key that is in the tree is taken out, its blocks go back to their pools and to the
  heap, thinned out nodes shrink or merge with their child, and the tree stays well formed.  A key that
  is not in the tree leaves it alone, unless the key is shorter than a prefix of which only ten bytes
  are stored.  Trees without the largest layout: deletions below a \<open>Node256\<close> leave its count as it was.
\<close>

section \<open>Merging prefixes\<close>

lemma header_take:
  assumes "header_holds hr pre" and "n \<le> length pre" and "n \<le> 10"
  shows "take n (prefix_bytes hr) = take n pre"
  by (rule nth_equalityI) (use assms in \<open>auto simp: header_holds_def\<close>)

lemma merge_prefix_ok:
  assumes "header_holds hr pre" and "header_holds hr' pre'"
  shows "header_holds (merge_prefix hr c hr') (pre @ [c] @ pre')"
proof -
  have len: "prefix_len hr = length pre" "prefix_len hr' = length pre'" "length (prefix_bytes hr') = 10"
    using assms by (simp_all add: header_holds_def)
  let ?l = "min (length pre + 1 + length pre') 10"
  let ?new1 = "take (min (length pre) ?l) (prefix_bytes hr)"
  let ?new2 = "if length ?new1 < ?l then ?new1 @ [c] else ?new1"
  let ?new3 = "?new2 @ take (min (length pre') (?l - length ?new2)) (prefix_bytes hr')"
  have n1: "?new1 = take (min (length pre) ?l) pre"
    by (rule header_take [OF assms(1)]) simp_all
  have n3: "?new3 = take ?l (pre @ [c] @ pre')"
  proof (cases "length pre < 10")
    case True
    then have "min (length pre) ?l = length pre" by simp
    then have "?new1 = pre" using n1 by simp
    then have n2: "?new2 = pre @ [c]" using True by simp
    let ?k = "min (length pre') (?l - (length pre + 1))"
    have "take ?k (prefix_bytes hr') = take ?k pre'"
      by (rule header_take [OF assms(2)]) linarith+
    moreover have "length ?new2 = length pre + 1" by (simp only: n2) simp
    ultimately have "?new3 = (pre @ [c]) @ take ?k pre'" by (simp only: n2)
    moreover have "10 - length pre = Suc (9 - length pre)" using True by simp
    ultimately show ?thesis using True by (auto simp: min_def)
  next
    case False
    then have l: "?l = 10" "min (length pre) 10 = 10" by simp_all
    then have "length ?new1 = 10" using n1 by simp
    then show ?thesis using n1 l by simp
  qed
  have m: "merge_prefix hr c hr' = \<lparr>prefix_len = length pre + 1 + length pre', prefix_bytes = ?new3 @ drop ?l (prefix_bytes hr')\<rparr>"
    by (simp only: merge_prefix_def Let_def len)
  show ?thesis
    unfolding header_holds_def m n3 using len(3) by (auto simp: nth_append)
qed

section \<open>After a child has gone\<close>

lemma shrink_ok:
  assumes "node_ok node" and "type_of node \<noteq> LEAF_NODE" and "type_of node \<noteq> NODE256"
    and "least_count (type_of node) \<le> child_count node + 1"
    and "header_holds (header_of node) pre" and "0 \<notin> set pre" and "kids_wf (path @ pre) (next_child node)"
    and "env_ok C (things node + F) (h, slab)"
    and "\<And>T. T \<noteq> LEAF_NODE \<Longrightarrow> size (slots_of T (things node + F)) < 1024"
  shows "\<exists>slab' node'. shrink_node slab node = (False, slab', Some node') \<and> art_wf path node' \<and>
    (\<forall>k v. art_entry node' k v \<longleftrightarrow> art_entry node k v) \<and> env_ok C (things node' + F) (h, slab') \<and>
    leaf_count (things node') = leaf_count (things node)"
proof -
  have stay: ?thesis
    if "least_count (type_of node) \<le> child_count node" and "shrink_node slab node = (False, slab, Some node)"
  proof -
    have "art_wf path node" using that(1) assms(1,5-7) by (subst wf_inner_iff [OF assms(2)]) blast
    then show ?thesis using that(2) assms(8) by blast
  qed
  have down: ?thesis
    if "replaces slab node slab' small" and "type_of small \<noteq> LEAF_NODE"
      and "least_count (type_of small) \<le> child_count small" and "shrink_node slab node = (False, slab', Some small)"
    for slab' small
  proof -
    have sc: "node_ok small" "header_of small = header_of node" "next_child small = next_child node"
      using that(1) by (simp_all add: replaces_def same_children_def)
    have "art_wf path small"
      using sc that(3) assms(5-7) by (subst wf_inner_iff [OF that(2)]) auto
    moreover have "art_entry small k v \<longleftrightarrow> art_entry node k v" for k v
      by (simp add: entry_opt [OF assms(2)] entry_opt [OF that(2)] sc(3))
    moreover have ti: "things node = add_mset (Place (type_of node) (slot_of node)) (kid_things (next_child node))"
      "things small = add_mset (Place (type_of small) (slot_of small)) (kid_things (next_child node))"
      using things_inner [OF assms(2)] things_inner [OF that(2)] sc(3) by simp_all
    moreover have "env_ok C (things small + F) (h, slab')"
      using env_replaces [OF assms(8) [unfolded ti union_mset_add_mset_left] that(1)]
      by (simp only: ti union_mset_add_mset_left)
    moreover have "leaf_count (things small) = leaf_count (things node)"
      using assms(2) that(2) by (simp add: ti)
    ultimately show ?thesis using that(4) by blast
  qed
  have full: False if "no_block T slab slab'" "T \<noteq> LEAF_NODE" for T slab'
    using that env_alloc_none [OF assms(8)] assms(9) [of T] by (auto simp: no_block_def)
  show ?thesis
  proof (cases node)
    case (ArtLeaf a k b v)
    then show ?thesis using assms(2) by simp
  next
    case (Node256 a hr cs n)
    then show ?thesis using assms(3) by simp
  next
    case (Node48 a hr ix cs n)
    show ?thesis
    proof (cases "n = 16")
      case True
      obtain bad slab' r where d: "downgrade_node48_to_node16 slab node = (bad, slab', r)" by (rule prod_cases3)
      note k = downgrade48_ok [of a hr ix cs n slab bad slab' r, folded Node48, OF assms(1) _ d]
      then obtain small where s: "r = Some small" "\<not> bad"
        using True full [of NODE16 slab'] by (cases r) auto
      then have "type_of small = NODE16" "child_count small = n" "replaces slab node slab' small"
        using k True by simp_all
      then show ?thesis using True Node48 d s by (intro down [of slab' small]) (simp_all add: shrink_node_def)
    next
      case False
      then show ?thesis using assms(4) Node48 by (intro stay) (simp_all add: shrink_node_def)
    qed
  next
    case (Node16 a hr n ks cs)
    show ?thesis
    proof (cases "n = 4")
      case True
      obtain slab' r where d: "downgrade_node16_to_node4 slab node = (slab', r)" by fastforce
      note k = downgrade16_ok [of a hr n ks cs slab slab' r, folded Node16, OF assms(1) _ d]
      then obtain small where s: "r = Some small"
        using True full [of NODE4 slab'] by (cases r) auto
      then have "type_of small = NODE4" "child_count small = n" "replaces slab node slab' small"
        using k True by simp_all
      then show ?thesis using True Node16 d s by (intro down [of slab' small]) (simp_all add: shrink_node_def)
    next
      case False
      then show ?thesis using assms(4) Node16 by (intro stay) (simp_all add: shrink_node_def)
    qed
  next
    case (Node4 a hr n ks cs)
    show ?thesis
    proof (cases "n = 1")
      case False
      then show ?thesis using assms(4) Node4 by (intro stay) (simp_all add: shrink_node_def)
    next
      case True
      have row: "row_ok 4 1 ks cs" using assms(1) Node4 True by simp
      then obtain t where t: "cs ! 0 = Some t" using row_some [of 4 1 ks cs 0] by auto
      then have ct: "child_at cs 0 = Some t" using row by (simp add: child_at_def row_ok_def)
      have kids: "next_child node = [ks ! 0 \<mapsto> t]"
      proof
        fix c
        show "next_child node c = [ks ! 0 \<mapsto> t] c"
          using Node4 True t row_child_iff [OF row, of c] by (cases "row_child 1 ks cs c") auto
      qed
      let ?c = "ks ! 0"
      have wt: "art_wf ((path @ pre) @ [?c]) t" using assms(7) kids by (simp add: kids_wf_def)
      have th: "things node = add_mset (Place (type_of node) (slot_of node)) (things t)"
        using things_inner [OF assms(2)] kids kid_things_new [of "\<lambda>_. None" ?c t] by simp
      have env: "env_ok C (things t + F) (h, release_node slab node)"
        using env_release [OF assms(8) [unfolded th union_mset_add_mset_left]] .
      have entry: "art_entry node k v \<longleftrightarrow> art_entry t k v" for k v
        by (auto simp: entry_opt [OF assms(2)] kids opt_entry_def split: option.splits if_splits)
      let ?t = "if type_of t \<noteq> LEAF_NODE then set_header (merge_prefix hr ?c (header_of t)) t else t"
      have sh: "shrink_node slab node = (False, release_node slab node, Some ?t)"
        using Node4 True ct by (simp add: shrink_node_def)
      have "art_wf path ?t"
      proof (cases "type_of t = LEAF_NODE")
        case True
        then obtain a' k b v where "t = ArtLeaf a' k b v" by (cases t) auto
        then show ?thesis using wt append_prefixD by auto
      next
        case False
        from wt obtain pre' where p: "node_ok t" "least_count (type_of t) \<le> child_count t"
          "header_holds (header_of t) pre'" "0 \<notin> set pre'" "kids_wf (((path @ pre) @ [?c]) @ pre') (next_child t)"
          unfolding wf_inner_iff [OF False] by blast
        have hh: "header_holds (merge_prefix hr ?c (header_of t)) (pre @ [?c] @ pre')"
          by (rule merge_prefix_ok) (use assms(5) Node4 p(3) in simp_all)
        have "0 \<notin> set (path @ pre @ [?c])"
        proof -
          obtain k v where "art_entry t k v" using wf_has_entry [OF wt] by blast
          then obtain d where "opt_entry (next_child t d) k v" by (auto simp: entry_opt [OF False])
          from kids_entry_prefix [OF p(5) this] show ?thesis
            using prefix_strict(1) [of "((path @ pre) @ [?c]) @ pre'" d k] by simp
        qed
        then have "0 \<notin> set (pre @ [?c] @ pre')" using p(4) by simp
        then show ?thesis
          using False p(1,2,5) hh by (subst wf_inner_iff) auto
      qed
      moreover have "things ?t = things t" "art_entry ?t k v = art_entry t k v" for k v by simp_all
      moreover have "leaf_count (things node) = leaf_count (things t)" using th assms(2) by simp
      ultimately show ?thesis using sh env entry by (intro exI [of _ "release_node slab node"] exI [of _ ?t]) simp
    qed
  qed
qed

section \<open>A key that is in the tree\<close>

lemma delete_leaf:
  "recursive_delete (ArtLeaf a k b v) key d st =
    (if k = key then (None, True, (cdsa_free_track (fst st) (Some b), release_node (fst (snd st)) (ArtLeaf a k b v), snd (snd st) - 1))
     else (Some (ArtLeaf a k b v), False, st))"
  by (subst recursive_delete.simps) (simp add: strcmp_eq)

lemma delete_inner:
  assumes "type_of node \<noteq> LEAF_NODE" and "\<not> check_prefix_past (header_of node) key depth"
  shows "recursive_delete node key depth st =
     (let hr = header_of node in
      if prefix_len hr > 0 \<and> check_prefix hr key depth \<noteq> min (prefix_len hr) 10 then (Some node, False, st)
      else if prefix_len hr > 0 \<and> depth + prefix_len hr > length key then (None, False, st)
      else
        let depth1 = depth + prefix_len hr;
            c = key_at key depth1;
            st1 = (set_fault (length key < depth1) (fst st), snd st)
        in (case next_child node c of
              None \<Rightarrow> (Some node, False, st1)
            | Some child \<Rightarrow>
                let (new_child, deleted, (h2, slab2, sz2)) = recursive_delete child key (depth1 + 1) st1;
                    node1 = set_child (the (find_child node c)) new_child node
                in if deleted \<and> new_child = None
                   then let (bad, slab3, node2) = shrink_node slab2 (remove_child node1 c)
                        in (node2, deleted, (set_fault bad h2, slab3, sz2))
                   else (Some node1, deleted, (h2, slab2, sz2))))"
proof -
  have st: "(set_fault (check_prefix_past (header_of node) key depth) (fst st), snd st) = st"
    using assms(2) by (simp add: set_fault_False)
  show ?thesis
    using assms(1) by (subst recursive_delete.simps, unfold Let_def st) (cases node; simp only: art_node.case type_of.simps simp_thms)
qed

definition removed :: "art_frame \<Rightarrow> thing multiset \<Rightarrow> bytes \<Rightarrow> art_node \<Rightarrow> cstring \<Rightarrow> size_t \<Rightarrow>
    art_node option \<times> bool \<times> art_state \<Rightarrow> bool" where
  "removed C F path node key sz r \<longleftrightarrow> (case r of (x, deleted, (h', slab', sz')) \<Rightarrow>
     deleted \<and> (\<forall>t. x = Some t \<longrightarrow> art_wf path t) \<and> env_ok C (opt_things x + F) (h', slab') \<and>
     (\<forall>k v. opt_entry x k v \<longleftrightarrow> k \<noteq> key \<and> art_entry node k v) \<and> sz' = sz - 1 \<and>
     Suc (leaf_count (opt_things x)) = leaf_count (things node))"

lemma size_slots_union: "size (slots_of T (M + N)) = size (slots_of T M) + size (slots_of T N)"
  by simp

lemma delete_present_ok:
  assumes "art_wf path node" and "art_entry node key v" and "env_ok C (things node + F) (h, slab)"
    and "slots_of NODE256 (things node) = {#}"
    and "\<And>T. T \<noteq> LEAF_NODE \<Longrightarrow> size (slots_of T (things node + F)) < 1024"
  shows "removed C F path node key sz (recursive_delete node key (length path) (h, slab, sz))"
  using assms
proof (induction node arbitrary: path F rule: measure_induct_rule [of size])
  case (less node)
  show ?case
  proof (cases "type_of node = LEAF_NODE")
    case True
    then obtain a k b w where n: "node = ArtLeaf a k b w" by (cases node) auto
    then have k: "k = key" using less.prems(2) by simp
    have "env_ok C (add_mset (KeyBlock b (of_nat (length k) + 1)) (add_mset (Place LEAF_NODE a) F)) (h, slab)"
      using less.prems(3) n by (simp add: add_mset_commute)
    from env_release [of C node F "cdsa_free_track h (Some b)" slab] env_free [OF this]
    have "env_ok C F (cdsa_free_track h (Some b), release_node slab node)" using n by simp
    then show ?thesis using n k by (simp add: removed_def delete_leaf)
  next
    case False
    from less.prems(1) obtain pre where w: "node_ok node" "least_count (type_of node) \<le> child_count node"
      "header_holds (header_of node) pre" "0 \<notin> set pre" "kids_wf (path @ pre) (next_child node)"
      unfolding wf_inner_iff [OF False] by blast
    have kids: "\<forall>c t. next_child node c = Some t \<longrightarrow> art_wf (path @ pre @ [c]) t"
      using w(5) by (simp add: kids_wf_def)
    note ip = inner_path [OF less.prems(1) False w(3) kids less.prems(2)]
    have len: "prefix_len (header_of node) = length pre" using w(3) by (simp add: header_holds_def)
    let ?d = "length path + length pre" and ?c = "key_at key (length path + length pre)"
    obtain t where t: "next_child node ?c = Some t" using ip(5) by blast
    have te: "art_entry t key v" by (rule ip(4) [OF t])
    have eb: "pre ! j = key_at key (length path + j)" if "j < length pre" for j
      by (rule entry_bytes(2) [OF w(5) False less.prems(2) that])
    have cp: "check_prefix (header_of node) key (length path) = min (length pre) 10"
      by (rule check_prefix_full [OF w(3) eb])
    have inside: "\<not> check_prefix_past (header_of node) key (length path)"
      by (rule check_prefix_inside [OF w(3,4)]) (use ip(2) in simp)
    obtain i where i: "find_child node ?c = Some i"
      using t by (auto simp: next_child_def split: option.splits)
    have wt: "art_wf ((path @ pre) @ [?c]) t" using kids t by simp
    have pc: "prefix ((path @ pre) @ [?c]) (key @ [0])" using entry_prefix [OF te wt] by blast
    obtain M where M: "things node = things t + M"
      "\<And>node' u. type_of node' = type_of node \<Longrightarrow> slot_of node' = slot_of node \<Longrightarrow>
        next_child node' = (next_child node)(?c \<mapsto> u) \<Longrightarrow> things node' = things u + M"
      "kid_things ((next_child node)(?c := None)) + {#Place (type_of node) (slot_of node)#} = M"
      by (rule things_child [OF t]) blast
    have sub: "removed C (M + F) ((path @ pre) @ [?c]) t key sz
        (recursive_delete t key (length ((path @ pre) @ [?c])) (h, slab, sz))"
    proof (rule less.IH [OF next_child_size [OF t] wt te])
      show "env_ok C (things t + (M + F)) (h, slab)" using less.prems(3) by (simp only: M(1) add.assoc)
      show "slots_of NODE256 (things t) = {#}" using less.prems(4) by (simp add: M(1))
      show "size (slots_of T (things t + (M + F))) < 1024" if "T \<noteq> LEAF_NODE" for T
        using less.prems(5) [OF that] by (simp add: M(1))
    qed
    obtain x del h2 slab2 sz2 where r: "recursive_delete t key (Suc ?d) (h, slab, sz) = (x, del, (h2, slab2, sz2))"
      by (metis prod.exhaust)
    have s: del "\<And>u. x = Some u \<Longrightarrow> art_wf ((path @ pre) @ [?c]) u" "env_ok C (opt_things x + (M + F)) (h2, slab2)"
      "\<And>k v. opt_entry x k v \<longleftrightarrow> k \<noteq> key \<and> art_entry t k v" "sz2 = sz - 1"
      "Suc (leaf_count (opt_things x)) = leaf_count (things t)"
      using sub r by (simp_all add: removed_def)
    have walk: "recursive_delete node key (length path) (h, slab, sz) =
      (if x = None
       then let (bad, slab3, node2) = shrink_node slab2 (remove_child (set_child i None node) ?c)
            in (node2, True, (set_fault bad h2, slab3, sz2))
       else (Some (set_child i x node), True, (h2, slab2, sz2)))"
      using False cp ip(2) t i r s(1) by (simp add: delete_inner [OF _ inside] Let_def len set_fault_def)
    have new: "opt_entry x k v \<longleftrightarrow> (if k = key then False else opt_entry (next_child node ?c) k v)" for k v
      using s(4) t by auto
    show ?thesis
    proof (cases x)
      case (Some u)
      let ?node = "set_child i (Some u) node"
      have c: "node_ok ?node" "next_child ?node = (next_child node)(?c \<mapsto> u)"
        using set_child_ok [OF w(1) i t] by blast+
      have "kids_wf (path @ pre) ((next_child node)(?c \<mapsto> u))"
        by (rule kids_wf_upd [OF w(5)]) (use s(2) Some in simp)
      then have wf: "art_wf path ?node" using False w c by (subst wf_inner_iff) auto
      have e: "art_entry ?node k v \<longleftrightarrow> (if k = key then False else art_entry node k v)" for k v
        by (rule entries_change [OF False w(5) pc _ c(2) new [unfolded Some]]) (use False in simp)
      have th: "things ?node = things u + M" by (rule M(2)) (use c in simp_all)
      have "env_ok C (things ?node + F) (h2, slab2)" using s(3) Some by (simp only: th add.assoc opt_things_simps)
      then show ?thesis
        unfolding walk removed_def using wf e s(5,6) Some by (simp add: th M(1))
    next
      case None
      let ?n1 = "remove_child (set_child i None node) ?c"
      have n256: "type_of node \<noteq> NODE256"
      proof
        assume "type_of node = NODE256"
        then have "slot_of node \<in># slots_of NODE256 (things node)"
          by (simp add: things_inner [OF False])
        then show False using less.prems(4) by simp
      qed
      note rm = remove_child_ok [OF w(1) i t n256]
      have cnt: "child_count node = child_count ?n1 + 1"
        by (rule child_count_new [OF rm(1) w(1)]) (use rm(2) t in auto)
      have th: "things ?n1 = M"
        using things_inner [of ?n1] rm(2-4) False M(3) by simp
      have e: "art_entry ?n1 k v \<longleftrightarrow> (if k = key then False else art_entry node k v)" for k v
        by (rule entries_change [OF False w(5) pc _ rm(2) new [unfolded None]]) (use False rm(3) in simp)
      have kw: "kids_wf (path @ pre) (next_child ?n1)"
        unfolding rm(2) by (rule kids_wf_upd [OF w(5)]) simp
      have "\<exists>slab' node'. shrink_node slab2 ?n1 = (False, slab', Some node') \<and> art_wf path node' \<and>
          (\<forall>k v. art_entry node' k v \<longleftrightarrow> art_entry ?n1 k v) \<and> env_ok C (things node' + F) (h2, slab') \<and>
          leaf_count (things node') = leaf_count (things ?n1)"
      proof (rule shrink_ok [OF rm(1) _ _ _ _ w(4) kw])
        show "env_ok C (things ?n1 + F) (h2, slab2)" using s(3) None by (simp add: th)
        show "size (slots_of T (things ?n1 + F)) < 1024" if "T \<noteq> LEAF_NODE" for T
          using less.prems(5) [OF that] by (simp add: th M(1))
      qed (use False n256 rm(3,5) w(2,3) cnt in simp_all)
      then obtain slab' node' where sh: "shrink_node slab2 ?n1 = (False, slab', Some node')" "art_wf path node'"
        "\<And>k v. art_entry node' k v \<longleftrightarrow> art_entry ?n1 k v" "env_ok C (things node' + F) (h2, slab')"
        "leaf_count (things node') = leaf_count (things ?n1)" by blast
      have "leaf_count (things node) = Suc (leaf_count (things node'))"
        using s(6) None sh(5) by (simp add: M(1) th)
      then show ?thesis
        unfolding walk removed_def using sh e s(5) None by (simp add: set_fault_def)
    qed
  qed
qed

section \<open>A key that is not in the tree\<close>

lemma set_child_same:
  assumes "find_child node c = Some i" and "next_child node c = Some t"
  shows "set_child i (Some t) node = node"
proof -
  have "child_at (children_of node) i = Some t" using find_child_at [OF assms(1)] assms(2) by simp
  then have "children_of node ! i = Some t" by (simp add: child_at_def split: if_splits)
  then have "(children_of node)[i := Some t] = children_of node" by (metis list_update_id)
  then show ?thesis by (cases node) simp_all
qed

text \<open>
  A key shorter than a prefix whose stored bytes it matches makes \<open>recursive_delete\<close> return NULL for
  the whole subtree.  That cannot happen when the keys below are no longer than ten bytes or no longer
  than the key.
\<close>

lemma delete_absent_ok:
  assumes "art_wf path node" and "valid_key key" and "type_of node = LEAF_NODE \<or> length path \<le> length key"
    and "\<And>v. \<not> art_entry node key v"
    and "\<And>k v. art_entry node k v \<Longrightarrow> length k \<le> length key \<or> length k \<le> 10"
    and "\<not> fault h"
  shows "recursive_delete node key (length path) (h, st) = (Some node, False, (h, st))"
  using assms(1,3,4,5)
proof (induction node arbitrary: path rule: measure_induct_rule [of size])
  case (less node)
  show ?case
  proof (cases "type_of node = LEAF_NODE")
    case True
    then obtain a k b w where n: "node = ArtLeaf a k b w" by (cases node) auto
    then have "k \<noteq> key" using less.prems(3) by auto
    then show ?thesis by (simp add: n delete_leaf)
  next
    case False
    from less.prems(1) obtain pre where w: "node_ok node" "least_count (type_of node) \<le> child_count node"
      "header_holds (header_of node) pre" "0 \<notin> set pre" "kids_wf (path @ pre) (next_child node)"
      unfolding wf_inner_iff [OF False] by blast
    have kids: "\<forall>c t. next_child node c = Some t \<longrightarrow> art_wf (path @ pre @ [c]) t"
      using w(5) by (simp add: kids_wf_def)
    have len: "prefix_len (header_of node) = length pre" using w(3) by (simp add: header_holds_def)
    let ?d = "length path + length pre" and ?c = "key_at key (length path + length pre)"
    have inside: "\<not> check_prefix_past (header_of node) key (length path)"
      using check_prefix_inside [OF w(3,4)] less.prems(2) False by blast
    have le: "?d \<le> length key"
      if "length pre > 0" and full: "check_prefix (header_of node) key (length path) = min (length pre) 10"
    proof (rule ccontr)
      assume n: "\<not> ?d \<le> length key"
      obtain k v where e: "art_entry node k v" using wf_has_entry [OF less.prems(1)] by blast
      from inner_path(2) [OF less.prems(1) False w(3) kids e] n less.prems(4) [OF e]
      have "length pre \<le> 10" by simp
      moreover obtain l where l: "length pre = Suc l" using \<open>length pre > 0\<close> by (cases pre) auto
      ultimately have "pre ! l = key_at key (length path + l)"
        using check_prefix_ok(2) [OF w(3), where key = key and depth = "length path" and j = l] full by simp
      also have "\<dots> = 0" using n key_at_zero [OF assms(2)] l by simp
      finally show False using w(4) l nth_mem [of l pre] by simp
    qed
    show ?thesis
    proof (cases "length pre > 0 \<and> check_prefix (header_of node) key (length path) \<noteq> min (length pre) 10")
      case True
      then show ?thesis using False by (simp add: delete_inner [OF _ inside] Let_def len)
    next
      case pass: False
      then have d: "?d \<le> length key" using le less.prems(2) False by (cases "pre = []") simp_all
      have nf: "set_fault (length key < ?d) h = h" using d by (simp add: set_fault_def)
      show ?thesis
      proof (cases "next_child node ?c")
        case None
        then show ?thesis using False pass d nf by (auto simp: delete_inner [OF _ inside] Let_def len)
      next
        case (Some t)
        then obtain i where i: "find_child node ?c = Some i"
          by (auto simp: next_child_def split: option.splits)
        have "recursive_delete t key (length (path @ pre @ [?c])) (h, st) = (Some t, False, (h, st))"
        proof (rule less.IH [OF next_child_size [OF Some]])
          show wt: "art_wf (path @ pre @ [?c]) t" using kids Some by blast
          show "type_of t = LEAF_NODE \<or> length (path @ pre @ [?c]) \<le> length key"
          proof (cases "?c = 0")
            case True
            then show ?thesis using child_is_leaf [of "path @ pre" t] wt by simp
          next
            case False
            then show ?thesis using key_at_zero [OF assms(2), of ?d] d by simp
          qed
          show "\<not> art_entry t key v" for v using less.prems(3) art_entry.below [OF Some] by blast
          show "length k \<le> length key \<or> length k \<le> 10" if "art_entry t k v" for k v
            using less.prems(4) art_entry.below [OF Some that] by blast
        qed
        then have "recursive_delete t key (Suc ?d) (h, st) = (Some t, False, (h, st))" by simp
        moreover obtain s1 s2 where "st = (s1, s2)" by fastforce
        ultimately show ?thesis
          using False pass d nf Some i set_child_same [OF i Some]
          by (auto simp: delete_inner [OF _ inside] Let_def len)
      qed
    qed
  qed
qed

end
