(* ===== verification/Art_Life.thy ===== *)
theory Art_Life
  imports Art_Delete
begin

text \<open>
  Creation and release of a tree: the pools, the slab manager and the tree are the base blocks, and
  releasing the tree gives back every block it holds.
\<close>

section \<open>The children of a node, as its loops visit them\<close>

lemma edges_ok:
  assumes "node_ok node"
  shows "distinct (map fst (edges node))"
    and "(c, x) \<in> set (edges node) \<Longrightarrow> next_child node c = x \<and> x \<noteq> None"
    and "next_child node c \<noteq> None \<Longrightarrow> c \<in> fst ` set (edges node)"
proof -
  have row: "distinct (map (\<lambda>i. ks ! i) [0..<n]) \<and>
      ((c, x) \<in> set (map (\<lambda>i. (ks ! i, child_at cs i)) [0..<n]) \<longrightarrow> row_child n ks cs c = x \<and> x \<noteq> None) \<and>
      (row_child n ks cs c \<noteq> None \<longrightarrow> c \<in> (\<lambda>i. ks ! i) ` {0..<n})"
    if r: "row_ok m n ks cs" for m n ks cs
  proof (intro conjI impI)
    show "distinct (map (\<lambda>i. ks ! i) [0..<n])"
      using r by (auto simp: distinct_map inj_on_def row_ok_def)
    assume "(c, x) \<in> set (map (\<lambda>i. (ks ! i, child_at cs i)) [0..<n])"
    then obtain i where i: "i < n" "c = ks ! i" "x = child_at cs i" by auto
    then have "x = cs ! i" using r by (simp add: child_at_def row_ok_def)
    then show "row_child n ks cs c = x" "x \<noteq> None" using i row_child_nth [OF r i(1)] row_some [OF r i(1)] by auto
  next
    assume "row_child n ks cs c \<noteq> None"
    then show "c \<in> (\<lambda>i. ks ! i) ` {0..<n}" using row_child_iff [OF r, of c] by auto
  qed
  have "distinct (map fst (edges node)) \<and>
    ((c, x) \<in> set (edges node) \<longrightarrow> next_child node c = x \<and> x \<noteq> None) \<and>
    (next_child node c \<noteq> None \<longrightarrow> c \<in> fst ` set (edges node))"
  proof (cases node)
    case (Node4 a hr n ks cs)
    then show ?thesis using row [of 4 n ks cs] assms by (simp add: o_def image_image)
  next
    case (Node16 a hr n ks cs)
    then show ?thesis using row [of 16 n ks cs] assms by (simp add: o_def image_image)
  next
    case (Node48 a hr ix cs n)
    then have ix: "index_ok ix cs" using assms by simp
    have d: "distinct (map fst (edges node))"
      using Node48 by (auto simp: o_def distinct_map inj_on_def of_nat_byte_inject)
    have m: "index_child ix cs c = x \<and> x \<noteq> None" if "(c, x) \<in> set (edges node)"
    proof -
      from that Node48 obtain i where i: "i < 256" "ix ! i \<noteq> ART_EMPTY_SLOT" "c = of_nat i"
        "x = child_at cs (unat (ix ! i))" by auto
      then have u: "unat c = i" by simp
      have "length cs = 48" "unat (ix ! i) < 48" "\<exists>t. cs ! unat (ix ! i) = Some t"
        using index_okD(2) [OF ix] index_okD(3,4) [OF ix, where c = c, unfolded u] i(2) by simp_all
      then show ?thesis using i u by (auto simp: index_child_def child_at_def)
    qed
    have "c \<in> fst ` set (edges node)" if "index_child ix cs c \<noteq> None"
      using that Node48
      by (auto simp: index_child_def image_image split: if_splits intro!: image_eqI [of _ _ "unat c"])
    then show ?thesis using d m Node48 by simp
  next
    case (Node256 a hr cs n)
    have d: "distinct (map fst (edges node))"
      using Node256 by (auto simp: o_def distinct_map inj_on_def of_nat_byte_inject)
    have "c \<in> fst ` set (edges node)" if "dense_child cs c \<noteq> None"
      using that Node256 by (auto simp: dense_child_def image_image intro!: image_eqI [of _ _ "unat c"])
    then show ?thesis using d Node256 by (auto simp: dense_child_def)
  qed simp
  then show "distinct (map fst (edges node))"
    and "(c, x) \<in> set (edges node) \<Longrightarrow> next_child node c = x \<and> x \<noteq> None"
    and "next_child node c \<noteq> None \<Longrightarrow> c \<in> fst ` set (edges node)" by blast+
qed

lemma kid_things_edges:
  assumes "node_ok node"
  shows "kid_things (next_child node) = sum_list (map (\<lambda>e. opt_things (snd e)) (edges node))"
proof -
  note e = edges_ok [OF assms]
  have "(\<Sum>c\<in>UNIV. opt_things (next_child node c)) = (\<Sum>c\<in>set (map fst (edges node)). opt_things (next_child node c))"
    by (rule sum.mono_neutral_right) (use e(3) in \<open>auto simp: opt_things_def split: option.splits\<close>)
  also have "\<dots> = sum_list (map (\<lambda>c. opt_things (next_child node c)) (map fst (edges node)))"
    by (rule sum_list_distinct_conv_sum_set [symmetric, OF e(1)])
  also have "\<dots> = sum_list (map (\<lambda>e. opt_things (snd e)) (edges node))"
    unfolding map_map
  proof (rule arg_cong [where f = sum_list], rule map_cong [OF refl])
    fix p assume "p \<in> set (edges node)"
    then show "((\<lambda>c. opt_things (next_child node c)) \<circ> fst) p = opt_things (snd p)"
      using e(2) [of "fst p" "snd p"] by simp
  qed
  finally show ?thesis by (simp add: kid_things_def opt_things_def)
qed

section \<open>Releasing the nodes\<close>

lemma free_inner:
  "type_of node \<noteq> LEAF_NODE \<Longrightarrow> cdsa_free_node node st =
    (let (h1, slab1) = fold (\<lambda>e st. case snd e of None \<Rightarrow> st | Some t \<Rightarrow> cdsa_free_node t st) (edges node) st
     in (h1, release_node slab1 node))"
  by (subst cdsa_free_node.simps) (cases node; simp)

declare cdsa_free_node.simps [simp del]

lemma fold_free:
  assumes "\<And>t F st. Some t \<in> snd ` set es \<Longrightarrow> env_ok C (things t + F) st \<Longrightarrow> env_ok C F (cdsa_free_node t st)"
    and "env_ok C (sum_list (map (\<lambda>e. opt_things (snd e)) es) + F) st"
  shows "env_ok C F (fold (\<lambda>e st. case snd e of None \<Rightarrow> st | Some t \<Rightarrow> cdsa_free_node t st) es st)"
  using assms
proof (induction es arbitrary: st)
  case (Cons e es)
  have "env_ok C (sum_list (map (\<lambda>e. opt_things (snd e)) es) + F)
      (case snd e of None \<Rightarrow> st | Some t \<Rightarrow> cdsa_free_node t st)"
  proof (cases "snd e")
    case None
    then show ?thesis using Cons.prems(2) by simp
  next
    case (Some t)
    then have "env_ok C (things t + (sum_list (map (\<lambda>e. opt_things (snd e)) es) + F)) st"
      using Cons.prems(2) by (simp add: add.assoc)
    moreover have "Some t \<in> snd ` set (e # es)" using Some [symmetric] by simp
    ultimately show ?thesis using Cons.prems(1) Some by simp
  qed
  then show ?case using Cons.IH Cons.prems(1) by simp
qed simp

lemma free_node_ok:
  assumes "art_wf path node" and "env_ok C (things node + F) st"
  shows "env_ok C F (cdsa_free_node node st)"
  using assms
proof (induction node arbitrary: path F st rule: measure_induct_rule [of size])
  case (less node)
  obtain h slab where st: "st = (h, slab)" by fastforce
  show ?case
  proof (cases "type_of node = LEAF_NODE")
    case True
    then obtain a k b w where n: "node = ArtLeaf a k b w" by (cases node) auto
    have "env_ok C (add_mset (KeyBlock b (of_nat (length k) + 1)) (add_mset (Place LEAF_NODE a) F)) (h, slab)"
      using less.prems(2) n st by (simp add: add_mset_commute)
    from env_release [of C node F "cdsa_free_track h (Some b)" slab] env_free [OF this]
    have "env_ok C F (cdsa_free_track h (Some b), release_node slab node)" using n by simp
    then show ?thesis using n st by (subst cdsa_free_node.simps) simp
  next
    case False
    from less.prems(1) obtain pre where w: "node_ok node" "kids_wf (path @ pre) (next_child node)"
      unfolding wf_inner_iff [OF False] by blast
    let ?p = "Place (type_of node) (slot_of node)"
    have "env_ok C (sum_list (map (\<lambda>e. opt_things (snd e)) (edges node)) + add_mset ?p F) st"
      using less.prems(2) by (simp add: things_inner [OF False] kid_things_edges [OF w(1)])
    then have "env_ok C (add_mset ?p F)
        (fold (\<lambda>e st. case snd e of None \<Rightarrow> st | Some t \<Rightarrow> cdsa_free_node t st) (edges node) st)"
    proof (rule fold_free [rotated])
      fix t F st assume "Some t \<in> snd ` set (edges node)" "env_ok C (things t + F) st"
      then obtain c where c: "(c, Some t) \<in> set (edges node)" by force
      then have nc: "next_child node c = Some t" using edges_ok(2) [OF w(1)] by blast
      then have "art_wf ((path @ pre) @ [c]) t" using w(2) by (simp add: kids_wf_def)
      then show "env_ok C F (cdsa_free_node t st)"
        using less.IH [OF next_child_size [OF nc]] \<open>env_ok C (things t + F) st\<close> by blast
    qed
    moreover obtain h1 slab1 where
      "fold (\<lambda>e st. case snd e of None \<Rightarrow> st | Some t \<Rightarrow> cdsa_free_node t st) (edges node) st = (h1, slab1)"
      by fastforce
    ultimately show ?thesis by (simp add: free_inner [OF False] env_release)
  qed
qed

section \<open>The pools\<close>

lemma set_fault_frame [simp]:
  "owns_all (set_fault b h) bs = owns_all h bs" "others ps (set_fault b h) = others ps h"
  "heap_ok (set_fault b h) = heap_ok h" "libc_refuses (set_fault b h) = libc_refuses h"
  by (simp_all add: set_fault_def owns_all_def owns_def others_def heap_ok_def)

lemma pool_created:
  assumes "kpool_create h bs cap = (h', Some p)" and "heap_ok h"
    and "unat bs + 16 < size_bound" and "(unat bs + 16) * unat cap + 8 < size_bound"
  shows "heap_ok h'" and "fault h' = fault h" and "libc_refuses h' = libc_refuses h"
    and "owns_all h xs \<Longrightarrow>
      owns_all h' ((memory_block p, kpool_block_size bs * cap) # (kp_self p, sizeof_kpool) # xs)"
    and "others (insert (memory_block p) (insert (kp_self p) ps)) h' = others ps h"
    and "pool_inv cap (kpool_block_size bs) (Some p, [])"
proof -
  from assms(1) obtain h1 self h2 mem nx bad where
    m1: "cdsa_malloc_track h sizeof_kpool = (h1, Some self)" and
    m2: "cdsa_malloc_track h1 (kpool_block_size bs * cap) = (h2, Some mem)" and
    h': "h' = set_fault bad h2" and p: "kp_self p = self" "memory_block p = mem"
    by (rule kpool_createE) auto
  note a = malloc_owns_all [OF assms(2) m1]
  note b = malloc_owns_all [OF a(1) m2]
  show "heap_ok h'" and "libc_refuses h' = libc_refuses h" using b(1,4) a(4) by (simp_all add: h')
  show "fault h' = fault h" by (rule kpool_create_repr(2) [OF assms(1,3,4)])
  show "owns_all h xs \<Longrightarrow>
      owns_all h' ((memory_block p, kpool_block_size bs * cap) # (kp_self p, sizeof_kpool) # xs)"
    using b(2) [OF a(2)] by (simp only: h' p set_fault_frame)
  show "others (insert (memory_block p) (insert (kp_self p) ps)) h' = others ps h"
    using a(3) b(3) by (simp add: h' p)
  show "pool_inv cap (kpool_block_size bs) (Some p, [])" by (rule kpool_create_inv [OF assms(1,3,4)])
qed

lemma pool_succeeds:
  "never_refuses h \<Longrightarrow> bs \<noteq> 0 \<Longrightarrow> cap \<noteq> 0 \<Longrightarrow> \<exists>h' p. kpool_create h bs cap = (h', Some p)"
  by (simp add: kpool_create_def cdsa_malloc_track_def never_refuses_def Let_def split: prod.split)

text \<open>The five pools one after the other: what is known of the heap grows by two blocks each time.\<close>

definition pool_pair :: "size_t \<Rightarrow> block_id \<times> block_id \<Rightarrow> (block_id \<times> size_t) list" where
  "pool_pair n ids = [(snd ids, n), (fst ids, sizeof_kpool)]"

definition heap_base :: "(block_id \<times> mblock) list \<Rightarrow> (block_id \<times> size_t) list \<Rightarrow> heap \<Rightarrow> bool" where
  "heap_base oth bs h \<longleftrightarrow> heap_ok h \<and> never_refuses h \<and> \<not> fault h \<and> owns_all h bs \<and> others (fst ` set bs) h = oth"

lemma heap_base_permute: "mset xs = mset ys \<Longrightarrow> heap_base oth xs h = heap_base oth ys h"
  unfolding heap_base_def using owns_all_permute [of xs ys h] by (metis set_mset_mset)

lemma base_malloc:
  assumes "heap_base oth bs h" and "unat n + 8 < size_bound"
  obtains h' p where "cdsa_malloc_track h n = (h', Some p)" and "heap_base oth ((p, n) # bs) h'"
proof -
  obtain h' p where m: "cdsa_malloc_track h n = (h', Some p)"
    using never_refuses_malloc assms(1) unfolding heap_base_def by (metis option.exhaust prod.exhaust)
  from assms(1) have b: "heap_ok h" "never_refuses h" "\<not> fault h" "owns_all h bs" "others (fst ` set bs) h = oth"
    by (simp_all add: heap_base_def)
  note a = malloc_owns_all [OF b(1) m]
  have "heap_base oth ((p, n) # bs) h'"
    using a(1,4) a(2) [OF b(4)] a(3) [of "fst ` set bs"] a(6) [OF assms(2)] b
    unfolding heap_base_def by (simp add: never_refuses_def)
  with m show thesis by (rule that)
qed

lemma base_free:
  assumes "heap_base oth ((p, n) # bs) h"
  shows "heap_base oth bs (cdsa_free_track h (Some p))"
  using assms free_owns_all [of h p n bs] by (simp add: heap_base_def never_refuses_def del: owns_all_simps)

text \<open>The sizes of the tiers.\<close>

definition tier_fits :: "size_t \<Rightarrow> bool" where
  "tier_fits n \<longleftrightarrow> n \<noteq> 0 \<and> unat n + 16 < size_bound \<and> (unat n + 16) * 1024 + 8 < size_bound"

lemma tier_fits:
  "tier_fits sizeof_Node4" "tier_fits sizeof_Node16" "tier_fits sizeof_Node48" "tier_fits sizeof_Node256"
  "tier_fits sizeof_ArtLeaf"
  by (simp_all add: tier_fits_def sizeof_Node4_def sizeof_Node16_def sizeof_Node48_def sizeof_Node256_def
      sizeof_ArtLeaf_def)

lemma base_pool:
  assumes "heap_base oth xs h" and "tier_fits bs"
  obtains h' p where "kpool_create h bs 1024 = (h', Some p)" and "pool_inv 1024 (kpool_block_size bs) (Some p, [])"
    and "heap_base oth (pool_pair (kpool_block_size bs * 1024) (kp_self p, memory_block p) @ xs) h'"
proof -
  from assms(1) have b: "heap_ok h" "never_refuses h" "\<not> fault h" "owns_all h xs" "others (fst ` set xs) h = oth"
    by (simp_all add: heap_base_def)
  obtain h' p where c: "kpool_create h bs 1024 = (h', Some p)"
    using pool_succeeds [OF b(2), of bs 1024] assms(2) by (auto simp: tier_fits_def)
  have fits: "unat bs + 16 < size_bound" "(unat bs + 16) * unat (1024 :: size_t) + 8 < size_bound"
    using assms(2) by (simp_all add: tier_fits_def)
  note k = pool_created [OF c b(1) fits]
  have "heap_base oth (pool_pair (kpool_block_size bs * 1024) (kp_self p, memory_block p) @ xs) h'"
    using k(1-3) k(4) [OF b(4)] k(5) [of "fst ` set xs"] b
    unfolding heap_base_def pool_pair_def by (simp add: never_refuses_def)
  with c k(6) show thesis by (intro that)
qed

lemma base_pool_free:
  assumes "heap_base oth (pool_pair n ids @ xs) h" and "pool_id q = Some ids"
  shows "heap_base oth xs (kpool_destroy h q)"
proof -
  from assms(2) obtain p where q: "q = Some p" "ids = (kp_self p, memory_block p)"
    by (auto simp: pool_id_def)
  show ?thesis
    using base_free [OF base_free [OF assms(1) [unfolded pool_pair_def append.simps]]] by (simp add: q kpool_destroy_def)
qed

lemma base_env:
  "heap_base (other_blocks C) (base_blocks C) h \<longleftrightarrow> heap_holds C {#} h"
  by (simp add: heap_base_def heap_holds_def)

section \<open>The tree\<close>

definition tier_pair :: "(node_type \<Rightarrow> block_id \<times> block_id) \<Rightarrow> node_type \<Rightarrow> (block_id \<times> size_t) list" where
  "tier_pair ids T = pool_pair (tier_block T * 1024) (ids T)"

definition art_base :: "(node_type \<Rightarrow> block_id \<times> block_id) \<Rightarrow> block_id \<Rightarrow> block_id \<Rightarrow> (block_id \<times> size_t) list" where
  "art_base ids s self = tier_pair ids NODE4 @ tier_pair ids NODE16 @ tier_pair ids NODE48 @
     tier_pair ids NODE256 @ tier_pair ids LEAF_NODE @ [(s, sizeof_art_slab), (self, sizeof_art_tree)]"

definition tree_frame :: "(block_id \<times> mblock) list \<Rightarrow> (node_type \<Rightarrow> block_id \<times> block_id) \<Rightarrow> block_id \<Rightarrow> block_id \<Rightarrow> art_frame" where
  "tree_frame oth ids s self = \<lparr>base_blocks = art_base ids s self, other_blocks = oth,
     pool_ids = (\<lambda>T. Some (ids T)), slab_block = s\<rparr>"

lemma create_art_ok:
  assumes "heap_ok h" and "never_refuses h" and "\<not> fault h"
  shows "\<exists>h' t ids. cdsa_create_art h = (h', Some t) \<and> art_root t = None \<and> art_size t = 0 \<and>
    env_ok (tree_frame (live h) ids (slab_self (slab_manager t)) (art_self t)) {#} (h', slab_manager t)"
proof -
  have b0: "heap_base (live h) [] h" using assms by (simp add: heap_base_def)
  obtain h1 self where t: "cdsa_malloc_track h sizeof_art_tree = (h1, Some self)"
    and b1: "heap_base (live h) [(self, sizeof_art_tree)] h1"
    by (rule base_malloc [OF b0, of sizeof_art_tree]) (simp add: sizeof_art_tree_def)
  obtain h2 s where sl: "cdsa_malloc_track h1 sizeof_art_slab = (h2, Some s)"
    and b2: "heap_base (live h) [(s, sizeof_art_slab), (self, sizeof_art_tree)] h2"
    by (rule base_malloc [OF b1, of sizeof_art_slab]) (simp add: sizeof_art_slab_def)
  obtain h3 p4 where p4: "kpool_create h2 sizeof_Node4 1024 = (h3, Some p4)"
      "pool_inv 1024 (kpool_block_size sizeof_Node4) (Some p4, [])"
    and b3: "heap_base (live h) (pool_pair (kpool_block_size sizeof_Node4 * 1024) (kp_self p4, memory_block p4) @
      [(s, sizeof_art_slab), (self, sizeof_art_tree)]) h3"
    by (rule base_pool [OF b2 tier_fits(1)])
  obtain h4 p16 where p16: "kpool_create h3 sizeof_Node16 1024 = (h4, Some p16)"
      "pool_inv 1024 (kpool_block_size sizeof_Node16) (Some p16, [])"
    and b4: "heap_base (live h) (pool_pair (kpool_block_size sizeof_Node16 * 1024) (kp_self p16, memory_block p16) @
      pool_pair (kpool_block_size sizeof_Node4 * 1024) (kp_self p4, memory_block p4) @
      [(s, sizeof_art_slab), (self, sizeof_art_tree)]) h4"
    by (rule base_pool [OF b3 tier_fits(2)])
  obtain h5 p48 where p48: "kpool_create h4 sizeof_Node48 1024 = (h5, Some p48)"
      "pool_inv 1024 (kpool_block_size sizeof_Node48) (Some p48, [])"
    and b5: "heap_base (live h) (pool_pair (kpool_block_size sizeof_Node48 * 1024) (kp_self p48, memory_block p48) @
      pool_pair (kpool_block_size sizeof_Node16 * 1024) (kp_self p16, memory_block p16) @
      pool_pair (kpool_block_size sizeof_Node4 * 1024) (kp_self p4, memory_block p4) @
      [(s, sizeof_art_slab), (self, sizeof_art_tree)]) h5"
    by (rule base_pool [OF b4 tier_fits(3)])
  obtain h6 p256 where p256: "kpool_create h5 sizeof_Node256 1024 = (h6, Some p256)"
      "pool_inv 1024 (kpool_block_size sizeof_Node256) (Some p256, [])"
    and b6: "heap_base (live h) (pool_pair (kpool_block_size sizeof_Node256 * 1024) (kp_self p256, memory_block p256) @
      pool_pair (kpool_block_size sizeof_Node48 * 1024) (kp_self p48, memory_block p48) @
      pool_pair (kpool_block_size sizeof_Node16 * 1024) (kp_self p16, memory_block p16) @
      pool_pair (kpool_block_size sizeof_Node4 * 1024) (kp_self p4, memory_block p4) @
      [(s, sizeof_art_slab), (self, sizeof_art_tree)]) h6"
    by (rule base_pool [OF b5 tier_fits(4)])
  obtain h7 pl where pl: "kpool_create h6 sizeof_ArtLeaf 1024 = (h7, Some pl)"
      "pool_inv 1024 (kpool_block_size sizeof_ArtLeaf) (Some pl, [])"
    and b7: "heap_base (live h) (pool_pair (kpool_block_size sizeof_ArtLeaf * 1024) (kp_self pl, memory_block pl) @
      pool_pair (kpool_block_size sizeof_Node256 * 1024) (kp_self p256, memory_block p256) @
      pool_pair (kpool_block_size sizeof_Node48 * 1024) (kp_self p48, memory_block p48) @
      pool_pair (kpool_block_size sizeof_Node16 * 1024) (kp_self p16, memory_block p16) @
      pool_pair (kpool_block_size sizeof_Node4 * 1024) (kp_self p4, memory_block p4) @
      [(s, sizeof_art_slab), (self, sizeof_art_tree)]) h7"
    by (rule base_pool [OF b6 tier_fits(5)])
  let ?slab = "\<lparr>slab_self = s, pool_node4 = Some p4, pool_node16 = Some p16, pool_node48 = Some p48,
    pool_node256 = Some p256, pool_leaf = Some pl\<rparr>"
  define t where "t = \<lparr>art_self = self, art_root = None, art_size = 0,
    art_version = word_of_bytes (bslice (fresh_bytes h1 self 32) 16 8), slab_manager = ?slab\<rparr>"
  define ids where "ids T = the (pool_id (pool_of T ?slab))" for T
  let ?C = "tree_frame (live h) ids s self"
  have c: "cdsa_create_art h = (h7, Some t)"
    using t sl p4 p16 p48 p256 pl by (simp add: cdsa_create_art_def art_slab_create_def t_def)
  have "heap_base (live h) (art_base ids s self) h7"
    by (rule iffD1 [OF heap_base_permute b7])
      (simp add: art_base_def tier_pair_def ids_def pool_id_def)
  then have "heap_holds ?C {#} h7" using base_env [of ?C h7] by (simp add: tree_frame_def)
  moreover have "tier_ok ?C {#} ?slab T" for T
    using p4(2) p16(2) p48(2) p256(2) pl(2)
    by (cases T) (auto simp: tier_ok_def tree_frame_def ids_def pool_id_def intro!: exI [of _ "[]"])
  ultimately have "env_ok ?C {#} (h7, ?slab)" by (simp add: env_ok_def tree_frame_def)
  then have "env_ok (tree_frame (live h) ids (slab_self (slab_manager t)) (art_self t)) {#} (h7, slab_manager t)"
    by (simp add: t_def)
  then show ?thesis using c by (intro exI [of _ h7] exI [of _ t] exI [of _ ids]) (simp add: t_def)
qed

lemma slab_destroy_ok:
  assumes "env_ok (tree_frame oth ids s self) {#} (h, slab)"
  shows "heap_base oth [(self, sizeof_art_tree)] (art_slab_destroy h (Some slab))"
proof -
  let ?C = "tree_frame oth ids s self"
  have id: "pool_id (pool_of T slab) = Some (ids T)" for T
    using assms by (simp add: env_ok_def tier_ok_def tree_frame_def)
  have sl: "slab_self slab = s" using assms by (simp add: env_ok_def tree_frame_def)
  have "heap_base oth (art_base ids s self) h"
    using assms base_env [of ?C h] by (simp add: env_ok_def tree_frame_def)
  note b = this [unfolded art_base_def tier_pair_def]
  note b1 = base_pool_free [OF b id]
  note b2 = base_pool_free [OF b1 id]
  note b3 = base_pool_free [OF b2 id]
  note b4 = base_pool_free [OF b3 id]
  note b5 = base_pool_free [OF b4 id]
  from base_free [OF b5] show ?thesis
    by (simp add: art_slab_destroy_def sl)
qed

lemma free_art_ok:
  assumes "env_ok (tree_frame oth ids s (art_self t)) (opt_things (art_root t)) (h, slab_manager t)"
    and "\<And>node. art_root t = Some node \<Longrightarrow> art_wf [] node"
  shows "heap_base oth [] (cdsa_free_art h (Some t))"
proof -
  let ?C = "tree_frame oth ids s (art_self t)"
  obtain h1 s1 where f: "(case art_root t of None \<Rightarrow> (h, slab_manager t)
      | Some node \<Rightarrow> cdsa_free_node node (h, slab_manager t)) = (h1, s1)" by fastforce
  have "env_ok ?C {#} (h1, s1)"
  proof (cases "art_root t")
    case None
    then show ?thesis using f assms(1) by simp
  next
    case (Some node)
    then show ?thesis using free_node_ok [OF assms(2), of node ?C "{#}" "(h, slab_manager t)"] f assms(1) by simp
  qed
  from base_free [OF slab_destroy_ok [OF this]] show ?thesis
    using f by (simp add: cdsa_free_art_def)
qed

end
