(* ===== verification/Art_Refinement.thy ===== *)
theory Art_Refinement
  imports Art_Life
begin

text \<open>
  The tree as a map from C strings to pointers: runs of calls from creation to release, against a
  finite map.
\<close>

section \<open>The represented map\<close>

type_synonym art_map = "cstring \<rightharpoonup> pointer option"

definition art_rep :: "(block_id \<times> mblock) list \<Rightarrow> heap \<Rightarrow> art_tree \<Rightarrow> art_map \<Rightarrow> bool" where
  "art_rep oth h t m \<longleftrightarrow>
     (\<exists>ids s. env_ok (tree_frame oth ids s (art_self t)) (opt_things (art_root t)) (h, slab_manager t)) \<and>
     (\<forall>node. art_root t = Some node \<longrightarrow> art_wf [] node) \<and>
     (\<forall>k v. opt_entry (art_root t) k v \<longleftrightarrow> m k = Some v) \<and>
     finite (dom m) \<and> leaf_count (opt_things (art_root t)) = card (dom m) \<and> art_size t = of_nat (card (dom m))"

lemma art_repE:
  assumes "art_rep oth h t m"
  obtains ids s where "env_ok (tree_frame oth ids s (art_self t)) (opt_things (art_root t)) (h, slab_manager t)"
    and "\<And>node. art_root t = Some node \<Longrightarrow> art_wf [] node"
    and "\<And>k v. opt_entry (art_root t) k v \<longleftrightarrow> m k = Some v" and "finite (dom m)"
    and "leaf_count (opt_things (art_root t)) = card (dom m)" and "art_size t = of_nat (card (dom m))"
  using assms by (auto simp: art_rep_def)

text \<open>The bytes with which the keys of the map go on after \<open>p\<close>.\<close>

definition ways :: "art_map \<Rightarrow> bytes \<Rightarrow> byte set" where
  "ways m p = {c. \<exists>k \<in> dom m. prefix (p @ [c]) (k @ [0])}"

text \<open>A tree has no node of the largest layout while no prefix goes on in more than 48 ways.\<close>

lemma slots_of_sum: "finite A \<Longrightarrow> slots_of T (\<Sum>x\<in>A. f x) = (\<Sum>x\<in>A. slots_of T (f x))"
  by (induction A rule: finite_induct) simp_all

lemma no_node256:
  assumes "art_wf path node" and "\<And>p. card {c. \<exists>k v. art_entry node k v \<and> prefix (p @ [c]) (k @ [0])} \<le> 48"
  shows "slots_of NODE256 (things node) = {#}"
  using assms
proof (induction rule: art_wf.induct)
  case (inner node pre path)
  have "type_of node \<noteq> NODE256"
  proof
    assume t: "type_of node = NODE256"
    have "dom (next_child node) \<subseteq> {c. \<exists>k v. art_entry node k v \<and> prefix ((path @ pre) @ [c]) (k @ [0])}"
    proof
      fix c assume "c \<in> dom (next_child node)"
      then obtain t where t: "next_child node c = Some t" by blast
      obtain k v where e: "art_entry t k v" using wf_has_entry [OF inner.hyps(6) [OF t]] by blast
      have "prefix ((path @ pre) @ [c]) (k @ [0])" using entry_prefix [OF e inner.hyps(6) [OF t]] by simp
      then show "c \<in> {c. \<exists>k v. art_entry node k v \<and> prefix ((path @ pre) @ [c]) (k @ [0])}"
        using art_entry.below [OF t e] by blast
    qed
    then have "card (dom (next_child node)) \<le> 48"
      using card_mono [of "{c. \<exists>k v. art_entry node k v \<and> prefix ((path @ pre) @ [c]) (k @ [0])}"]
        inner.prems [of "path @ pre"] by (meson finite le_trans)
    then show False using node_count [OF inner.hyps(2)] inner.hyps(3) t by simp
  qed
  moreover have "slots_of NODE256 (things t) = {#}" if t: "next_child node c = Some t" for c t
  proof (rule inner.IH [OF t])
    fix p
    have "{c. \<exists>k v. art_entry t k v \<and> prefix (p @ [c]) (k @ [0])} \<subseteq>
        {c. \<exists>k v. art_entry node k v \<and> prefix (p @ [c]) (k @ [0])}"
      using art_entry.below [OF t] by blast
    then show "card {c. \<exists>k v. art_entry t k v \<and> prefix (p @ [c]) (k @ [0])} \<le> 48"
      using card_mono inner.prems [of p] by (meson finite le_trans)
  qed
  then have "slots_of NODE256 (kid_things (next_child node)) = {#}"
    unfolding kid_things_def slots_of_sum [OF finite] by (intro sum.neutral ballI) (simp split: option.split)
  ultimately show ?case by (simp add: things_inner [OF inner.hyps(1)])
qed simp

section \<open>Single calls\<close>

lemma rep_ready:
  assumes "env_ok C (things node) st" and "art_wf [] node"
  shows "T \<noteq> LEAF_NODE \<Longrightarrow> size (slots_of T (things node)) < 1024"
    and "leaf_count (things node) < 1024 \<Longrightarrow> size (slots_of T (things node)) < 1024"
proof -
  have l: "leaf_count (things node) \<le> 1024"
    using env_leaf_bound [OF assms(1)] by (simp add: leaf_count_def)
  note c = wf_counts [OF assms(2)]
  show "size (slots_of T (things node)) < 1024" if "T \<noteq> LEAF_NODE"
    using slots_le_inner [OF that, of "things node"] c l by simp
  then show "size (slots_of T (things node)) < 1024" if "leaf_count (things node) < 1024"
    using that by (cases "T = LEAF_NODE") (simp_all add: leaf_count_def)
qed

lemma insert_art_ok:
  assumes "art_rep oth h t m" and "valid_key k" and "length k + 9 < size_bound"
    and "card (dom (m(k \<mapsto> v))) \<le> 1024"
  shows "\<exists>h' t'. cdsa_insert_art h (Some t) (Some k) v = Some (h', Some t', CDSA_OK) \<and> art_rep oth h' t' (m(k \<mapsto> v))"
proof -
  obtain ids s where r: "env_ok (tree_frame oth ids s (art_self t)) (opt_things (art_root t)) (h, slab_manager t)"
    "\<And>node. art_root t = Some node \<Longrightarrow> art_wf [] node"
    "\<And>k v. opt_entry (art_root t) k v \<longleftrightarrow> m k = Some v" "finite (dom m)"
    "leaf_count (opt_things (art_root t)) = card (dom m)" "art_size t = of_nat (card (dom m))"
    by (rule art_repE [OF assms(1)]) blast
  let ?C = "tree_frame oth ids s (art_self t)"
  show ?thesis
  proof (cases "art_root t")
    case None
    have m: "m = Map.empty" using r(3) None by (auto intro!: ext) (metis not_None_eq)
    have "env_ok ?C {#} (h, slab_manager t)" "size (slots_of LEAF_NODE {#}) < 1024" using r(1) None by simp_all
    then obtain h1 slab1 a b where l: "alloc_leaf h (slab_manager t) k v = (h1, slab1, Some (ArtLeaf a k b v))"
      "env_ok ?C (things (ArtLeaf a k b v) + {#}) (h1, slab1)"
      by (rule env_leaf [OF _ _ assms(3)])
    let ?t = "t\<lparr>art_root := Some (ArtLeaf a k b v), slab_manager := slab1, art_size := art_size t + 1,
      art_version := art_version t + 1\<rparr>"
    have "cdsa_insert_art h (Some t) (Some k) v = Some (h1, Some ?t, CDSA_OK)"
      using None l(1) by (simp add: cdsa_insert_art_def insert_art_internal_def)
    moreover have "art_rep oth h1 ?t (m(k \<mapsto> v))"
      using l(2) assms(2) r(6) m by (auto simp: art_rep_def)
    ultimately show ?thesis by blast
  next
    case (Some node)
    have wf: "art_wf [] node" by (rule r(2) [OF Some])
    have env: "env_ok ?C (things node + {#}) (h, slab_manager t)" using r(1) Some by simp
    have e: "art_entry node k v \<longleftrightarrow> m k = Some v" for k v using r(3) Some by simp
    have lc: "leaf_count (things node) = card (dom m)" using r(5) Some by simp
    have "(\<exists>v. art_entry node k v) \<or> (\<forall>T. size (slots_of T (things node + {#})) < 1024)"
    proof (cases "m k")
      case None
      then have "card (dom m) < 1024" using assms(4) r(4) by (simp add: domIff card_insert_disjoint)
      then show ?thesis using rep_ready(2) [OF _ wf] env lc by simp
    qed (use e in blast)
    then have "insert_ready ?C {#} node k (h, slab_manager t)"
      using env assms(2,3) by (simp add: insert_ready_def)
    from insert_node_ok [OF wf _ this, of v "art_size t"] obtain node' h' slab' sz' status where
      i: "insert_node (Some node) k v 0 (h, slab_manager t, art_size t) = Some (Some node', (h', slab', sz'), status)"
      and "inserted ?C {#} [] node k v (art_size t) (node', (h', slab', sz'), status)"
      by auto
    then have n: "status = CDSA_OK" "art_wf [] node'" "env_ok ?C (things node') (h', slab')"
      "\<And>k' v'. art_entry node' k' v' \<longleftrightarrow> (if k' = k then v' = v else art_entry node k' v')"
      "if m k \<noteq> None then sz' = art_size t \<and> leaf_count (things node') = leaf_count (things node)
       else sz' = art_size t + 1 \<and> leaf_count (things node') = Suc (leaf_count (things node))"
      by (auto simp: inserted_def e split: if_splits)
    let ?t = "t\<lparr>art_root := Some node', slab_manager := slab', art_size := sz', art_version := art_version t + 1\<rparr>"
    have "cdsa_insert_art h (Some t) (Some k) v = Some (h', Some ?t, CDSA_OK)"
      using Some i n(1) by (simp add: cdsa_insert_art_def insert_art_internal_def)
    moreover have "leaf_count (things node') = card (dom (m(k \<mapsto> v))) \<and> sz' = of_nat (card (dom (m(k \<mapsto> v))))"
      using n(5) lc r(4,6) by (cases "m k") (auto simp: domIff card_insert_disjoint insert_absorb)
    then have "art_rep oth h' ?t (m(k \<mapsto> v))"
      using n(2-4) r(4) e by (auto simp: art_rep_def)
    ultimately show ?thesis by blast
  qed
qed

lemma delete_art_ok:
  assumes "art_rep oth h t m" and "valid_key k"
    and "k \<in> dom m \<or> (\<forall>k' \<in> dom m. length k' \<le> length k \<or> length k' \<le> 10)"
    and "\<And>p. card (ways m p) \<le> 48"
  shows "\<exists>h' t'. cdsa_delete_art h (Some t) (Some k) =
      (h', Some t', if k \<in> dom m then CDSA_OK else CDSA_ERR_NOT_FOUND) \<and> art_rep oth h' t' (m(k := None))"
proof -
  obtain ids s where r: "env_ok (tree_frame oth ids s (art_self t)) (opt_things (art_root t)) (h, slab_manager t)"
    "\<And>node. art_root t = Some node \<Longrightarrow> art_wf [] node"
    "\<And>k v. opt_entry (art_root t) k v \<longleftrightarrow> m k = Some v" "finite (dom m)"
    "leaf_count (opt_things (art_root t)) = card (dom m)" "art_size t = of_nat (card (dom m))"
    by (rule art_repE [OF assms(1)]) blast
  let ?C = "tree_frame oth ids s (art_self t)"
  show ?thesis
  proof (cases "art_root t")
    case None
    have m: "m = Map.empty" using r(3) None by (auto intro!: ext) (metis not_None_eq)
    then have "m(k := None) = m" by auto
    moreover have "cdsa_delete_art h (Some t) (Some k) = (h, Some t, CDSA_ERR_NOT_FOUND)"
      using None by (simp add: cdsa_delete_art_def)
    ultimately show ?thesis using assms(1) m by auto
  next
    case (Some node)
    have wf: "art_wf [] node" by (rule r(2) [OF Some])
    have env: "env_ok ?C (things node + {#}) (h, slab_manager t)" using r(1) Some by simp
    have e: "art_entry node k v \<longleftrightarrow> m k = Some v" for k v using r(3) Some by simp
    have lc: "leaf_count (things node) = card (dom m)" using r(5) Some by simp
    show ?thesis
    proof (cases "m k")
      case None
      have "recursive_delete node k (length ([] :: bytes)) (h, slab_manager t, art_size t) =
          (Some node, False, (h, slab_manager t, art_size t))"
      proof (rule delete_absent_ok [OF wf assms(2)])
        show "length k' \<le> length k \<or> length k' \<le> 10" if "art_entry node k' v" for k' v
          using assms(3) None that e by auto
        show "\<not> fault h" using r(1) by (simp add: env_ok_def heap_holds_def)
      qed (use None e in auto)
      then have "cdsa_delete_art h (Some t) (Some k) = (h, Some t, CDSA_ERR_NOT_FOUND)"
        using Some by (simp add: cdsa_delete_art_def)
      moreover have "m(k := None) = m" using None by auto
      ultimately show ?thesis using assms(1) None by auto
    next
      case (Some v)
      have "{c. \<exists>k v. art_entry node k v \<and> prefix (p @ [c]) (k @ [0])} = ways m p" for p
        by (auto simp: ways_def e)
      then have n256: "slots_of NODE256 (things node) = {#}"
        using no_node256 [OF wf] assms(4) by simp
      obtain x del h' slab' sz' where d: "recursive_delete node k 0 (h, slab_manager t, art_size t) = (x, del, (h', slab', sz'))"
        by (metis prod.exhaust)
      have "removed ?C {#} [] node k (art_size t) (recursive_delete node k (length ([] :: bytes)) (h, slab_manager t, art_size t))"
        by (rule delete_present_ok [OF wf _ env n256, of k v])
          (use e Some rep_ready(1) [OF _ wf] env in auto)
      then have n: del "\<And>u. x = Some u \<Longrightarrow> art_wf [] u" "env_ok ?C (opt_things x) (h', slab')"
        "\<And>k' v'. opt_entry x k' v' \<longleftrightarrow> k' \<noteq> k \<and> m k' = Some v'" "sz' = art_size t - 1"
        "Suc (leaf_count (opt_things x)) = card (dom m)"
        using d by (simp_all add: removed_def e lc)
      let ?t = "t\<lparr>art_root := x, slab_manager := slab', art_size := sz'\<rparr>"
      have "cdsa_delete_art h (Some t) (Some k) = (h', Some ?t, CDSA_OK)"
        using \<open>art_root t = Some node\<close> d n(1) by (simp add: cdsa_delete_art_def)
      moreover have c: "card (dom m) = Suc (card (dom (m(k := None))))"
        using Some r(4) card_Suc_Diff1 [of "dom m" k] by (simp add: domI)
      then have "leaf_count (opt_things x) = card (dom (m(k := None)))" "sz' = of_nat (card (dom (m(k := None))))"
        using n(5,6) r(6) by simp_all
      then have "art_rep oth h' ?t (m(k := None))"
        using n(2-4) r(4) by (auto simp: art_rep_def)
      ultimately show ?thesis using Some by auto
    qed
  qed
qed

lemma search_art_ok:
  assumes "art_rep oth h t m" and "valid_key k"
  shows "cdsa_search_art h (Some t) (Some k) = (h, case m k of None \<Rightarrow> None | Some v \<Rightarrow> v)"
proof -
  obtain ids s where r: "env_ok (tree_frame oth ids s (art_self t)) (opt_things (art_root t)) (h, slab_manager t)"
    "\<And>node. art_root t = Some node \<Longrightarrow> art_wf [] node"
    "\<And>k v. opt_entry (art_root t) k v \<longleftrightarrow> m k = Some v"
    by (rule art_repE [OF assms(1)]) blast
  show ?thesis
  proof (cases "art_root t")
    case None
    then have "m k = None" using r(3) [of k] by (cases "m k") auto
    then show ?thesis using None by (simp add: cdsa_search_art_def)
  next
    case (Some node)
    have e: "art_entry node k v \<longleftrightarrow> m k = Some v" for k v using r(3) Some by simp
    obtain v where "search_node node k (length ([] :: bytes)) = (False, v)" "\<And>w. m k = Some w \<Longrightarrow> v = w" "m k = None \<Longrightarrow> v = None"
      using search_node_ok [OF r(2) [OF Some] assms(2)] by (auto simp: e)
    then show ?thesis using Some by (cases "m k") (auto simp: cdsa_search_art_def set_fault_def)
  qed
qed

section \<open>Runs of calls\<close>

datatype art_call =
    ArtInsert cstring "pointer option"
  | ArtDelete cstring
  | ArtSearch cstring
  | ArtSize

datatype art_reply = Status cdsa_status | Value "pointer option" | Number size_t

fun art_step :: "heap \<Rightarrow> art_tree \<Rightarrow> art_call \<Rightarrow> (heap \<times> art_tree \<times> art_reply) option" where
  "art_step h t (ArtInsert k v) =
     (case cdsa_insert_art h (Some t) (Some k) v of
        Some (h1, Some t1, status) \<Rightarrow> Some (h1, t1, Status status) | _ \<Rightarrow> None)"
| "art_step h t (ArtDelete k) =
     (case cdsa_delete_art h (Some t) (Some k) of
        (h1, Some t1, status) \<Rightarrow> Some (h1, t1, Status status) | _ \<Rightarrow> None)"
| "art_step h t (ArtSearch k) = (case cdsa_search_art h (Some t) (Some k) of (h1, v) \<Rightarrow> Some (h1, t, Value v))"
| "art_step h t ArtSize = Some (h, t, Number (cdsa_size_art (Some t)))"

text \<open>What a finite map answers.\<close>

fun map_step :: "art_map \<Rightarrow> art_call \<Rightarrow> art_map \<times> art_reply" where
  "map_step m (ArtInsert k v) = (m(k \<mapsto> v), Status CDSA_OK)"
| "map_step m (ArtDelete k) =
     (m(k := None), Status (if k \<in> dom m then CDSA_OK else CDSA_ERR_NOT_FOUND))"
| "map_step m (ArtSearch k) = (m, Value (case m k of None \<Rightarrow> None | Some v \<Rightarrow> v))"
| "map_step m ArtSize = (m, Number (of_nat (card (dom m))))"

text \<open>
  What a call may be.  Keys are C strings an \<open>int\<close> can measure; there are at most 1024 of them, the
  size of the pools.  A deletion needs that no prefix goes on in more than 48 ways, and a key that is
  absent must not be shorter than the keys of more than ten bytes.
\<close>

fun call_fits :: "art_map \<Rightarrow> art_call \<Rightarrow> bool" where
  "call_fits m (ArtInsert k v) \<longleftrightarrow> 0 \<notin> set k \<and> length k < 2 ^ 31 \<and> card (dom (m(k \<mapsto> v))) \<le> 1024"
| "call_fits m (ArtDelete k) \<longleftrightarrow> 0 \<notin> set k \<and> (\<forall>p. card (ways m p) \<le> 48) \<and>
     (k \<in> dom m \<or> (\<forall>k' \<in> dom m. length k' \<le> length k \<or> length k' \<le> 10))"
| "call_fits m (ArtSearch k) \<longleftrightarrow> 0 \<notin> set k"
| "call_fits m ArtSize \<longleftrightarrow> True"

fun calls_fit :: "art_map \<Rightarrow> art_call list \<Rightarrow> bool" where
  "calls_fit m [] \<longleftrightarrow> True"
| "calls_fit m (c # cs) \<longleftrightarrow> call_fits m c \<and> calls_fit (fst (map_step m c)) cs"

lemma art_step_ok:
  assumes "art_rep oth h t m" and "call_fits m c"
  shows "\<exists>h' t'. art_step h t c = Some (h', t', snd (map_step m c)) \<and> art_rep oth h' t' (fst (map_step m c))"
proof (cases c)
  case (ArtInsert k v)
  then have "valid_key k" "length k + 9 < size_bound" "card (dom (m(k \<mapsto> v))) \<le> 1024"
    using assms(2) by (simp_all add: valid_key_def)
  from insert_art_ok [OF assms(1) this] show ?thesis using ArtInsert by auto
next
  case (ArtDelete k)
  then have "valid_key k" "k \<in> dom m \<or> (\<forall>k' \<in> dom m. length k' \<le> length k \<or> length k' \<le> 10)"
    "\<And>p. card (ways m p) \<le> 48"
    using assms(2) by (simp_all add: valid_key_def)
  from delete_art_ok [OF assms(1) this] obtain h' t' where
    "cdsa_delete_art h (Some t) (Some k) = (h', Some t', if k \<in> dom m then CDSA_OK else CDSA_ERR_NOT_FOUND)"
    "art_rep oth h' t' (m(k := None))" by blast
  then show ?thesis
    unfolding ArtDelete
    by (intro exI [of _ h'] exI [of _ t'])
      (simp only: art_step.simps map_step.simps fst_conv snd_conv prod.case option.case simp_thms)
next
  case (ArtSearch k)
  then show ?thesis using search_art_ok [OF assms(1), of k] assms by (simp add: valid_key_def)
next
  case ArtSize
  then show ?thesis using assms(1) by (simp add: cdsa_size_art_def art_rep_def)
qed

lemma art_run_ok:
  assumes "art_rep oth h t m" and "calls_fit m cs"
  shows "\<exists>h' t'. run_partial art_step h t cs = Some (h', t', snd (run_calls map_step m cs)) \<and>
    art_rep oth h' t' (fst (run_calls map_step m cs))"
  using assms
proof (induction cs arbitrary: h t m)
  case (Cons c cs)
  from art_step_ok [OF Cons.prems(1), of c] Cons.prems(2) obtain h1 t1 where
    s: "art_step h t c = Some (h1, t1, snd (map_step m c))" "art_rep oth h1 t1 (fst (map_step m c))"
    by auto
  from Cons.IH [OF s(2)] Cons.prems(2) obtain h2 t2 where
    "run_partial art_step h1 t1 cs = Some (h2, t2, snd (run_calls map_step (fst (map_step m c)) cs))"
    "art_rep oth h2 t2 (fst (run_calls map_step (fst (map_step m c)) cs))" by auto
  then show ?case using s(1) by (simp add: case_prod_beta)
qed simp

lemma art_start:
  assumes "heap_ok h" and "never_refuses h" and "\<not> fault h"
  shows "\<exists>h0 t0. cdsa_create_art h = (h0, Some t0) \<and> art_rep (live h) h0 t0 Map.empty"
proof -
  from create_art_ok [OF assms] obtain h0 t0 ids where c: "cdsa_create_art h = (h0, Some t0)" "art_root t0 = None"
    "art_size t0 = 0"
    "env_ok (tree_frame (live h) ids (slab_self (slab_manager t0)) (art_self t0)) {#} (h0, slab_manager t0)"
    by blast
  then have "art_rep (live h) h0 t0 Map.empty" by (auto simp: art_rep_def)
  then show ?thesis using c(1) by blast
qed

lemma art_end:
  assumes "art_rep oth h t m"
  shows "live (cdsa_free_art h (Some t)) = oth" and "\<not> fault (cdsa_free_art h (Some t))" and "\<not> fault h"
proof -
  obtain ids s where r: "env_ok (tree_frame oth ids s (art_self t)) (opt_things (art_root t)) (h, slab_manager t)"
    "\<And>node. art_root t = Some node \<Longrightarrow> art_wf [] node"
    by (rule art_repE [OF assms]) blast
  from free_art_ok [OF r] show "live (cdsa_free_art h (Some t)) = oth" and "\<not> fault (cdsa_free_art h (Some t))"
    by (simp_all add: heap_base_def)
  show "\<not> fault h" using r(1) by (simp add: env_ok_def heap_holds_def)
qed

lemma ways_subset: "ways m p \<subseteq> (\<Union>k \<in> dom m. set (k @ [0]))"
proof
  fix c assume "c \<in> ways m p"
  then obtain k where "k \<in> dom m" "prefix (p @ [c]) (k @ [0])" by (auto simp: ways_def)
  then show "c \<in> (\<Union>k \<in> dom m. set (k @ [0]))" using set_mono_prefix by fastforce
qed

section \<open>Properties\<close>

text \<open>
  C4: the radix tree is a map from C strings to pointers: created on a heap that refuses nothing, every
  run of insertions, deletions, searches and size queries returns, answers each call as the map would
  (prefixes of any length included, of which a node stores ten bytes), follows no NULL pointer, reads
  no key behind its terminator and writes no array outside its bounds; releasing the tree gives back
  exactly its blocks.  There are at most 1024 keys at a time; where a key is deleted, no prefix goes
  on in more than 48 ways, and if the key is absent it is not shorter than a key of more than ten
  bytes.
\<close>

theorem art_is_map:
  assumes "heap_ok h" and "never_refuses h" and "\<not> fault h" and "calls_fit Map.empty cs"
  shows "\<exists>h0 t0 h1 t1. cdsa_create_art h = (h0, Some t0) \<and>
    run_partial art_step h0 t0 cs = Some (h1, t1, snd (run_calls map_step Map.empty cs)) \<and> \<not> fault h1 \<and>
    live (cdsa_free_art h1 (Some t1)) = live h \<and> \<not> fault (cdsa_free_art h1 (Some t1))"
proof -
  obtain h0 t0 where c: "cdsa_create_art h = (h0, Some t0)" "art_rep (live h) h0 t0 Map.empty"
    using art_start [OF assms(1-3)] by blast
  from art_run_ok [OF c(2) assms(4)] obtain h1 t1 where
    "run_partial art_step h0 t0 cs = Some (h1, t1, snd (run_calls map_step Map.empty cs))"
    "art_rep (live h) h1 t1 (fst (run_calls map_step Map.empty cs))" by blast
  then show ?thesis using c(1) art_end by blast
qed

definition example_calls :: "art_call list" where
  "example_calls = [ArtInsert [97, 98] (Some 1), ArtInsert [97, 99, 100] (Some 2), ArtInsert [97] (Some 3),
     ArtSearch [97, 99, 100], ArtDelete [97, 98], ArtDelete [97, 98], ArtSearch [97], ArtSize]"

lemma example_calls_fit: "calls_fit Map.empty example_calls"
proof -
  have w: "card (ways m p) \<le> 48" if "dom m \<subseteq> {[97, 98], [97, 99, 100], [97]}" for m :: art_map and p
  proof -
    have "ways m p \<subseteq> {0, 97, 98, 99, 100}" using ways_subset [of m p] that by fastforce
    then have "card (ways m p) \<le> card {0, 97, 98, 99, 100 :: byte}" by (rule card_mono [rotated]) simp
    then show ?thesis by simp
  qed
  show ?thesis by (simp add: example_calls_def w)
qed

theorem art_is_map_witness:
  "\<exists>h0 t0 h1 t1. cdsa_create_art good_heap = (h0, Some t0) \<and>
     run_partial art_step h0 t0 example_calls = Some (h1, t1,
       [Status CDSA_OK, Status CDSA_OK, Status CDSA_OK, Value (Some 2), Status CDSA_OK,
        Status CDSA_ERR_NOT_FOUND, Value (Some 3), Number 2]) \<and>
     live (cdsa_free_art h1 (Some t1)) = []"
proof -
  have "heap_ok good_heap" "never_refuses good_heap" "\<not> fault good_heap" by simp_all
  moreover have "snd (run_calls map_step Map.empty example_calls) =
      [Status CDSA_OK, Status CDSA_OK, Status CDSA_OK, Value (Some 2), Status CDSA_OK,
       Status CDSA_ERR_NOT_FOUND, Value (Some 3), Number 2]"
    by (simp add: example_calls_def)
  moreover have "live good_heap = []" by simp
  ultimately show ?thesis using art_is_map [OF _ _ _ example_calls_fit, of good_heap] by auto
qed

end
