(* ===== verification/Art_Iterator.thy ===== *)
theory Art_Iterator
  imports Art_Refinement
begin

text \<open>
  The nodes of a tree and the walk over them: every node of a reachable tree is consistent, pointers
  to nodes are unique, and the iterator yields the value of every leaf once.
\<close>

declare nodes_of.simps [simp del]

section \<open>The nodes below a node\<close>

lemma nodes_of_self: "node \<in> set (nodes_of node)"
  by (subst nodes_of.simps) simp

lemma nodes_of_leaf [simp]: "nodes_of (ArtLeaf a k b v) = [ArtLeaf a k b v]"
  by (subst nodes_of.simps) simp

lemma nodes_of_child: "(c, Some t) \<in> set (edges node) \<Longrightarrow> n \<in> set (nodes_of t) \<Longrightarrow> n \<in> set (nodes_of node)"
  by (subst nodes_of.simps) force

lemma nodes_of_cases:
  assumes "n \<in> set (nodes_of node)"
  obtains "n = node" | c t where "(c, Some t) \<in> set (edges node)" and "n \<in> set (nodes_of t)"
proof -
  from assms consider "n = node"
    | e where "e \<in> set (edges node)" "n \<in> set (case snd e of None \<Rightarrow> [] | Some t \<Rightarrow> nodes_of t)"
    by (subst (asm) nodes_of.simps) auto
  then show thesis
  proof cases
    case 2
    then obtain t where "snd e = Some t" "n \<in> set (nodes_of t)" by (cases "snd e") auto
    then show thesis using 2(1) that(2) [of "fst e" t] by (metis prod.collapse)
  qed (rule that(1))
qed

lemma edge_wf:
  assumes "art_wf path node" and "(c, Some t) \<in> set (edges node)"
  shows "\<exists>pre. art_wf (path @ pre @ [c]) t" and "next_child node c = Some t" and "type_of node \<noteq> LEAF_NODE"
proof -
  show l: "type_of node \<noteq> LEAF_NODE" using assms(2) by (cases node) auto
  from assms(1) obtain pre where w: "node_ok node" "kids_wf (path @ pre) (next_child node)"
    unfolding wf_inner_iff [OF l] by blast
  show n: "next_child node c = Some t" using edges_ok(2) [OF w(1) assms(2)] by blast
  then show "\<exists>pre. art_wf (path @ pre @ [c]) t" using w(2) by (auto simp: kids_wf_def)
qed

lemma nodes_of_wf:
  assumes "art_wf path node" and "n \<in> set (nodes_of node)"
  shows "(\<exists>path'. length path \<le> length path' \<and> art_wf path' n) \<and> (\<forall>k v. art_entry n k v \<longrightarrow> art_entry node k v)"
  using assms
proof (induction node arbitrary: path rule: measure_induct_rule [of size])
  case (less node)
  from less.prems(2) show ?case
  proof (cases rule: nodes_of_cases)
    case 1
    then show ?thesis using less.prems(1) by blast
  next
    case (2 c t)
    note e = edge_wf [OF less.prems(1) 2(1)]
    obtain pre where w: "art_wf (path @ pre @ [c]) t" using e(1) by blast
    from less.IH [OF next_child_size [OF e(2)] w 2(2)] obtain path' where
      n: "length (path @ pre @ [c]) \<le> length path'" "art_wf path' n" "\<forall>k v. art_entry n k v \<longrightarrow> art_entry t k v"
      by blast
    then have "length path \<le> length path'" by simp
    then show ?thesis using n(2,3) art_entry.below [OF e(2)] by blast
  qed
qed

lemma rep_root_inner:
  assumes "art_rep oth h t m" and "k \<in> dom m" and "k' \<in> dom m" and "k \<noteq> k'"
  obtains node where "art_root t = Some node" and "type_of node \<noteq> LEAF_NODE" and "art_wf [] node"
    and "\<And>k v. art_entry node k v \<longleftrightarrow> m k = Some v"
proof -
  have e: "opt_entry (art_root t) k v \<longleftrightarrow> m k = Some v" for k v using assms(1) by (simp add: art_rep_def)
  obtain v v' where v: "m k = Some v" "m k' = Some v'" using assms(2,3) by blast
  then obtain node where n: "art_root t = Some node" using e [of k v] by (cases "art_root t") auto
  have "type_of node \<noteq> LEAF_NODE"
  proof
    assume "type_of node = LEAF_NODE"
    then obtain a l b w where "node = ArtLeaf a l b w" by (cases node) auto
    then show False using e [of k v] e [of k' v'] v n assms(4) by auto
  qed
  moreover have "art_wf [] node" using assms(1) n by (simp add: art_rep_def)
  moreover have "art_entry node k v \<longleftrightarrow> m k = Some v" for k v using e n by simp
  ultimately show thesis by (rule that [OF n])
qed

section \<open>Pointers to nodes\<close>

text \<open>No two nodes share a block of a pool, so a pointer leads to one node.\<close>

fun pointer_in :: "thing \<Rightarrow> node_pointer multiset" where
  "pointer_in (Place T a) = {#(T, a)#}"
| "pointer_in (KeyBlock b n) = {#}"

definition pointers :: "thing multiset \<Rightarrow> node_pointer multiset" where
  "pointers M = \<Sum>\<^sub># (image_mset pointer_in M)"

lemma pointers_simps [simp]:
  "pointers {#} = {#}" "pointers (add_mset x M) = pointer_in x + pointers M" "pointers (M + N) = pointers M + pointers N"
  by (simp_all add: pointers_def)

lemma count_pointers: "count (pointers M) (T, a) = count (slots_of T M) a"
proof (induction M)
  case (add x M)
  then show ?case by (cases x) auto
qed simp

lemma pointers_sum_list: "pointers (sum_list (map f xs)) = sum_list (map (\<lambda>x. pointers (f x)) xs)"
  by (induction xs) simp_all

lemma mset_concat_map: "mset (map f (concat (map g xs))) = sum_list (map (\<lambda>x. mset (map f (g x))) xs)"
  by (induction xs) simp_all

lemma wf_edge_cases:
  assumes "art_wf path node" and "e \<in> set (edges node)"
  obtains t pre where "snd e = Some t" and "next_child node (fst e) = Some t" and "art_wf (path @ pre @ [fst e]) t"
    and "size t < size node"
proof -
  have l: "type_of node \<noteq> LEAF_NODE" using assms(2) by (cases node) auto
  then have "node_ok node" using assms(1) wf_inner_iff by blast
  from edges_ok(2) [OF this, of "fst e" "snd e"] assms(2) obtain t where
    t: "snd e = Some t" "next_child node (fst e) = Some t" by auto
  have "(fst e, Some t) \<in> set (edges node)" using assms(2) t(1) by (metis prod.collapse)
  from edge_wf(1) [OF assms(1) this] show thesis using that t next_child_size [OF t(2)] by blast
qed

lemma nodes_of_pointers:
  assumes "art_wf path node"
  shows "mset (map pointer_to (nodes_of node)) = pointers (things node)"
  using assms
proof (induction node arbitrary: path rule: measure_induct_rule [of size])
  case (less node)
  have kids: "mset (map pointer_to (case snd e of None \<Rightarrow> [] | Some t \<Rightarrow> nodes_of t)) = pointers (opt_things (snd e))"
    if e: "e \<in> set (edges node)" for e
  proof -
    obtain t pre where t: "snd e = Some t" "art_wf (path @ pre @ [fst e]) t" "size t < size node"
      by (rule wf_edge_cases [OF less.prems e])
    from less.IH [OF t(3,2)] t(1) show ?thesis by simp
  qed
  have "mset (map pointer_to (nodes_of node)) = add_mset (pointer_to node)
      (sum_list (map (\<lambda>e. mset (map pointer_to (case snd e of None \<Rightarrow> [] | Some t \<Rightarrow> nodes_of t))) (edges node)))"
    by (subst nodes_of.simps) (simp only: list.map mset.simps mset_concat_map)
  also have "\<dots> = add_mset (pointer_to node) (sum_list (map (\<lambda>e. pointers (opt_things (snd e))) (edges node)))"
    using kids by (simp cong: map_cong)
  finally have m: "mset (map pointer_to (nodes_of node)) =
      add_mset (pointer_to node) (pointers (sum_list (map (\<lambda>e. opt_things (snd e)) (edges node))))"
    by (simp only: pointers_sum_list)
  show ?case
  proof (cases "type_of node = LEAF_NODE")
    case True
    then obtain a k b v where n: "node = ArtLeaf a k b v" by (cases node) auto
    show ?thesis unfolding m n by (simp add: pointer_to_def)
  next
    case False
    then have "node_ok node" using less.prems wf_inner_iff by blast
    then show ?thesis using m False by (simp add: things_inner kid_things_edges pointer_to_def [of node])
  qed
qed

lemma distinct_pointers:
  assumes "art_wf path node" and "env_ok C (things node) st"
  shows "distinct (map pointer_to (nodes_of node))"
proof -
  have "count (mset (map pointer_to (nodes_of node))) p \<le> 1" for p
  proof -
    obtain T a where p: "p = (T, a)" by fastforce
    from assms(2) obtain out where o: "mset out = slots_of T (things node)"
        "pool_inv 1024 (tier_block T) (pool_of T (snd st), out)"
      by (auto simp: env_ok_def tier_ok_def)
    then have "distinct out" by (auto simp: pool_inv_def)
    then have "count (mset out) a \<le> 1" by (simp add: distinct_count_atmost_1)
    then show ?thesis using o(1) by (simp only: p nodes_of_pointers [OF assms(1)] count_pointers)
  qed
  then show ?thesis unfolding distinct_count_atmost_1
    by (metis (no_types) One_nat_def count_eq_zero_iff le_antisym not_less_eq_eq set_mset_mset less_one not_le)
qed

lemma node_at_found:
  assumes "distinct (map pointer_to (nodes_of root))" and "n \<in> set (nodes_of root)"
  shows "node_at (Some root) (pointer_to n) = Some n"
proof -
  have "find (\<lambda>t. pointer_to t = pointer_to n) xs = Some n"
    if "distinct (map pointer_to xs)" "n \<in> set xs" for xs
    using that by (induction xs) (auto simp: image_iff)
  then show ?thesis using assms by (simp add: node_at_def)
qed

section \<open>The entries in the order of the walk\<close>

fun leaf_entries :: "art_node \<Rightarrow> (cstring \<times> pointer option) list" where
  "leaf_entries node =
     (case node of
        ArtLeaf a k b v \<Rightarrow> [(k, v)]
      | _ \<Rightarrow> concat (map (\<lambda>e. case snd e of None \<Rightarrow> [] | Some t \<Rightarrow> leaf_entries t) (edges node)))"

declare leaf_entries.simps [simp del]

definition opt_entries :: "art_node option \<Rightarrow> (cstring \<times> pointer option) list" where
  "opt_entries x = (case x of None \<Rightarrow> [] | Some t \<Rightarrow> leaf_entries t)"

lemma leaf_entries_leaf [simp]: "leaf_entries (ArtLeaf a k b v) = [(k, v)]"
  by (subst leaf_entries.simps) simp

lemma leaf_entries_inner:
  "type_of node \<noteq> LEAF_NODE \<Longrightarrow> leaf_entries node = concat (map (\<lambda>e. opt_entries (snd e)) (edges node))"
  by (subst leaf_entries.simps) (cases node; simp add: opt_entries_def)

lemma leaf_count_sum_list: "leaf_count (sum_list (map f xs)) = sum_list (map (\<lambda>x. leaf_count (f x)) xs)"
  by (induction xs) simp_all

lemma leaf_entries_ok:
  assumes "art_wf path node"
  shows "set (leaf_entries node) = {(k, v). art_entry node k v} \<and> length (leaf_entries node) = leaf_count (things node)"
  using assms
proof (induction node arbitrary: path rule: measure_induct_rule [of size])
  case (less node)
  show ?case
  proof (cases "type_of node = LEAF_NODE")
    case True
    then obtain a k b v where "node = ArtLeaf a k b v" by (cases node) auto
    then show ?thesis by auto
  next
    case False
    have ok: "node_ok node" using less.prems wf_inner_iff [OF False] by blast
    have kid: "set (opt_entries (snd e)) = {(k, v). opt_entry (next_child node (fst e)) k v} \<and>
        length (opt_entries (snd e)) = leaf_count (opt_things (snd e))" if e: "e \<in> set (edges node)" for e
    proof -
      obtain t pre where t: "snd e = Some t" "next_child node (fst e) = Some t" "art_wf (path @ pre @ [fst e]) t"
        "size t < size node" by (rule wf_edge_cases [OF less.prems e])
      from less.IH [OF t(4,3)] t(1,2) show ?thesis by (simp add: opt_entries_def)
    qed
    have "set (leaf_entries node) = (\<Union>e \<in> set (edges node). {(k, v). opt_entry (next_child node (fst e)) k v})"
      using kid by (simp add: leaf_entries_inner [OF False])
    also have "\<dots> = {(k, v). art_entry node k v}"
    proof -
      have "c \<in> fst ` set (edges node)" if "opt_entry (next_child node c) k v" for c k v
        using edges_ok(3) [OF ok, of c] that by (auto simp: opt_entry_def split: option.splits)
      then show ?thesis by (fastforce simp: entry_opt [OF False])
    qed
    finally have s: "set (leaf_entries node) = {(k, v). art_entry node k v}" .
    have "length (leaf_entries node) = sum_list (map (\<lambda>e. leaf_count (opt_things (snd e))) (edges node))"
      using kid by (simp add: leaf_entries_inner [OF False] length_concat o_def cong: map_cong)
    also have "\<dots> = leaf_count (sum_list (map (\<lambda>e. opt_things (snd e)) (edges node)))"
      by (simp only: leaf_count_sum_list)
    also have "\<dots> = leaf_count (things node)"
      using False by (simp add: things_inner kid_things_edges [OF ok])
    finally show ?thesis using s by blast
  qed
qed

section \<open>The walk\<close>

text \<open>The edges a frame at index \<open>idx\<close> has still to visit.\<close>

fun edges_from :: "art_node \<Rightarrow> nat \<Rightarrow> (byte \<times> art_node option) list" where
  "edges_from (ArtLeaf a k b v) idx = []"
| "edges_from (Node4 a hr n ks cs) idx = map (\<lambda>i. (ks ! i, child_at cs i)) [idx..<n]"
| "edges_from (Node16 a hr n ks cs) idx = map (\<lambda>i. (ks ! i, child_at cs i)) [idx..<n]"
| "edges_from (Node48 a hr ix cs n) idx =
     map (\<lambda>i. (of_nat i, child_at cs (unat (ix ! i)))) (filter (\<lambda>i. ix ! i \<noteq> ART_EMPTY_SLOT) [idx..<256])"
| "edges_from (Node256 a hr cs n) idx =
     map (\<lambda>i. (of_nat i, child_at cs i)) (filter (\<lambda>i. child_at cs i \<noteq> None) [idx..<256])"

lemma edges_from_0 [simp]: "edges_from node 0 = edges node"
  by (cases node) simp_all

lemma filter_upt_find:
  "filter P [idx..<n] = (case find P [idx..<n] of None \<Rightarrow> [] | Some i \<Rightarrow> i # filter P [Suc i..<n])"
proof (induction "n - idx" arbitrary: idx)
  case (Suc d)
  then have "[idx..<n] = idx # [Suc idx..<n]" by (simp add: upt_conv_Cons)
  then show ?case using Suc.hyps(1) [of "Suc idx"] Suc.hyps(2) by simp
qed simp

lemma edges_from_subset: "set (edges_from node idx) \<subseteq> set (edges node)"
  by (cases node) auto

lemma next_unvisited_step:
  "edges_from node idx = [] \<Longrightarrow> fst (next_unvisited node idx) = None"
  "edges_from node idx = e # es \<Longrightarrow> fst (next_unvisited node idx) = snd e \<and> edges_from node (snd (next_unvisited node idx)) = es"
proof -
  have "case edges_from node idx of
      [] \<Rightarrow> fst (next_unvisited node idx) = None
    | e # es \<Rightarrow> fst (next_unvisited node idx) = snd e \<and> edges_from node (snd (next_unvisited node idx)) = es"
  proof (cases node)
    case (Node48 a hr ix cs n)
    then show ?thesis
      using filter_upt_find [of "\<lambda>i. ix ! i \<noteq> ART_EMPTY_SLOT" idx 256] by (auto split: option.splits)
  next
    case (Node256 a hr cs n)
    then show ?thesis
      using filter_upt_find [of "\<lambda>i. child_at cs i \<noteq> None" idx 256] by (auto split: option.splits)
  next
    case (Node4 a hr n ks cs)
    then show ?thesis by (cases "idx < n") (simp_all add: upt_conv_Cons)
  next
    case (Node16 a hr n ks cs)
    then show ?thesis by (cases "idx < n") (simp_all add: upt_conv_Cons)
  qed simp
  then show "edges_from node idx = [] \<Longrightarrow> fst (next_unvisited node idx) = None"
    "edges_from node idx = e # es \<Longrightarrow> fst (next_unvisited node idx) = snd e \<and> edges_from node (snd (next_unvisited node idx)) = es"
    by simp_all
qed

text \<open>What a frame has still to yield, and how many rounds of the loop it may take at most.\<close>

definition frame_entries :: "art_node \<Rightarrow> node_pointer \<times> nat \<Rightarrow> (cstring \<times> pointer option) list" where
  "frame_entries root f = (case node_at (Some root) (fst f) of None \<Rightarrow> []
     | Some n \<Rightarrow> if type_of n = LEAF_NODE then leaf_entries n
               else concat (map (\<lambda>e. opt_entries (snd e)) (edges_from n (snd f))))"

definition kid_rounds :: "(byte \<times> art_node option) list \<Rightarrow> nat" where
  "kid_rounds es = sum_list (map (\<lambda>e. case snd e of None \<Rightarrow> 0 | Some t \<Rightarrow> 2 * length (nodes_of t)) es)"

definition frame_rounds :: "art_node \<Rightarrow> node_pointer \<times> nat \<Rightarrow> nat" where
  "frame_rounds root f = Suc (case node_at (Some root) (fst f) of None \<Rightarrow> 0 | Some n \<Rightarrow> kid_rounds (edges_from n (snd f)))"

lemma kid_rounds_Cons: "kid_rounds ((c, Some t) # es) = 2 * length (nodes_of t) + kid_rounds es"
  by (simp add: kid_rounds_def)

lemma kid_rounds_edges: "kid_rounds (edges t) + 2 = 2 * length (nodes_of t)"
proof -
  have "length (nodes_of t) = Suc (sum_list (map (\<lambda>e. length (case snd e of None \<Rightarrow> [] | Some t \<Rightarrow> nodes_of t)) (edges t)))"
    by (subst nodes_of.simps) (simp add: length_concat o_def)
  moreover have "sum_list (map (\<lambda>e. case snd e of None \<Rightarrow> 0 | Some t \<Rightarrow> 2 * length (nodes_of t)) es) =
      2 * sum_list (map (\<lambda>e. length (case snd e of None \<Rightarrow> [] | Some t \<Rightarrow> nodes_of t)) es)" for es :: "(byte \<times> art_node option) list"
    by (induction es) (simp_all split: option.split)
  ultimately show ?thesis by (simp add: kid_rounds_def)
qed

text \<open>The frames of the stack, the deepest first: the node at height \<open>j\<close> is at least \<open>j\<close> bytes deep.\<close>

definition frame_ok :: "art_node \<Rightarrow> nat \<Rightarrow> node_pointer \<times> nat \<Rightarrow> bool" where
  "frame_ok root j f \<longleftrightarrow> (\<exists>n path. n \<in> set (nodes_of root) \<and> fst f = pointer_to n \<and> art_wf path n \<and> j \<le> length path)"

fun stack_ok :: "art_node \<Rightarrow> (node_pointer \<times> nat) list \<Rightarrow> bool" where
  "stack_ok root [] \<longleftrightarrow> True"
| "stack_ok root (f # fs) \<longleftrightarrow> frame_ok root (length fs) f \<and> stack_ok root fs"

definition stack_entries :: "art_node \<Rightarrow> (node_pointer \<times> nat) list \<Rightarrow> (cstring \<times> pointer option) list" where
  "stack_entries root stack = concat (map (frame_entries root) stack)"

lemma nodes_of_trans: "n \<in> set (nodes_of root) \<Longrightarrow> t \<in> set (nodes_of n) \<Longrightarrow> t \<in> set (nodes_of root)"
proof (induction root rule: measure_induct_rule [of size])
  case (less root)
  from less.prems(1) show ?case
  proof (cases rule: nodes_of_cases)
    case (2 c u)
    then show ?thesis using less.IH [of u] less.prems(2) edges_size [OF 2(1)] nodes_of_child by blast
  qed (use less.prems in simp)
qed

lemma advance_iterator_ok:
  assumes "distinct (map pointer_to (nodes_of root))" and "\<forall>n \<in> set (nodes_of root). \<forall>k v. art_entry n k v \<longrightarrow> length k \<le> 510"
    and "stack_ok root stack"
  shows "\<exists>stack' v. advance_art_iterator (Some root) stack = Some (False, stack', v) \<and> stack_ok root stack' \<and>
    (case stack_entries root stack of [] \<Rightarrow> stack' = [] \<and> v = None
     | e # es \<Rightarrow> v = snd e \<and> stack_entries root stack' = es)"
  using assms(3)
proof (induction "sum_list (map (frame_rounds root) stack)" arbitrary: stack rule: less_induct)
  case less
  show ?case
  proof (cases stack)
    case Nil
    then show ?thesis by (subst advance_art_iterator.simps) (simp add: stack_entries_def)
  next
    case (Cons f fs)
    then obtain n path where n: "n \<in> set (nodes_of root)" "fst f = pointer_to n" "art_wf path n" "length fs \<le> length path"
      and fs: "stack_ok root fs"
      using less.prems by (auto simp: frame_ok_def)
    have at: "node_at (Some root) (fst f) = Some n" unfolding n(2) by (rule node_at_found [OF assms(1) n(1)])
    show ?thesis
    proof (cases "type_of n = LEAF_NODE")
      case True
      then obtain a k b v where l: "n = ArtLeaf a k b v" by (cases n) auto
      then have "advance_art_iterator (Some root) stack = Some (False, fs, v)"
        using Cons at by (subst advance_art_iterator.simps) simp
      moreover have "stack_entries root stack = (k, v) # stack_entries root fs"
        using Cons at l by (simp add: stack_entries_def frame_entries_def)
      ultimately show ?thesis using fs by simp
    next
      case False
      have fe: "frame_entries root f = concat (map (\<lambda>e. opt_entries (snd e)) (edges_from n (snd f)))"
        using at False by (simp add: frame_entries_def)
      show ?thesis
      proof (cases "edges_from n (snd f)")
        case Nil
        then have "advance_art_iterator (Some root) stack = advance_art_iterator (Some root) fs"
          using Cons at False next_unvisited_step(1) by (subst advance_art_iterator.simps) simp
        moreover have "stack_entries root stack = stack_entries root fs"
          using Cons fe Nil by (simp add: stack_entries_def)
        moreover have "sum_list (map (frame_rounds root) fs) < sum_list (map (frame_rounds root) stack)"
          using Cons by (simp add: frame_rounds_def)
        ultimately show ?thesis using less.hyps [of fs] fs by simp
      next
        case ef: (Cons e es)
        then have "e \<in> set (edges n)" using edges_from_subset [of n "snd f"] by auto
        then obtain t pre where t: "snd e = Some t" "next_child n (fst e) = Some t" "art_wf (path @ pre @ [fst e]) t"
          by (rule wf_edge_cases [OF n(3)])
        then have e: "e = (fst e, Some t)" by (metis prod.collapse)
        let ?i = "snd (next_unvisited n (snd f))"
        have nu: "fst (next_unvisited n (snd f)) = Some t" "edges_from n ?i = es"
          using next_unvisited_step(2) [OF ef] t(1) by simp_all
        have tn: "t \<in> set (nodes_of root)"
          using nodes_of_trans [OF n(1)] nodes_of_child [of "fst e" t n t] nodes_of_self e \<open>e \<in> set (edges n)\<close> by metis
        have att: "node_at (Some root) (pointer_to t) = Some t" by (rule node_at_found [OF assms(1) tn])
        obtain k v where k: "art_entry t k v" using wf_has_entry [OF t(3)] by blast
        have "length (path @ pre @ [fst e]) \<le> length (k @ [0])"
          using entry_prefix [OF k t(3)] prefix_length_le by blast
        then have depth: "length stack \<le> 511" using n(4) assms(2) tn k Cons by fastforce
        let ?stack = "(pointer_to t, 0) # (fst f, ?i) # fs"
        have adv: "advance_art_iterator (Some root) stack = advance_art_iterator (Some root) ?stack"
          using Cons at False nu(1) depth by (subst advance_art_iterator.simps) (simp add: ART_MAX_DEPTH_def)
        have "frame_ok root (Suc (length fs)) (pointer_to t, 0)"
          unfolding frame_ok_def using tn t(3) n(4)
          by (intro exI [of _ t] exI [of _ "path @ pre @ [fst e]"]) simp
        moreover have "frame_ok root (length fs) (fst f, ?i)" using less.prems Cons by (simp add: frame_ok_def)
        ultimately have ok: "stack_ok root ?stack" using fs by simp
        have fi: "frame_entries root (fst f, ?i) = concat (map (\<lambda>e. opt_entries (snd e)) es)"
          using at False nu(2) by (simp add: frame_entries_def)
        have ft: "frame_entries root (pointer_to t, 0) = leaf_entries t"
          using att by (simp add: frame_entries_def leaf_entries_inner)
        have same: "stack_entries root stack = stack_entries root ?stack"
          using Cons fe ef t(1) fi ft by (simp add: stack_entries_def opt_entries_def)
        have "frame_rounds root f = Suc (2 * length (nodes_of t) + kid_rounds es)"
          using at ef e kid_rounds_Cons [of "fst e" t es] by (simp add: frame_rounds_def)
        moreover have "frame_rounds root (fst f, ?i) = Suc (kid_rounds es)"
          using at nu(2) by (simp add: frame_rounds_def)
        moreover have "frame_rounds root (pointer_to t, 0) + 1 = 2 * length (nodes_of t)"
          using att kid_rounds_edges [of t] by (simp add: frame_rounds_def)
        ultimately have "sum_list (map (frame_rounds root) ?stack) < sum_list (map (frame_rounds root) stack)"
          using Cons by simp
        from less.hyps [OF this ok] show ?thesis unfolding adv same .
      qed
    qed
  qed
qed

section \<open>The iterator\<close>

definition art_iter_next :: "art_tree \<Rightarrow> heap \<times> art_iterator \<Rightarrow>
    (heap \<times> art_iterator) \<times> cdsa_status \<times> pointer option" where
  "art_iter_next t hi =
     (case cdsa_next_art (fst hi) t (Some (snd hi)) True of
        Some (h', Some i, s, v) \<Rightarrow> ((h', i), s, v) | _ \<Rightarrow> (hi, CDSA_ERR_INVALID, None))"

definition art_iter_has_next :: "art_tree \<Rightarrow> heap \<times> art_iterator \<Rightarrow> (heap \<times> art_iterator) \<times> bool" where
  "art_iter_has_next t hi = (hi, cdsa_has_next_art t (Some (snd hi)))"

definition opt_stack_entries :: "art_tree \<Rightarrow> (node_pointer \<times> nat) list \<Rightarrow> (cstring \<times> pointer option) list" where
  "opt_stack_entries t stack = (case art_root t of None \<Rightarrow> [] | Some root \<Rightarrow> stack_entries root stack)"

definition art_iter_rest :: "art_tree \<Rightarrow> heap \<times> art_iterator \<Rightarrow> pointer list" where
  "art_iter_rest t hi = (case ai_next_value (snd hi) of None \<Rightarrow> []
     | Some p \<Rightarrow> p # map (the \<circ> snd) (opt_stack_entries t (ai_stack (snd hi))))"

text \<open>
  What the walk relies on: pointers to nodes are unique, keys are short enough for the stack, no
  value is NULL.
\<close>

definition art_walkable :: "art_tree \<Rightarrow> bool" where
  "art_walkable t \<longleftrightarrow> (\<forall>root. art_root t = Some root \<longrightarrow> art_wf [] root \<and> distinct (map pointer_to (nodes_of root)) \<and>
     (\<forall>k v. art_entry root k v \<longrightarrow> length k \<le> 510 \<and> v \<noteq> None))"

definition art_stack_ok :: "art_tree \<Rightarrow> (node_pointer \<times> nat) list \<Rightarrow> bool" where
  "art_stack_ok t stack \<longleftrightarrow> (case art_root t of None \<Rightarrow> stack = [] | Some root \<Rightarrow> stack_ok root stack)"

definition art_iter_ok :: "art_tree \<Rightarrow> heap \<times> art_iterator \<Rightarrow> bool" where
  "art_iter_ok t hi \<longleftrightarrow> art_walkable t \<and> art_stack_ok t (ai_stack (snd hi)) \<and> \<not> fault (fst hi)"

lemma stack_entry_in:
  assumes "stack_ok root stack" and "distinct (map pointer_to (nodes_of root))" and "art_wf [] root"
    and "(k, v) \<in> set (stack_entries root stack)"
  shows "art_entry root k v"
  using assms(1,4)
proof (induction stack)
  case (Cons f fs)
  show ?case
  proof (cases "(k, v) \<in> set (stack_entries root fs)")
    case False
    then have fe: "(k, v) \<in> set (frame_entries root f)" using Cons.prems(2) by (simp add: stack_entries_def)
    obtain n path where n: "n \<in> set (nodes_of root)" "fst f = pointer_to n" "art_wf path n"
      using Cons.prems(1) by (auto simp: frame_ok_def)
    have at: "node_at (Some root) (fst f) = Some n" unfolding n(2) by (rule node_at_found [OF assms(2) n(1)])
    have "(k, v) \<in> set (leaf_entries n)"
      using fe at edges_from_subset [of n "snd f"]
      by (auto simp: frame_entries_def leaf_entries_inner split: if_splits)
    then have "art_entry n k v" using leaf_entries_ok [OF n(3)] by blast
    then show ?thesis using nodes_of_wf [OF assms(3) n(1)] by blast
  qed (use Cons in simp)
qed (simp add: stack_entries_def)

text \<open>One call of \<open>advance_art_iterator\<close>: the next value, or nothing when the walk is over.\<close>

lemma advance_tree:
  assumes "art_walkable t" and "art_stack_ok t stack"
  shows "\<exists>stack' v. advance_art_iterator (art_root t) stack = Some (False, stack', v) \<and> art_stack_ok t stack' \<and>
    map (the \<circ> snd) (opt_stack_entries t stack) =
      (case v of None \<Rightarrow> [] | Some p \<Rightarrow> p # map (the \<circ> snd) (opt_stack_entries t stack'))"
proof (cases "art_root t")
  case None
  then have "advance_art_iterator (art_root t) stack = Some (False, [], None)"
    using assms(2) by (subst advance_art_iterator.simps) (simp add: art_stack_ok_def)
  then show ?thesis using None by (simp add: opt_stack_entries_def art_stack_ok_def)
next
  case (Some root)
  have w: "art_wf [] root" "distinct (map pointer_to (nodes_of root))"
    "\<And>k v. art_entry root k v \<Longrightarrow> length k \<le> 510 \<and> v \<noteq> None"
    using assms(1) Some by (simp_all add: art_walkable_def)
  have st: "stack_ok root stack" using assms(2) Some by (simp add: art_stack_ok_def)
  have "\<forall>n \<in> set (nodes_of root). \<forall>k v. art_entry n k v \<longrightarrow> length k \<le> 510"
    using nodes_of_wf [OF w(1)] w(3) by blast
  from advance_iterator_ok [OF w(2) this st] obtain stack' v where a:
    "advance_art_iterator (Some root) stack = Some (False, stack', v)" "stack_ok root stack'"
    "case stack_entries root stack of [] \<Rightarrow> stack' = [] \<and> v = None
     | e # es \<Rightarrow> v = snd e \<and> stack_entries root stack' = es" by blast
  have "map (the \<circ> snd) (stack_entries root stack) =
      (case v of None \<Rightarrow> [] | Some p \<Rightarrow> p # map (the \<circ> snd) (stack_entries root stack'))"
  proof (cases "stack_entries root stack")
    case Nil
    then show ?thesis using a(3) by simp
  next
    case (Cons e es)
    then have "art_entry root (fst e) (snd e)"
      using stack_entry_in [OF st w(2,1), of "fst e" "snd e"] by simp
    then obtain p where "snd e = Some p" using w(3) by blast
    then show ?thesis using a(3) Cons by simp
  qed
  then show ?thesis using a(1,2) Some by (cases v) (simp_all add: opt_stack_entries_def art_stack_ok_def)
qed

interpretation art_iter: fail_fast_iterator art_version "\<lambda>hi. ai_snapshot (snd hi)"
  art_iter_has_next art_iter_next art_iter_ok art_iter_rest
proof (unfold_locales, goal_cases)
  case (1 t hi)
  then show ?case by (simp add: art_iter_has_next_def cdsa_has_next_art_def)
next
  case (2 t hi)
  then show ?case by (simp add: art_iter_next_def cdsa_next_art_def)
next
  case (3 t hi)
  then show ?case
    by (simp add: art_iter_has_next_def cdsa_has_next_art_def art_iter_rest_def split: option.split)
next
  case (4 t hi x xs)
  obtain h i where hi: "hi = (h, i)" by fastforce
  from 4(1) have w: "art_walkable t" "art_stack_ok t (ai_stack i)" "\<not> fault h" by (simp_all add: hi art_iter_ok_def)
  obtain stack' v where a: "advance_art_iterator (art_root t) (ai_stack i) = Some (False, stack', v)"
    "art_stack_ok t stack'" "map (the \<circ> snd) (opt_stack_entries t (ai_stack i)) =
      (case v of None \<Rightarrow> [] | Some p \<Rightarrow> p # map (the \<circ> snd) (opt_stack_entries t stack'))"
    using advance_tree [OF w(1,2)] by blast
  from 4(3) have x: "ai_next_value i = Some x" "xs = map (the \<circ> snd) (opt_stack_entries t (ai_stack i))"
    by (auto simp: hi art_iter_rest_def split: option.splits)
  let ?i = "i\<lparr>ai_stack := stack', ai_next_value := v\<rparr>"
  have nf: "set_fault False h = h" by (simp add: set_fault_def)
  have "art_iter_next t hi = ((h, ?i), CDSA_OK, Some x)"
    using 4(2) x(1) a(1) nf by (simp add: hi art_iter_next_def cdsa_next_art_def)
  moreover have "art_iter_ok t (h, ?i)" using w a(2) by (simp add: art_iter_ok_def)
  moreover have "art_iter_rest t (h, ?i) = xs" using x(2) a(3) by (cases v) (simp_all add: art_iter_rest_def)
  ultimately show ?case by (intro exI [of _ "(h, ?i)"]) (simp add: hi)
next
  case (5 t hi)
  then show ?case
    by (auto simp: art_iter_rest_def art_iter_next_def cdsa_next_art_def split: option.splits)
qed

section \<open>A new iterator\<close>

text \<open>The entries of a tree that represents a map.\<close>

lemma rep_entries:
  assumes "art_rep oth h t m"
  shows "distinct (map fst (opt_entries (art_root t)))" and "map_of (opt_entries (art_root t)) = m"
    and "length (opt_entries (art_root t)) = card (dom m)"
proof -
  obtain ids s where r: "\<And>node. art_root t = Some node \<Longrightarrow> art_wf [] node"
    "\<And>k v. opt_entry (art_root t) k v \<longleftrightarrow> m k = Some v"
    "leaf_count (opt_things (art_root t)) = card (dom m)"
    by (rule art_repE [OF assms(1)]) blast
  let ?es = "opt_entries (art_root t)"
  have "set ?es = {(k, v). opt_entry (art_root t) k v} \<and> length ?es = leaf_count (opt_things (art_root t))"
    using leaf_entries_ok [OF r(1)] by (cases "art_root t") (simp_all add: opt_entries_def)
  then have es: "set ?es = {(k, v). m k = Some v}" and len: "length ?es = card (dom m)" using r(2,3) by simp_all
  have "fst ` set ?es = dom m" unfolding es by force
  then show dist: "distinct (map fst ?es)" using len by (simp add: card_distinct)
  show "map_of ?es = m"
  proof
    fix k
    have "map_of ?es k = Some v \<longleftrightarrow> m k = Some v" for v
      using es map_of_eq_Some_iff [OF dist, of k v] by simp
    then show "map_of ?es k = m k" by (metis not_None_eq)
  qed
  show "length ?es = card (dom m)" by (rule len)
qed

lemma rep_walkable:
  assumes "art_rep oth h t m" and "\<forall>k \<in> dom m. length k \<le> 510 \<and> m k \<noteq> Some None"
  shows "art_walkable t" and "\<not> fault h" and "never_refuses h" and "heap_ok h"
proof -
  obtain ids s where r: "env_ok (tree_frame oth ids s (art_self t)) (opt_things (art_root t)) (h, slab_manager t)"
    "\<And>node. art_root t = Some node \<Longrightarrow> art_wf [] node"
    "\<And>k v. opt_entry (art_root t) k v \<longleftrightarrow> m k = Some v"
    by (rule art_repE [OF assms(1)]) blast
  show "\<not> fault h" "never_refuses h" "heap_ok h" using r(1) by (simp_all add: env_ok_def heap_holds_def)
  show "art_walkable t"
    unfolding art_walkable_def
  proof (intro allI impI conjI)
    fix root assume root: "art_root t = Some root"
    show "art_wf [] root" by (rule r(2) [OF root])
    show "distinct (map pointer_to (nodes_of root))"
      using distinct_pointers [OF r(2) [OF root]] r(1) root by auto
    fix k v assume "art_entry root k v"
    then have k: "m k = Some v" using r(3) [of k v] root by simp
    then have "k \<in> dom m" by blast
    from bspec [OF assms(2) this] show "length k \<le> 510" "v \<noteq> None" using k by auto
  qed
qed

text \<open>The stack with the root on it has every entry still to yield.\<close>

definition root_stack :: "art_tree \<Rightarrow> (node_pointer \<times> nat) list" where
  "root_stack t = (case art_root t of None \<Rightarrow> [] | Some root \<Rightarrow> [(pointer_to root, 0)])"

lemma root_stack_ok:
  assumes "art_walkable t"
  shows "art_stack_ok t (root_stack t)" and "opt_stack_entries t (root_stack t) = opt_entries (art_root t)"
proof -
  have wf: "\<And>root. art_root t = Some root \<Longrightarrow> art_wf [] root" using assms by (simp add: art_walkable_def)
  then show "art_stack_ok t (root_stack t)"
    using nodes_of_self by (auto simp: art_stack_ok_def frame_ok_def root_stack_def split: option.split)
  show "opt_stack_entries t (root_stack t) = opt_entries (art_root t)"
  proof (cases "art_root t")
    case (Some root)
    then have "node_at (Some root) (pointer_to root) = Some root"
      using assms node_at_found nodes_of_self by (simp add: art_walkable_def)
    then show ?thesis
      using Some
      by (simp add: opt_stack_entries_def stack_entries_def frame_entries_def opt_entries_def leaf_entries_inner
          root_stack_def)
  qed (simp add: opt_stack_entries_def opt_entries_def)
qed

lemma create_art_iterator_ok:
  assumes "art_walkable t" and "heap_ok h" and "never_refuses h" and "\<not> fault h"
  obtains h' i where "cdsa_create_art_iterator h (Some t) = Some (h', Some i)" and "art_iter_ok t (h', i)"
    and "ai_snapshot i = art_version t" and "art_iter_rest t (h', i) = map (the \<circ> snd) (opt_entries (art_root t))"
proof -
  obtain stack' v where a: "advance_art_iterator (art_root t) (root_stack t) = Some (False, stack', v)"
    "art_stack_ok t stack'" "map (the \<circ> snd) (opt_entries (art_root t)) =
      (case v of None \<Rightarrow> [] | Some p \<Rightarrow> p # map (the \<circ> snd) (opt_stack_entries t stack'))"
    using advance_tree [OF assms(1) root_stack_ok(1) [OF assms(1)]] unfolding root_stack_ok(2) [OF assms(1)] by blast
  obtain h' self where ml: "cdsa_malloc_track h sizeof_art_iterator = (h', Some self)"
    using never_refuses_malloc [OF assms(3)] by (metis option.exhaust prod.exhaust)
  have "unat sizeof_art_iterator + 8 < size_bound" by (simp add: sizeof_art_iterator_def)
  then have nf: "\<not> fault h'" using malloc_owns_all(6) [OF assms(2) ml] assms(4) by simp
  then have sf: "set_fault False h' = h'" by (simp add: set_fault_def)
  let ?i = "\<lparr>ai_self = self, ai_stack = stack', ai_snapshot = art_version t, ai_next_value = v\<rparr>"
  have "cdsa_create_art_iterator h (Some t) = Some (h', Some ?i)"
  proof (cases "art_root t")
    case None
    then have "stack' = [] \<and> v = None"
      using a(1) by (subst (asm) advance_art_iterator.simps) (simp add: root_stack_def)
    then show ?thesis using None ml by (simp add: cdsa_create_art_iterator_def)
  next
    case (Some root)
    then show ?thesis using a(1) ml sf by (simp add: cdsa_create_art_iterator_def root_stack_def)
  qed
  moreover have "art_iter_ok t (h', ?i)" using assms(1) a(2) nf by (simp add: art_iter_ok_def)
  moreover have "art_iter_rest t (h', ?i) = map (the \<circ> snd) (opt_entries (art_root t))"
    using a(3) by (cases v) (simp_all add: art_iter_rest_def)
  ultimately show thesis using that by simp
qed

section \<open>Properties\<close>

text \<open>
  C35: after any run of calls that fit (as in C4: at most 1024 keys, at most 48 ways where a key is
  deleted, no short key deleted that is absent) every node of the tree is well typed: the count of a node is the number
  of bytes it has a child for, fits its field, is at most the capacity of its layout and at least the
  number below which the next smaller layout takes over, so that no inner node has less than two
  children; no index of a \<open>Node48\<close> is outside its array, and no two bytes share a slot.
\<close>

theorem art_nodes_well_typed:
  assumes "heap_ok h" and "never_refuses h" and "\<not> fault h" and "calls_fit Map.empty cs"
    and "cdsa_create_art h = (h0, Some t0)" and "run_partial art_step h0 t0 cs = Some (h1, t1, rs)"
    and "art_root t1 = Some node" and "n \<in> set (nodes_of node)" and "type_of n \<noteq> LEAF_NODE"
  shows "child_count n = card {c. next_child n c \<noteq> None} \<and>
    2 \<le> child_count n \<and> least_count (type_of n) \<le> child_count n \<and> child_count n \<le> capacity_of (type_of n) \<and>
    (\<forall>a hr ix cs k. n = Node48 a hr ix cs k \<longrightarrow> length ix = 256 \<and> length cs = 48 \<and>
      (\<forall>c :: byte. ix ! unat c \<noteq> ART_EMPTY_SLOT \<longrightarrow> unat (ix ! unat c) < 48 \<and>
        (\<forall>d :: byte. ix ! unat d = ix ! unat c \<longrightarrow> d = c)))"
proof -
  obtain m where "art_rep (live h) h1 t1 m"
    using art_start [OF assms(1-3)] art_run_ok [OF _ assms(4)] assms(5,6) by fastforce
  then have "art_wf [] node" using assms(7) by (auto simp: art_rep_def)
  from nodes_of_wf [OF this assms(8)] obtain path where "art_wf path n" by blast
  then have w: "node_ok n" "least_count (type_of n) \<le> child_count n"
    unfolding wf_inner_iff [OF assms(9)] by blast+
  have ix: "length ix = 256 \<and> length cs = 48 \<and>
      (\<forall>c :: byte. ix ! unat c \<noteq> ART_EMPTY_SLOT \<longrightarrow> unat (ix ! unat c) < 48 \<and>
        (\<forall>d :: byte. ix ! unat d = ix ! unat c \<longrightarrow> d = c))" if "n = Node48 a hr ix cs k" for a hr ix cs k
  proof -
    have "index_ok ix cs" using w(1) that by simp
    then show ?thesis using index_okD [of ix cs] by metis
  qed
  have "dom (next_child n) = {c. next_child n c \<noteq> None}" by auto
  then have "child_count n = card {c. next_child n c \<noteq> None}" using node_count [OF w(1)] by simp
  then show ?thesis
    using w(2) node_count_le [OF w(1)] node_capacity_type [of n] least_count_two [OF assms(9)] ix by auto
qed

text \<open>
  C36: the loop that looks for the first leaf below a node ends: after any run of calls that fit, as in
  C4, from every node of the tree it comes to the leaf of a key the tree holds.  (An insertion relies on it for the bytes of a prefix
  that the node does not store.)
\<close>

theorem art_first_leaf_reached:
  assumes "heap_ok h" and "never_refuses h" and "\<not> fault h" and "calls_fit Map.empty cs"
    and "cdsa_create_art h = (h0, Some t0)" and "run_partial art_step h0 t0 cs = Some (h1, t1, rs)"
    and "art_root t1 = Some node" and "n \<in> set (nodes_of node)"
  shows "\<exists>k v. find_minimum_leaf n = Some (Some k) \<and> fst (run_calls map_step Map.empty cs) k = Some v"
proof -
  let ?m = "fst (run_calls map_step Map.empty cs)"
  have "art_rep (live h) h1 t1 ?m"
    using art_start [OF assms(1-3)] art_run_ok [OF _ assms(4)] assms(5,6) by fastforce
  then have w: "art_wf [] node" "\<And>k v. art_entry node k v \<longleftrightarrow> ?m k = Some v"
    using assms(7) by (auto simp: art_rep_def)
  from nodes_of_wf [OF w(1) assms(8)] obtain path where "art_wf path n" by blast
  from find_minimum_leaf_ok [OF this] show ?thesis using nodes_of_wf [OF w(1) assms(8)] w(2) by blast
qed

definition two_keys :: "art_call list" where
  "two_keys = [ArtInsert [97, 98] (Some 1), ArtInsert [97, 99, 100] (Some 2)]"

lemma two_keys_run:
  obtains h0 t0 h1 t1 rs node where "cdsa_create_art good_heap = (h0, Some t0)"
    and "run_partial art_step h0 t0 two_keys = Some (h1, t1, rs)" and "art_root t1 = Some node"
    and "type_of node \<noteq> LEAF_NODE"
proof -
  have fit: "calls_fit Map.empty two_keys" by (simp add: two_keys_def)
  obtain h0 t0 where c: "cdsa_create_art good_heap = (h0, Some t0)" "art_rep (live good_heap) h0 t0 Map.empty"
    using art_start [of good_heap] by auto
  from art_run_ok [OF c(2) fit] obtain h1 t1 where
    r: "run_partial art_step h0 t0 two_keys = Some (h1, t1, snd (run_calls map_step Map.empty two_keys))"
      "art_rep (live good_heap) h1 t1 (fst (run_calls map_step Map.empty two_keys))" by blast
  obtain node where "art_root t1 = Some node" "type_of node \<noteq> LEAF_NODE"
    by (rule rep_root_inner [OF r(2), of "[97, 98]" "[97, 99, 100]"]) (simp_all add: two_keys_def)
  then show thesis by (rule that [OF c(1) r(1)])
qed

theorem art_nodes_well_typed_witness:
  "\<exists>h0 t0 h1 t1 rs node. cdsa_create_art good_heap = (h0, Some t0) \<and>
     run_partial art_step h0 t0 two_keys = Some (h1, t1, rs) \<and> art_root t1 = Some node \<and>
     2 \<le> child_count node \<and> child_count node = card {c. next_child node c \<noteq> None}"
proof -
  obtain h0 t0 h1 t1 rs node where r: "cdsa_create_art good_heap = (h0, Some t0)"
    "run_partial art_step h0 t0 two_keys = Some (h1, t1, rs)" "art_root t1 = Some node" "type_of node \<noteq> LEAF_NODE"
    by (rule two_keys_run)
  have "calls_fit Map.empty two_keys" by (simp add: two_keys_def)
  from art_nodes_well_typed [OF _ _ _ this r(1-3) nodes_of_self r(4)] r show ?thesis by auto
qed

theorem art_first_leaf_reached_witness:
  "\<exists>h0 t0 h1 t1 rs node k v. cdsa_create_art good_heap = (h0, Some t0) \<and>
     run_partial art_step h0 t0 two_keys = Some (h1, t1, rs) \<and> art_root t1 = Some node \<and>
     find_minimum_leaf node = Some (Some k) \<and> ([[97, 98] \<mapsto> Some 1, [97, 99, 100] \<mapsto> Some 2] :: art_map) k = Some v"
proof -
  obtain h0 t0 h1 t1 rs node where r: "cdsa_create_art good_heap = (h0, Some t0)"
    "run_partial art_step h0 t0 two_keys = Some (h1, t1, rs)" "art_root t1 = Some node" "type_of node \<noteq> LEAF_NODE"
    by (rule two_keys_run)
  have fit: "calls_fit Map.empty two_keys" by (simp add: two_keys_def)
  have m: "fst (run_calls map_step Map.empty two_keys) = ([[97, 98] \<mapsto> Some 1, [97, 99, 100] \<mapsto> Some 2] :: art_map)"
    by (simp add: two_keys_def)
  have "\<exists>k v. find_minimum_leaf node = Some (Some k) \<and> fst (run_calls map_step Map.empty two_keys) k = Some v"
    using art_first_leaf_reached [OF _ _ _ fit r(1-3) nodes_of_self] by simp
  then show ?thesis using r(1-3) unfolding m by blast
qed

text \<open>
  C5: the loop over an iterator ends: every call in it succeeds and they yield the value of every key
  once (NULL values would end it early), without following a pointer to a node that is not in the
  tree and without overflowing the iterator's stack, when keys have at most 510 bytes; then a further
  call reports \<open>CDSA_ERR_NOT_FOUND\<close>; an insertion makes it stop and a direct call fail, whereas a
  deletion leaves the version alone and goes unnoticed.
\<close>

theorem art_iterator_yields_values:
  assumes "art_rep oth h t m" and "\<forall>k \<in> dom m. length k \<le> 510 \<and> m k \<noteq> Some None"
  shows "\<exists>h' i es hd id. cdsa_create_art_iterator h (Some t) = Some (h', Some i) \<and>
    distinct (map fst es) \<and> map_of es = m \<and>
    drain art_iter_has_next art_iter_next t (h', i) = Some ((hd, id), yields (map (the \<circ> snd) es)) \<and>
    \<not> fault hd \<and> snd (art_iter_next t (hd, id)) = (CDSA_ERR_NOT_FOUND, None) \<and>
    (\<forall>h2 t2. art_version t2 = art_version t + 1 \<longrightarrow> \<not> cdsa_has_next_art t2 (Some i) \<and>
      cdsa_next_art h2 t2 (Some i) True = Some (h2, Some i, CDSA_ERR_ITER_INVALIDATED, None)) \<and>
    (\<forall>k v h2 t2. cdsa_insert_art h' (Some t) (Some k) v = Some (h2, Some t2, CDSA_OK) \<longrightarrow>
      art_version t2 = art_version t + 1) \<and>
    (\<forall>k h2 t2 s. cdsa_delete_art h' (Some t) (Some k) = (h2, Some t2, s) \<longrightarrow> art_version t2 = art_version t)"
proof -
  let ?es = "opt_entries (art_root t)"
  note e = rep_entries [OF assms(1)] and w = rep_walkable [OF assms]
  obtain h' i where c: "cdsa_create_art_iterator h (Some t) = Some (h', Some i)" and ok: "art_iter_ok t (h', i)"
    and snap: "ai_snapshot i = art_version t" and rest: "art_iter_rest t (h', i) = map (the \<circ> snd) ?es"
    by (rule create_art_iterator_ok [OF w(1,4,3,2)])
  have ver: "art_version t = ai_snapshot (snd (h', i))" using snap by simp
  from art_iter.drain_yields [OF ok ver] obtain hi where
    d: "drain art_iter_has_next art_iter_next t (h', i) = Some (hi, yields (map (the \<circ> snd) ?es))"
      "art_iter_ok t hi" "snd (art_iter_next t hi) = (CDSA_ERR_NOT_FOUND, None)"
    unfolding rest by blast
  obtain h3 i3 where hi: "hi = (h3, i3)" by (metis surj_pair)
  have clean: "\<not> fault h3" using d(2) by (simp add: hi art_iter_ok_def)
  note drained = d(1,3) [unfolded hi]
  have stale: "\<not> cdsa_has_next_art t2 (Some i) \<and>
      cdsa_next_art h2 t2 (Some i) True = Some (h2, Some i, CDSA_ERR_ITER_INVALIDATED, None)"
    if "art_version t2 = art_version t + 1" for h2 t2
    using that snap by (simp add: cdsa_has_next_art_def cdsa_next_art_def)
  have ins: "art_version t2 = art_version t + 1"
    if "cdsa_insert_art h' (Some t) (Some k) w = Some (h2, Some t2, CDSA_OK)" for k w h2 t2
    using that by (auto simp: cdsa_insert_art_def insert_art_internal_def split: option.splits prod.splits)
  have del: "art_version t2 = art_version t"
    if "cdsa_delete_art h' (Some t) (Some k) = (h2, Some t2, st)" for k h2 t2 st
    using that by (auto simp: cdsa_delete_art_def split: option.splits prod.splits)
  show ?thesis
    using c e(1,2) drained clean stale ins del
    by (intro exI [of _ h'] exI [of _ i] exI [of _ ?es] exI [of _ h3] exI [of _ i3]) blast
qed

lemma insert_run_rep:
  assumes "calls_fit Map.empty cs"
  obtains h t where "art_rep [] h t (fst (run_calls map_step Map.empty cs))"
proof -
  obtain h0 t0 where "art_rep (live good_heap) h0 t0 Map.empty" using art_start [of good_heap] by auto
  from art_run_ok [OF this assms] show thesis using that by auto
qed

theorem art_iterator_yields_values_witness:
  "\<exists>h t h' i hi vs. cdsa_create_art_iterator h (Some t) = Some (h', Some i) \<and>
     drain art_iter_has_next art_iter_next t (h', i) = Some (hi, yields vs) \<and> length vs = 2 \<and> set vs = {1, 2}"
proof -
  let ?m = "[[97, 98] \<mapsto> Some 1, [97, 99, 100] \<mapsto> Some 2] :: art_map"
  have m: "fst (run_calls map_step Map.empty two_keys) = ?m" by (simp add: two_keys_def)
  have "calls_fit Map.empty two_keys" by (simp add: two_keys_def)
  then obtain h t where rep: "art_rep [] h t ?m" using insert_run_rep [of two_keys] unfolding m by blast
  have short: "\<forall>k \<in> dom ?m. length k \<le> 510 \<and> ?m k \<noteq> Some None" by simp
  from art_iterator_yields_values [OF rep short] obtain h' i es hi where
    c: "cdsa_create_art_iterator h (Some t) = Some (h', Some i)" "distinct (map fst es)" "map_of es = ?m"
      "drain art_iter_has_next art_iter_next t (h', i) = Some (hi, yields (map (the \<circ> snd) es))"
    by blast
  have "set es = {(k, v). map_of es k = Some v}" using map_of_eq_Some_iff [OF c(2)] by auto
  also have "\<dots> = {([97, 98], Some 1), ([97, 99, 100], Some 2)}"
    unfolding c(3) by (auto split: if_splits)
  finally have es: "set es = {([97, 98], Some 1), ([97, 99, 100], Some 2)}" .
  have "length es = card (set es)" using c(2) by (simp add: distinct_card distinct_map)
  then have "length (map (the \<circ> snd) es) = 2" by (simp add: es)
  moreover have "set (map (the \<circ> snd) es) = {1, 2}" using es by simp
  ultimately show ?thesis using c(1,4) by blast
qed

end
