(* ===== verification/Art_Errors.thy ===== *)
theory Art_Errors
  imports Art_Iterator
begin

text \<open>
  Where the code goes wrong: a deletion that loses the whole tree, and the count of the largest node,
  which deletions do not lower.
\<close>

text \<open>A prefix that all keys share is in the prefix of the root.\<close>

lemma common_prefix_root:
  assumes "art_rep oth h t m" and "k1 \<in> dom m" and "k2 \<in> dom m" and "k1 \<noteq> k2" and "\<forall>k \<in> dom m. prefix p k"
  obtains node pre where "art_root t = Some node" and "type_of node \<noteq> LEAF_NODE"
    and "header_holds (header_of node) pre" and "length p \<le> length pre" and "\<forall>j < length p. pre ! j = p ! j"
proof -
  obtain node where root: "art_root t = Some node" and l: "type_of node \<noteq> LEAF_NODE" and wf: "art_wf [] node"
    and e: "\<And>k v. art_entry node k v \<longleftrightarrow> m k = Some v"
    using rep_root_inner [OF assms(1-4)] by blast
  from wf obtain pre where w: "node_ok node" "least_count (type_of node) \<le> child_count node"
    "header_holds (header_of node) pre" "kids_wf pre (next_child node)"
    unfolding wf_inner_iff [OF l] by auto
  have kids: "2 \<le> card (dom (next_child node))"
    using node_count [OF w(1)] w(2) least_count_two [OF l] by simp
  have bytes: "(pre @ [c]) ! j = p ! j"
    if c: "next_child node c \<noteq> None" and j: "j < length p" "j \<le> length pre" for c j
  proof -
    obtain t where t: "next_child node c = Some t" using c by blast
    then have wt: "art_wf (pre @ [c]) t" using w(4) by (simp add: kids_wf_def)
    obtain k v where k: "art_entry t k v" using wf_has_entry [OF wt] by blast
    then have "k \<in> dom m" using art_entry.below [OF t k] e by blast
    then have "prefix p (k @ [0])" using assms(5) by (blast intro: prefix_prefix)
    from prefix_nth [OF this j(1)] show ?thesis using prefix_nth [OF conjunct2 [OF entry_prefix [OF k wt]], of j] j(2) by simp
  qed
  have long: "length p \<le> length pre"
  proof (rule ccontr)
    assume s: "\<not> length p \<le> length pre"
    have "c = p ! length pre" if "next_child node c \<noteq> None" for c
      using bytes [OF that, of "length pre"] s by simp
    then have "dom (next_child node) \<subseteq> {p ! length pre}" by auto
    then have "card (dom (next_child node)) \<le> card {p ! length pre}" by (rule card_mono [rotated]) simp
    then show False using kids by simp
  qed
  have "dom (next_child node) \<noteq> {}" using kids by auto
  then obtain c where c: "next_child node c \<noteq> None" by blast
  have "\<forall>j < length p. pre ! j = p ! j"
  proof (intro allI impI)
    fix j assume "j < length p"
    then show "pre ! j = p ! j" using bytes [OF c, of j] long by (simp add: nth_append)
  qed
  then show thesis by (rule that [OF root l w(3) long])
qed

text \<open>A key of ten bytes or more that ends inside the prefix of a node makes the deletion answer NULL.\<close>

lemma delete_inside_prefix:
  assumes "type_of node \<noteq> LEAF_NODE" and "header_holds (header_of node) pre" and "length p \<le> length pre"
    and "\<forall>j < length p. pre ! j = p ! j" and "10 \<le> n" and "n < length p"
  shows "recursive_delete node (take n p) 0 st = (None, False, st)"
proof -
  have len: "prefix_len (header_of node) = length pre" using assms(2) by (simp add: header_holds_def)
  have ten: "min (length pre) 10 = 10" using assms(3,5,6) by simp
  note c = check_prefix_ok [OF assms(2), where key = "take n p" and depth = 0, unfolded ten]
  have "check_prefix (header_of node) (take n p) 0 = 10"
  proof (rule ccontr)
    assume "check_prefix (header_of node) (take n p) 0 \<noteq> 10"
    then have lt: "check_prefix (header_of node) (take n p) 0 < 10" using c(1) by simp
    then show False using c(3) assms(4-6) by (simp add: key_at_def)
  qed
  moreover have "\<not> check_prefix_past (header_of node) (take n p) 0"
    unfolding check_prefix_past_def by (rule prefix_past_short) (use assms(5,6) in simp)
  ultimately show ?thesis using assms(3,5,6) by (auto simp: delete_inner [OF assms(1)] Let_def len)
qed

text \<open>
  C37: deleting a key that is not there can lose every key that is: when all keys (two or more) go
  through a common prefix of more than ten bytes, deleting a beginning of it that is at least ten bytes
  long reports \<open>CDSA_ERR_NOT_FOUND\<close>, makes the root NULL without giving back a node, and leaves the
  size as it was; no key is found any more.
\<close>

theorem art_delete_drops_tree:
  assumes "art_rep oth h t m" and "k1 \<in> dom m" and "k2 \<in> dom m" and "k1 \<noteq> k2"
    and "\<forall>k \<in> dom m. prefix p k" and "10 \<le> n" and "n < length p"
  shows "take n p \<notin> dom m \<and>
    cdsa_delete_art h (Some t) (Some (take n p)) = (h, Some (t\<lparr>art_root := None\<rparr>), CDSA_ERR_NOT_FOUND) \<and>
    cdsa_size_art (Some (t\<lparr>art_root := None\<rparr>)) = of_nat (card (dom m)) \<and> 2 \<le> card (dom m) \<and>
    (\<forall>k. cdsa_search_art h (Some (t\<lparr>art_root := None\<rparr>)) (Some k) = (h, None))"
proof -
  obtain node pre where root: "art_root t = Some node" and l: "type_of node \<noteq> LEAF_NODE"
    and pre: "header_holds (header_of node) pre" "length p \<le> length pre" "\<forall>j < length p. pre ! j = p ! j"
    by (rule common_prefix_root [OF assms(1-5)])
  let ?k = "take n p"
  note del = delete_inside_prefix [OF l pre assms(6,7)]
  have absent: "?k \<notin> dom m"
  proof
    assume "?k \<in> dom m"
    then have "prefix p ?k" by (rule assms(5) [rule_format])
    then show False using prefix_length_le assms(7) by fastforce
  qed
  have fin: "finite (dom m)" and sz: "art_size t = of_nat (card (dom m))" using assms(1) by (simp_all add: art_rep_def)
  have "card {k1, k2} \<le> card (dom m)" by (rule card_mono [OF fin]) (use assms(2,3) in simp)
  then have two: "2 \<le> card (dom m)" using assms(4) by simp
  have "cdsa_delete_art h (Some t) (Some ?k) = (h, Some (t\<lparr>art_root := None\<rparr>), CDSA_ERR_NOT_FOUND)"
    using root del by (simp add: cdsa_delete_art_def)
  then show ?thesis using absent sz two by (simp add: cdsa_size_art_def cdsa_search_art_def)
qed

text \<open>Two keys of twelve bytes that share eleven.\<close>

definition long_keys :: "art_call list" where
  "long_keys = [ArtInsert [97,97,97,97,97,97,97,97,97,97,97,98] (Some 1),
     ArtInsert [97,97,97,97,97,97,97,97,97,97,97,99] (Some 2)]"

theorem art_delete_drops_tree_witness:
  "\<exists>h t m. art_rep [] h t m \<and> [97,97,97,97,97,97,97,97,97,97,97,98] \<in> dom m \<and>
     cdsa_delete_art h (Some t) (Some [97,97,97,97,97,97,97,97,97,97]) =
       (h, Some (t\<lparr>art_root := None\<rparr>), CDSA_ERR_NOT_FOUND)"
proof -
  let ?p = "[97,97,97,97,97,97,97,97,97,97,97] :: cstring"
  let ?m = "fst (run_calls map_step Map.empty long_keys)"
  have m: "?m = [?p @ [98] \<mapsto> Some 1, ?p @ [99] \<mapsto> Some 2]" by (simp add: long_keys_def)
  have "calls_fit Map.empty long_keys" by (simp add: long_keys_def)
  then obtain h t where rep: "art_rep [] h t ?m" by (rule insert_run_rep)
  have in1: "?p @ [98] \<in> dom ?m" and in2: "?p @ [99] \<in> dom ?m" unfolding m by simp_all
  have ne: "?p @ [98] \<noteq> ?p @ [99]" by simp
  have pre: "\<forall>k \<in> dom ?m. prefix ?p k" unfolding m by simp
  have n: "(10 :: nat) \<le> 10" "10 < length ?p" by simp_all
  from art_delete_drops_tree [OF rep in1 in2 ne pre n]
  have "cdsa_delete_art h (Some t) (Some (take 10 ?p)) = (h, Some (t\<lparr>art_root := None\<rparr>), CDSA_ERR_NOT_FOUND)" by blast
  then show ?thesis using rep in1 by (intro exI [of _ h] exI [of _ t] exI [of _ ?m]) simp
qed

text \<open>
  C38: a \<open>Node256\<close> never shrinks: deleting a leaf below it clears the slot before
  \<open>remove_child_node256\<close> looks at it, so the count stays as it was, the node is not replaced by a smaller
  one however few children are left, and once the last one is gone the search for its first leaf
  does not end.
\<close>

theorem art_node256_keeps_count:
  assumes "prefix_len hr = 0" and "length cs = 256" and "n \<noteq> 48" and "k \<noteq> []"
    and "cs ! unat (k ! 0) = Some (ArtLeaf a k b v)"
  shows "recursive_delete (Node256 a256 hr cs n) k 0 (h, slab, sz) =
      (Some (Node256 a256 hr (cs[unat (k ! 0) := None]) n), True,
        (cdsa_free_track h (Some b), release_node slab (ArtLeaf a k b v), sz - 1)) \<and>
    find_minimum_leaf (Node256 a256 hr (replicate 256 None) n) = None"
proof -
  have nc: "next_child (Node256 a256 hr cs n) (k ! 0) = Some (ArtLeaf a k b v)"
    using assms(2,5) by (simp add: dense_child_def child_at_def)
  have k0: "key_at k 0 = k ! 0" using assms(4) by (simp add: key_at_def)
  have slot: "child_at (cs[unat (k ! 0) := None]) (unat (k ! 0)) = None"
    using assms(2) by (simp add: child_at_def)
  have "recursive_delete (Node256 a256 hr cs n) k 0 (h, slab, sz) =
      (Some (Node256 a256 hr (cs[unat (k ! 0) := None]) n), True,
        (cdsa_free_track h (Some b), release_node slab (ArtLeaf a k b v), sz - 1))"
    using assms(1,3,4) nc k0 slot
    by (simp add: delete_inner check_prefix_past_def delete_leaf Let_def find_child_node256_def remove_child_def shrink_node_def set_fault_def)
  moreover have "find_minimum_leaf (Node256 a256 hr (replicate 256 None) n) = None"
  proof -
    let ?e = "Node256 a256 hr (replicate 256 None) n"
    have stuck: "minimum_step ?e = None" by (auto simp: find_None_iff child_at_def)
    have "x \<noteq> ?e" if "find_minimum_leaf x = Some y" for x y
      using that
    proof (induction rule: find_minimum_leaf.raw_induct [rotated 1, consumes 1])
      case (1 f x y)
      show ?case
      proof
        assume "x = ?e"
        then have "f ?e = Some y" using 1(2) stuck by (simp add: Let_def del: minimum_step.simps)
        then show False using 1(1) by blast
      qed
    qed
    then show ?thesis by (cases "find_minimum_leaf ?e") blast+
  qed
  ultimately show ?thesis by blast
qed

theorem art_node256_keeps_count_witness:
  "find_minimum_leaf (Node256 0 empty_header (replicate 256 None) 1) = None \<and>
   (\<exists>st. recursive_delete (Node256 0 empty_header ((replicate 256 None)[97 := Some (ArtLeaf 0 [97] 1 None)]) 1) [97] 0
      (good_heap, example_slab, 1) = (Some (Node256 0 empty_header (replicate 256 None) 1), True, st))"
proof -
  let ?cs = "(replicate 256 None)[97 := Some (ArtLeaf 0 [97] 1 None)]"
  have c: "prefix_len empty_header = 0" "length ?cs = 256" "(1 :: 16 word) \<noteq> 48" "[97 :: byte] \<noteq> []"
    "?cs ! unat ([97 :: byte] ! 0) = Some (ArtLeaf 0 [97] 1 None)"
    by (simp_all add: empty_header_def)
  have "?cs[unat ([97 :: byte] ! 0) := None] = replicate 256 None" by (simp add: list_update_same_conv)
  then show ?thesis
    using art_node256_keeps_count [OF c, of 0 good_heap example_slab 1] by auto
qed

end
