(* ===== verification/Fuzzer.thy ===== *)
theory Fuzzer
  imports Art SkipList HashMap PriorityQueue Deque KString "HOL-Library.Monad_Syntax"
begin

text \<open>
  \<^verbatim>\<open>bench/bench_fuzzer.c\<close>: the program that drives seven containers at random on one allocator and
  reports whether all memory has come back.  It is the client the library is built for: tree, hash
  map, skip list, vector, priority queue, deque and string live side by side.

  The numbers \<open>rand\<close> returns are a parameter, a sequence; \<open>fz_draws\<close> counts the calls made so far, those of
  the skip list included.  Output is left out but for the final verdict.  \<open>None\<close> is a run that does not
  return.
\<close>

section \<open>Keys and values\<close>

definition FUZZ_OPS :: nat where "FUZZ_OPS = 1000000"
definition KEY_POOL_SIZE :: nat where "KEY_POOL_SIZE = 50000"
definition MAX_KEY_LEN :: nat where "MAX_KEY_LEN = 64"

definition int_max_cmp :: "bytes \<Rightarrow> bytes \<Rightarrow> bool" where
  "int_max_cmp a b \<longleftrightarrow> int_at a > int_at b"

text \<open>The loop over \<open>j\<close>, one key, and the loop over \<open>i\<close>; each gives back the number of draws.\<close>

primrec chaos_bytes :: "(nat \<Rightarrow> nat) \<Rightarrow> nat \<Rightarrow> nat \<Rightarrow> cstring \<times> nat" where
  "chaos_bytes rand n 0 = ([], n)"
| "chaos_bytes rand n (Suc len) =
     (let (cs, n') = chaos_bytes rand (Suc n) len in (of_nat (rand n mod 94 + 33) # cs, n'))"

definition chaos_key :: "(nat \<Rightarrow> nat) \<Rightarrow> nat \<Rightarrow> cstring \<times> nat" where
  "chaos_key rand n = chaos_bytes rand (Suc n) (rand n mod (MAX_KEY_LEN - 2) + 1)"

primrec chaos_keys :: "(nat \<Rightarrow> nat) \<Rightarrow> nat \<Rightarrow> nat \<Rightarrow> cstring list \<times> nat" where
  "chaos_keys rand n 0 = ([], n)"
| "chaos_keys rand n (Suc i) =
     (let (k, n1) = chaos_key rand n; (ks, n2) = chaos_keys rand n1 i in (k # ks, n2))"

definition generate_chaos_keys :: "(nat \<Rightarrow> nat) \<Rightarrow> nat \<Rightarrow> cstring list \<times> nat" where
  "generate_chaos_keys rand n = chaos_keys rand n KEY_POOL_SIZE"

text \<open>An \<open>int\<close> from \<open>rand\<close> in memory, as a pointer, and as a \<open>double\<close>.\<close>

definition int_bytes :: "nat \<Rightarrow> bytes" where
  "int_bytes v = map (\<lambda>i. of_nat (v div 2 ^ (8 * i))) [0..<4]"

definition int_pointer :: "nat \<Rightarrow> size_t option" where
  "int_pointer v = (if v = 0 then None else Some (of_nat v))"

fun floor_log2 :: "nat \<Rightarrow> nat" where
  "floor_log2 n = (if n < 2 then 0 else Suc (floor_log2 (n div 2)))"

declare floor_log2.simps [simp del]

definition int_double :: "nat \<Rightarrow> double" where
  "int_double v =
     (if v = 0 then 0
      else let e = floor_log2 v in of_nat ((1023 + e) * 2 ^ 52 + (v - 2 ^ e) * 2 ^ (52 - e)))"

section \<open>One round\<close>

record fuzz_state =
  fz_heap :: heap
  fz_draws :: nat
  fz_art :: "art_tree option"
  fz_map :: "hashmap option"
  fz_vec :: "vector option"
  fz_list :: "skiplist option"
  fz_pq :: "pqueue option"
  fz_dq :: "cdsa_deque option"
  fz_str :: "kstring option"

text \<open>The three indexes: 40 of 100 operations insert, 30 search, 30 delete.\<close>

definition fuzz_insert :: "(nat \<Rightarrow> nat) \<Rightarrow> cstring \<Rightarrow> nat \<Rightarrow> fuzz_state \<Rightarrow> fuzz_state option" where
  "fuzz_insert rand key val s = do {
     (h1, art, _) \<leftarrow> cdsa_insert_art (fz_heap s) (fz_art s) (Some key) (int_pointer val);
     (h2, hmap, _) \<leftarrow> insert_hashmap h1 (fz_map s) (Some key) (int_pointer val);
     (n, h3, sl, _) \<leftarrow> insert_skiplist rand (fz_draws s) h2 (fz_list s) (int_double val) (Some key);
     Some (s\<lparr>fz_heap := h3, fz_draws := n, fz_art := art, fz_map := hmap, fz_list := sl\<rparr>)
   }"

definition fuzz_search :: "cstring \<Rightarrow> fuzz_state \<Rightarrow> fuzz_state option" where
  "fuzz_search key s = do {
     let (h1, _) = cdsa_search_art (fz_heap s) (fz_art s) (Some key);
     _ \<leftarrow> get_hashmap (fz_map s) (Some key);
     Some (s\<lparr>fz_heap := h1\<rparr>)
   }"

definition fuzz_delete :: "cstring \<Rightarrow> nat \<Rightarrow> fuzz_state \<Rightarrow> fuzz_state option" where
  "fuzz_delete key val s = do {
     let (h1, art, _) = cdsa_delete_art (fz_heap s) (fz_art s) (Some key);
     (hmap, _) \<leftarrow> remove_hashmap (fz_map s) (Some key);
     (h2, sl, _) \<leftarrow> remove_skiplist h1 (fz_list s) (int_double val) (Some key);
     Some (s\<lparr>fz_heap := h2, fz_art := art, fz_map := hmap, fz_list := sl\<rparr>)
   }"

definition fuzz_index :: "(nat \<Rightarrow> nat) \<Rightarrow> nat \<Rightarrow> cstring \<Rightarrow> nat \<Rightarrow> fuzz_state \<Rightarrow> fuzz_state option" where
  "fuzz_index rand opn key val s =
     (if opn < 40 then fuzz_insert rand key val s
      else if opn < 70 then fuzz_search key s
      else fuzz_delete key val s)"

text \<open>Vector, deque and priority queue: pushes and pops in turn.\<close>

definition fuzz_push :: "nat \<Rightarrow> fuzz_state \<Rightarrow> fuzz_state" where
  "fuzz_push val s =
     (let (h1, vec, _) = cdsa_push_vector (fz_heap s) (fz_vec s) (Some (int_bytes val));
          (h2, dq, _) = cdsa_push_back_deque h1 (fz_dq s) (Some (int_bytes val));
          (h3, pq, _) = cdsa_push_pq h2 (fz_pq s) (Some (int_bytes val))
      in s\<lparr>fz_heap := h3, fz_vec := vec, fz_dq := dq, fz_pq := pq\<rparr>)"

definition fuzz_pop :: "fuzz_state \<Rightarrow> fuzz_state option" where
  "fuzz_pop s =
     (let vec = (if cdsa_size_vector (fz_vec s) > 0 then fst (cdsa_pop_vector (fz_vec s)) else fz_vec s);
          dq = (if cdsa_size_deque (fz_dq s) > 0 then fst (cdsa_pop_front_deque (fz_dq s)) else fz_dq s);
          s1 = s\<lparr>fz_vec := vec, fz_dq := dq\<rparr>
      in if cdsa_size_pq (fz_pq s) > 0 then do {
           (h1, pq, _, _) \<leftarrow> cdsa_pop_pq (fz_heap s1) (fz_pq s1) True;
           Some (s1\<lparr>fz_heap := h1, fz_pq := pq\<rparr>)
         } else Some s1)"

definition fuzz_linear :: "nat \<Rightarrow> nat \<Rightarrow> fuzz_state \<Rightarrow> fuzz_state option" where
  "fuzz_linear opn val s = (if opn mod 2 = 0 then Some (fuzz_push val s) else fuzz_pop s)"

text \<open>The string, emptied when it has grown beyond 1000 bytes.\<close>

definition fuzz_text :: "nat \<Rightarrow> cstring \<Rightarrow> fuzz_state \<Rightarrow> fuzz_state option" where
  "fuzz_text opn key s =
     (if opn mod 5 = 0 then do {
        (h1, str, _) \<leftarrow> append_kstring (fz_heap s) (fz_str s) (Some key);
        Some (if cdsa_size_kstring str > 1000
              then (case cdsa_clear_kstring h1 str of (h2, str2) \<Rightarrow> s\<lparr>fz_heap := h2, fz_str := str2\<rparr>)
              else s\<lparr>fz_heap := h1, fz_str := str\<rparr>)
      } else Some s)"

definition fuzz_round :: "(nat \<Rightarrow> nat) \<Rightarrow> cstring list \<Rightarrow> fuzz_state \<Rightarrow> fuzz_state option" where
  "fuzz_round rand keys s =
     (let n = fz_draws s;
          opn = rand n mod 100;
          idx = rand (n + 1) mod KEY_POOL_SIZE;
          val = rand (n + 2)
      in do {
        s1 \<leftarrow> fuzz_index rand opn (keys ! idx) val (s\<lparr>fz_draws := n + 3\<rparr>);
        s2 \<leftarrow> fuzz_linear opn val s1;
        fuzz_text opn (keys ! (idx mod 100)) s2
      })"

primrec fuzz_rounds :: "(nat \<Rightarrow> nat) \<Rightarrow> cstring list \<Rightarrow> nat \<Rightarrow> fuzz_state \<Rightarrow> fuzz_state option" where
  "fuzz_rounds rand keys 0 s = Some s"
| "fuzz_rounds rand keys (Suc i) s = do { s1 \<leftarrow> fuzz_round rand keys s; fuzz_rounds rand keys i s1 }"

section \<open>The program\<close>

definition fuzz_setup :: "heap \<Rightarrow> nat \<Rightarrow> fuzz_state" where
  "fuzz_setup h n =
     (let (h1, art) = cdsa_create_art h;
          (h2, hmap) = cdsa_create_hashmap h1 1000000;
          (h3, vec) = cdsa_create_vector h2 4;
          (h4, sl) = cdsa_create_skiplist h3;
          (h5, pq) = cdsa_create_pq h4 4 int_max_cmp;
          (h6, dq) = cdsa_create_deque h5 2048 4;
          (h7, str) = cdsa_create_kstring h6
      in \<lparr>fz_heap = h7, fz_draws = n, fz_art = art, fz_map = hmap, fz_vec = vec, fz_list = sl,
          fz_pq = pq, fz_dq = dq, fz_str = str\<rparr>)"

definition fuzz_teardown :: "fuzz_state \<Rightarrow> heap option" where
  "fuzz_teardown s = do {
     let h1 = cdsa_free_art (fz_heap s) (fz_art s);
     let h2 = cdsa_free_hashmap h1 (fz_map s);
     let h3 = cdsa_free_vector h2 (fz_vec s);
     h4 \<leftarrow> cdsa_free_skiplist h3 (fz_list s);
     let h5 = cdsa_free_pq h4 (fz_pq s);
     let h6 = cdsa_free_deque h5 (fz_dq s);
     Some (cdsa_free_kstring h6 (fz_str s))
   }"

text \<open>The verdict is \<open>True\<close> when the program reports that no memory is left.\<close>

definition fuzz_main :: "(nat \<Rightarrow> nat) \<Rightarrow> heap \<Rightarrow> (heap \<times> bool) option" where
  "fuzz_main rand h = do {
     let (keys, n) = generate_chaos_keys rand 0;
     s \<leftarrow> fuzz_rounds rand keys FUZZ_OPS (fuzz_setup h n);
     h1 \<leftarrow> fuzz_teardown s;
     Some (h1, mem_used h1 = 0)
   }"

end
