(* ===== verification/Tenants.thy ===== *)
theory Tenants
  imports Tracking_Heap
begin

text \<open>
  Several containers on one heap.  What a container stands for depends on the heap only through the blocks
  it holds, and an operation leaves the blocks of all others alone; so containers side by side keep
  their meaning whatever is done to one of them.  The contract is a locale; two containers that
  keep it are again one that does.
\<close>

section \<open>Steps that stay within their blocks\<close>

type_synonym blocks = "(block_id \<times> size_t) list"

abbreviation ids_of :: "blocks \<Rightarrow> block_id set" where
  "ids_of bs \<equiv> fst ` set bs"

text \<open>A heap on which nothing has gone wrong and libc refuses nothing.\<close>

definition calm :: "heap \<Rightarrow> bool" where
  "calm h \<longleftrightarrow> heap_ok h \<and> never_refuses h \<and> \<not> fault h"

lemma calmD: "calm h \<Longrightarrow> heap_ok h" "calm h \<Longrightarrow> never_refuses h" "calm h \<Longrightarrow> \<not> fault h"
  by (simp_all add: calm_def)

lemma calm_after: "calm h \<Longrightarrow> heap_ok h' \<Longrightarrow> libc_refuses h' = libc_refuses h \<Longrightarrow> fault h' = fault h \<Longrightarrow> calm h'"
  by (simp add: calm_def never_refuses_def)

definition keeps :: "heap \<Rightarrow> blocks \<Rightarrow> heap \<Rightarrow> blocks \<Rightarrow> bool" where
  "keeps h bs h' bs' \<longleftrightarrow> calm h' \<and> owns_all h' bs' \<and> others (ids_of bs') h' = others (ids_of bs) h"

lemma keepsI:
  "calm h' \<Longrightarrow> owns_all h' bs' \<Longrightarrow> others (ids_of bs') h' = others (ids_of bs) h \<Longrightarrow> keeps h bs h' bs'"
  by (simp add: keeps_def)

lemma keepsD:
  assumes "keeps h bs h' bs'"
  shows "calm h'" and "owns_all h' bs'" and "others (ids_of bs') h' = others (ids_of bs) h"
  using assms by (simp_all add: keeps_def)

lemma keeps_refl: "calm h \<Longrightarrow> owns_all h bs \<Longrightarrow> keeps h bs h bs"
  by (simp add: keeps_def)

lemma keeps_trans: "keeps h as h1 bs \<Longrightarrow> keeps h1 bs h2 cs \<Longrightarrow> keeps h as h2 cs"
  by (simp add: keeps_def)

lemma keeps_permute:
  "mset bs = mset cs \<Longrightarrow> mset bs' = mset cs' \<Longrightarrow> keeps h bs h' bs' = keeps h cs h' cs'"
  unfolding keeps_def using owns_all_permute [of bs' cs' h'] by (metis set_mset_mset)

lemma others_Un: "others (A \<union> B) h = filter (\<lambda>(k, _). k \<notin> B) (others A h)"
  by (auto simp: others_def intro!: filter_cong)

lemma owns_others_iff: "p \<notin> A \<Longrightarrow> owns h p n \<longleftrightarrow> map_of (others A h) p = Some \<lparr>hdr = n, raw = n + 8\<rparr>"
  by (simp add: owns_def others_def map_of_filter)

text \<open>The frame rule.\<close>

lemma keeps_frame:
  assumes "keeps h bs h' bs'" and "owns_all h (bs @ rest)"
  shows "keeps h (bs @ rest) h' (bs' @ rest)" and "owns_all h' rest"
proof -
  note k = keepsD [OF assms(1)]
  from assms(2) have r: "owns_all h rest" "ids_of bs \<inter> ids_of rest = {}" by (simp_all add: owns_all_append)
  have kept: "p \<notin> ids_of bs' \<and> owns h' p n" if "(p, n) \<in> set rest" for p n
  proof -
    have p: "p \<notin> ids_of bs" using that r(2) by force
    have "owns h p n" using that r(1) by (auto simp: owns_all_def)
    then have "map_of (others (ids_of bs') h') p = Some \<lparr>hdr = n, raw = n + 8\<rparr>"
      using owns_others_iff [OF p] k(3) by simp
    moreover from this have "p \<notin> ids_of bs'" by (force simp: others_def dest!: map_of_SomeD)
    ultimately show ?thesis using owns_others_iff by blast
  qed
  show rest: "owns_all h' rest" using r(1) kept by (auto simp: owns_all_def)
  have "ids_of bs' \<inter> ids_of rest = {}" unfolding disjoint_iff using kept by (metis imageE prod.collapse)
  then have "owns_all h' (bs' @ rest)" using rest k(2) by (simp add: owns_all_append)
  moreover have "others (ids_of (bs' @ rest)) h' = others (ids_of (bs @ rest)) h"
    using k(3) by (simp only: set_append image_Un others_Un)
  ultimately show "keeps h (bs @ rest) h' (bs' @ rest)" using k(1) by (intro keepsI)
qed

lemma keeps_frame_left:
  assumes "keeps h bs h' bs'" and "owns_all h (rest @ bs)"
  shows "keeps h (rest @ bs) h' (rest @ bs')" and "owns_all h' rest"
proof -
  have "owns_all h (bs @ rest)" using assms(2) owns_all_permute [of "bs @ rest" "rest @ bs" h] by simp
  note f = keeps_frame [OF assms(1) this]
  show "owns_all h' rest" by (rule f(2))
  show "keeps h (rest @ bs) h' (rest @ bs')"
    using f(1) keeps_permute [of "bs @ rest" "rest @ bs" "bs' @ rest" "rest @ bs'"] by simp
qed

text \<open>A new container, and one that is given back.\<close>

lemma keeps_new:
  assumes "keeps h [] h' bs" and "owns_all h rest"
  shows "keeps h rest h' (bs @ rest)"
  using keeps_frame(1) [OF assms(1), of rest] assms(2) by simp

text \<open>A block obtained, a block given back.\<close>

lemma keeps_malloc:
  assumes "cdsa_malloc_track h n = (h', Some p)" and "calm h" and "owns_all h bs" and "unat n + 8 < size_bound"
  shows "keeps h bs h' ((p, n) # bs)"
proof -
  note c = calmD [OF assms(2)] and a = malloc_owns_all [OF calmD(1) [OF assms(2)] assms(1)]
  have "calm h'" using calm_after [OF assms(2) a(1,4) a(6) [OF assms(4)]] .
  then show ?thesis using a(2) [OF assms(3)] a(3) [of "ids_of bs"] by (intro keepsI) simp_all
qed

lemma keeps_free:
  assumes "calm h" and "owns_all h ((p, n) # bs)"
  shows "keeps h ((p, n) # bs) (cdsa_free_track h (Some p)) bs"
proof -
  note f = free_owns_all [OF assms(2)]
  have "calm (cdsa_free_track h (Some p))" using calm_after [OF assms(1) f(5) [OF calmD(1) [OF assms(1)]] f(4,3)] .
  then show ?thesis using f(1) f(2) [of "ids_of bs"] by (intro keepsI) simp_all
qed

section \<open>The contract\<close>

locale heap_tenant =
  fixes holds :: "heap \<Rightarrow> 's \<Rightarrow> blocks \<Rightarrow> bool"
  assumes holds_calm: "holds h x bs \<Longrightarrow> calm h"
    and holds_owns: "holds h x bs \<Longrightarrow> owns_all h bs"
    and holds_stable: "holds h x bs \<Longrightarrow> calm h' \<Longrightarrow> owns_all h' bs \<Longrightarrow> holds h' x bs"
begin

lemma stays: "holds h x bs \<Longrightarrow> \<exists>bs'. holds h x bs' \<and> keeps h bs h bs'"
  using keeps_refl [OF holds_calm holds_owns] by blast

lemma neighbour_keeps:
  assumes "holds h x rest" and "keeps h bs h' bs'" and "owns_all h (bs @ rest)"
  shows "holds h' x rest"
  using holds_stable [OF assms(1) keepsD(1) [OF assms(2)] keeps_frame(2) [OF assms(2,3)]] .

lemma neighbour_keeps_left:
  assumes "holds h x rest" and "keeps h bs h' bs'" and "owns_all h (rest @ bs)"
  shows "holds h' x rest"
  using holds_stable [OF assms(1) keepsD(1) [OF assms(2)] keeps_frame_left(2) [OF assms(2,3)]] .

end

definition both :: "(heap \<Rightarrow> 'a \<Rightarrow> blocks \<Rightarrow> bool) \<Rightarrow> (heap \<Rightarrow> 'b \<Rightarrow> blocks \<Rightarrow> bool) \<Rightarrow>
    heap \<Rightarrow> 'a \<times> 'b \<Rightarrow> blocks \<Rightarrow> bool" where
  "both P Q h xy bs \<longleftrightarrow>
     (\<exists>as cs. bs = as @ cs \<and> owns_all h bs \<and> P h (fst xy) as \<and> Q h (snd xy) cs)"

lemma both_weaken:
  assumes "both P Q h (x, y) bs" and "\<And>cs. P h x cs \<Longrightarrow> P' h x cs" and "\<And>cs. Q h y cs \<Longrightarrow> Q' h y cs"
  shows "both P' Q' h (x, y) bs"
  using assms unfolding both_def fst_conv snd_conv by blast

lemma bothE:
  assumes "both P Q h (x, y) bs"
  obtains as cs where "P h x as" and "Q h y cs"
  using assms by (auto simp: both_def)

locale two_tenants = left: heap_tenant P + right: heap_tenant Q
  for P :: "heap \<Rightarrow> 'a \<Rightarrow> blocks \<Rightarrow> bool" and Q :: "heap \<Rightarrow> 'b \<Rightarrow> blocks \<Rightarrow> bool"
begin

sublocale both: heap_tenant "both P Q"
proof (unfold_locales, goal_cases)
  case (1 h x bs)
  then show ?case by (auto simp: both_def dest: left.holds_calm)
next
  case (2 h x bs)
  then show ?case by (auto simp: both_def)
next
  case (3 h x bs h')
  then obtain as cs where b: "bs = as @ cs" "P h (fst x) as" "Q h (snd x) cs" by (auto simp: both_def)
  then show ?case
    using 3(2,3) left.holds_stable [OF b(2) 3(2)] right.holds_stable [OF b(3) 3(2)]
    by (auto simp: both_def owns_all_append)
qed

text \<open>A step of one of them is a step of both; what the container that moves stands for may change.\<close>

lemma left_step:
  assumes "both P Q h (x, y) bs" and "\<And>as. P h x as \<Longrightarrow> \<exists>as'. P' h' x' as' \<and> keeps h as h' as'"
  shows "\<exists>bs'. both P' Q h' (x', y) bs' \<and> keeps h bs h' bs'"
proof -
  from assms(1) obtain as cs where b: "bs = as @ cs" "owns_all h (as @ cs)" "P h x as" "Q h y cs"
    by (auto simp: both_def)
  from assms(2) [OF b(3)] obtain as' where a: "P' h' x' as'" "keeps h as h' as'" by blast
  have "both P' Q h' (x', y) (as' @ cs)"
    using a(1) right.neighbour_keeps [OF b(4) a(2) b(2)] keepsD(2) [OF keeps_frame(1) [OF a(2) b(2)]]
    by (auto simp: both_def)
  then show ?thesis using keeps_frame(1) [OF a(2) b(2)] b(1) by blast
qed

lemma right_step:
  assumes "both P Q h (x, y) bs" and "\<And>cs. Q h y cs \<Longrightarrow> \<exists>cs'. Q' h' y' cs' \<and> keeps h cs h' cs'"
  shows "\<exists>bs'. both P Q' h' (x, y') bs' \<and> keeps h bs h' bs'"
proof -
  from assms(1) obtain as cs where b: "bs = as @ cs" "owns_all h (as @ cs)" "P h x as" "Q h y cs"
    by (auto simp: both_def)
  from assms(2) [OF b(4)] obtain cs' where c: "Q' h' y' cs'" "keeps h cs h' cs'" by blast
  have "both P Q' h' (x, y') (as @ cs')"
    using c(1) left.neighbour_keeps_left [OF b(3) c(2) b(2)] keepsD(2) [OF keeps_frame_left(1) [OF c(2) b(2)]]
    by (auto simp: both_def)
  then show ?thesis using keeps_frame_left(1) [OF c(2) b(2)] b(1) by blast
qed

text \<open>Both are created one after the other, and given back one after the other.\<close>

lemma both_new:
  assumes "P h x as \<and> keeps h0 [] h as" and "Q h1 y cs \<and> keeps h [] h1 cs"
  shows "both P Q h1 (x, y) (as @ cs) \<and> keeps h0 [] h1 (as @ cs)"
proof -
  from assms have P: "P h x as" and Q: "Q h1 y cs" and k: "keeps h0 [] h as" "keeps h [] h1 cs" by simp_all
  have "owns_all h (as @ [])" using left.holds_owns [OF P] by simp
  note f = keeps_frame_left [OF k(2) this]
  have "both P Q h1 (x, y) (as @ cs)"
    using left.holds_stable [OF P keepsD(1) [OF k(2)] f(2)] Q keepsD(2) [OF f(1)] by (auto simp: both_def)
  moreover have "keeps h0 [] h1 (as @ cs)" using keeps_trans [OF k(1)] f(1) by simp
  ultimately show ?thesis ..
qed

lemma left_freed:
  assumes "both P Q h (x, y) bs" and "\<And>as. P h x as \<Longrightarrow> keeps h as h' []"
  shows "\<exists>cs. Q h' y cs \<and> keeps h bs h' cs"
proof -
  from assms(1) obtain as cs where b: "bs = as @ cs" "owns_all h (as @ cs)" "P h x as" "Q h y cs"
    by (auto simp: both_def)
  have "keeps h bs h' ([] @ cs)" using keeps_frame(1) [OF assms(2) [OF b(3)] b(2)] b(1) by simp
  moreover have "Q h' y cs" by (rule right.neighbour_keeps [OF b(4) assms(2) [OF b(3)] b(2)])
  ultimately show ?thesis by auto
qed

end

end
