(* ===== verification/Fuzzer_Tenants.thy ===== *)
theory Fuzzer_Tenants
  imports Fuzzer Tenants Robin_Hood Skip_Refinement Art_Refinement
begin

text \<open>
  The seven containers of the fuzzer as tenants of one heap: for each, what it holds, and that the
  operations the fuzzer calls keep that and leave all other blocks alone.
\<close>

section \<open>Vector\<close>

definition vec_blocks :: "vector \<Rightarrow> blocks" where
  "vec_blocks v = [(v_data v, v_capacity v * v_elem_size v), (v_self v, sizeof_vector)]"

text \<open>\<open>n\<close> more elements may come.\<close>

definition vec_holds :: "nat \<Rightarrow> heap \<Rightarrow> vector \<Rightarrow> blocks \<Rightarrow> bool" where
  "vec_holds n h v bs \<longleftrightarrow> calm h \<and> vec_ok h v \<and> v_elem_size v = 4 \<and> bs = vec_blocks v \<and>
     (\<exists>m. unat (v_capacity v) \<le> 4 + 2 * m \<and> unat (v_size v) \<le> m \<and> m + n \<le> FUZZ_OPS)"

lemma vector_owned_blocks: "vector_owned h v \<longleftrightarrow> owns_all h (vec_blocks v)"
  by (auto simp: vector_owned_def vec_blocks_def)

lemma vec_frame_blocks: "vec_frame h v = others (ids_of (vec_blocks v)) h"
  by (simp add: vec_blocks_def insert_commute)

lemma vec_tenant: "heap_tenant (vec_holds n)"
  by unfold_locales (auto simp: vec_holds_def vec_ok_def vector_owned_blocks calm_def)

interpretation vec: heap_tenant "vec_holds n" for n
  by (rule vec_tenant)

lemma vec_holds_less: "vec_holds n h v bs \<Longrightarrow> k \<le> n \<Longrightarrow> vec_holds k h v bs"
  unfolding vec_holds_def by (metis add_left_mono le_trans)

lemma vec_push:
  assumes "vec_holds (Suc n) h v bs" and "length e = 4"
  shows "\<exists>h' v' s bs'. cdsa_push_vector h (Some v) (Some e) = (h', Some v', s) \<and> vec_holds n h' v' bs' \<and>
    keeps h bs h' bs'"
proof -
  from assms(1) obtain m where c: "calm h" "vec_ok h v" "v_elem_size v = 4" "bs = vec_blocks v"
    and m: "unat (v_capacity v) \<le> 4 + 2 * m" "unat (v_size v) \<le> m" "m + Suc n \<le> FUZZ_OPS"
    by (auto simp: vec_holds_def)
  have room: "vec_room v" using m c(3) by (simp add: vec_room_def FUZZ_OPS_def)
  have e: "vec_elem v e" using assms(2) c(3) by simp
  obtain h' r s where p: "cdsa_push_vector h (Some v) (Some e) = (h', r, s)" by (metis prod.collapse)
  from vec_okD(2,3) [OF c(2)] e room [unfolded vec_room_def] p obtain v' where v': "r = Some v'" "s = CDSA_OK"
    by (cases rule: push_vector_cases) (use calmD(2) [OF c(1)] in auto)
  note k = push_vector_ok [OF c(2) e room p [unfolded v']]
  have calm: "calm h'" using calm_after [OF c(1) vec_okD(1) [OF k(1)] k(8,5)] .
  have "unat (v_size v') = Suc (unat (v_size v))"
    using arg_cong [OF k(2), of length] by simp
  then have "unat (v_capacity v') \<le> 4 + 2 * Suc m \<and> unat (v_size v') \<le> Suc m \<and> Suc m + n \<le> FUZZ_OPS"
    using k(7) m by simp
  then have "vec_holds n h' v' (vec_blocks v')" unfolding vec_holds_def using calm k(1,3) c(3) by metis
  moreover have "keeps h bs h' (vec_blocks v')"
    using calm vec_okD(3) [OF k(1)] k(6) c(4)
    by (intro keepsI) (simp_all only: vector_owned_blocks vec_frame_blocks)
  ultimately show ?thesis using p v' by blast
qed

lemma vec_pop:
  assumes "vec_holds n h v bs" and "0 < cdsa_size_vector (Some v)"
  shows "\<exists>v' s. cdsa_pop_vector (Some v) = (Some v', s) \<and> vec_holds n h v' bs"
proof -
  from assms(1) obtain m where c: "calm h" "vec_ok h v" "v_elem_size v = 4" "bs = vec_blocks v"
    and m: "unat (v_capacity v) \<le> 4 + 2 * m" "unat (v_size v) \<le> m" "m + n \<le> FUZZ_OPS"
    by (auto simp: vec_holds_def)
  have ne: "vec_list v \<noteq> []" using assms(2) by (simp add: vec_list_Nil cdsa_size_vector_def)
  note p = pop_vector_ok [OF c(2) ne]
  let ?v = "v\<lparr>v_size := v_size v - 1, v_version := v_version v + 1\<rparr>"
  have "unat (v_size ?v) = unat (v_size v) - 1"
    using arg_cong [OF p(3), of length] by simp
  then have "unat (v_capacity ?v) \<le> 4 + 2 * m \<and> unat (v_size ?v) \<le> m \<and> m + n \<le> FUZZ_OPS" using m by simp
  then have "vec_holds n h ?v bs" unfolding vec_holds_def using c p(2) by (auto simp: vec_blocks_def)
  then show ?thesis using p(1) by blast
qed

lemma vec_new:
  assumes "calm h" and "n \<le> FUZZ_OPS"
  shows "\<exists>h' v bs. cdsa_create_vector h 4 = (h', Some v) \<and> vec_holds n h' v bs \<and> keeps h [] h' bs"
proof -
  note ca = calmD [OF assms(1)]
  obtain h' v where c: "cdsa_create_vector h 4 = (h', Some v)" using create_vector_succeeds [OF ca(2)] by blast
  note i = create_vector_inv [OF c, simplified] and o = create_vector_owned [OF c ca(1)]
  have calm: "calm h'" using calm_after [OF assms(1) o(1,4) i(5)] .
  have "vec_ok h' v" using i(1) o(1,2) by (simp add: vec_ok_def)
  then have "vec_holds n h' v (vec_blocks v)"
    unfolding vec_holds_def using calm i(2,3,6) assms(2) by (intro conjI exI [of _ 0]) (simp_all add: vec_list_Nil)
  moreover have "keeps h [] h' (vec_blocks v)"
    using calm o(2,3) by (intro keepsI) (simp_all only: vector_owned_blocks vec_frame_blocks list.set image_empty others_empty)
  ultimately show ?thesis using c by blast
qed

lemma vec_free:
  assumes "vec_holds n h v bs"
  shows "keeps h bs (cdsa_free_vector h (Some v)) []"
proof -
  from assms have c: "calm h" "owns_all h (vec_blocks v)" "bs = vec_blocks v"
    by (auto simp: vec_holds_def vec_ok_def vector_owned_blocks)
  note d = keeps_free [OF c(1) c(2) [unfolded vec_blocks_def]]
  note s = keeps_free [OF keepsD(1,2) [OF d]]
  show ?thesis
    using keeps_trans [OF d s] by (simp add: cdsa_free_vector_def c(3) vec_blocks_def)
qed

section \<open>Deque\<close>

definition dq_blocks :: "cdsa_deque \<Rightarrow> blocks" where
  "dq_blocks d = [(rb_data (dq_rb d), rb_capacity (dq_rb d) * rb_elem_size (dq_rb d)),
     (rb_self (dq_rb d), sizeof_ringbuffer), (dq_self d, sizeof_deque)]"

definition dq_holds :: "heap \<Rightarrow> cdsa_deque \<Rightarrow> blocks \<Rightarrow> bool" where
  "dq_holds h d bs \<longleftrightarrow> calm h \<and> ringbuffer_inv (dq_rb d) \<and> rb_elem_size (dq_rb d) = 4 \<and>
     bs = dq_blocks d \<and> owns_all h bs"

lemma ringbuffer_owned_blocks: "ringbuffer_owned h (dq_rb d) \<longleftrightarrow> owns_all h (butlast (dq_blocks d))"
  by (auto simp: ringbuffer_owned_def dq_blocks_def)

lemma dq_holds_rb: "dq_holds h d bs \<Longrightarrow> rb_ok h (dq_rb d)"
  by (auto simp: dq_holds_def rb_ok_def ringbuffer_owned_def dq_blocks_def calm_def)

lemma dq_holds_shape:
  assumes "dq_holds h d bs" and "rb_ok h r" and "rb_shape r = rb_shape (dq_rb d)"
  shows "dq_holds h (d\<lparr>dq_rb := r\<rparr>) bs"
proof -
  have sh: "rb_capacity r = rb_capacity (dq_rb d)" "rb_elem_size r = rb_elem_size (dq_rb d)"
    "rb_self r = rb_self (dq_rb d)" "rb_data r = rb_data (dq_rb d)"
    using assms(3) unfolding rb_shape_def by (auto simp: size_t_eq_iff)
  have "dq_blocks (d\<lparr>dq_rb := r\<rparr>) = dq_blocks d" by (simp add: dq_blocks_def sh)
  then show ?thesis using assms(1,2) sh(2) by (auto simp: dq_holds_def rb_ok_def)
qed

lemma dq_tenant: "heap_tenant dq_holds"
  by unfold_locales (auto simp: dq_holds_def)

interpretation dq: heap_tenant dq_holds
  by (rule dq_tenant)

lemma dq_push:
  assumes "dq_holds h d bs" and "length e = 4"
  shows "\<exists>d' s. cdsa_push_back_deque h (Some d) (Some e) = (h, Some d', s) \<and> dq_holds h d' bs"
proof (cases "rb_size (dq_rb d) = rb_capacity (dq_rb d)")
  case True
  then have "cdsa_push_back_deque h (Some d) (Some e) = (h, Some (d\<lparr>dq_rb := dq_rb d\<rparr>), CDSA_ERR_FULL)"
    using ringbuffer_full(1) by (simp add: cdsa_push_back_deque_def)
  then show ?thesis using assms(1) by auto
next
  case False
  have e: "length e = unat (rb_elem_size (dq_rb d))" using assms by (simp add: dq_holds_def)
  from push_back_ringbuffer_ok [OF dq_holds_rb [OF assms(1)] e False] obtain r where
    r: "cdsa_push_back_ringbuffer h (Some (dq_rb d)) (Some e) = (h, Some r, CDSA_OK)" "rb_ok h r"
      "rb_shape r = rb_shape (dq_rb d)" by blast
  then show ?thesis using dq_holds_shape [OF assms(1) r(2,3)] by (simp add: cdsa_push_back_deque_def)
qed

lemma dq_pop:
  assumes "dq_holds h d bs" and "0 < cdsa_size_deque (Some d)"
  shows "\<exists>d' s. cdsa_pop_front_deque (Some d) = (Some d', s) \<and> dq_holds h d' bs"
proof -
  have "length (rb_list (dq_rb d)) \<noteq> 0"
    using assms(2) by (auto simp: cdsa_size_deque_def cdsa_size_ringbuffer_def size_t_less_iff)
  then obtain x xs where "rb_list (dq_rb d) = x # xs" by (cases "rb_list (dq_rb d)") simp_all
  from pop_front_ringbuffer_ok [OF dq_holds_rb [OF assms(1)] this] obtain r where
    r: "cdsa_pop_front_ringbuffer (Some (dq_rb d)) = (Some r, CDSA_OK)" "rb_ok h r"
      "rb_shape r = rb_shape (dq_rb d)" by blast
  then show ?thesis using dq_holds_shape [OF assms(1) r(2,3)] by (simp add: cdsa_pop_front_deque_def)
qed

lemma dq_new:
  assumes "calm h"
  shows "\<exists>h' d bs. cdsa_create_deque h 2048 4 = (h', Some d) \<and> dq_holds h' d bs \<and> keeps h [] h' bs"
proof -
  obtain h1 p where m: "cdsa_malloc_track h sizeof_deque = (h1, Some p)"
    using never_refuses_malloc [OF calmD(2) [OF assms]] by (metis option.exhaust prod.exhaust)
  have k1: "keeps h [] h1 [(p, sizeof_deque)]"
    by (rule keeps_malloc [OF m assms]) (simp_all add: sizeof_deque_def)
  note c1 = calmD [OF keepsD(1) [OF k1]]
  obtain h' r where c: "cdsa_create_ringbuffer h1 2048 4 = (h', Some r)"
    using create_ringbuffer_succeeds [OF c1(2)] by blast
  note r = create_ringbuffer_ok [OF c c1(1), simplified]
  let ?d = "\<lparr>dq_self = p, dq_rb = r\<rparr>" and ?bs = "butlast (dq_blocks \<lparr>dq_self = p, dq_rb = r\<rparr>)"
  have calm: "calm h'" using calm_after [OF keepsD(1) [OF k1] _ r(7,5)] r(1) by (simp add: rb_ok_def)
  have "owns_all h' ?bs" using r(1) ringbuffer_owned_blocks [of h' ?d] by (simp add: rb_ok_def)
  then have k2: "keeps h1 [] h' ?bs"
    using calm r(6) by (intro keepsI) (simp_all add: dq_blocks_def insert_commute)
  have "keeps h1 [(p, sizeof_deque)] h' (?bs @ [(p, sizeof_deque)])"
    by (rule keeps_new [OF k2 keepsD(2) [OF k1]])
  then have k: "keeps h [] h' (dq_blocks ?d)" using keeps_trans [OF k1] by (simp add: dq_blocks_def)
  have "dq_holds h' ?d (dq_blocks ?d)" using calm r(1,4) keepsD(2) [OF k] by (simp add: dq_holds_def rb_ok_def)
  then show ?thesis using m c k by (auto simp: cdsa_create_deque_def)
qed

lemma keeps_free3:
  assumes "calm h" and "owns_all h [(p, l), (q, m), (r, n)]"
  shows "keeps h [(p, l), (q, m), (r, n)]
    (cdsa_free_track (cdsa_free_track (cdsa_free_track h (Some p)) (Some q)) (Some r)) []"
proof -
  note a = keeps_free [OF assms]
  note b = keeps_free [OF keepsD(1,2) [OF a]]
  note c = keeps_free [OF keepsD(1,2) [OF b]]
  show ?thesis using keeps_trans [OF keeps_trans [OF a b] c] .
qed

lemma dq_free:
  assumes "dq_holds h d bs"
  shows "keeps h bs (cdsa_free_deque h (Some d)) []"
proof -
  from assms have "calm h" "bs = dq_blocks d" "owns_all h (dq_blocks d)" by (auto simp: dq_holds_def)
  then show ?thesis
    using keeps_free3 [OF _ \<open>owns_all h (dq_blocks d)\<close> [unfolded dq_blocks_def]]
    by (simp add: dq_blocks_def cdsa_free_deque_def cdsa_free_ringbuffer_def)
qed

section \<open>String\<close>

definition str_blocks :: "kstring \<Rightarrow> blocks" where
  "str_blocks s = [(ks_data s, ks_capacity s), (ks_self s, sizeof_kstring)]"

text \<open>Between two rounds the text has at most 1000 bytes.\<close>

definition str_holds :: "heap \<Rightarrow> kstring \<Rightarrow> blocks \<Rightarrow> bool" where
  "str_holds h s bs \<longleftrightarrow> calm h \<and> ks_ok h s \<and> bs = str_blocks s \<and> length (ks_text s) \<le> 1000"

lemma ks_owned_blocks: "ks_owned h s \<longleftrightarrow> owns_all h (str_blocks s)"
  by (auto simp: ks_owned_def str_blocks_def)

lemma ks_frame_blocks: "ks_frame h s = others (ids_of (str_blocks s)) h"
  by (simp add: str_blocks_def insert_commute)

lemma str_tenant: "heap_tenant str_holds"
  by unfold_locales (auto simp: str_holds_def ks_ok_def ks_owned_blocks calm_def)

interpretation str: heap_tenant str_holds
  by (rule str_tenant)

lemma str_append:
  assumes "str_holds h s bs" and "0 \<notin> set key" and "length key \<le> 62"
  shows "\<exists>h' s' t. append_kstring h (Some s) (Some key) = Some (h', Some s', t) \<and> ks_ok h' s' \<and> calm h' \<and>
    ks_text s' = ks_text s @ key \<and> keeps h bs h' (str_blocks s')"
proof -
  from assms(1) have c: "calm h" "ks_ok h s" "bs = str_blocks s" "length (ks_text s) \<le> 1000"
    by (simp_all add: str_holds_def)
  have inv: "ks_inv s" using c(2) by (simp add: ks_ok_def)
  have fits: "2 * (unat (ks_size s) + length key + 1) + 8 < size_bound"
    using ks_invD(4) [OF inv] c(4) assms(3) by simp
  from append_kstring_cases [OF c(2) assms(2) fits] calmD(2) [OF c(1)] obtain h' s' where
    a: "append_kstring h (Some s) (Some key) = Some (h', Some s', CDSA_OK)" "ks_ok h' s'"
      "ks_text s' = ks_text s @ key" "fault h' = fault h" "ks_frame h' s' = ks_frame h s"
      "libc_refuses h' = libc_refuses h" by blast
  have calm: "calm h'" using calm_after [OF c(1) _ a(6,4)] a(2) by (simp add: ks_ok_def)
  have "keeps h bs h' (str_blocks s')"
    using calm a(2,5) c(3) by (intro keepsI) (simp_all only: ks_ok_def ks_owned_blocks ks_frame_blocks)
  then show ?thesis using a calm by blast
qed

lemma str_new:
  assumes "calm h"
  shows "\<exists>h' s bs. cdsa_create_kstring h = (h', Some s) \<and> str_holds h' s bs \<and> keeps h [] h' bs"
proof -
  note ca = calmD [OF assms]
  obtain h' s where c: "cdsa_create_kstring h = (h', Some s)" using create_kstring_succeeds [OF ca(2)] by blast
  note k = create_kstring_ok [OF c ca(1)]
  have calm: "calm h'" using calm_after [OF assms _ k(5,3)] k(1) by (simp add: ks_ok_def)
  have "keeps h [] h' (str_blocks s)"
    using calm k(1,4)
    by (intro keepsI) (simp_all only: ks_ok_def ks_owned_blocks ks_frame_blocks list.set image_empty others_empty)
  moreover have "str_holds h' s (str_blocks s)" using calm k(1,2) by (simp add: str_holds_def)
  ultimately show ?thesis using c by blast
qed

lemma str_free:
  assumes "str_holds h s bs"
  shows "keeps h bs (cdsa_free_kstring h (Some s)) []"
proof -
  from assms have c: "calm h" "owns_all h (str_blocks s)" "bs = str_blocks s"
    by (auto simp: str_holds_def ks_ok_def ks_owned_blocks)
  note d = keeps_free [OF c(1) c(2) [unfolded str_blocks_def]]
  note s = keeps_free [OF keepsD(1,2) [OF d]]
  show ?thesis using keeps_trans [OF d s] by (simp add: cdsa_free_kstring_def c(3) str_blocks_def)
qed

section \<open>Priority queue\<close>

definition pq_blocks :: "pqueue \<Rightarrow> blocks" where
  "pq_blocks q = vec_blocks (pq_data q) @ [(pq_self q, sizeof_pqueue)]"

definition pq_holds :: "nat \<Rightarrow> heap \<Rightarrow> pqueue \<Rightarrow> blocks \<Rightarrow> bool" where
  "pq_holds n h q bs \<longleftrightarrow> calm h \<and> pq_ready n h q \<and> pq_elem_size q = 4 \<and> bs = pq_blocks q"

lemma pq_ok_blocks:
  "pq_ok h q \<longleftrightarrow> heap_ok h \<and> vector_inv (pq_data q) \<and> pq_elem_size q = v_elem_size (pq_data q) \<and>
     owns_all h (pq_blocks q) \<and> heap_ordered (pq_cmp q) (pq_list q)"
  unfolding pq_ok_def pq_wf_def vec_ok_def vector_owned_blocks pq_blocks_def owns_all_append
  by (auto simp: vec_blocks_def)

lemma pq_frame_blocks: "pq_frame h q = others (ids_of (pq_blocks q)) h"
  by (simp add: pq_blocks_def vec_blocks_def insert_commute)

lemma pq_tenant: "heap_tenant (pq_holds n)"
  by unfold_locales (auto simp: pq_holds_def pq_ready_def pq_ok_blocks calm_def)

interpretation pq: heap_tenant "pq_holds n" for n
  by (rule pq_tenant)

lemma pq_holds_less:
  assumes "pq_holds n h q bs" and "k \<le> n"
  shows "pq_holds k h q bs"
proof -
  have "pq_room k q" if "pq_room n q"
  proof -
    from that obtain m where m: "unat (v_capacity (pq_data q)) \<le> 4 + 2 * m" "unat (v_size (pq_data q)) \<le> m"
      "(8 + 4 * (m + n)) * unat (pq_elem_size q) + 8 < size_bound" by (auto simp: pq_room_def)
    have "(8 + 4 * (m + k)) * unat (pq_elem_size q) \<le> (8 + 4 * (m + n)) * unat (pq_elem_size q)"
      using assms(2) by (intro mult_le_mono1) simp
    then show ?thesis unfolding pq_room_def using m by (intro exI [of _ m]) linarith
  qed
  then show ?thesis using assms(1) by (simp add: pq_holds_def pq_ready_def)
qed

lemma pq_moved:
  assumes "calm h" and "bs = pq_blocks q" and "pq_ready n h' q'" and "pq_elem_size q' = 4"
    and "pq_frame h' q' = pq_frame h q"
  shows "pq_holds n h' q' (pq_blocks q') \<and> keeps h bs h' (pq_blocks q')"
proof -
  have calm: "calm h'" and own: "owns_all h' (pq_blocks q')"
    using assms(3) by (simp_all add: pq_ready_def pq_ok_blocks calm_def)
  have "keeps h bs h' (pq_blocks q')"
    using calm own assms(2,5) by (intro keepsI) (simp_all only: pq_frame_blocks)
  then show ?thesis using calm assms(3,4) by (simp add: pq_holds_def)
qed

lemma pq_push:
  assumes "pq_holds (Suc n) h q bs" and "length e = 4"
  shows "\<exists>h' q' s bs'. cdsa_push_pq h (Some q) (Some e) = (h', Some q', s) \<and> pq_holds n h' q' bs' \<and>
    keeps h bs h' bs'"
proof -
  from assms(1) have c: "calm h" "pq_ready (Suc n) h q" "pq_elem_size q = 4" "bs = pq_blocks q"
    by (simp_all add: pq_holds_def)
  have e: "length e = unat (pq_elem_size q)" using assms(2) c(3) by simp
  from push_pq_ok [OF c(2) e] obtain h' q' where p: "cdsa_push_pq h (Some q) (Some e) = (h', Some q', CDSA_OK)"
    "pq_ready n h' q'" "pq_elem_size q' = pq_elem_size q" "pq_frame h' q' = pq_frame h q" by blast
  from pq_moved [OF c(1,4) p(2) _ p(4)] p(1,3) c(3) show ?thesis by auto
qed

lemma pq_pop:
  assumes "pq_holds n h q bs" and "0 < cdsa_size_pq (Some q)"
  shows "\<exists>h' q' s x bs'. cdsa_pop_pq h (Some q) True = Some (h', Some q', s, x) \<and> pq_holds n h' q' bs' \<and>
    keeps h bs h' bs'"
proof -
  from assms(1) have c: "calm h" "pq_ready n h q" "pq_elem_size q = 4" "bs = pq_blocks q"
    by (simp_all add: pq_holds_def)
  have ne: "pq_list q \<noteq> []" using assms(2) by (simp add: vec_list_Nil cdsa_size_pq_def cdsa_size_vector_def)
  from pop_pq_ok [OF c(2) ne] obtain h' q' x where p: "cdsa_pop_pq h (Some q) True = Some (h', Some q', CDSA_OK, x)"
    "pq_ready n h' q'" "pq_elem_size q' = pq_elem_size q" "pq_frame h' q' = pq_frame h q" by blast
  from pq_moved [OF c(1,4) p(2) _ p(4)] p(1,3) c(3) show ?thesis by auto
qed

lemma int_max_order: "priority_order int_max_cmp"
proof -
  have "int_max_cmp = max_compare" by (simp add: fun_eq_iff int_max_cmp_def max_compare_def)
  then show ?thesis using max_order.priority_order_axioms by simp
qed

lemma pq_new:
  assumes "calm h" and "n \<le> FUZZ_OPS"
  shows "\<exists>h' q bs. cdsa_create_pq h 4 int_max_cmp = (h', Some q) \<and> pq_holds n h' q bs \<and> keeps h [] h' bs"
proof -
  note ca = calmD [OF assms(1)]
  obtain h' q where c: "cdsa_create_pq h 4 int_max_cmp = (h', Some q)" using create_pq_succeeds [OF ca(2)] by blast
  have "(8 + 4 * n) * unat (4 :: size_t) + 8 < size_bound" using assms(2) by (simp add: FUZZ_OPS_def)
  note k = create_pq_ready [OF c ca int_max_order _ this, simplified]
  have calm: "calm h'" and own: "owns_all h' (pq_blocks q)"
    using k(1) by (simp_all add: pq_ready_def pq_ok_blocks calm_def)
  have "keeps h [] h' (pq_blocks q)"
    using calm own k(5) by (intro keepsI) (simp_all only: pq_frame_blocks list.set image_empty others_empty)
  moreover have "pq_holds n h' q (pq_blocks q)" using calm k(1,4) by (simp add: pq_holds_def)
  ultimately show ?thesis using c by blast
qed

lemma pq_free:
  assumes "pq_holds n h q bs"
  shows "keeps h bs (cdsa_free_pq h (Some q)) []"
proof -
  from assms have c: "calm h" "bs = pq_blocks q" "owns_all h (pq_blocks q)"
    by (auto simp: pq_holds_def pq_ready_def pq_ok_blocks)
  show ?thesis
    using keeps_free3 [OF c(1) c(3) [unfolded pq_blocks_def vec_blocks_def append.simps]]
    by (simp add: c(2) pq_blocks_def vec_blocks_def cdsa_free_pq_def cdsa_free_vector_def)
qed

section \<open>Hash map\<close>

definition map_blocks :: "hashmap \<Rightarrow> blocks" where
  "map_blocks m = [(hm_block m, hm_capacity m * sizeof_hash_entry), (hm_self m, sizeof_hashmap)]"

definition map_holds :: "nat \<Rightarrow> heap \<Rightarrow> hashmap \<Rightarrow> blocks \<Rightarrow> bool" where
  "map_holds n h m bs \<longleftrightarrow> calm h \<and> hm_ok h m \<and> bs = map_blocks m \<and>
     load (hm_entries m) + n \<le> FUZZ_OPS \<and> slots m \<le> 4 * FUZZ_OPS"

lemma hashmap_owned_blocks: "hashmap_owned h m \<longleftrightarrow> owns_all h (map_blocks m)"
  by (auto simp: hashmap_owned_def map_blocks_def)

lemma hm_frame_blocks: "hm_frame h m = others (ids_of (map_blocks m)) h"
  by (simp add: map_blocks_def insert_commute)

lemma map_tenant: "heap_tenant (map_holds n)"
  by unfold_locales (auto simp: map_holds_def hm_ok_def hashmap_owned_blocks calm_def)

interpretation hmap: heap_tenant "map_holds n" for n
  by (rule map_tenant)

lemma map_holds_less: "map_holds n h m bs \<Longrightarrow> k \<le> n \<Longrightarrow> map_holds k h m bs"
  by (simp add: map_holds_def)

lemma map_insert:
  assumes "map_holds (Suc n) h m bs"
  shows "\<exists>h' m' s bs'. insert_hashmap h (Some m) (Some key) v = Some (h', Some m', s) \<and> map_holds n h' m' bs' \<and>
    keeps h bs h' bs'"
proof -
  from assms have c: "calm h" "hm_ok h m" "bs = map_blocks m" "load (hm_entries m) + Suc n \<le> FUZZ_OPS"
    "slots m \<le> 4 * FUZZ_OPS" by (simp_all add: map_holds_def)
  have "unat (hm_capacity m) = slots m" using c(2) by (simp add: hm_ok_def hashmap_inv_def geometry_def)
  then have room: "hm_room m" using c(5) by (simp add: hm_room_def FUZZ_OPS_def)
  from insert_hashmap_ok [OF c(2) room, of key v] calmD(2) [OF c(1)] obtain h' m' where
    i: "insert_hashmap h (Some m) (Some key) v = Some (h', Some m', CDSA_OK)" "fault h' = fault h"
      "hm_frame h' m' = hm_frame h m" "hm_ok h' m'" "libc_refuses h' = libc_refuses h"
      "load (hm_entries m') = load (hm_entries m) + (if the_map m key = None then 1 else 0)"
      "slots m' = slots m \<or> slots m' \<le> 3 * load (hm_entries m) + 3" by blast
  have calm: "calm h'" using calm_after [OF c(1) _ i(5,2)] i(4) by (simp add: hm_ok_def)
  have "load (hm_entries m') + n \<le> FUZZ_OPS" using i(6) c(4) by simp
  moreover have "slots m' \<le> 4 * FUZZ_OPS" using i(7) c(4,5) by (auto simp: FUZZ_OPS_def)
  ultimately have "map_holds n h' m' (map_blocks m')" using calm i(4) by (simp add: map_holds_def)
  moreover have "keeps h bs h' (map_blocks m')"
    using calm i(3,4) c(3) by (intro keepsI) (simp_all only: hm_ok_def hashmap_owned_blocks hm_frame_blocks)
  ultimately show ?thesis using i(1) by blast
qed

lemma map_remove:
  assumes "map_holds n h m bs"
  shows "\<exists>m' s. remove_hashmap (Some m) (Some key) = Some (Some m', s) \<and> map_holds n h m' bs"
proof -
  from assms have c: "calm h" "hm_ok h m" "bs = map_blocks m" by (simp_all add: map_holds_def)
  have inv: "hashmap_inv m" using c(2) by (simp add: hm_ok_def)
  note r = remove_hashmap_result [OF inv, of key]
  show ?thesis
  proof (cases "the_map m key = None \<or> lost m key")
    case True
    then show ?thesis using r assms by auto
  next
    case False
    with r obtain m' where m': "remove_hashmap (Some m) (Some key) = Some (Some m', CDSA_OK)" "hashmap_inv m'"
      "Suc (load (hm_entries m')) = load (hm_entries m)" "hm_self m' = hm_self m" "hm_block m' = hm_block m"
      "hm_capacity m' = hm_capacity m" by auto
    have "slots m' = slots m"
      using geometryD(1) [OF hashmap_invD(1) [OF inv]] geometryD(1) [OF hashmap_invD(1) [OF m'(2)]] m'(6) by simp
    then have "map_holds n h m' bs"
      using assms m'(2-) by (simp add: map_holds_def hm_ok_def hashmap_owned_def map_blocks_def)
    then show ?thesis using m'(1) by blast
  qed
qed

lemma map_get: "map_holds n h m bs \<Longrightarrow> \<exists>v. get_hashmap (Some m) (Some key) = Some v"
  using get_hashmap_result [of m key] by (simp add: map_holds_def hm_ok_def)

lemma map_new:
  assumes "calm h" and "n \<le> FUZZ_OPS"
  shows "\<exists>h' m bs. cdsa_create_hashmap h 1000000 = (h', Some m) \<and> map_holds n h' m bs \<and> keeps h [] h' bs"
proof -
  note ca = calmD [OF assms(1)]
  obtain h' m where c: "cdsa_create_hashmap h 1000000 = (h', Some m)" using create_hashmap_succeeds [OF ca(2)] by blast
  note k = create_hashmap_ok [OF c ca(1), simplified]
  have calm: "calm h'" using calm_after [OF assms(1) _ k(6,4)] k(1) by (simp add: hm_ok_def)
  have "unat (hm_capacity m) = slots m" using k(1) by (simp add: hm_ok_def hashmap_inv_def geometry_def)
  then have "map_holds n h' m (map_blocks m)"
    using calm k(1,7,8) assms(2) by (simp add: map_holds_def FUZZ_OPS_def)
  moreover have "keeps h [] h' (map_blocks m)"
    using calm k(1,5)
    by (intro keepsI) (simp_all only: hm_ok_def hashmap_owned_blocks hm_frame_blocks list.set image_empty others_empty)
  ultimately show ?thesis using c by blast
qed

lemma keeps_free2:
  assumes "calm h" and "owns_all h [(p, l), (q, m)]"
  shows "keeps h [(p, l), (q, m)] (cdsa_free_track (cdsa_free_track h (Some p)) (Some q)) []"
proof -
  note a = keeps_free [OF assms]
  note b = keeps_free [OF keepsD(1,2) [OF a]]
  show ?thesis using keeps_trans [OF a b] .
qed

lemma map_free:
  assumes "map_holds n h m bs"
  shows "keeps h bs (cdsa_free_hashmap h (Some m)) []"
proof -
  from assms have c: "calm h" "bs = map_blocks m" "owns_all h (map_blocks m)"
    by (auto simp: map_holds_def hm_ok_def hashmap_owned_blocks)
  show ?thesis
    using keeps_free2 [OF c(1) c(3) [unfolded map_blocks_def]] by (simp add: c(2) map_blocks_def cdsa_free_hashmap_def)
qed

section \<open>Skip list\<close>

definition list_blocks :: "skiplist \<Rightarrow> block_id list \<Rightarrow> blocks" where
  "list_blocks s ps = (sl_self s, sizeof_skiplist) # sl_blocks (sl_nodes s) (sl_header s # ps)"

definition list_holds :: "heap \<Rightarrow> skiplist \<Rightarrow> blocks \<Rightarrow> bool" where
  "list_holds h s bs \<longleftrightarrow> calm h \<and> (\<exists>ps. sl_repr h s ps \<and> bs = list_blocks s ps)"

lemma list_owns: "sl_repr h s ps \<Longrightarrow> owns_all h (list_blocks s ps)"
  unfolding list_blocks_def by (rule sl_reprD(9))

lemma list_stable: "sl_repr h s ps \<Longrightarrow> heap_ok h' \<Longrightarrow> owns_all h' (list_blocks s ps) \<Longrightarrow> sl_repr h' s ps"
  unfolding list_blocks_def by (rule sl_repr_cong)

lemma list_tenant: "heap_tenant list_holds"
proof (unfold_locales, goal_cases)
  case (1 h s bs)
  then show ?case by (simp add: list_holds_def)
next
  case (2 h s bs)
  then show ?case using list_owns by (auto simp: list_holds_def)
next
  case (3 h s bs h')
  then show ?case unfolding list_holds_def using list_stable calmD(1) [OF 3(2)] by blast
qed

interpretation list: heap_tenant list_holds
  by (rule list_tenant)

lemma list_frame:
  assumes "sl_repr h s ps"
  shows "snd (sl_frame h s) = others (ids_of (list_blocks s ps)) h"
  using sl_ids_repr [OF sl_reprD(2) [OF assms]] by (simp add: sl_frame_def list_blocks_def)

lemma list_moved:
  assumes "calm h" and "sl_repr h s ps" and "bs = list_blocks s ps"
    and "sl_rep h' s' es" and "sl_frame h' s' = sl_frame h s" and "libc_refuses h' = libc_refuses h"
  shows "\<exists>bs'. list_holds h' s' bs' \<and> keeps h bs h' bs'"
proof -
  obtain qs where q: "sl_repr h' s' qs" using assms(4) by (auto simp: sl_rep_def)
  have "fault h' = fault h" using assms(5) by (simp add: sl_frame_def)
  then have calm: "calm h'" using calm_after [OF assms(1) sl_reprD(1) [OF q] assms(6)] by simp
  let ?bs = "list_blocks s' qs"
  have "keeps h bs h' ?bs"
    using calm list_owns [OF q] list_frame [OF q] list_frame [OF assms(2)] assms(3,5) by (intro keepsI) simp_all
  moreover have "list_holds h' s' ?bs" using calm q by (auto simp: list_holds_def)
  ultimately show ?thesis by blast
qed

lemma list_insert:
  assumes "list_holds h s bs" and "\<not> dbl_nan x" and "length key \<le> 62"
  shows "\<exists>n' h' s' t bs'. insert_skiplist rand n h (Some s) x (Some key) = Some (n', h', Some s', t) \<and>
    list_holds h' s' bs' \<and> keeps h bs h' bs'"
proof -
  from assms(1) obtain ps where c: "calm h" "sl_repr h s ps"
    "bs = list_blocks s ps" by (auto simp: list_holds_def)
  have "length key + 9 < size_bound" using assms(3) by simp
  from insert_skiplist_ok [OF c(2) assms(2) this, of rand n] calmD(2) [OF c(1)] obtain n' h' s' t es where
    "insert_skiplist rand n h (Some s) x (Some key) = Some (n', h', Some s', t)" "sl_rep h' s' es"
    "sl_frame h' s' = sl_frame h s" "libc_refuses h' = libc_refuses h" by blast
  then show ?thesis using list_moved [OF c] by blast
qed

lemma list_remove:
  assumes "list_holds h s bs"
  shows "\<exists>h' s' t bs'. remove_skiplist h (Some s) x (Some key) = Some (h', Some s', t) \<and>
    list_holds h' s' bs' \<and> keeps h bs h' bs'"
proof -
  from assms(1) obtain ps where c: "calm h" "sl_repr h s ps"
    "bs = list_blocks s ps" by (auto simp: list_holds_def)
  have "sl_rep h s (map (entry_of (sl_nodes s)) ps)" using c(2) by (auto simp: sl_rep_def)
  then obtain h' s' t es where
    "remove_skiplist h (Some s) x (Some key) = Some (h', Some s', t)" "sl_rep h' s' es"
    "sl_frame h' s' = sl_frame h s" "libc_refuses h' = libc_refuses h"
    using remove_skiplist_ok [OF c(2), of x key] by (auto split: if_splits)
  then show ?thesis using list_moved [OF c] by blast
qed

lemma list_new:
  assumes "calm h"
  shows "\<exists>h' s bs. cdsa_create_skiplist h = (h', Some s) \<and> list_holds h' s bs \<and> keeps h [] h' bs"
proof -
  note ca = calmD [OF assms(1)]
  obtain h' s where c: "cdsa_create_skiplist h = (h', Some s)" using create_skiplist_succeeds [OF ca(2)] by blast
  note k = create_skiplist_ok [OF c ca(1)]
  have calm: "calm h'" using calm_after [OF assms(1) sl_reprD(1) [OF k(1)] k(3)] k(2) by (simp add: sl_frame_def)
  let ?bs = "list_blocks s []"
  have "keeps h [] h' ?bs"
    using calm list_owns [OF k(1)] list_frame [OF k(1)] k(2) by (intro keepsI) simp_all
  moreover have "list_holds h' s ?bs" using calm k(1) by (auto simp: list_holds_def)
  ultimately show ?thesis using c by blast
qed

lemma list_free:
  assumes "list_holds h s bs"
  shows "\<exists>h'. cdsa_free_skiplist h (Some s) = Some h' \<and> keeps h bs h' []"
proof -
  from assms obtain ps where c: "calm h" "sl_repr h s ps" "bs = list_blocks s ps" by (auto simp: list_holds_def)
  from free_skiplist_ok [OF c(2)] obtain h' where f: "cdsa_free_skiplist h (Some s) = Some h'"
    "fault h' = fault h" "heap_ok h'" "live h' = snd (sl_frame h s)" "libc_refuses h' = libc_refuses h" by blast
  have "keeps h bs h' []"
    using calm_after [OF c(1) f(3,5,2)] f(4) list_frame [OF c(2)] c(3) by (intro keepsI) simp_all
  then show ?thesis using f(1) by blast
qed

section \<open>Radix tree\<close>

text \<open>The tree in its pools, without the heap.\<close>

definition art_stands :: "(node_type \<Rightarrow> block_id \<times> block_id) \<Rightarrow> art_tree \<Rightarrow> art_map \<Rightarrow> bool" where
  "art_stands ids t m \<longleftrightarrow>
     (\<forall>T. tier_ok (tree_frame [] ids (slab_self (slab_manager t)) (art_self t)) (opt_things (art_root t)) (slab_manager t) T) \<and>
     (\<forall>node. art_root t = Some node \<longrightarrow> art_wf [] node) \<and>
     (\<forall>k v. opt_entry (art_root t) k v \<longleftrightarrow> m k = Some v) \<and>
     finite (dom m) \<and> leaf_count (opt_things (art_root t)) = card (dom m) \<and> art_size t = of_nat (card (dom m))"

definition art_holds :: "art_map \<Rightarrow> heap \<Rightarrow> art_tree \<Rightarrow> blocks \<Rightarrow> bool" where
  "art_holds m h t bs \<longleftrightarrow> calm h \<and> owns_all h bs \<and>
     (\<exists>ids ks. art_stands ids t m \<and> mset ks = key_blocks (opt_things (art_root t)) \<and>
        bs = ks @ art_base ids (slab_self (slab_manager t)) (art_self t))"

lemma tier_ok_others: "tier_ok (tree_frame oth ids s self) M slab T = tier_ok (tree_frame [] ids s self) M slab T"
  by (simp add: tier_ok_def tree_frame_def)

lemma tree_frame_fields:
  "base_blocks (tree_frame oth ids s self) = art_base ids s self" "other_blocks (tree_frame oth ids s self) = oth"
  "slab_block (tree_frame oth ids s self) = s"
  by (simp_all add: tree_frame_def)

lemma art_rep_holds: "art_rep oth h t m \<longleftrightarrow> (\<exists>bs. art_holds m h t bs \<and> others (ids_of bs) h = oth)"
proof -
  have env: "env_ok (tree_frame oth ids s (art_self t)) M (h, slab_manager t) \<longleftrightarrow> s = slab_self (slab_manager t) \<and> calm h \<and>
      (\<forall>T. tier_ok (tree_frame [] ids s (art_self t)) M (slab_manager t) T) \<and>
      (\<exists>ks. mset ks = key_blocks M \<and> owns_all h (ks @ art_base ids s (art_self t)) \<and>
         others (ids_of (ks @ art_base ids s (art_self t))) h = oth)" for ids s M
    unfolding env_ok_def heap_holds_def calm_def tier_ok_others [of oth] by (auto simp: tree_frame_fields)
  show ?thesis unfolding art_rep_def env art_holds_def art_stands_def by blast
qed

lemma art_tenant: "heap_tenant (art_holds m)"
  by unfold_locales (auto simp: art_holds_def)

interpretation art: heap_tenant "art_holds m" for m
  by (rule art_tenant)

text \<open>What is known of the tree against everything else on the heap is a step that keeps it.\<close>

lemma art_moved:
  assumes "art_holds m h t bs" and "art_rep (others (ids_of bs) h) h' t' m'"
  shows "\<exists>bs'. art_holds m' h' t' bs' \<and> keeps h bs h' bs'"
proof -
  from assms(2) obtain bs' where b: "art_holds m' h' t' bs'" "others (ids_of bs') h' = others (ids_of bs) h"
    by (auto simp: art_rep_holds)
  then show ?thesis using art.holds_calm [OF b(1)] art.holds_owns [OF b(1)] by (auto intro: keepsI)
qed

lemma art_holds_rep: "art_holds m h t bs \<Longrightarrow> art_rep (others (ids_of bs) h) h t m"
  by (auto simp: art_rep_holds)

lemma art_insert:
  assumes "art_holds m h t bs" and "call_fits m (ArtInsert k v)"
  shows "\<exists>h' t' s bs'. cdsa_insert_art h (Some t) (Some k) v = Some (h', Some t', s) \<and>
    art_holds (m(k \<mapsto> v)) h' t' bs' \<and> keeps h bs h' bs'"
proof -
  from assms(2) have c: "valid_key k" "length k + 9 < size_bound" "card (dom (m(k \<mapsto> v))) \<le> 1024"
    by (simp_all add: valid_key_def)
  from insert_art_ok [OF art_holds_rep [OF assms(1)] c] show ?thesis using art_moved [OF assms(1)] by blast
qed

lemma art_delete:
  assumes "art_holds m h t bs" and "call_fits m (ArtDelete k)"
  shows "\<exists>h' t' s bs'. cdsa_delete_art h (Some t) (Some k) = (h', Some t', s) \<and>
    art_holds (m(k := None)) h' t' bs' \<and> keeps h bs h' bs'"
proof -
  from assms(2) have c: "valid_key k" "k \<in> dom m \<or> (\<forall>k' \<in> dom m. length k' \<le> length k \<or> length k' \<le> 10)"
    "\<And>p. card (ways m p) \<le> 48" by (simp_all add: valid_key_def)
  from delete_art_ok [OF art_holds_rep [OF assms(1)] c] show ?thesis using art_moved [OF assms(1)] by blast
qed

lemma art_search:
  "art_holds m h t bs \<Longrightarrow> call_fits m (ArtSearch k) \<Longrightarrow> \<exists>v. cdsa_search_art h (Some t) (Some k) = (h, v)"
  using search_art_ok [OF art_holds_rep, of m h t bs k] by (simp add: valid_key_def)

lemma art_new:
  assumes "calm h"
  shows "\<exists>h' t bs. cdsa_create_art h = (h', Some t) \<and> art_holds Map.empty h' t bs \<and> keeps h [] h' bs"
proof -
  from art_start [OF calmD [OF assms]] obtain h' t where c: "cdsa_create_art h = (h', Some t)"
    "art_rep (live h) h' t Map.empty" by blast
  from c(2) obtain bs where b: "art_holds Map.empty h' t bs" "others (ids_of bs) h' = live h"
    by (auto simp: art_rep_holds)
  then have "keeps h [] h' bs" using art.holds_calm [OF b(1)] art.holds_owns [OF b(1)] by (intro keepsI) simp_all
  then show ?thesis using c(1) b(1) by blast
qed

lemma art_free:
  assumes "art_holds m h t bs"
  shows "keeps h bs (cdsa_free_art h (Some t)) []"
proof -
  obtain ids s where e: "env_ok (tree_frame (others (ids_of bs) h) ids s (art_self t)) (opt_things (art_root t)) (h, slab_manager t)"
    "\<And>node. art_root t = Some node \<Longrightarrow> art_wf [] node"
    by (rule art_repE [OF art_holds_rep [OF assms]]) blast
  from free_art_ok [OF e] show ?thesis by (simp add: heap_base_def keeps_def calm_def)
qed

end
