(* ===== verification/Fuzzer_Suite.thy ===== *)
theory Fuzzer_Suite
  imports Fuzzer_Tenants
begin

text \<open>
  The fuzzer as a whole: seven containers on one heap, through every round and down to the release
  of the last of them.  Each step moves one tenant; the others follow by the frame rule.
\<close>

section \<open>The seven tenants together\<close>

abbreviation suite :: "nat \<Rightarrow> nat \<Rightarrow> nat \<Rightarrow> art_map \<Rightarrow> heap \<Rightarrow>
    art_tree \<times> hashmap \<times> vector \<times> skiplist \<times> pqueue \<times> cdsa_deque \<times> kstring \<Rightarrow> blocks \<Rightarrow> bool" where
  "suite i j k m \<equiv> both (art_holds m) (both (map_holds i) (both (vec_holds j) (both list_holds
     (both (pq_holds k) (both dq_holds str_holds)))))"

interpretation six: two_tenants dq_holds str_holds
  by (rule two_tenants.intro [OF dq_tenant str_tenant])

interpretation five: two_tenants "pq_holds k" "both dq_holds str_holds" for k
  by (rule two_tenants.intro [OF pq_tenant six.both.heap_tenant_axioms])

interpretation four: two_tenants list_holds "both (pq_holds k) (both dq_holds str_holds)" for k
  by (rule two_tenants.intro [OF list_tenant five.both.heap_tenant_axioms])

interpretation three: two_tenants "vec_holds j" "both list_holds (both (pq_holds k) (both dq_holds str_holds))" for j k
  by (rule two_tenants.intro [OF vec_tenant four.both.heap_tenant_axioms])

interpretation two: two_tenants "map_holds i"
  "both (vec_holds j) (both list_holds (both (pq_holds k) (both dq_holds str_holds)))" for i j k
  by (rule two_tenants.intro [OF map_tenant three.both.heap_tenant_axioms])

interpretation one: two_tenants "art_holds m"
  "both (map_holds i) (both (vec_holds j) (both list_holds (both (pq_holds k) (both dq_holds str_holds))))" for m i j k
  by (rule two_tenants.intro [OF art_tenant two.both.heap_tenant_axioms])

text \<open>A step of one container.\<close>

lemma suite_art:
  assumes "suite i j k m h (a, b, c, d, e, f, g) bs"
    and "\<And>cs. art_holds m h a cs \<Longrightarrow> \<exists>cs'. art_holds m' h' a' cs' \<and> keeps h cs h' cs'"
  shows "\<exists>bs'. suite i j k m' h' (a', b, c, d, e, f, g) bs' \<and> keeps h bs h' bs'"
  by (rule one.left_step [OF assms(1)], erule assms(2))

lemma suite_map:
  assumes "suite i j k m h (a, b, c, d, e, f, g) bs"
    and "\<And>cs. map_holds i h b cs \<Longrightarrow> \<exists>cs'. map_holds i' h' b' cs' \<and> keeps h cs h' cs'"
  shows "\<exists>bs'. suite i' j k m h' (a, b', c, d, e, f, g) bs' \<and> keeps h bs h' bs'"
  by (rule one.right_step [OF assms(1)], erule two.left_step, erule assms(2))

lemma suite_vec:
  assumes "suite i j k m h (a, b, c, d, e, f, g) bs"
    and "\<And>cs. vec_holds j h c cs \<Longrightarrow> \<exists>cs'. vec_holds j' h' c' cs' \<and> keeps h cs h' cs'"
  shows "\<exists>bs'. suite i j' k m h' (a, b, c', d, e, f, g) bs' \<and> keeps h bs h' bs'"
  by (rule one.right_step [OF assms(1)], erule two.right_step, erule three.left_step, erule assms(2))

lemma suite_list:
  assumes "suite i j k m h (a, b, c, d, e, f, g) bs"
    and "\<And>cs. list_holds h d cs \<Longrightarrow> \<exists>cs'. list_holds h' d' cs' \<and> keeps h cs h' cs'"
  shows "\<exists>bs'. suite i j k m h' (a, b, c, d', e, f, g) bs' \<and> keeps h bs h' bs'"
  by (rule one.right_step [OF assms(1)], erule two.right_step, erule three.right_step, erule four.left_step,
      erule assms(2))

lemma suite_pq:
  assumes "suite i j k m h (a, b, c, d, e, f, g) bs"
    and "\<And>cs. pq_holds k h e cs \<Longrightarrow> \<exists>cs'. pq_holds k' h' e' cs' \<and> keeps h cs h' cs'"
  shows "\<exists>bs'. suite i j k' m h' (a, b, c, d, e', f, g) bs' \<and> keeps h bs h' bs'"
  by (rule one.right_step [OF assms(1)], erule two.right_step, erule three.right_step, erule four.right_step,
      erule five.left_step, erule assms(2))

lemma suite_dq:
  assumes "suite i j k m h (a, b, c, d, e, f, g) bs"
    and "\<And>cs. dq_holds h f cs \<Longrightarrow> \<exists>cs'. dq_holds h' f' cs' \<and> keeps h cs h' cs'"
  shows "\<exists>bs'. suite i j k m h' (a, b, c, d, e, f', g) bs' \<and> keeps h bs h' bs'"
  by (rule one.right_step [OF assms(1)], erule two.right_step, erule three.right_step, erule four.right_step,
      erule five.right_step, erule six.left_step, erule assms(2))

lemma suite_str:
  assumes "suite i j k m h (a, b, c, d, e, f, g) bs"
    and "\<And>cs. str_holds h g cs \<Longrightarrow> \<exists>cs'. str_holds h' g' cs' \<and> keeps h cs h' cs'"
  shows "\<exists>bs'. suite i j k m h' (a, b, c, d, e, f, g') bs' \<and> keeps h bs h' bs'"
  by (rule one.right_step [OF assms(1)], erule two.right_step, erule three.right_step, erule four.right_step,
      erule five.right_step, erule six.right_step, erule assms(2))

text \<open>What is known of each of them.\<close>

lemma suiteE:
  assumes "suite i j k m h (a, b, c, d, e, f, g) bs"
  obtains as bs cs ds es fs gs where "art_holds m h a as" and "map_holds i h b bs" and "vec_holds j h c cs"
    and "list_holds h d ds" and "pq_holds k h e es" and "dq_holds h f fs" and "str_holds h g gs"
  by (rule bothE [OF assms], erule bothE, erule bothE, erule bothE, erule bothE, erule bothE, erule (6) that)

lemma suite_less:
  assumes "suite i j k m h (a, b, c, d, e, f, g) bs" and "i' \<le> i" and "j' \<le> j" and "k' \<le> k"
  shows "suite i' j' k' m h (a, b, c, d, e, f, g) bs"
  by (rule both_weaken [OF assms(1)], assumption, erule both_weaken, erule map_holds_less [OF _ assms(2)],
      erule both_weaken, erule vec_holds_less [OF _ assms(3)], erule both_weaken, assumption, erule both_weaken,
      erule pq_holds_less [OF _ assms(4)], assumption)

section \<open>One round\<close>

definition fuzz_ok :: "nat \<Rightarrow> nat \<Rightarrow> nat \<Rightarrow> art_map \<Rightarrow> fuzz_state \<Rightarrow> blocks \<Rightarrow> bool" where
  "fuzz_ok i j k m s bs \<longleftrightarrow> (\<exists>a b c d e f g.
     fz_art s = Some a \<and> fz_map s = Some b \<and> fz_vec s = Some c \<and> fz_list s = Some d \<and>
     fz_pq s = Some e \<and> fz_dq s = Some f \<and> fz_str s = Some g \<and>
     suite i j k m (fz_heap s) (a, b, c, d, e, f, g) bs)"

lemma fuzz_okE:
  assumes "fuzz_ok i j k m s bs"
  obtains a b c d e f g where "fz_art s = Some a" and "fz_map s = Some b" and "fz_vec s = Some c"
    and "fz_list s = Some d" and "fz_pq s = Some e" and "fz_dq s = Some f" and "fz_str s = Some g"
    and "suite i j k m (fz_heap s) (a, b, c, d, e, f, g) bs"
  using assms by (auto simp: fuzz_ok_def)

lemma fuzz_ok_draws: "fuzz_ok i j k m (s\<lparr>fz_draws := n\<rparr>) bs = fuzz_ok i j k m s bs"
  by (simp add: fuzz_ok_def)

lemma fuzz_ok_less:
  "fuzz_ok i j k m s bs \<Longrightarrow> i' \<le> i \<Longrightarrow> j' \<le> j \<Longrightarrow> k' \<le> k \<Longrightarrow> fuzz_ok i' j' k' m s bs"
  by (erule fuzz_okE) (simp add: fuzz_ok_def suite_less)

text \<open>The scores are no NaN.\<close>

lemma floor_log2_bounds:
  assumes "0 < v"
  shows "2 ^ floor_log2 v \<le> v" and "v < 2 * 2 ^ floor_log2 v"
proof -
  have "2 ^ floor_log2 v \<le> v \<and> v < 2 * 2 ^ floor_log2 v"
    using assms
  proof (induction v rule: floor_log2.induct)
    case (1 v)
    show ?case
    proof (cases "v < 2")
      case True
      then show ?thesis using 1(2) by (simp add: floor_log2.simps [of v])
    next
      case False
      then have "2 ^ floor_log2 (v div 2) \<le> v div 2 \<and> v div 2 < 2 * 2 ^ floor_log2 (v div 2)" using 1 by simp
      moreover have "floor_log2 v = Suc (floor_log2 (v div 2))" using False by (subst floor_log2.simps) simp
      ultimately show ?thesis by (simp only: power_Suc) linarith
    qed
  qed
  then show "2 ^ floor_log2 v \<le> v" "v < 2 * 2 ^ floor_log2 v" by simp_all
qed

lemma int_double_number:
  assumes "v < 2 ^ 31"
  shows "\<not> dbl_nan (int_double v)"
proof (cases "v = 0")
  case True
  then show ?thesis by (simp add: int_double_def dbl_nan_def)
next
  case False
  let ?e = "floor_log2 v"
  note b = floor_log2_bounds [of v]
  have "(2 :: nat) ^ ?e < 2 ^ 31" using b(1) False assms by linarith
  then have e: "?e < 31" by (rule power_less_imp_less_exp [rotated]) simp
  have "(v - 2 ^ ?e) * 2 ^ (52 - ?e) < 2 ^ ?e * 2 ^ (52 - ?e)" using b(2) False by (intro mult_strict_right_mono) (linarith, simp)
  also have "(2 :: nat) ^ ?e * 2 ^ (52 - ?e) = 2 ^ 52" using e by (simp flip: power_add)
  finally have lt: "(1023 + ?e) * 2 ^ 52 + (v - 2 ^ ?e) * 2 ^ (52 - ?e) < 0x7FF0000000000000" using e by simp
  define N where "N = (1023 + ?e) * 2 ^ 52 + (v - 2 ^ ?e) * 2 ^ (52 - ?e)"
  have n: "N < 0x7FF0000000000000" using lt by (simp only: N_def)
  have d: "int_double v = of_nat N" using False by (simp only: int_double_def Let_def N_def if_False)
  have "uint (of_nat N AND 0x7FFFFFFFFFFFFFFF :: double) \<le> uint (of_nat N :: double)"
    by (simp add: uint_and AND_upper1)
  also have "uint (of_nat N :: double) = int N" using n by (simp add: uint_nat unat_of_nat_size_t)
  finally show ?thesis using n by (simp add: dbl_nan_def d)
qed

text \<open>The number of draws an insertion into the skip list makes.\<close>

lemma insert_skiplist_draws:
  "insert_skiplist rand n h (Some s) x (Some v) = Some (n', r) \<Longrightarrow> n' = snd (random_level rand n)"
  by (auto simp: insert_skiplist_def Let_def split: option.splits prod.splits)

lemma fuzz_insert_ok:
  assumes "fuzz_ok (Suc i) j k m s bs" and "call_fits m (ArtInsert key (int_pointer val))"
    and "length key \<le> 62" and "val < 2 ^ 31"
  shows "\<exists>s' bs'. fuzz_insert rand key val s = Some s' \<and> fuzz_ok i j k (m(key \<mapsto> int_pointer val)) s' bs' \<and>
    keeps (fz_heap s) bs (fz_heap s') bs' \<and> fz_draws s' = snd (random_level rand (fz_draws s))"
proof -
  obtain a b c d e f g where st: "fz_art s = Some a" "fz_map s = Some b" "fz_vec s = Some c" "fz_list s = Some d"
    "fz_pq s = Some e" "fz_dq s = Some f" "fz_str s = Some g"
    and s0: "suite (Suc i) j k m (fz_heap s) (a, b, c, d, e, f, g) bs" by (rule fuzz_okE [OF assms(1)])
  let ?p = "int_pointer val"
  obtain h1 a1 t1 where e1: "cdsa_insert_art (fz_heap s) (Some a) (Some key) ?p = Some (h1, Some a1, t1)"
    by (rule suiteE [OF s0]) (blast dest: art_insert [OF _ assms(2)])
  obtain bs1 where s1: "suite (Suc i) j k (m(key \<mapsto> ?p)) h1 (a1, b, c, d, e, f, g) bs1" "keeps (fz_heap s) bs h1 bs1"
    using suite_art [OF s0, where m' = "m(key \<mapsto> ?p)" and h' = h1 and a' = a1] art_insert [OF _ assms(2)] e1 by fastforce
  obtain h2 b1 t2 where e2: "insert_hashmap h1 (Some b) (Some key) ?p = Some (h2, Some b1, t2)"
    by (rule suiteE [OF s1(1)]) (blast dest: map_insert)
  obtain bs2 where s2: "suite i j k (m(key \<mapsto> ?p)) h2 (a1, b1, c, d, e, f, g) bs2" "keeps h1 bs1 h2 bs2"
    using suite_map [OF s1(1), where i' = i and h' = h2 and b' = b1] map_insert [of i h1 b _ key ?p] e2 by fastforce
  have nan: "\<not> dbl_nan (int_double val)" by (rule int_double_number [OF assms(4)])
  obtain n' h3 d1 t3 where e3: "insert_skiplist rand (fz_draws s) h2 (Some d) (int_double val) (Some key) =
      Some (n', h3, Some d1, t3)"
    by (rule suiteE [OF s2(1)]) (use list_insert [OF _ nan assms(3)] in blast)
  obtain bs3 where s3: "suite i j k (m(key \<mapsto> ?p)) h3 (a1, b1, c, d1, e, f, g) bs3" "keeps h2 bs2 h3 bs3"
    using suite_list [OF s2(1), where h' = h3 and d' = d1] list_insert [OF _ nan assms(3), of h2 d _ rand "fz_draws s"] e3
    by fastforce
  have n': "n' = snd (random_level rand (fz_draws s))" by (rule insert_skiplist_draws [OF e3])
  let ?s = "s\<lparr>fz_heap := h3, fz_draws := n', fz_art := Some a1, fz_map := Some b1, fz_list := Some d1\<rparr>"
  have "fuzz_insert rand key val s = Some ?s" using st e1 e2 e3 by (simp add: fuzz_insert_def)
  moreover have "fuzz_ok i j k (m(key \<mapsto> ?p)) ?s bs3" using st s3(1) by (simp add: fuzz_ok_def)
  moreover have "keeps (fz_heap s) bs (fz_heap ?s) bs3"
    using keeps_trans [OF keeps_trans [OF s1(2) s2(2)] s3(2)] by simp
  ultimately show ?thesis using n' by (intro exI [of _ ?s] exI [of _ bs3]) simp
qed

lemma fuzz_search_ok:
  assumes "fuzz_ok i j k m s bs" and "call_fits m (ArtSearch key)"
  shows "fuzz_search key s = Some s"
proof -
  obtain a b c d e f g where st: "fz_art s = Some a" "fz_map s = Some b"
    and s0: "suite i j k m (fz_heap s) (a, b, c, d, e, f, g) bs" by (rule fuzz_okE [OF assms(1)])
  obtain v where e1: "cdsa_search_art (fz_heap s) (Some a) (Some key) = (fz_heap s, v)"
    by (rule suiteE [OF s0]) (use art_search [OF _ assms(2)] in blast)
  obtain w where e2: "get_hashmap (Some b) (Some key) = Some w" by (rule suiteE [OF s0]) (use map_get in blast)
  show ?thesis using st e1 e2 by (simp add: fuzz_search_def)
qed

lemma fuzz_delete_ok:
  assumes "fuzz_ok i j k m s bs" and "call_fits m (ArtDelete key)"
  shows "\<exists>s' bs'. fuzz_delete key val s = Some s' \<and> fuzz_ok i j k (m(key := None)) s' bs' \<and>
    keeps (fz_heap s) bs (fz_heap s') bs' \<and> fz_draws s' = fz_draws s"
proof -
  obtain a b c d e f g where st: "fz_art s = Some a" "fz_map s = Some b" "fz_vec s = Some c" "fz_list s = Some d"
    "fz_pq s = Some e" "fz_dq s = Some f" "fz_str s = Some g"
    and s0: "suite i j k m (fz_heap s) (a, b, c, d, e, f, g) bs" by (rule fuzz_okE [OF assms(1)])
  obtain h1 a1 t1 where e1: "cdsa_delete_art (fz_heap s) (Some a) (Some key) = (h1, Some a1, t1)"
    by (rule suiteE [OF s0]) (use art_delete [OF _ assms(2)] in blast)
  obtain bs1 where s1: "suite i j k (m(key := None)) h1 (a1, b, c, d, e, f, g) bs1" "keeps (fz_heap s) bs h1 bs1"
    using suite_art [OF s0, where m' = "m(key := None)" and h' = h1 and a' = a1] art_delete [OF _ assms(2)] e1 by fastforce
  obtain b1 t2 where e2: "remove_hashmap (Some b) (Some key) = Some (Some b1, t2)"
    by (rule suiteE [OF s1(1)]) (use map_remove in blast)
  have "map_holds i h1 b1 cs" if "map_holds i h1 b cs" for cs using map_remove [OF that, of key] e2 by auto
  then obtain bs2 where s2: "suite i j k (m(key := None)) h1 (a1, b1, c, d, e, f, g) bs2" "keeps h1 bs1 h1 bs2"
    using suite_map [OF s1(1), where i' = i and h' = h1 and b' = b1] hmap.stays by meson
  obtain h3 d1 t3 where e3: "remove_skiplist h1 (Some d) (int_double val) (Some key) = Some (h3, Some d1, t3)"
    by (rule suiteE [OF s2(1)]) (use list_remove in blast)
  obtain bs3 where s3: "suite i j k (m(key := None)) h3 (a1, b1, c, d1, e, f, g) bs3" "keeps h1 bs2 h3 bs3"
    using suite_list [OF s2(1), where h' = h3 and d' = d1] list_remove [of h1 d _ "int_double val" key] e3 by fastforce
  let ?s = "s\<lparr>fz_heap := h3, fz_art := Some a1, fz_map := Some b1, fz_list := Some d1\<rparr>"
  have "fuzz_delete key val s = Some ?s" using st e1 e2 e3 by (simp add: fuzz_delete_def)
  moreover have "fuzz_ok i j k (m(key := None)) ?s bs3" using st s3(1) by (simp add: fuzz_ok_def)
  moreover have "keeps (fz_heap s) bs (fz_heap ?s) bs3"
    using keeps_trans [OF keeps_trans [OF s1(2) s2(2)] s3(2)] by simp
  ultimately show ?thesis by (intro exI [of _ ?s] exI [of _ bs3]) simp
qed

lemma fuzz_push_ok:
  assumes "fuzz_ok i (Suc j) (Suc k) m s bs"
  shows "\<exists>bs'. fuzz_ok i j k m (fuzz_push val s) bs' \<and>
    keeps (fz_heap s) bs (fz_heap (fuzz_push val s)) bs' \<and> fz_draws (fuzz_push val s) = fz_draws s"
proof -
  obtain a b c d e f g where st: "fz_art s = Some a" "fz_map s = Some b" "fz_vec s = Some c" "fz_list s = Some d"
    "fz_pq s = Some e" "fz_dq s = Some f" "fz_str s = Some g"
    and s0: "suite i (Suc j) (Suc k) m (fz_heap s) (a, b, c, d, e, f, g) bs" by (rule fuzz_okE [OF assms(1)])
  have len: "length (int_bytes val) = 4" by (simp add: int_bytes_def)
  obtain h1 c1 t1 where e1: "cdsa_push_vector (fz_heap s) (Some c) (Some (int_bytes val)) = (h1, Some c1, t1)"
    by (rule suiteE [OF s0]) (use vec_push [OF _ len] in blast)
  obtain bs1 where s1: "suite i j (Suc k) m h1 (a, b, c1, d, e, f, g) bs1" "keeps (fz_heap s) bs h1 bs1"
    using suite_vec [OF s0, where j' = j and h' = h1 and c' = c1] vec_push [OF _ len] e1 by fastforce
  obtain f1 t2 where e2: "cdsa_push_back_deque h1 (Some f) (Some (int_bytes val)) = (h1, Some f1, t2)"
    by (rule suiteE [OF s1(1)]) (use dq_push [OF _ len] in blast)
  have "dq_holds h1 f1 cs" if "dq_holds h1 f cs" for cs using dq_push [OF that len] e2 by auto
  then obtain bs2 where s2: "suite i j (Suc k) m h1 (a, b, c1, d, e, f1, g) bs2" "keeps h1 bs1 h1 bs2"
    using suite_dq [OF s1(1), where h' = h1 and f' = f1] dq.stays by meson
  obtain h3 e1' t3 where e3: "cdsa_push_pq h1 (Some e) (Some (int_bytes val)) = (h3, Some e1', t3)"
    by (rule suiteE [OF s2(1)]) (use pq_push [OF _ len] in blast)
  obtain bs3 where s3: "suite i j k m h3 (a, b, c1, d, e1', f1, g) bs3" "keeps h1 bs2 h3 bs3"
    using suite_pq [OF s2(1), where k' = k and h' = h3 and e' = e1'] pq_push [OF _ len] e3 by fastforce
  have "fuzz_push val s = s\<lparr>fz_heap := h3, fz_vec := Some c1, fz_dq := Some f1, fz_pq := Some e1'\<rparr>"
    using st e1 e2 e3 by (simp add: fuzz_push_def)
  then show ?thesis
    using st s3(1) keeps_trans [OF keeps_trans [OF s1(2) s2(2)] s3(2)]
    by (intro exI [of _ bs3]) (simp add: fuzz_ok_def)
qed

lemma fuzz_pop_ok:
  assumes "fuzz_ok i j k m s bs"
  shows "\<exists>s' bs'. fuzz_pop s = Some s' \<and> fuzz_ok i j k m s' bs' \<and> keeps (fz_heap s) bs (fz_heap s') bs' \<and>
    fz_draws s' = fz_draws s"
proof -
  obtain a b c d e f g where st: "fz_art s = Some a" "fz_map s = Some b" "fz_vec s = Some c" "fz_list s = Some d"
    "fz_pq s = Some e" "fz_dq s = Some f" "fz_str s = Some g"
    and s0: "suite i j k m (fz_heap s) (a, b, c, d, e, f, g) bs" by (rule fuzz_okE [OF assms(1)])
  obtain c1 where c1: "(if cdsa_size_vector (Some c) > 0 then fst (cdsa_pop_vector (Some c)) else Some c) = Some c1"
    and ch: "\<And>cs. vec_holds j (fz_heap s) c cs \<Longrightarrow> vec_holds j (fz_heap s) c1 cs"
  proof (cases "0 < cdsa_size_vector (Some c)")
    case True
    then obtain c1 t where "cdsa_pop_vector (Some c) = (Some c1, t)"
      by (rule_tac suiteE [OF s0]) (use vec_pop in blast)
    then show thesis using that [of c1] vec_pop [OF _ True] True by fastforce
  qed (use that in simp)
  obtain f1 where f1: "(if cdsa_size_deque (Some f) > 0 then fst (cdsa_pop_front_deque (Some f)) else Some f) = Some f1"
    and fh: "\<And>cs. dq_holds (fz_heap s) f cs \<Longrightarrow> dq_holds (fz_heap s) f1 cs"
  proof (cases "0 < cdsa_size_deque (Some f)")
    case True
    then obtain f1 t where "cdsa_pop_front_deque (Some f) = (Some f1, t)"
      by (rule_tac suiteE [OF s0]) (use dq_pop in blast)
    then show thesis using that [of f1] dq_pop [OF _ True] True by fastforce
  qed (use that in simp)
  obtain bs1 where s1: "suite i j k m (fz_heap s) (a, b, c1, d, e, f, g) bs1" "keeps (fz_heap s) bs (fz_heap s) bs1"
    using suite_vec [OF s0, where j' = j and h' = "fz_heap s" and c' = c1] ch vec.stays by meson
  obtain bs2 where s2: "suite i j k m (fz_heap s) (a, b, c1, d, e, f1, g) bs2" "keeps (fz_heap s) bs1 (fz_heap s) bs2"
    using suite_dq [OF s1(1), where h' = "fz_heap s" and f' = f1] fh dq.stays by meson
  note k2 = keeps_trans [OF s1(2) s2(2)]
  let ?s = "s\<lparr>fz_vec := Some c1, fz_dq := Some f1\<rparr>"
  show ?thesis
  proof (cases "0 < cdsa_size_pq (Some e)")
    case True
    then obtain h3 e1 t x where e3: "cdsa_pop_pq (fz_heap s) (Some e) True = Some (h3, Some e1, t, x)"
      by (rule_tac suiteE [OF s2(1)]) (use pq_pop in blast)
    obtain bs3 where s3: "suite i j k m h3 (a, b, c1, d, e1, f1, g) bs3" "keeps (fz_heap s) bs2 h3 bs3"
      using suite_pq [OF s2(1), where k' = k and h' = h3 and e' = e1] pq_pop [OF _ True] e3 by fastforce
    have "fuzz_pop s = Some (?s\<lparr>fz_heap := h3, fz_pq := Some e1\<rparr>)"
      unfolding fuzz_pop_def st c1 f1 Let_def using True e3 st(5) by simp
    moreover have "fuzz_ok i j k m (?s\<lparr>fz_heap := h3, fz_pq := Some e1\<rparr>) bs3" using st s3(1) by (simp add: fuzz_ok_def)
    ultimately show ?thesis using keeps_trans [OF k2 s3(2)] by fastforce
  next
    case False
    then have "fuzz_pop s = Some ?s" unfolding fuzz_pop_def st c1 f1 Let_def by simp
    moreover have "fuzz_ok i j k m ?s bs2" using st s2(1) by (simp add: fuzz_ok_def)
    ultimately show ?thesis using k2 by fastforce
  qed
qed

text \<open>Text is appended and, beyond 1000 bytes, cleared.\<close>

lemma str_round:
  assumes "str_holds (fz_heap s) g cs" and "0 \<notin> set key" and "length key \<le> 62" and "opn mod 5 = 0" and "fz_str s = Some g"
  obtains h1 g1 where "fuzz_text opn key s = Some (s\<lparr>fz_heap := h1, fz_str := Some g1\<rparr>)"
    and "\<And>cs. str_holds (fz_heap s) g cs \<Longrightarrow> \<exists>cs'. str_holds h1 g1 cs' \<and> keeps (fz_heap s) cs h1 cs'"
proof -
  have eq: "cs = str_blocks g" if "str_holds (fz_heap s) g cs" for cs using that by (simp add: str_holds_def)
  obtain h1 g1 t where a: "append_kstring (fz_heap s) (Some g) (Some key) = Some (h1, Some g1, t)" "ks_ok h1 g1" "calm h1"
    "keeps (fz_heap s) cs h1 (str_blocks g1)" using str_append [OF assms(1-3)] by blast
  have size: "unat (ks_size g1) = length (ks_text g1)" using a(2) ks_invD(4) by (simp add: ks_ok_def)
  show thesis
  proof (cases "cdsa_size_kstring (Some g1) > 1000")
    case True
    obtain g2 where c: "cdsa_clear_kstring h1 (Some g1) = (h1, Some g2)" "ks_ok h1 g2" "ks_text g2 = []"
      "ks_frame h1 g2 = ks_frame h1 g1" using clear_kstring_ok [OF a(2)] by blast
    have "keeps (fz_heap s) cs h1 (str_blocks g2)"
      using a(3) c(2) keepsD(3) [OF a(4)] c(4)
      by (intro keepsI) (simp_all only: ks_ok_def ks_owned_blocks ks_frame_blocks)
    moreover have "str_holds h1 g2 (str_blocks g2)" using a(3) c(2,3) by (simp add: str_holds_def)
    moreover have "fuzz_text opn key s = Some (s\<lparr>fz_heap := h1, fz_str := Some g2\<rparr>)"
      using assms(4,5) a(1) c(1) True by (simp add: fuzz_text_def)
    ultimately show thesis using that eq assms(1) by metis
  next
    case False
    then have "unat (ks_size g1) \<le> 1000" by (simp add: cdsa_size_kstring_def size_t_less_iff)
    then have "str_holds h1 g1 (str_blocks g1)" using a(2,3) size by (simp add: str_holds_def)
    moreover have "fuzz_text opn key s = Some (s\<lparr>fz_heap := h1, fz_str := Some g1\<rparr>)"
      using assms(4,5) a(1) False by (simp add: fuzz_text_def)
    ultimately show thesis using that a(4) eq assms(1) by metis
  qed
qed

lemma fuzz_text_ok:
  assumes "fuzz_ok i j k m s bs" and "0 \<notin> set key" and "length key \<le> 62"
  shows "\<exists>s' bs'. fuzz_text opn key s = Some s' \<and> fuzz_ok i j k m s' bs' \<and> keeps (fz_heap s) bs (fz_heap s') bs' \<and>
    fz_draws s' = fz_draws s"
proof (cases "opn mod 5 = 0")
  case False
  obtain a b c d e f g where s0: "suite i j k m (fz_heap s) (a, b, c, d, e, f, g) bs" by (rule fuzz_okE [OF assms(1)])
  then show ?thesis
    using False assms(1) keeps_refl [OF one.both.holds_calm [OF s0] one.both.holds_owns [OF s0]]
    by (fastforce simp: fuzz_text_def)
next
  case True
  obtain a b c d e f g where st: "fz_art s = Some a" "fz_map s = Some b" "fz_vec s = Some c" "fz_list s = Some d"
    "fz_pq s = Some e" "fz_dq s = Some f" "fz_str s = Some g"
    and s0: "suite i j k m (fz_heap s) (a, b, c, d, e, f, g) bs" by (rule fuzz_okE [OF assms(1)])
  obtain gs where gs: "str_holds (fz_heap s) g gs" by (rule suiteE [OF s0])
  obtain h1 g1 where r: "fuzz_text opn key s = Some (s\<lparr>fz_heap := h1, fz_str := Some g1\<rparr>)"
    and gh: "\<And>cs. str_holds (fz_heap s) g cs \<Longrightarrow> \<exists>cs'. str_holds h1 g1 cs' \<and> keeps (fz_heap s) cs h1 cs'"
    by (rule str_round [OF gs assms(2,3) True st(7)]) blast
  from suite_str [OF s0 gh] obtain bs1 where s1: "suite i j k m h1 (a, b, c, d, e, f, g1) bs1" "keeps (fz_heap s) bs h1 bs1"
    by blast
  then show ?thesis using r st by (fastforce simp: fuzz_ok_def)
qed

section \<open>All rounds\<close>

text \<open>The calls the rounds make on the tree; they depend on the draws alone.\<close>

primrec fuzz_calls :: "(nat \<Rightarrow> nat) \<Rightarrow> cstring list \<Rightarrow> nat \<Rightarrow> nat \<Rightarrow> art_call list" where
  "fuzz_calls rand keys 0 n = []"
| "fuzz_calls rand keys (Suc i) n =
     (let opn = rand n mod 100; key = keys ! (rand (n + 1) mod KEY_POOL_SIZE); val = rand (n + 2)
      in if opn < 40
         then ArtInsert key (int_pointer val) # fuzz_calls rand keys i (snd (random_level rand (n + 3)))
         else (if opn < 70 then ArtSearch key else ArtDelete key) # fuzz_calls rand keys i (n + 3))"

definition pool_ok :: "cstring list \<Rightarrow> bool" where
  "pool_ok keys \<longleftrightarrow> length keys = KEY_POOL_SIZE \<and> (\<forall>k \<in> set keys. 0 \<notin> set k \<and> length k \<le> 62)"

lemma pool_key:
  assumes "pool_ok keys" and "i < KEY_POOL_SIZE"
  shows "0 \<notin> set (keys ! i)" and "length (keys ! i) \<le> 62"
  using assms nth_mem [of i keys] by (auto simp: pool_ok_def)

lemma fuzz_round_ok:
  assumes "fuzz_ok (Suc i) (Suc i) (Suc i) m s bs" and "pool_ok keys" and "\<forall>n. rand n < 2 ^ 31"
    and "fuzz_calls rand keys (Suc l) (fz_draws s) = c # cs" and "call_fits m c"
  shows "\<exists>s' bs'. fuzz_round rand keys s = Some s' \<and> fuzz_ok i i i (fst (map_step m c)) s' bs' \<and>
    keeps (fz_heap s) bs (fz_heap s') bs' \<and> cs = fuzz_calls rand keys l (fz_draws s')"
proof -
  let ?n = "fz_draws s"
  let ?opn = "rand ?n mod 100" and ?idx = "rand (?n + 1) mod KEY_POOL_SIZE" and ?val = "rand (?n + 2)"
  let ?s0 = "s\<lparr>fz_draws := ?n + 3\<rparr>"
  have idx: "?idx < KEY_POOL_SIZE" "?idx mod 100 < KEY_POOL_SIZE" by (simp_all add: KEY_POOL_SIZE_def)
  note key = pool_key [OF assms(2) idx(1)] and tkey = pool_key [OF assms(2) idx(2)]
  have ok0: "fuzz_ok (Suc i) (Suc i) (Suc i) m ?s0 bs" using assms(1) by (simp add: fuzz_ok_draws)
  have "\<exists>s1 bs1. fuzz_index rand ?opn (keys ! ?idx) ?val ?s0 = Some s1 \<and>
      fuzz_ok i (Suc i) (Suc i) (fst (map_step m c)) s1 bs1 \<and> keeps (fz_heap s) bs (fz_heap s1) bs1 \<and>
      cs = fuzz_calls rand keys l (fz_draws s1)"
  proof -
    consider (ins) "?opn < 40" | (srch) "\<not> ?opn < 40" "?opn < 70" | (del) "\<not> ?opn < 70" by linarith
    then show ?thesis
    proof cases
      case ins
      then have c: "c = ArtInsert (keys ! ?idx) (int_pointer ?val)"
        and cs: "cs = fuzz_calls rand keys l (snd (random_level rand (?n + 3)))"
        using assms(4) by (simp_all add: Let_def)
      have "?val < 2 ^ 31" using assms(3) by blast
      from fuzz_insert_ok [OF ok0 assms(5) [unfolded c] key(2) this, of rand] obtain s1 bs1 where
        r: "fuzz_insert rand (keys ! ?idx) ?val ?s0 = Some s1"
          "fuzz_ok i (Suc i) (Suc i) (m(keys ! ?idx \<mapsto> int_pointer ?val)) s1 bs1"
          "keeps (fz_heap s) bs (fz_heap s1) bs1" "fz_draws s1 = snd (random_level rand (?n + 3))" by auto
      then show ?thesis using ins cs by (intro exI [of _ s1] exI [of _ bs1]) (simp add: fuzz_index_def c)
    next
      case srch
      then have c: "c = ArtSearch (keys ! ?idx)" and cs: "cs = fuzz_calls rand keys l (?n + 3)"
        using assms(4) by (simp_all add: Let_def)
      obtain a b c' d e f g where s0: "suite (Suc i) (Suc i) (Suc i) m (fz_heap s) (a, b, c', d, e, f, g) bs"
        by (rule fuzz_okE [OF assms(1)])
      have k: "keeps (fz_heap s) bs (fz_heap s) bs"
        by (rule keeps_refl [OF one.both.holds_calm [OF s0] one.both.holds_owns [OF s0]])
      have "fuzz_ok i (Suc i) (Suc i) m ?s0 bs" by (rule fuzz_ok_less [OF ok0]) simp_all
      then show ?thesis
        using srch cs k fuzz_search_ok [OF ok0 assms(5) [unfolded c]]
        by (intro exI [of _ ?s0] exI [of _ bs]) (simp add: fuzz_index_def c)
    next
      case del
      then have c: "c = ArtDelete (keys ! ?idx)" and cs: "cs = fuzz_calls rand keys l (?n + 3)"
        using assms(4) by (simp_all add: Let_def)
      from fuzz_delete_ok [OF ok0 assms(5) [unfolded c], of ?val] obtain s1 bs1 where
        r: "fuzz_delete (keys ! ?idx) ?val ?s0 = Some s1" "fuzz_ok (Suc i) (Suc i) (Suc i) (m(keys ! ?idx := None)) s1 bs1"
          "keeps (fz_heap s) bs (fz_heap s1) bs1" "fz_draws s1 = ?n + 3" by auto
      then show ?thesis using del cs fuzz_ok_less [OF r(2), of i "Suc i" "Suc i"] by (auto simp: fuzz_index_def c)
    qed
  qed
  then obtain s1 bs1 where r1: "fuzz_index rand ?opn (keys ! ?idx) ?val ?s0 = Some s1"
      "fuzz_ok i (Suc i) (Suc i) (fst (map_step m c)) s1 bs1" "keeps (fz_heap s) bs (fz_heap s1) bs1"
      "cs = fuzz_calls rand keys l (fz_draws s1)" by blast
  obtain s2 bs2 where r2: "fuzz_linear ?opn ?val s1 = Some s2" "fuzz_ok i i i (fst (map_step m c)) s2 bs2"
    "keeps (fz_heap s1) bs1 (fz_heap s2) bs2" "fz_draws s2 = fz_draws s1"
  proof (cases "?opn mod 2 = 0")
    case True
    then show thesis using that [of "fuzz_push ?val s1"] fuzz_push_ok [OF r1(2), of ?val] by (auto simp: fuzz_linear_def)
  next
    case False
    from fuzz_pop_ok [OF r1(2)] obtain s2 bs2 where p: "fuzz_pop s1 = Some s2"
      "fuzz_ok i (Suc i) (Suc i) (fst (map_step m c)) s2 bs2" "keeps (fz_heap s1) bs1 (fz_heap s2) bs2"
      "fz_draws s2 = fz_draws s1" by blast
    then show thesis using that [of s2 bs2] fuzz_ok_less [OF p(2), of i i i] False by (simp add: fuzz_linear_def)
  qed
  from fuzz_text_ok [OF r2(2) tkey, of ?opn] obtain s3 bs3 where
    r3: "fuzz_text ?opn (keys ! (?idx mod 100)) s2 = Some s3" "fuzz_ok i i i (fst (map_step m c)) s3 bs3"
      "keeps (fz_heap s2) bs2 (fz_heap s3) bs3" "fz_draws s3 = fz_draws s2" by blast
  have "fuzz_round rand keys s = Some s3" using r1(1) r2(1) r3(1) by (simp add: fuzz_round_def Let_def)
  then show ?thesis
    using r3(2,4) r2(4) r1(4) keeps_trans [OF keeps_trans [OF r1(3) r2(3)] r3(3)] by auto
qed

lemma fuzz_rounds_ok:
  assumes "fuzz_ok i i i m s bs" and "pool_ok keys" and "\<forall>n. rand n < 2 ^ 31"
    and "calls_fit m (fuzz_calls rand keys i (fz_draws s))"
  shows "\<exists>s' m' bs'. fuzz_rounds rand keys i s = Some s' \<and> fuzz_ok 0 0 0 m' s' bs' \<and> keeps (fz_heap s) bs (fz_heap s') bs'"
  using assms(1,4)
proof (induction i arbitrary: m s bs)
  case 0
  obtain a b c d e f g where s0: "suite 0 0 0 m (fz_heap s) (a, b, c, d, e, f, g) bs" by (rule fuzz_okE [OF 0(1)])
  show ?case
    using 0(1) keeps_refl [OF one.both.holds_calm [OF s0] one.both.holds_owns [OF s0]] by fastforce
next
  case (Suc i)
  have "fuzz_calls rand keys (Suc i) (fz_draws s) \<noteq> []" by (simp add: Let_def)
  then obtain c cs where c: "fuzz_calls rand keys (Suc i) (fz_draws s) = c # cs" unfolding neq_Nil_conv by blast
  from Suc.prems(2) have fit: "call_fits m c" "calls_fit (fst (map_step m c)) cs" unfolding c by simp_all
  from fuzz_round_ok [OF Suc.prems(1) assms(2,3) c fit(1)] obtain s1 bs1 where
    r: "fuzz_round rand keys s = Some s1" "fuzz_ok i i i (fst (map_step m c)) s1 bs1"
      "keeps (fz_heap s) bs (fz_heap s1) bs1" "cs = fuzz_calls rand keys i (fz_draws s1)" by blast
  from Suc.IH [OF r(2) fit(2) [unfolded r(4)]] obtain s' m' bs' where
    "fuzz_rounds rand keys i s1 = Some s'" "fuzz_ok 0 0 0 m' s' bs'" "keeps (fz_heap s1) bs1 (fz_heap s') bs'" by blast
  then show ?case using r(1) keeps_trans [OF r(3)] by auto
qed

section \<open>From creation to release\<close>

lemma chaos_bytes_ok: "0 \<notin> set (fst (chaos_bytes rand n l)) \<and> length (fst (chaos_bytes rand n l)) = l"
proof (induction l arbitrary: n)
  case (Suc l)
  define x where "x = rand n mod 94 + 33"
  have "0 < x" "x < 2 ^ 8" by (simp_all add: x_def)
  then have "unat (of_nat x :: byte) = x" by (simp add: unat_of_nat)
  then have "(of_nat x :: byte) \<noteq> 0" using \<open>0 < x\<close> by auto
  moreover have "fst (chaos_bytes rand n (Suc l)) = of_nat x # fst (chaos_bytes rand (Suc n) l)"
    by (simp add: case_prod_beta Let_def x_def)
  ultimately show ?case using Suc.IH [of "Suc n"] by simp
qed simp

lemma chaos_keys_ok:
  "length (fst (chaos_keys rand n i)) = i \<and> (\<forall>k \<in> set (fst (chaos_keys rand n i)). 0 \<notin> set k \<and> length k \<le> 62)"
proof (induction i arbitrary: n)
  case (Suc i)
  obtain l where "chaos_key rand n = chaos_bytes rand (Suc n) l" and "l \<le> 62"
  proof
    show "chaos_key rand n = chaos_bytes rand (Suc n) (rand n mod (MAX_KEY_LEN - 2) + 1)" by (rule chaos_key_def)
    have "rand n mod 62 < 62" by simp
    then show "rand n mod (MAX_KEY_LEN - 2) + 1 \<le> 62" by (simp add: MAX_KEY_LEN_def)
  qed
  then have "0 \<notin> set (fst (chaos_key rand n)) \<and> length (fst (chaos_key rand n)) \<le> 62"
    using chaos_bytes_ok [of rand "Suc n" l] by simp
  then show ?case using Suc.IH by (simp add: case_prod_beta Let_def)
qed simp

lemma pool_generated: "pool_ok (fst (generate_chaos_keys rand n))"
  using chaos_keys_ok by (simp add: pool_ok_def generate_chaos_keys_def)

lemma fuzz_setup_ok:
  assumes "calm h"
  shows "\<exists>bs. fuzz_ok FUZZ_OPS FUZZ_OPS FUZZ_OPS Map.empty (fuzz_setup h n) bs \<and>
    keeps h [] (fz_heap (fuzz_setup h n)) bs \<and> fz_draws (fuzz_setup h n) = n"
proof -
  from art_new [OF assms] obtain h1 a as where a: "cdsa_create_art h = (h1, Some a)"
    "art_holds Map.empty h1 a as \<and> keeps h [] h1 as" by blast
  from map_new [OF keepsD(1) [OF conjunct2 [OF a(2)]]] obtain h2 b bs where b:
    "cdsa_create_hashmap h1 1000000 = (h2, Some b)" "map_holds FUZZ_OPS h2 b bs \<and> keeps h1 [] h2 bs" by blast
  from vec_new [OF keepsD(1) [OF conjunct2 [OF b(2)]]] obtain h3 c cs where c:
    "cdsa_create_vector h2 4 = (h3, Some c)" "vec_holds FUZZ_OPS h3 c cs \<and> keeps h2 [] h3 cs" by blast
  from list_new [OF keepsD(1) [OF conjunct2 [OF c(2)]]] obtain h4 d ds where d:
    "cdsa_create_skiplist h3 = (h4, Some d)" "list_holds h4 d ds \<and> keeps h3 [] h4 ds" by blast
  from pq_new [OF keepsD(1) [OF conjunct2 [OF d(2)]]] obtain h5 e es where e:
    "cdsa_create_pq h4 4 int_max_cmp = (h5, Some e)" "pq_holds FUZZ_OPS h5 e es \<and> keeps h4 [] h5 es" by blast
  from dq_new [OF keepsD(1) [OF conjunct2 [OF e(2)]]] obtain h6 f fs where f:
    "cdsa_create_deque h5 2048 4 = (h6, Some f)" "dq_holds h6 f fs \<and> keeps h5 [] h6 fs" by blast
  from str_new [OF keepsD(1) [OF conjunct2 [OF f(2)]]] obtain h7 g gs where g:
    "cdsa_create_kstring h6 = (h7, Some g)" "str_holds h7 g gs \<and> keeps h6 [] h7 gs" by blast
  note all = one.both_new [OF a(2) two.both_new [OF b(2) three.both_new [OF c(2) four.both_new [OF d(2)
    five.both_new [OF e(2) six.both_new [OF f(2) g(2)]]]]]]
  have s: "fuzz_setup h n = \<lparr>fz_heap = h7, fz_draws = n, fz_art = Some a, fz_map = Some b, fz_vec = Some c,
      fz_list = Some d, fz_pq = Some e, fz_dq = Some f, fz_str = Some g\<rparr>"
    by (simp add: fuzz_setup_def a(1) b(1) c(1) d(1) e(1) f(1) g(1))
  show ?thesis unfolding s fuzz_ok_def using all by auto
qed

lemma fuzz_teardown_ok:
  assumes "fuzz_ok i j k m s bs"
  shows "\<exists>h'. fuzz_teardown s = Some h' \<and> keeps (fz_heap s) bs h' []"
proof -
  obtain a b c d e f g where st: "fz_art s = Some a" "fz_map s = Some b" "fz_vec s = Some c" "fz_list s = Some d"
    "fz_pq s = Some e" "fz_dq s = Some f" "fz_str s = Some g"
    and s0: "suite i j k m (fz_heap s) (a, b, c, d, e, f, g) bs" by (rule fuzz_okE [OF assms])
  let ?h1 = "cdsa_free_art (fz_heap s) (Some a)"
  let ?h2 = "cdsa_free_hashmap ?h1 (Some b)"
  let ?h3 = "cdsa_free_vector ?h2 (Some c)"
  have "keeps (fz_heap s) cs ?h1 []" if "art_holds m (fz_heap s) a cs" for cs by (rule art_free [OF that])
  from one.left_freed [OF s0 this] obtain b1 where 1: "both (map_holds i) (both (vec_holds j) (both list_holds
     (both (pq_holds k) (both dq_holds str_holds)))) ?h1 (b, c, d, e, f, g) b1" "keeps (fz_heap s) bs ?h1 b1" by blast
  have "keeps ?h1 cs ?h2 []" if "map_holds i ?h1 b cs" for cs by (rule map_free [OF that])
  from two.left_freed [OF 1(1) this] obtain b2 where 2: "both (vec_holds j) (both list_holds
     (both (pq_holds k) (both dq_holds str_holds))) ?h2 (c, d, e, f, g) b2" "keeps ?h1 b1 ?h2 b2" by blast
  have "keeps ?h2 cs ?h3 []" if "vec_holds j ?h2 c cs" for cs by (rule vec_free [OF that])
  from three.left_freed [OF 2(1) this] obtain b3 where 3: "both list_holds
     (both (pq_holds k) (both dq_holds str_holds)) ?h3 (d, e, f, g) b3" "keeps ?h2 b2 ?h3 b3" by blast
  from 3(1) obtain ds where "list_holds ?h3 d ds" by (rule bothE)
  from list_free [OF this] obtain h4 where h4: "cdsa_free_skiplist ?h3 (Some d) = Some h4" by blast
  have "keeps ?h3 cs h4 []" if "list_holds ?h3 d cs" for cs using list_free [OF that] h4 by simp
  from four.left_freed [OF 3(1) this] obtain b4 where 4: "both (pq_holds k) (both dq_holds str_holds) h4 (e, f, g) b4"
    "keeps ?h3 b3 h4 b4" by blast
  let ?h5 = "cdsa_free_pq h4 (Some e)"
  let ?h6 = "cdsa_free_deque ?h5 (Some f)"
  have "keeps h4 cs ?h5 []" if "pq_holds k h4 e cs" for cs by (rule pq_free [OF that])
  from five.left_freed [OF 4(1) this] obtain b5 where 5: "both dq_holds str_holds ?h5 (f, g) b5" "keeps h4 b4 ?h5 b5"
    by blast
  have "keeps ?h5 cs ?h6 []" if "dq_holds ?h5 f cs" for cs by (rule dq_free [OF that])
  from six.left_freed [OF 5(1) this] obtain b6 where 6: "str_holds ?h6 g b6" "keeps ?h5 b5 ?h6 b6" by blast
  have "fuzz_teardown s = Some (cdsa_free_kstring ?h6 (Some g))" using st h4 by (simp add: fuzz_teardown_def Let_def)
  then show ?thesis
    using keeps_trans [OF 1(2) keeps_trans [OF 2(2) keeps_trans [OF 3(2) keeps_trans [OF 4(2) keeps_trans [OF 5(2)
      keeps_trans [OF 6(2) str_free [OF 6(1)]]]]]]] by blast
qed

section \<open>Property\<close>

text \<open>
  C6: the seven containers do not disturb each other: on a heap where libc refuses nothing, a run of
  the fuzzer returns whatever \<open>rand\<close> draws, no call touches memory it does not own, all blocks come back,
  and the program reports success if no memory was in use before.  The calls the run makes on the radix
  tree must be among those it can take (at most 1024 keys, as in the map property of the tree).
\<close>

theorem fuzzer_gives_back_memory:
  assumes "heap_ok h" and "never_refuses h" and "\<not> fault h" and "\<forall>n. rand n < 2 ^ 31"
    and "generate_chaos_keys rand 0 = (keys, n)" and "calls_fit Map.empty (fuzz_calls rand keys FUZZ_OPS n)"
  shows "\<exists>h'. fuzz_main rand h = Some (h', mem_used h = 0) \<and> live h' = live h \<and> mem_used h' = mem_used h \<and> \<not> fault h'"
proof -
  have calm: "calm h" using assms(1-3) by (simp add: calm_def)
  from fuzz_setup_ok [OF calm, of n] obtain bs where s: "fuzz_ok FUZZ_OPS FUZZ_OPS FUZZ_OPS Map.empty (fuzz_setup h n) bs"
    "keeps h [] (fz_heap (fuzz_setup h n)) bs" "fz_draws (fuzz_setup h n) = n" by blast
  have keys: "pool_ok keys" using pool_generated [of rand 0] assms(5) by simp
  from fuzz_rounds_ok [OF s(1) keys assms(4)] assms(6) s(3) obtain s' m' bs' where
    r: "fuzz_rounds rand keys FUZZ_OPS (fuzz_setup h n) = Some s'" "fuzz_ok 0 0 0 m' s' bs'"
      "keeps (fz_heap (fuzz_setup h n)) bs (fz_heap s') bs'" by auto
  from fuzz_teardown_ok [OF r(2)] obtain h' where t: "fuzz_teardown s' = Some h'" "keeps (fz_heap s') bs' h' []" by blast
  note k = keeps_trans [OF s(2) keeps_trans [OF r(3) t(2)]]
  have live: "live h' = live h" using keepsD(3) [OF k] by simp
  then have mem: "mem_used h' = mem_used h" using mem_used_live [OF assms(1) calmD(1) [OF keepsD(1) [OF k]]] by simp
  then have "fuzz_main rand h = Some (h', mem_used h = 0)" using assms(5) r(1) t(1) by (simp add: fuzz_main_def)
  then show ?thesis using live mem calmD(3) [OF keepsD(1) [OF k]] by simp
qed

text \<open>A run in which every draw is 0 inserts the same key again and again.\<close>

lemma same_key_fits:
  assumes "dom m \<subseteq> {k}" and "0 \<notin> set k" and "length k < 2 ^ 31"
  shows "calls_fit m (replicate i (ArtInsert k v))"
  using assms(1)
proof (induction i arbitrary: m)
  case (Suc i)
  have d: "dom (m(k \<mapsto> v)) = {k}" using Suc.prems by auto
  then have "calls_fit (m(k \<mapsto> v)) (replicate i (ArtInsert k v))" by (intro Suc.IH) (simp only: subset_refl)
  then show ?case
    unfolding replicate_Suc calls_fit.simps call_fits.simps map_step.simps fst_conv d using assms(2,3) by simp
qed simp

lemma zero_draws: "fuzz_calls (\<lambda>_. 0) keys i n = replicate i (ArtInsert (keys ! 0) None)"
  by (induction i arbitrary: n) (simp_all add: Let_def int_pointer_def)

theorem fuzzer_gives_back_memory_witness:
  "\<exists>h'. fuzz_main (\<lambda>_. 0) good_heap = Some (h', True) \<and> live h' = [] \<and> \<not> fault h'"
proof -
  obtain keys n where g: "generate_chaos_keys (\<lambda>_. 0) 0 = (keys, n)" by fastforce
  have "pool_ok keys" using pool_generated [of "\<lambda>_. 0" 0] g by simp
  then have "0 \<notin> set (keys ! 0)" "length (keys ! 0) < 2 ^ 31" using pool_key [of keys 0] by (simp_all add: KEY_POOL_SIZE_def)
  then have "calls_fit Map.empty (fuzz_calls (\<lambda>_. 0) keys FUZZ_OPS n)"
    unfolding zero_draws by (intro same_key_fits) simp_all
  from fuzzer_gives_back_memory [OF _ _ _ _ g this, of good_heap] show ?thesis by auto
qed

end
