(* ===== verification/Spec2Isabelle.thy ===== *)
theory Spec2Isabelle
  imports Status Tracking_Heap Kpool Arena Interfaces Vector Stack RingBuffer Queue Deque
    Binary_Heap PriorityQueue HashMap Robin_Hood KString LinkedList SkipList Skip_Levels Skip_Refinement Skip_NaN
    Art Art_Nodes Art_Morph Art_Tree Art_Env Art_Insert Art_Delete Art_Life Art_Refinement Art_Iterator Art_Errors
    Fuzzer Tenants Fuzzer_Tenants Fuzzer_Suite
begin

text \<open>
  A verification of CDSA, a C library of generic containers over a memory-tracking allocator
  (\<^verbatim>\<open>src/\<close> and \<^verbatim>\<open>include/CDSA/\<close>).

  \<^bold>\<open>The parts and how they interact.\<close>
  Everything rests on the tracking allocator of \<^verbatim>\<open>src/allocator.c\<close>, which puts a size header before each
  block and counts the bytes in use; the same file has two allocators on top of it, the block pool
  \<open>kpool\<close> and the bump allocator \<open>arena\<close>.  The vector carries the stack and the priority queue; the ring
  buffer carries the queue and the deque; the radix tree takes its nodes from five pools and its keys
  from the allocator; hash map, linked list, skip list and string use the allocator directly.  The
  containers with a version counter have iterators that stop working after a mutation.  The fuzzer of
  \<^verbatim>\<open>bench/bench_fuzzer.c\<close> drives seven containers at once on one allocator.

  \<^bold>\<open>Which theory models what.\<close>
  \<^item> \<open>Prelude\<close>: \<open>size_t\<close> as a 64-bit word and its \<open>unat\<close> rules, byte buffers with \<open>memcpy\<close>, arrays of cells in
    a buffer, chains of pointers; \<open>Interfaces\<close>: the contracts as locales (fail-fast iterator, growing and
    indexed array, bounded queue and deque, all-or-nothing calls).  Each locale is interpreted on the
    model of the code in the theory of the component that provides it.
  \<^item> \<open>Status\<close>: \<^verbatim>\<open>error.h\<close>, \<^verbatim>\<open>error.c\<close>.  The return codes, their values and messages.
  \<^item> \<open>Tracking_Heap\<close>, \<open>Kpool\<close>, \<open>Arena\<close>: \<^verbatim>\<open>allocator.c\<close>.  The heap is a record of the live blocks with their
    headers and the byte counter; the free list of a pool lives in the memory of its slab.
  \<^item> \<open>Vector\<close>, \<open>Stack\<close>: \<^verbatim>\<open>vector.c\<close>, \<^verbatim>\<open>stack.c\<close>.  The record of the struct and the bytes of its data block.
  \<^item> \<open>RingBuffer\<close>, \<open>Queue\<close>, \<open>Deque\<close>: \<^verbatim>\<open>ringbuffer.c\<close>, \<^verbatim>\<open>queue.c\<close>, \<^verbatim>\<open>deque.c\<close>.  As for the vector, with head and tail.
  \<^item> \<open>Binary_Heap\<close>, \<open>PriorityQueue\<close>: \<^verbatim>\<open>priority_queue.c\<close>.  Sifting on lists as the specification; the loops of the
    code on the bytes of the vector refine it.
  \<^item> \<open>HashMap\<close>, \<open>Robin_Hood\<close>: \<^verbatim>\<open>hashmap.c\<close>.  The table as an array of entries; its loops as partial functions; the
    Robin Hood invariant (probe lengths are distances, and rise by at most one along the table).
  \<^item> \<open>KString\<close>: \<^verbatim>\<open>kstring.c\<close>.
  \<^item> \<open>LinkedList\<close>: \<^verbatim>\<open>linkedlist.c\<close>.  Nodes and payloads are blocks of the heap; a list is a chain through them.
  \<^item> \<open>SkipList\<close>, \<open>Skip_Levels\<close>, \<open>Skip_Refinement\<close>: \<^verbatim>\<open>skiplist.c\<close>.  Nodes with arrays of forward pointers; the
    invariant that level \<open>i\<close> is the chain of the nodes higher than \<open>i\<close>; the sorted list they stand for.
    \<open>Skip_NaN\<close>: the list after a score that is not a number.
  \<^item> \<open>Art\<close>: \<^verbatim>\<open>art.c\<close>.  The four node layouts and the leaf as a \<open>datatype\<close> whose values carry the block they
    lie in; one function per function of the code, and one per branch of the insertion.  Around it
    \<open>Art_Nodes\<close> (a node is a map from bytes to children), \<open>Art_Morph\<close> (growing and shrinking keep that map),
    \<open>Art_Tree\<close> (well-formed trees, their entries, search, first leaf), \<open>Art_Env\<close> (which blocks of the pools
    and of the heap a tree holds), \<open>Art_Insert\<close>, \<open>Art_Delete\<close>, \<open>Art_Life\<close> (creation and release),
    \<open>Art_Refinement\<close> (runs against a finite map), \<open>Art_Iterator\<close> (the walk) and \<open>Art_Errors\<close>.
  \<^item> \<open>Fuzzer\<close>: \<^verbatim>\<open>bench_fuzzer.c\<close>, its variables as a record and its rounds as functions of the draws.  Around it
    \<open>Tenants\<close> (containers that share one heap: what a call of one leaves of the others),
    \<open>Fuzzer_Tenants\<close> (each of the seven is such a tenant) and \<open>Fuzzer_Suite\<close> (the whole run).

  \<^bold>\<open>What the lemmas show.\<close>
  For each component: the invariant of its representation and that every operation keeps it; what an
  operation answers on every branch, errors included; that a run of calls from creation to release
  refines an abstract container (list, bounded list, map, multiset, sorted list, text), without an access
  outside its blocks and giving back every block; that the client's loop over an iterator, which nothing
  but \<open>has_next\<close> ends, does end and yields what the container holds, and that the iterator fails fast.  The allocator's counter is the sum of the sizes of the live blocks; a pool
  hands out aligned disjoint blocks; the fuzzer gives back all memory.  Where the code goes wrong a theorem states how: the vector and the
  string after a failed growth, sizes that wrap in the pool and the arena, the hash map's lost keys, the
  priority queue's failed calls that changed it, a NaN score in the skip list, the radix tree's deletion
  of a key that ends inside a long prefix and the count of its largest node.

  \<^bold>\<open>Parameters.\<close>
  The allocator of libc (which requests it refuses, where blocks lie, what they contain), the draws
  of \<open>rand\<close>, and the comparison function of the priority queue, for which the properties assume that it
  gives a strict weak order (two such functions, those of the tests, are instances).  A runaway access sets
  the flag \<open>fault\<close> of the heap, which stays set; that runs do not set it is part of the properties.

  \<^bold>\<open>Loops and bounds.\<close>
  Loops that end by the shape of the data are recursive functions; those that need not end are
  \<open>partial_function\<close>s, for which the properties prove that they return under the invariant (for the
  doubling of the string's capacity, exactly when they do); so is \<open>drain\<close>, the loop over an iterator.  No fuel is used.  Bounds that appear as
  assumptions: sizes that fit \<open>size_t\<close> with the 8 bytes of the header; for range queries less than
  \<open>2 ^ 31\<close> nodes, as the count is an \<open>int\<close>; for the radix tree keys shorter than \<open>2 ^ 31\<close> (\<open>strlen\<close> is stored in
  an \<open>int\<close>), at most 1024 keys at a time (the blocks of each pool), no libc refusal, for deletions no prefix
  that goes on in more than 48 ways (beyond it the largest layout appears, whose count deletions do not
  lower) and, for keys that are absent, none that could end inside a prefix of more than ten bytes; for
  the walk keys of at most 510 bytes (its stack has 512 frames) and values that are not NULL.

  \<^bold>\<open>Not modelled.\<close>
  The tests and the timing benchmarks, which only call the library; build files; the output format
  of the printing functions (they are modelled as the sequence of items they print); appending a string to
  itself; concurrent use, which the library does not support.
\<close>

end
